(* ===== verification/Prelude.thy ===== *)
theory Prelude
  imports Main "HOL-Library.Word" "HOL-Library.Product_Lexorder"
begin

text \<open>
  Shared vocabulary of the development: the machine integers of the Rust source, byte
  buffers and their little- and big-endian readings, checked slicing and the result type of
  fallible operations.

  The crate is built with \<open>overflow-checks = true\<close> in every profile
  (\<open>Cargo.toml\<close>, \<open>[profile.release]\<close>), so an arithmetic overflow, an out-of-range slice or
  a failed \<open>expect\<close> is a panic. A panic is the value \<open>None\<close> of the model; a returned
  error is \<open>Inl\<close>, a returned value \<open>Inr\<close>.
\<close>

named_theorems byte_simps
named_theorems store_simps
named_theorems step_simps

type_synonym byte = "8 word"
type_synonym u32 = "32 word"
type_synonym i32 = "32 word"
type_synonym u64 = "64 word"
type_synonym i64 = "64 word"

text \<open>A z14 cell of the dirty queues.\<close>

type_synonym cell = "int \<times> int"

section \<open>Little-endian and big-endian byte strings\<close>

primrec le_bytes :: "nat \<Rightarrow> 'a::len word \<Rightarrow> byte list" where
  "le_bytes 0 w = []"
| "le_bytes (Suc n) w = ucast w # le_bytes n (drop_bit 8 w)"

primrec of_le_bytes :: "byte list \<Rightarrow> 'a::len word" where
  "of_le_bytes [] = 0"
| "of_le_bytes (b # bs) = or (ucast b) (push_bit 8 (of_le_bytes bs))"

definition be_bytes :: "nat \<Rightarrow> 'a::len word \<Rightarrow> byte list" where
  "be_bytes n w = rev (le_bytes n w)"

definition of_be_bytes :: "byte list \<Rightarrow> 'a::len word" where
  "of_be_bytes bs = of_le_bytes (rev bs)"

lemma length_le_bytes [simp]: "length (le_bytes n w) = n"
  by (induction n arbitrary: w) auto

lemma length_be_bytes [simp]: "length (be_bytes n w) = n"
  by (simp add: be_bytes_def)

lemma le_bytes_take: "of_le_bytes (le_bytes n w) = take_bit (8 * n) w"
proof (induction n arbitrary: w)
  case 0
  then show ?case by simp
next
  case (Suc n)
  show ?case
    by (rule bit_word_eqI)
      (auto simp: Suc bit_or_iff bit_push_bit_iff bit_take_bit_iff bit_drop_bit_eq
        bit_ucast_iff not_less)
qed

lemma of_le_bytes_le_bytes [byte_simps]:
  fixes w :: "'a::len word"
  assumes "LENGTH('a) \<le> 8 * n"
  shows "of_le_bytes (le_bytes n w) = w"
  using assms by (simp add: le_bytes_take take_bit_word_eq_self)

lemma le_bytes_cong:
  fixes v w :: "'a::len word"
  assumes "\<And>i. i < 8 * n \<Longrightarrow> bit v i = bit w i"
  shows "le_bytes n v = le_bytes n w"
  using assms
proof (induction n arbitrary: v w)
  case (Suc n)
  have "(ucast v :: byte) = ucast w"
    using Suc.prems by (intro bit_word_eqI) (simp add: bit_ucast_iff)
  moreover have "le_bytes n (drop_bit 8 v) = le_bytes n (drop_bit 8 w)"
    using Suc.prems by (intro Suc.IH) (simp add: bit_drop_bit_eq)
  ultimately show ?case by simp
qed simp

lemma le_bytes_of_le_bytes:
  assumes "8 * length bs \<le> LENGTH('a::len)"
  shows "le_bytes (length bs) (of_le_bytes bs :: 'a word) = bs"
  using assms
proof (induction bs)
  case (Cons b bs)
  let ?x = "of_le_bytes bs :: 'a word"
  have "(ucast (or (ucast b) (push_bit 8 ?x)) :: byte) = b"
    using Cons.prems by (intro bit_word_eqI) (auto simp: bit_ucast_iff bit_or_iff bit_push_bit_iff)
  moreover have "le_bytes (length bs) (drop_bit 8 (or (ucast b) (push_bit 8 ?x))) = le_bytes (length bs) ?x"
    using Cons.prems
    by (intro le_bytes_cong)
      (auto simp: bit_drop_bit_eq bit_or_iff bit_push_bit_iff bit_ucast_iff dest: bit_imp_le_length)
  ultimately show ?case using Cons by simp
qed simp
lemma of_be_bytes_be_bytes [byte_simps]:
  fixes w :: "'a::len word"
  assumes "LENGTH('a) \<le> 8 * n"
  shows "of_be_bytes (be_bytes n w) = w"
  using assms by (simp add: of_be_bytes_def be_bytes_def of_le_bytes_le_bytes)

lemma unat_drop_bit_div: "unat (drop_bit n w) = unat w div 2 ^ n" for w :: "'a::len word"
  by (simp only: unat_drop_bit_eq) (simp only: drop_bit_eq_div)

lemma take_bit_small: "unat v < 2 ^ n \<Longrightarrow> take_bit n v = v" for v :: "'a::len word"
  by (simp add: word_eq_iff_unsigned [where ?'a = nat] unsigned_take_bit_eq take_bit_nat_eq_self)

text \<open>The reading of a whole buffer as a number, used to compare keys.\<close>

primrec be_nat :: "byte list \<Rightarrow> nat" where
  "be_nat [] = 0"
| "be_nat (b # bs) = unat b * 256 ^ length bs + be_nat bs"

lemma be_nat_less: "be_nat bs < 256 ^ length bs"
proof (induction bs)
  case Nil
  then show ?case by simp
next
  case (Cons b bs)
  have "unat b + 1 \<le> 256" proof -
    have "unat b < 2 ^ LENGTH(8)" by (rule unsigned_less)
    then show ?thesis by simp
  qed
  then have "(unat b + 1) * 256 ^ length bs \<le> 256 * 256 ^ length bs"
    by (rule mult_right_mono) simp
  then have "unat b * 256 ^ length bs + 256 ^ length bs \<le> 256 * 256 ^ length bs"
    by (simp only: add_mult_distrib mult_1)
  with Cons have "unat b * 256 ^ length bs + be_nat bs < 256 * 256 ^ length bs" by linarith
  then show ?case by simp
qed

lemma be_nat_append: "be_nat (xs @ ys) = be_nat xs * 256 ^ length ys + be_nat ys"
  by (induction xs) (auto simp: algebra_simps power_add)

lemma be_nat_be_bytes:
  fixes w :: "'a::len word"
  shows "be_nat (be_bytes n w) = take_bit (8 * n) (unat w)"
proof (induction n arbitrary: w)
  case 0
  then show ?case by (simp add: be_bytes_def)
next
  case (Suc n)
  have u: "unat (ucast w :: byte) = take_bit 8 (unat w)"
    by (simp add: unsigned_ucast_eq take_bit_eq_mod)
  have d: "unat (drop_bit 8 w) = drop_bit 8 (unat w)"
    by (simp add: unat_drop_bit_eq)
  have "be_nat (be_bytes (Suc n) w)
      = take_bit (8 * n) (drop_bit 8 (unat w)) * 256 + take_bit 8 (unat w)"
    using Suc [of "drop_bit 8 w"] by (simp add: be_bytes_def be_nat_append u d)
  also have "\<dots> = take_bit (8 * Suc n) (unat w)"
    using take_bit_eq_mod [of 8 "unat w"]
    by (simp add: take_bit_eq_mod drop_bit_eq_div mod_mult2_eq power_add)
  finally show ?case .
qed

text \<open>Byte strings compare lexicographically, as \<open>Vec<u8>\<close> and RocksDB's default comparator do.\<close>

fun bytes_less :: "byte list \<Rightarrow> byte list \<Rightarrow> bool" where
  "bytes_less [] ys = (ys \<noteq> [])"
| "bytes_less (x # xs) [] = False"
| "bytes_less (x # xs) (y # ys) = (x < y \<or> x = y \<and> bytes_less xs ys)"

lemma bytes_less_be_nat:
  "length xs = length ys \<Longrightarrow> bytes_less xs ys \<longleftrightarrow> be_nat xs < be_nat ys"
proof (induction xs ys rule: bytes_less.induct)
  case (1 ys)
  then show ?case by simp
next
  case (2 x xs)
  then show ?case by simp
next
  case (3 x xs y ys)
  let ?m = "256 ^ length ys :: nat"
  have l: "length xs = length ys" using "3.prems" by simp
  have IH: "bytes_less xs ys \<longleftrightarrow> be_nat xs < be_nat ys"
    using "3.IH" l by simp
  have bx: "be_nat xs < ?m" and be: "be_nat ys < ?m"
    using be_nat_less [of xs] be_nat_less [of ys] l by simp_all
  have lt: "unat a * ?m + p < unat b * ?m + q" if "unat a < unat b" "p < ?m" for a b :: byte and p q
  proof -
    have "(unat a + 1) * ?m \<le> unat b * ?m" using that by (intro mult_right_mono) auto
    with that show ?thesis by simp
  qed
  consider "x < y" | "x = y" | "y < x" by (rule linorder_cases)
  then show ?case
  proof cases
    case 1
    then show ?thesis using lt [OF _ bx, of x y] l by (simp add: word_less_nat_alt)
  next
    case 2
    then show ?thesis using IH l by simp
  next
    case 3
    then have "\<not> x < y" "x \<noteq> y" by auto
    moreover have "unat y * ?m + be_nat ys < unat x * ?m + be_nat xs"
      using lt [OF _ be, of y x] 3 by (simp add: word_less_nat_alt)
    ultimately show ?thesis using l by simp
  qed
qed

section \<open>Checked slicing\<close>

text \<open>\<open>&bytes[a..b]\<close>: a panic when the range does not fit the buffer.\<close>

definition slice :: "'a list \<Rightarrow> nat \<Rightarrow> nat \<Rightarrow> 'a list option" where
  "slice xs a b = (if a \<le> b \<and> b \<le> length xs then Some (take (b - a) (drop a xs)) else None)"

definition nth_opt :: "'a list \<Rightarrow> nat \<Rightarrow> 'a option" where
  "nth_opt xs i = (if i < length xs then Some (xs ! i) else None)"

lemma slice_append_left: "slice (xs @ ys) (length xs) (length xs + n) = slice ys 0 n"
  by (simp add: slice_def)

lemma slice_shift: "slice (xs @ ys) (length xs + a) (length xs + b) = slice ys a b"
  by (auto simp: slice_def)

lemma slice_prefix: "slice (xs @ ys) 0 (length xs) = Some xs"
  by (simp add: slice_def)

lemma slice_length: "slice xs a b = Some ys \<Longrightarrow> length ys = b - a"
  by (auto simp: slice_def split: if_splits)

lemma nth_opt_append: "nth_opt (xs @ y # ys) (length xs) = Some y"
  by (simp add: nth_opt_def)

text \<open>A buffer made of blocks of one width: the \<open>i\<close>-th block is the \<open>i\<close>-th slice.\<close>

lemma length_concat_fixed: "(\<And>x. x \<in> set xs \<Longrightarrow> length (f x) = w) \<Longrightarrow> length (concat (map f xs)) = length xs * w"
  by (induction xs) auto

lemma length_concat_block:
  assumes "\<And>x. x \<in> set (take i xs) \<Longrightarrow> length (f x) = w" "i < length xs"
  shows "length (concat (map f (take i xs))) = i * w"
  using length_concat_fixed [of "take i xs" f w] assms by simp

lemma concat_block:
  assumes "\<And>x. x \<in> set xs \<Longrightarrow> length (f x) = w" "i < length xs"
  shows "\<exists>ys zs. concat (map f xs) = ys @ f (xs ! i) @ zs \<and> length ys = i * w"
proof -
  have xs: "xs = take i xs @ xs ! i # drop (Suc i) xs"
    using assms(2) by (rule id_take_nth_drop)
  have "length (concat (map f (take i xs))) = i * w"
    using assms by (intro length_concat_block) (auto dest: in_set_takeD)
  moreover have "concat (map f xs)
      = concat (map f (take i xs)) @ f (xs ! i) @ concat (map f (drop (Suc i) xs))"
    by (subst xs) simp
  ultimately show ?thesis by blast
qed

lemma slice_block:
  assumes "\<And>x. x \<in> set xs \<Longrightarrow> length (f x) = w" "i < length xs" "a \<le> b" "b \<le> w"
  shows "slice (pre @ concat (map f xs) @ post) (length pre + i * w + a) (length pre + i * w + b)
       = slice (f (xs ! i)) a b"
proof -
  obtain ys zs where c: "concat (map f xs) = ys @ f (xs ! i) @ zs" "length ys = i * w"
    using concat_block [of xs f w i] assms(1,2) by blast
  have l: "length (f (xs ! i)) = w" using assms(1,2) by simp
  have "slice ((pre @ ys) @ (f (xs ! i) @ zs @ post)) (length (pre @ ys) + a) (length (pre @ ys) + b)
      = slice (f (xs ! i) @ zs @ post) a b"
    by (rule slice_shift)
  also have "\<dots> = slice (f (xs ! i)) a b"
    using assms(3,4) l by (auto simp: slice_def)
  finally show ?thesis by (simp add: c add.assoc)
qed

lemma nth_opt_block:
  assumes "\<And>x. x \<in> set xs \<Longrightarrow> length (f x) = w" "i < length xs" "a < w"
  shows "nth_opt (pre @ concat (map f xs) @ post) (length pre + i * w + a) = Some (f (xs ! i) ! a)"
proof -
  obtain ys zs where c: "concat (map f xs) = ys @ f (xs ! i) @ zs" "length ys = i * w"
    using concat_block [of xs f w i] assms(1,2) by blast
  have l: "length (f (xs ! i)) = w" using assms(1,2) by simp
  then show ?thesis using assms(3) by (simp add: nth_opt_def c nth_append)
qed

section \<open>Fallible results\<close>

primrec bindR :: "'e + 'a \<Rightarrow> ('a \<Rightarrow> 'e + 'b) \<Rightarrow> 'e + 'b" where
  "bindR (Inl e) f = Inl e"
| "bindR (Inr x) f = f x"

fun mapM_opt :: "('a \<Rightarrow> 'b option) \<Rightarrow> 'a list \<Rightarrow> 'b list option" where
  "mapM_opt f [] = Some []"
| "mapM_opt f (x # xs) =
     (case f x of None \<Rightarrow> None
      | Some y \<Rightarrow> (case mapM_opt f xs of None \<Rightarrow> None | Some ys \<Rightarrow> Some (y # ys)))"

lemma bindR_Inr_iff: "bindR r f = Inr y \<longleftrightarrow> (\<exists>x. r = Inr x \<and> f x = Inr y)"
  by (cases r) auto

lemma mapM_opt_Some_iff: "(\<exists>ys. mapM_opt f xs = Some ys) \<longleftrightarrow> (\<forall>x\<in>set xs. f x \<noteq> None)"
  by (induction xs) (auto split: option.splits)

lemma mapM_opt_None_iff: "mapM_opt f xs = None \<longleftrightarrow> (\<exists>x\<in>set xs. f x = None)"
  by (induction xs) (auto split: option.splits)

lemma mapM_opt_total: "(\<And>x. x \<in> set xs \<Longrightarrow> f x = Some (g x)) \<Longrightarrow> mapM_opt f xs = Some (map g xs)"
  by (induction xs) auto

lemma mapM_opt_cong: "(\<And>x. x \<in> set xs \<Longrightarrow> f x = g x) \<Longrightarrow> mapM_opt f xs = mapM_opt g xs"
  by (induction xs) (auto split: option.splits)

lemma mapM_opt_upt:
  "(\<And>i. i < length xs \<Longrightarrow> f i = Some (xs ! i)) \<Longrightarrow> mapM_opt f [0..<length xs] = Some xs"
  using mapM_opt_total [of "[0..<length xs]" f "\<lambda>i. xs ! i"] by (simp add: map_nth)

section \<open>Codecs\<close>

text \<open>
  The interface between a value layout and the store that keeps it: what was encoded is what
  is decoded, for the values the layout can hold.
\<close>

locale codec =
  fixes enc :: "'v \<Rightarrow> byte list"
    and dec :: "byte list \<Rightarrow> 'v option"
    and fits :: "'v \<Rightarrow> bool"
  assumes dec_enc: "fits v \<Longrightarrow> dec (enc v) = Some v"
begin

lemma enc_inj: "fits v \<Longrightarrow> fits w \<Longrightarrow> enc v = enc w \<Longrightarrow> v = w"
  by (metis dec_enc option.inject)

lemma enc_inj_on: "inj_on enc {v. fits v}"
  by (auto intro: inj_onI enc_inj)

end

section \<open>Lists\<close>

text \<open>\<open>Vec::retain(|x| x != v)\<close> is \<open>removeAll\<close>; the push of an absent id is below.\<close>

definition push_absent :: "'a \<Rightarrow> 'a list \<Rightarrow> 'a list" where
  "push_absent x xs = (if x \<in> set xs then xs else xs @ [x])"

lemma set_push_absent [simp]: "set (push_absent x xs) = insert x (set xs)"
  by (auto simp: push_absent_def)

lemma push_absent_idem [simp]: "push_absent x (push_absent x xs) = push_absent x xs"
  by (simp add: push_absent_def)

lemma distinct_push_absent: "distinct xs \<Longrightarrow> distinct (push_absent x xs)"
  by (simp add: push_absent_def)

lemma removeAll_push_absent: "removeAll x (push_absent x xs) = removeAll x xs"
  by (simp add: push_absent_def)

lemma push_absent_removeAll: "push_absent x (removeAll x xs) = removeAll x xs @ [x]"
  by (simp add: push_absent_def)

text \<open>\<open>slice::chunks(n)\<close> for \<open>n > 0\<close>.\<close>

function chunks :: "nat \<Rightarrow> 'a list \<Rightarrow> 'a list list" where
  "chunks n xs = (if n = 0 \<or> xs = [] then [] else take n xs # chunks n (drop n xs))"
  by pat_completeness auto
termination
  by (relation "measure (\<lambda>(n, xs). length xs)") auto

declare chunks.simps [simp del]

lemma chunks_Nil [simp]: "chunks n [] = []"
  by (subst chunks.simps) simp

lemma concat_chunks: "0 < n \<Longrightarrow> concat (chunks n xs) = xs"
proof (induction n xs rule: chunks.induct)
  case (1 n xs)
  then show ?case
    by (cases "xs = []") (simp, subst chunks.simps, simp)
qed

lemma chunks_length: "ys \<in> set (chunks n xs) \<Longrightarrow> ys \<noteq> [] \<and> length ys \<le> n"
proof (induction n xs rule: chunks.induct)
  case (1 n xs)
  from "1.prems" have ne: "n \<noteq> 0" "xs \<noteq> []"
    by (subst (asm) chunks.simps, simp split: if_splits)+
  then have "chunks n xs = take n xs # chunks n (drop n xs)"
    by (subst chunks.simps) simp
  with "1.prems" ne "1.IH" show ?case by auto
qed

section \<open>Checked arithmetic\<close>

text \<open>\<open>u64\<close> values as \<open>nat\<close>: an addition or subtraction out of range panics.\<close>

definition add_u64 :: "nat \<Rightarrow> nat \<Rightarrow> nat option" where
  "add_u64 a b = (if a + b < 2 ^ 64 then Some (a + b) else None)"

definition sub_u64 :: "nat \<Rightarrow> nat \<Rightarrow> nat option" where
  "sub_u64 a b = (if b \<le> a then Some (a - b) else None)"

end
