(* ===== verification/Float64.thy ===== *)
theory Float64
  imports Complex_Main Prelude "HOL-Library.Log_Nat"
begin

text \<open>
  Rust's \<open>f64\<close> as far as the code uses it: a binary64 value is a rational, an infinity or
  NaN; the arithmetic operations round the exact result to nearest, ties to even, with
  gradual underflow and overflow to infinity. The sign of zero is not represented: no value
  computed from it differs in the functions modelled. Everything is executable.
\<close>

datatype f64 = Fin rat | Inf bool | NaN

section \<open>Exponents\<close>

text \<open>The binary exponent of a positive rational: \<open>2 ^ ilog2 x \<le> x < 2 ^ (ilog2 x + 1)\<close>.\<close>

definition pow2 :: "int \<Rightarrow> rat" where
  "pow2 e = (if 0 \<le> e then 2 ^ nat e else 1 / 2 ^ nat (- e))"

definition ilog2 :: "rat \<Rightarrow> int" where
  "ilog2 x = (let (p, q) = quotient_of x; e = bitlen p - bitlen q
     in if pow2 e \<le> x then e else e - 1)"

lemma pow2_powi: "pow2 e = 2 powi e"
proof (cases "0 \<le> e")
  case True
  then show ?thesis by (simp only: pow2_def power_int_def if_True)
next
  case False
  then have "(2::rat) powi e = inverse 2 ^ nat (- e)"
    by (simp only: power_int_def if_False)
  also have "\<dots> = 1 / 2 ^ nat (- e)"
    by (simp only: inverse_eq_divide power_one_over)
  finally show ?thesis using False by (simp only: pow2_def if_False)
qed

lemma pow2_pos [simp]: "0 < pow2 e"
  by (simp add: pow2_powi)

lemma pow2_add: "pow2 (a + b) = pow2 a * pow2 b"
  by (simp add: pow2_powi power_int_add)

lemma pow2_nat [simp]: "pow2 (int n) = 2 ^ n"
  by (simp add: pow2_def)

lemma pow2_mono: "a \<le> b \<Longrightarrow> pow2 a \<le> pow2 b"
  by (simp add: pow2_powi power_int_increasing)

lemma pow2_less_iff: "pow2 a < pow2 b \<longleftrightarrow> a < b"
proof -
  have "a < b \<Longrightarrow> pow2 a < pow2 b"
    by (simp add: pow2_powi power_int_strict_increasing)
  moreover have "b \<le> a \<Longrightarrow> \<not> pow2 a < pow2 b"
    using pow2_mono [of b a] by simp
  ultimately show ?thesis by linarith
qed

lemma bitlen_rat_bounds:
  assumes "0 < p"
  shows "pow2 (bitlen p - 1) \<le> of_int p \<and> (of_int p :: rat) < pow2 (bitlen p)"
proof -
  have b: "2 ^ nat (bitlen p - 1) \<le> p" "p < 2 ^ nat (bitlen p)"
    using bitlen_bounds [OF assms] by auto
  have g: "1 \<le> bitlen p" using assms by (simp add: bitlen_ge_iff_power)
  have 1: "(of_int (2 ^ nat (bitlen p - 1)) :: rat) \<le> of_int p"
    using b(1) by (simp only: of_int_le_iff)
  have 2: "(of_int p :: rat) < of_int (2 ^ nat (bitlen p))"
    using b(2) by (simp only: of_int_less_iff)
  from 1 2 g show ?thesis by (simp add: pow2_def)
qed

lemma ilog2_bounds:
  assumes "0 < x"
  shows "pow2 (ilog2 x) \<le> x \<and> x < pow2 (ilog2 x + 1)"
proof -
  obtain p q where pq: "quotient_of x = (p, q)" by (cases "quotient_of x") auto
  have q: "0 < q" using quotient_of_denom_pos [OF pq] .
  have x: "x = of_int p / of_int q" using quotient_of_div [OF pq] .
  with assms q have p: "0 < p" by (simp add: zero_less_divide_iff)
  define a b where "a = bitlen p" and "b = bitlen q"
  note P = bitlen_rat_bounds [OF p, folded a_def]
  note Q = bitlen_rat_bounds [OF q, folded b_def]
  have rq: "(0::rat) < of_int q" using q by simp
  have hi: "x < pow2 (a - b + 1)"
  proof -
    have "(of_int p :: rat) < pow2 (a - b + 1) * pow2 (b - 1)"
      using P by (simp add: pow2_add [symmetric])
    also have "\<dots> \<le> pow2 (a - b + 1) * of_int q"
      using Q by (intro mult_left_mono) (auto intro: less_imp_le)
    finally show ?thesis using rq by (simp add: x divide_less_eq)
  qed
  have lo: "pow2 (a - b - 1) \<le> x"
  proof -
    have "pow2 (a - b - 1) * of_int q \<le> pow2 (a - b - 1) * pow2 b"
      using Q by (intro mult_left_mono) (auto intro: less_imp_le)
    also have "\<dots> = pow2 (a - 1)" by (simp add: pow2_add [symmetric])
    also have "\<dots> \<le> of_int p" using P by simp
    finally show ?thesis using rq by (simp add: x le_divide_eq)
  qed
  from hi lo show ?thesis
    by (auto simp: ilog2_def pq a_def b_def Let_def)
qed

lemma ilog2_unique:
  assumes "pow2 e \<le> x" "x < pow2 (e + 1)"
  shows "ilog2 x = e"
proof -
  have "0 < x" using assms(1) pow2_pos [of e] by linarith
  note B = ilog2_bounds [OF this]
  have "pow2 e < pow2 (ilog2 x + 1)" "pow2 (ilog2 x) < pow2 (e + 1)"
    using assms B by linarith+
  then show ?thesis by (simp add: pow2_less_iff)
qed

section \<open>Rounding\<close>

text \<open>Nearest integer, ties to even.\<close>

definition rne :: "rat \<Rightarrow> int" where
  "rne x = (let f = \<lfloor>x\<rfloor>; d = x - of_int f
     in if d < 1 / 2 then f else if 1 / 2 < d then f + 1 else if even f then f else f + 1)"

lemma rne_err: "\<bar>of_int (rne x) - x\<bar> \<le> 1 / 2"
proof -
  have "of_int \<lfloor>x\<rfloor> \<le> x" "x < of_int \<lfloor>x\<rfloor> + 1" by linarith+
  then show ?thesis by (auto simp: rne_def Let_def abs_le_iff)
qed

lemma rne_int [simp]: "rne (of_int z) = z"
  by (simp add: rne_def)

text \<open>The unit in the last place of a magnitude: 53 significant bits, never below
  \<open>2 ^ -1074\<close>.\<close>

definition ulp_exp :: "rat \<Rightarrow> int" where
  "ulp_exp x = max (ilog2 \<bar>x\<bar> - 52) (- 1074)"

definition round53 :: "rat \<Rightarrow> rat" where
  "round53 x = (if x = 0 then 0
     else of_int (rne (x / pow2 (ulp_exp x))) * pow2 (ulp_exp x))"

definition f64_of_rat :: "rat \<Rightarrow> f64" where
  "f64_of_rat x = (let r = round53 x
     in if 2 ^ 1024 \<le> \<bar>r\<bar> then Inf (r < 0) else Fin r)"

lemma round53_err:
  assumes "x \<noteq> 0"
  shows "\<bar>round53 x - x\<bar> \<le> pow2 (ulp_exp x) / 2"
proof -
  let ?u = "pow2 (ulp_exp x)"
  have u: "0 < ?u" by simp
  then have "?u \<noteq> 0" by linarith
  then have "round53 x - x = (of_int (rne (x / ?u)) - x / ?u) * ?u"
    using assms by (simp add: round53_def left_diff_distrib)
  then have "\<bar>round53 x - x\<bar> = \<bar>of_int (rne (x / ?u)) - x / ?u\<bar> * ?u"
    using u by (simp only: abs_mult abs_of_pos)
  also have "\<dots> \<le> 1 / 2 * ?u"
    using rne_err [of "x / ?u"] u by (intro mult_right_mono) linarith+
  finally show ?thesis by simp
qed

text \<open>Relative error \<open>2 ^ -53\<close> in the normal range.\<close>

lemma round53_rel_err:
  assumes "pow2 (-1022) \<le> \<bar>x\<bar>"
  shows "\<bar>round53 x - x\<bar> \<le> \<bar>x\<bar> / 2 ^ 53"
proof -
  have "0 < \<bar>x\<bar>" using assms pow2_pos [of "-1022"] by linarith
  then have x0: "x \<noteq> 0" by simp
  note B = ilog2_bounds [of "\<bar>x\<bar>"]
  have "pow2 (-1022) < pow2 (ilog2 \<bar>x\<bar> + 1)"
    using assms B x0 by auto
  then have e: "ulp_exp x = ilog2 \<bar>x\<bar> - 52"
    by (simp add: pow2_less_iff ulp_exp_def)
  have "pow2 (ilog2 \<bar>x\<bar>) = pow2 (ulp_exp x) * pow2 52"
    by (simp add: e pow2_add [symmetric])
  moreover have "pow2 52 = (2 ^ 52 :: rat)" using pow2_nat [of 52] by simp
  ultimately have "pow2 (ulp_exp x) / 2 = pow2 (ilog2 \<bar>x\<bar>) / 2 ^ 53"
    by simp
  also have "\<dots> \<le> \<bar>x\<bar> / 2 ^ 53"
    using B x0 by (intro divide_right_mono) auto
  finally show ?thesis using round53_err [OF x0] by linarith
qed

text \<open>Values that already have 53 significant bits are fixed: integers below \<open>2 ^ 53\<close>.\<close>

lemma round53_int:
  assumes "\<bar>z\<bar> < 2 ^ 53"
  shows "round53 (of_int z) = of_int z"
proof (cases "z = 0")
  case True
  then show ?thesis by (simp add: round53_def)
next
  case False
  let ?x = "of_int z :: rat"
  have "1 \<le> \<bar>?x\<bar>" using False by (simp add: of_int_abs [symmetric] del: of_int_abs)
  have lt: "\<bar>?x\<bar> < pow2 53"
  proof -
    have "(of_int \<bar>z\<bar> :: rat) < of_int (2 ^ 53)"
      using assms by (simp only: of_int_less_iff)
    then show ?thesis using pow2_nat [of 53] by simp
  qed
  note B = ilog2_bounds [of "\<bar>?x\<bar>"]
  have "pow2 (ilog2 \<bar>?x\<bar>) < pow2 53" using B lt False by auto
  then have le: "ilog2 \<bar>?x\<bar> \<le> 52" by (simp add: pow2_less_iff)
  define e where "e = ulp_exp ?x"
  have e0: "e \<le> 0" using le by (simp add: ulp_exp_def e_def)
  then have "pow2 e = 1 / 2 ^ nat (- e)" by (auto simp: pow2_def)
  then have "?x / pow2 e = of_int (z * 2 ^ nat (- e))" by simp
  then have "round53 ?x = of_int (z * 2 ^ nat (- e)) * pow2 e"
    using False by (simp only: round53_def e_def [symmetric] rne_int) simp
  also have "\<dots> = ?x" using \<open>pow2 e = 1 / 2 ^ nat (- e)\<close> by simp
  finally show ?thesis .
qed

section \<open>Arithmetic and conversions\<close>

fun f64_mul :: "f64 \<Rightarrow> f64 \<Rightarrow> f64" where
  "f64_mul (Fin a) (Fin b) = f64_of_rat (a * b)"
| "f64_mul (Inf s) (Fin b) = (if b = 0 then NaN else Inf (s \<noteq> (b < 0)))"
| "f64_mul (Fin a) (Inf s) = (if a = 0 then NaN else Inf (s \<noteq> (a < 0)))"
| "f64_mul (Inf s) (Inf t) = Inf (s \<noteq> t)"
| "f64_mul _ _ = NaN"

text \<open>Division by a non-zero finite constant, the only division modelled.\<close>

fun f64_div_fin :: "f64 \<Rightarrow> rat \<Rightarrow> f64" where
  "f64_div_fin (Fin a) b = f64_of_rat (a / b)"
| "f64_div_fin (Inf s) b = Inf (s \<noteq> (b < 0))"
| "f64_div_fin NaN b = NaN"

text \<open>\<open>f64::round\<close>: nearest integer, ties away from zero (exact in \<open>f64\<close>).\<close>

definition round_away :: "rat \<Rightarrow> int" where
  "round_away x = (if 0 \<le> x then \<lfloor>x + 1 / 2\<rfloor> else - \<lfloor>- x + 1 / 2\<rfloor>)"

fun f64_round :: "f64 \<Rightarrow> f64" where
  "f64_round (Fin x) = Fin (of_int (round_away x))"
| "f64_round y = y"

text \<open>\<open>as i32\<close>: truncation, saturating at the ends of the type, NaN to 0.\<close>

definition trunc_rat :: "rat \<Rightarrow> int" where
  "trunc_rat x = (if 0 \<le> x then \<lfloor>x\<rfloor> else - \<lfloor>- x\<rfloor>)"

fun f64_as_i32 :: "f64 \<Rightarrow> i32" where
  "f64_as_i32 (Fin x) = word_of_int (max (- 2147483648) (min 2147483647 (trunc_rat x)))"
| "f64_as_i32 (Inf s) = word_of_int (if s then - 2147483648 else 2147483647)"
| "f64_as_i32 NaN = 0"

definition f64_of_i32 :: "i32 \<Rightarrow> f64" where
  "f64_of_i32 v = Fin (of_int (sint v))"

lemma round_away_near: "\<bar>x - of_int z\<bar> < 1 / 2 \<Longrightarrow> round_away x = z"
proof (cases "0 \<le> x")
  case True
  assume "\<bar>x - of_int z\<bar> < 1 / 2"
  then have "\<lfloor>x + 1 / 2\<rfloor> = z" by (intro floor_unique) linarith+
  with True show ?thesis by (simp add: round_away_def)
next
  case False
  assume "\<bar>x - of_int z\<bar> < 1 / 2"
  then have "x - of_int z < 1 / 2" "of_int z - x < 1 / 2" by linarith+
  then have "\<lfloor>- x + 1 / 2\<rfloor> = - z" by (intro floor_unique) simp_all
  with False show ?thesis by (simp add: round_away_def)
qed

lemma trunc_rat_int [simp]: "trunc_rat (of_int z) = z"
  by (simp add: trunc_rat_def)

section \<open>The bit pattern\<close>

text \<open>\<open>f64::to_bits\<close> for zero and for normal values.\<close>

definition f64_bits :: "rat \<Rightarrow> u64" where
  "f64_bits x = (if x = 0 then 0 else
     let e = ilog2 \<bar>x\<bar>;
         m = \<lfloor>\<bar>x\<bar> * pow2 (52 - e)\<rfloor>
     in word_of_int ((if x < 0 then 2 ^ 63 else 0) + (e + 1023) * 2 ^ 52 + (m - 2 ^ 52)))"

fun f64_to_bits :: "f64 \<Rightarrow> u64" where
  "f64_to_bits (Fin x) = f64_bits x"
| "f64_to_bits (Inf s) = (if s then 0xFFF0000000000000 else 0x7FF0000000000000)"
| "f64_to_bits NaN = 0x7FF8000000000000"

end
