(* ===== verification/Encoding.thy ===== *)
theory Encoding
  imports Float64
begin

unbundle bit_operations_syntax

text \<open>
  \<open>src/osm/encoding.rs\<close>: the binary keys and values of the node, way and relation
  store. Encoders return byte lists; decoders return \<open>None\<close> where the Rust code panics (a
  slice out of range, a shift by 64 or more, a vector too large to allocate).
\<close>

definition NODE_BYTE_LEN :: nat where "NODE_BYTE_LEN = 8"
definition WKB_COORD_BYTE_LEN :: nat where "WKB_COORD_BYTE_LEN = 16"
definition COORD_SCALE :: rat where "COORD_SCALE = 10000000"

section \<open>Keys\<close>

definition encode_key :: "i64 \<Rightarrow> byte list" where
  "encode_key k = be_bytes 8 k"

definition decode_key :: "byte list \<Rightarrow> i64 option" where
  "decode_key bs = (if length bs = 8 then Some (of_be_bytes bs) else None)"

section \<open>Coordinates\<close>

definition f64_to_decimicro :: "f64 \<Rightarrow> i32" where
  "f64_to_decimicro v = f64_as_i32 (f64_round (f64_mul v (Fin COORD_SCALE)))"

definition decimicro_to_f64 :: "i32 \<Rightarrow> f64" where
  "decimicro_to_f64 v = f64_div_fin (f64_of_i32 v) COORD_SCALE"

definition encode_node :: "i32 \<Rightarrow> i32 \<Rightarrow> byte list" where
  "encode_node lon_dm lat_dm = le_bytes 4 lon_dm @ le_bytes 4 lat_dm"

definition decode_node :: "byte list \<Rightarrow> (i32 \<times> i32) option" where
  "decode_node bs =
     (case slice bs 0 4 of None \<Rightarrow> None
      | Some lon \<Rightarrow> (case slice bs 4 8 of None \<Rightarrow> None
         | Some lat \<Rightarrow> Some (of_le_bytes lon, of_le_bytes lat)))"

definition push_wkb_coords :: "byte list \<Rightarrow> byte list \<Rightarrow> byte list option" where
  "push_wkb_coords out v =
     (case decode_node v of None \<Rightarrow> None
      | Some (lon_dm, lat_dm) \<Rightarrow>
          Some (out @ le_bytes 8 (f64_to_bits (decimicro_to_f64 lon_dm))
                    @ le_bytes 8 (f64_to_bits (decimicro_to_f64 lat_dm))))"

section \<open>Variable-length integers\<close>

function put_uvarint :: "byte list \<Rightarrow> u64 \<Rightarrow> byte list" where
  "put_uvarint buf v =
     (if 0x80 \<le> v then put_uvarint (buf @ [ucast v OR 0x80]) (drop_bit 7 v)
      else buf @ [ucast v])"
  by pat_completeness auto
termination
proof (relation "measure (\<lambda>(buf, v). unat v)", goal_cases)
  case 1
  then show ?case by simp
next
  case (2 buf v)
  then have "unat (0x80 :: u64) \<le> unat v" by (simp only: word_le_nat_alt)
  then have "unat v div 128 < unat v" by (intro div_less_dividend) simp_all
  then show ?case by (simp add: unat_drop_bit_div)
qed

declare put_uvarint.simps [simp del]

text \<open>The decoding loop of \<open>get_uvarint\<close>: position, accumulated result, shift.\<close>

function get_uvarint_from :: "byte list \<Rightarrow> nat \<Rightarrow> u64 \<Rightarrow> nat \<Rightarrow> (u64 \<times> nat) option" where
  "get_uvarint_from bs pos result shift =
     (if pos < length bs then
        let b = bs ! pos in
        if 64 \<le> shift then None
        else
          let result' = result OR push_bit shift (ucast (b AND 0x7f)) in
          if b AND 0x80 = 0 then Some (result', Suc pos)
          else get_uvarint_from bs (Suc pos) result' (shift + 7)
      else None)"
  by pat_completeness auto
termination
  by (relation "measure (\<lambda>(bs, pos, result, shift). length bs - pos)") auto

declare get_uvarint_from.simps [simp del]

definition get_uvarint :: "byte list \<Rightarrow> nat \<Rightarrow> (u64 \<times> nat) option" where
  "get_uvarint bs pos = get_uvarint_from bs pos 0 0"

definition zigzag_encode :: "i64 \<Rightarrow> u64" where
  "zigzag_encode v = push_bit 1 v XOR signed_drop_bit 63 v"

definition zigzag_decode :: "u64 \<Rightarrow> i64" where
  "zigzag_decode v = drop_bit 1 v XOR - (v AND 1)"

section \<open>Id lists\<close>

text \<open>\<open>Vec::with_capacity(n)\<close> for an element size: a capacity overflow panics.\<close>

definition capacity_ok :: "nat \<Rightarrow> nat \<Rightarrow> bool" where
  "capacity_ok sz n \<longleftrightarrow> n * sz < 2 ^ 63"

fun put_deltas :: "byte list \<Rightarrow> i64 \<Rightarrow> i64 list \<Rightarrow> byte list" where
  "put_deltas buf prev [] = buf"
| "put_deltas buf prev (i # ids) =
     put_deltas (put_uvarint buf (zigzag_encode (i - prev))) i ids"

definition encode_delta_id_list :: "i64 list \<Rightarrow> byte list" where
  "encode_delta_id_list ids = put_deltas (put_uvarint [] (of_nat (length ids))) 0 ids"

fun get_deltas :: "byte list \<Rightarrow> nat \<Rightarrow> i64 \<Rightarrow> nat \<Rightarrow> i64 list option" where
  "get_deltas bs pos prev 0 = Some []"
| "get_deltas bs pos prev (Suc n) =
     (case get_uvarint bs pos of None \<Rightarrow> None
      | Some (z, pos') \<Rightarrow>
          let cur = prev + zigzag_decode z
          in map_option ((#) cur) (get_deltas bs pos' cur n))"

definition decode_delta_id_list :: "byte list \<Rightarrow> i64 list option" where
  "decode_delta_id_list bs =
     (case get_uvarint bs 0 of None \<Rightarrow> None
      | Some (len, pos) \<Rightarrow>
          if capacity_ok 8 (unat len) then get_deltas bs pos 0 (unat len) else None)"

definition encode_fixed_id_list :: "i64 list \<Rightarrow> byte list" where
  "encode_fixed_id_list ids =
     le_bytes 4 (of_nat (length ids) :: u32) @ concat (map (le_bytes 8) ids)"

definition decode_fixed_id_list :: "byte list \<Rightarrow> i64 list option" where
  "decode_fixed_id_list bs =
     (case slice bs 0 4 of None \<Rightarrow> None
      | Some l \<Rightarrow>
          mapM_opt (\<lambda>i. map_option of_le_bytes (slice bs (4 + i * 8) (4 + i * 8 + 8)))
            [0..<unat (of_le_bytes l :: u32)])"

section \<open>Relation members\<close>

definition encode_member_type :: "string \<Rightarrow> byte" where
  "encode_member_type t =
     (if t = ''node'' then 0 else if t = ''way'' then 1 else if t = ''relation'' then 2 else 3)"

definition decode_member_type :: "byte \<Rightarrow> string" where
  "decode_member_type b =
     (if b = 0 then ''node'' else if b = 1 then ''way'' else if b = 2 then ''relation''
      else ''unknown'')"

definition encode_member_role :: "string \<Rightarrow> byte" where
  "encode_member_role r = (if r = ''outer'' \<or> r = '''' then 0 else if r = ''inner'' then 1 else 2)"

definition decode_member_role :: "byte \<Rightarrow> string" where
  "decode_member_role b = (if b = 0 then ''outer'' else if b = 1 then ''inner'' else '''')"

type_synonym member = "i64 \<times> byte \<times> byte"

fun member_bytes :: "member \<Rightarrow> byte list" where
  "member_bytes (ref_id, member_type, role) = le_bytes 8 ref_id @ [member_type, role]"

definition encode_relation_members :: "member list \<Rightarrow> byte list" where
  "encode_relation_members members =
     le_bytes 4 (of_nat (length members) :: u32) @ concat (map member_bytes members)"

definition decode_member_at :: "byte list \<Rightarrow> nat \<Rightarrow> member option" where
  "decode_member_at bs start =
     (case slice bs start (start + 8) of None \<Rightarrow> None
      | Some r \<Rightarrow> (case nth_opt bs (start + 8) of None \<Rightarrow> None
         | Some t \<Rightarrow> (case nth_opt bs (start + 9) of None \<Rightarrow> None
            | Some ro \<Rightarrow> Some (of_le_bytes r, t, ro))))"

definition decode_relation_members :: "byte list \<Rightarrow> member list option" where
  "decode_relation_members bs =
     (case slice bs 0 4 of None \<Rightarrow> None
      | Some l \<Rightarrow>
          mapM_opt (\<lambda>i. decode_member_at bs (4 + i * 10)) [0..<unat (of_le_bytes l :: u32)])"

section \<open>Keys: round trip and order\<close>

lemma decode_key_encode_key [byte_simps]: "decode_key (encode_key k) = Some k"
  by (simp add: decode_key_def encode_key_def of_be_bytes_be_bytes)

lemma encode_key_inj: "encode_key a = encode_key b \<longleftrightarrow> a = b"
  using decode_key_encode_key by (metis option.inject)

lemma bytes_less_encode_key: "bytes_less (encode_key a) (encode_key b) \<longleftrightarrow> a < b"
  by (simp add: encode_key_def bytes_less_be_nat be_nat_be_bytes word_less_nat_alt
      unsigned_take_bit_eq [symmetric] take_bit_word_eq_self)

section \<open>Coordinates: the grid is represented exactly\<close>

lemma decode_node_encode_node [byte_simps]: "decode_node (encode_node lon lat) = Some (lon, lat)"
  by (simp add: decode_node_def encode_node_def slice_def of_le_bytes_le_bytes)

lemma length_encode_node: "length (encode_node lon lat) = NODE_BYTE_LEN"
  by (simp add: encode_node_def NODE_BYTE_LEN_def)

section \<open>Varints\<close>

lemma put_uvarint_ge: "0x80 \<le> v \<Longrightarrow> put_uvarint buf v = put_uvarint (buf @ [ucast v OR 0x80]) (drop_bit 7 v)"
  by (subst put_uvarint.simps) simp

lemma put_uvarint_lt: "\<not> 0x80 \<le> v \<Longrightarrow> put_uvarint buf v = buf @ [ucast v]"
  by (subst put_uvarint.simps) simp

lemma unat_drop_7_less: "0x80 \<le> (v :: u64) \<Longrightarrow> unat (drop_bit 7 v) < unat v"
proof -
  assume "0x80 \<le> v"
  then have "unat (0x80 :: u64) \<le> unat v" by (simp only: word_le_nat_alt)
  then have "unat v div 2 ^ 7 < unat v" by (intro div_less_dividend) simp_all
  then show ?thesis by (simp only: unat_drop_bit_div)
qed

lemma put_uvarint_append: "put_uvarint buf v = buf @ put_uvarint [] v"
proof (induction "unat v" arbitrary: buf v rule: less_induct)
  case less
  show ?case
  proof (cases "0x80 \<le> v")
    case True
    note IH = less [OF unat_drop_7_less [OF True]]
    show ?thesis
      using IH [of "buf @ [ucast v OR 0x80]"] IH [of "[ucast v OR 0x80]"] True
      by (simp add: put_uvarint_ge [of v])
  next
    case False
    then show ?thesis by (simp add: put_uvarint_lt)
  qed
qed

text \<open>The low seven bits and the continuation flag of one encoded byte.\<close>

lemma bit_80: "bit (0x80 :: byte) n \<longleftrightarrow> n = 7"
proof -
  have m80: "(0x80 :: byte) = push_bit 7 1" by simp
  show ?thesis unfolding m80 by (simp only: bit_push_bit_iff bit_1_iff) auto
qed

lemma varint_last_byte:
  assumes "\<not> 0x80 \<le> (v :: u64)"
  shows "(ucast v :: byte) AND 0x80 = 0" "ucast ((ucast v :: byte) AND 0x7f) = v"
proof -
  have "unat v < unat (0x80 :: u64)" using assms by (simp only: word_le_nat_alt not_le)
  then have t: "take_bit 7 v = v" by (intro take_bit_small) simp
  have b: "bit v n \<Longrightarrow> n < 7" for n
    using t by (metis bit_take_bit_iff)
  have m7: "(0x7f :: byte) = mask 7" by (simp add: mask_eq_exp_minus_1)
  have m80: "(0x80 :: byte) = push_bit 7 1" by simp
  show "(ucast v :: byte) AND 0x80 = 0"
    by (rule bit_word_eqI) (simp only: bit_and_iff bit_unsigned_iff bit_80 bit_0_eq bot_apply, auto dest: b)
  show "ucast ((ucast v :: byte) AND 0x7f) = v"
    unfolding m7 by (rule bit_word_eqI) (auto simp: bit_simps dest: b)
qed

lemma varint_more_byte:
  fixes v :: u64
  shows "(ucast v OR 0x80 :: byte) AND 0x80 \<noteq> 0"
    "ucast ((ucast v OR 0x80 :: byte) AND 0x7f) = take_bit 7 v"
proof -
  have m7: "(0x7f :: byte) = mask 7" by (simp add: mask_eq_exp_minus_1)
  have "bit ((ucast v OR 0x80 :: byte) AND 0x80) 7"
    by (simp add: bit_and_iff bit_or_iff bit_80)
  then show "(ucast v OR 0x80 :: byte) AND 0x80 \<noteq> 0" by (metis bit_0_eq bot_apply bot_bool_def)
  show "ucast ((ucast v OR 0x80 :: byte) AND 0x7f) = take_bit 7 v"
    unfolding m7 by (rule bit_word_eqI) (simp only: bit_unsigned_iff bit_and_iff bit_or_iff bit_80 bit_mask_iff bit_take_bit_iff, auto)
qed

lemma split_bits_7:
  fixes v :: u64
  shows "push_bit s (take_bit 7 v) OR push_bit (s + 7) (drop_bit 7 v) = push_bit s v"
  by (rule bit_word_eqI) (auto simp: bit_or_iff bit_push_bit_iff bit_take_bit_iff bit_drop_bit_eq, metis add.commute add_diff_inverse_nat diff_diff_add not_less)

lemma get_uvarint_from_put:
  "s < 64 \<Longrightarrow> unat v < 2 ^ (64 - s) \<Longrightarrow>
   get_uvarint_from (pre @ put_uvarint [] v @ post) (length pre) r s
     = Some (r OR push_bit s v, length pre + length (put_uvarint [] v))"
proof (induction "unat v" arbitrary: v pre r s rule: less_induct)
  case less
  show ?case
  proof (cases "0x80 \<le> v")
    case True
    let ?b = "ucast v OR 0x80 :: byte" and ?v = "drop_bit 7 v"
    have enc: "put_uvarint [] v = ?b # put_uvarint [] ?v"
      using True put_uvarint_append [of "[?b]" ?v] by (simp add: put_uvarint_ge)
    have "unat (0x80 :: u64) \<le> unat v" using True by (simp only: word_le_nat_alt)
    then have "(2 :: nat) ^ 7 < 2 ^ (64 - s)" using less.prems by simp
    then have s7: "s + 7 < 64" by (simp only: power_strict_increasing_iff)
    have "(2::nat) ^ (64 - s) = 2 ^ (64 - (s + 7)) * 2 ^ 7"
      using s7 by (simp only: power_add [symmetric]) simp
    then have bd: "unat ?v < 2 ^ (64 - (s + 7))"
      using less.prems by (simp only: unat_drop_bit_div) (simp add: less_mult_imp_div_less)
    note IH = less.hyps [OF unat_drop_7_less [OF True] s7 bd, of "pre @ [?b]"
        "r OR push_bit s (take_bit 7 v)"]
    show ?thesis
      using IH less.prems(1) varint_more_byte [of v]
      by (subst get_uvarint_from.simps)
        (simp add: enc nth_append Let_def or.assoc split_bits_7)
  next
    case False
    then show ?thesis
      using varint_last_byte [OF False] less.prems(1)
      by (subst get_uvarint_from.simps) (simp add: put_uvarint_lt nth_append Let_def)
  qed
qed

lemma get_uvarint_put [byte_simps]:
  "get_uvarint (pre @ put_uvarint [] v @ post) (length pre)
     = Some (v, length pre + length (put_uvarint [] v))"
proof -
  have "unat v < 2 ^ LENGTH(64)" by (rule unsigned_less)
  then show ?thesis
    by (simp add: get_uvarint_def get_uvarint_from_put)
qed

lemma get_uvarint_put_0:
  "get_uvarint (put_uvarint [] v @ post) 0 = Some (v, length (put_uvarint [] v))"
  using get_uvarint_put [of "[]"] by simp

section \<open>Zigzag\<close>

lemma bit_signed_drop_63: "bit (signed_drop_bit 63 (v :: i64)) n \<longleftrightarrow> n < 64 \<and> bit v 63"
  by (cases "n = 0") (auto simp: bit_signed_drop_bit_iff dest: bit_imp_le_length)

lemma bit_neg_and_1: "bit (- ((v :: u64) AND 1)) n \<longleftrightarrow> n < 64 \<and> bit v 0"
proof (cases "bit v 0")
  case True
  then have "v AND 1 = 1" by (simp add: and_one_eq mod_2_eq_odd bit_0)
  with True show ?thesis by simp
next
  case False
  then have "v AND 1 = 0" by (simp add: and_one_eq mod_2_eq_odd bit_0)
  with False show ?thesis by simp
qed

lemma bit_zigzag_encode: "bit (zigzag_encode v) n \<longleftrightarrow> n < 64 \<and> ((1 \<le> n \<and> bit v (n - 1)) \<noteq> bit v 63)"
  unfolding zigzag_encode_def
  by (simp only: bit_xor_iff bit_push_bit_iff bit_signed_drop_63 possible_bit_word) auto

lemma bit_zigzag_decode: "bit (zigzag_decode v) n \<longleftrightarrow> n < 64 \<and> (bit v (Suc n) \<noteq> bit v 0)"
  unfolding zigzag_decode_def
  by (simp only: bit_xor_iff bit_drop_bit_eq bit_neg_and_1 o_def plus_1_eq_Suc) (auto dest: bit_imp_le_length)

lemma bit_64_False [simp]: "\<not> bit (v :: u64) 64"
  by (auto dest: bit_imp_le_length)

lemma zigzag_decode_encode [byte_simps]: "zigzag_decode (zigzag_encode v) = v"
proof (rule bit_word_eqI)
  fix n assume "n < LENGTH(64)"
  then show "bit (zigzag_decode (zigzag_encode v)) n = bit v n"
    by (cases "n = 63") (auto simp: bit_zigzag_decode bit_zigzag_encode)
qed

lemma zigzag_encode_decode [byte_simps]: "zigzag_encode (zigzag_decode v) = v"
proof (rule bit_word_eqI)
  fix n assume "n < LENGTH(64)"
  then show "bit (zigzag_encode (zigzag_decode v)) n = bit v n"
    by (cases n) (auto simp: bit_zigzag_decode bit_zigzag_encode)
qed

section \<open>Delta lists\<close>

lemma put_deltas_append: "put_deltas buf prev ids = buf @ put_deltas [] prev ids"
proof (induction ids arbitrary: buf prev)
  case Nil
  then show ?case by simp
next
  case (Cons i ids)
  have "put_deltas buf prev (i # ids) = put_uvarint buf (zigzag_encode (i - prev)) @ put_deltas [] i ids"
    using Cons [of "put_uvarint buf (zigzag_encode (i - prev))"] by simp
  also have "\<dots> = buf @ put_uvarint [] (zigzag_encode (i - prev)) @ put_deltas [] i ids"
    by (subst put_uvarint_append) simp
  also have "\<dots> = buf @ put_deltas [] prev (i # ids)"
    using Cons [of "put_uvarint [] (zigzag_encode (i - prev))"] by simp
  finally show ?case .
qed

lemma put_deltas_Cons:
  "put_deltas [] prev (i # ids) = put_uvarint [] (zigzag_encode (i - prev)) @ put_deltas [] i ids"
  by (simp add: put_deltas_append [of "put_uvarint [] (zigzag_encode (i - prev))"])

lemma get_deltas_put_deltas:
  "get_deltas (pre @ put_deltas [] prev ids @ post) (length pre) prev (length ids) = Some ids"
proof (induction ids arbitrary: pre prev)
  case Nil
  then show ?case by simp
next
  case (Cons i ids)
  let ?e = "put_uvarint [] (zigzag_encode (i - prev))"
  have g: "get_uvarint (pre @ ?e @ put_deltas [] i ids @ post) (length pre)
      = Some (zigzag_encode (i - prev), length pre + length ?e)"
    by (rule get_uvarint_put)
  show ?case
    using g Cons [of "pre @ ?e" i]
    by (simp add: put_deltas_Cons zigzag_decode_encode Let_def del: put_deltas.simps)
qed

lemma unat_of_nat_fits: "n < 2 ^ LENGTH('a) \<Longrightarrow> unat (of_nat n :: 'a::len word) = n"
  by (simp add: unsigned_of_nat take_bit_nat_eq_self)

lemma decode_delta_encode_delta:
  assumes "capacity_ok 8 (length ids)"
  shows "decode_delta_id_list (encode_delta_id_list ids) = Some ids"
proof -
  let ?n = "of_nat (length ids) :: u64"
  have n: "unat ?n = length ids"
    using assms by (intro unat_of_nat_fits) (simp add: capacity_ok_def)
  have e: "encode_delta_id_list ids = put_uvarint [] ?n @ put_deltas [] 0 ids"
    by (simp add: encode_delta_id_list_def put_deltas_append [of "put_uvarint [] ?n"])
  show ?thesis
    using assms get_uvarint_put_0 [of ?n "put_deltas [] 0 ids"]
      get_deltas_put_deltas [of "put_uvarint [] ?n" 0 ids "[]"]
    by (simp add: decode_delta_id_list_def e n)
qed

section \<open>Fixed-width lists and relation members\<close>

lemma decode_fixed_encode_fixed:
  assumes "length ids < 2 ^ 32"
  shows "decode_fixed_id_list (encode_fixed_id_list ids) = Some ids"
proof -
  let ?n = "of_nat (length ids) :: u32" and ?hd = "le_bytes 4 (of_nat (length ids) :: u32)"
  let ?bs = "encode_fixed_id_list ids"
  have n: "unat ?n = length ids" using assms by (intro unat_of_nat_fits) simp
  have hd: "slice ?bs 0 4 = Some ?hd"
    using slice_prefix [of ?hd "concat (map (le_bytes 8) ids)"] by (simp add: encode_fixed_id_list_def)
  have el: "map_option of_le_bytes (slice ?bs (4 + i * 8) (4 + i * 8 + 8)) = Some (ids ! i)"
    if "i < length ids" for i
    using slice_block [of ids "le_bytes 8" 8 i 0 8 ?hd "[]"] that
    by (simp add: encode_fixed_id_list_def slice_def of_le_bytes_le_bytes)
  have len: "unat (of_le_bytes ?hd :: u32) = length ids"
    using n by (simp add: of_le_bytes_le_bytes)
  show ?thesis
    unfolding decode_fixed_id_list_def hd option.case len
    by (rule mapM_opt_upt) (rule el)
qed

lemma length_member_bytes [simp]: "length (member_bytes m) = 10"
  by (cases m) auto

lemma decode_members_encode_members:
  assumes "length ms < 2 ^ 32"
  shows "decode_relation_members (encode_relation_members ms) = Some ms"
proof -
  let ?n = "of_nat (length ms) :: u32" and ?hd = "le_bytes 4 (of_nat (length ms) :: u32)"
  let ?bs = "encode_relation_members ms"
  have n: "unat ?n = length ms" using assms by (intro unat_of_nat_fits) simp
  have hd: "slice ?bs 0 4 = Some ?hd"
    using slice_prefix [of ?hd "concat (map member_bytes ms)"] by (simp add: encode_relation_members_def)
  have at: "decode_member_at ?bs (4 + i * 10) = Some (ms ! i)" if i: "i < length ms" for i
  proof -
    obtain r t ro where m: "ms ! i = (r, t, ro)" by (cases "ms ! i") auto
    have "slice ?bs (4 + i * 10) (4 + i * 10 + 8) = Some (le_bytes 8 r)"
      using slice_block [of ms member_bytes 10 i 0 8 ?hd "[]"] i
      by (simp add: encode_relation_members_def m slice_def)
    moreover have "nth_opt ?bs (4 + i * 10 + 8) = Some t" "nth_opt ?bs (4 + i * 10 + 9) = Some ro"
      using nth_opt_block [of ms member_bytes 10 i 8 ?hd "[]"]
        nth_opt_block [of ms member_bytes 10 i 9 ?hd "[]"] i
      by (simp_all add: encode_relation_members_def m nth_append)
    ultimately show ?thesis by (simp add: decode_member_at_def of_le_bytes_le_bytes m)
  qed
  have len: "unat (of_le_bytes ?hd :: u32) = length ms"
    using n by (simp add: of_le_bytes_le_bytes)
  show ?thesis
    unfolding decode_relation_members_def hd option.case len
    by (rule mapM_opt_upt) (rule at)
qed

interpretation delta: codec encode_delta_id_list decode_delta_id_list "\<lambda>ids. capacity_ok 8 (length ids)"
  by unfold_locales (rule decode_delta_encode_delta)

interpretation fixedl: codec encode_fixed_id_list decode_fixed_id_list "\<lambda>ids. length ids < 2 ^ 32"
  by unfold_locales (rule decode_fixed_encode_fixed)

interpretation members: codec encode_relation_members decode_relation_members
  "\<lambda>ms. length ms < 2 ^ 32"
  by unfold_locales (rule decode_members_encode_members)

interpretation node: codec "\<lambda>(lon, lat). encode_node lon lat" decode_node "\<lambda>_. True"
  by unfold_locales (auto simp: decode_node_encode_node)

section \<open>Decimicrodegrees survive the trip through degrees\<close>

lemma f64_of_rat_small:
  assumes "\<bar>round53 x\<bar> < 2 ^ 1024"
  shows "f64_of_rat x = Fin (round53 x)"
  using assms by (simp add: f64_of_rat_def Let_def)

lemma pow2_m1022_le: "(1 / 2 ^ 30 :: rat) \<le> y \<Longrightarrow> pow2 (-1022) \<le> y"
proof -
  have "pow2 (-1022) \<le> pow2 (-30)" by (rule pow2_mono) simp
  also have "pow2 (-30) = (1 / 2 ^ 30 :: rat)" by (simp add: pow2_def)
  finally show "(1 / 2 ^ 30 :: rat) \<le> y \<Longrightarrow> pow2 (-1022) \<le> y" by linarith
qed

lemma big_2_1024: "(2 ^ 40 :: rat) < 2 ^ 1024"
  by (rule power_strict_increasing) simp_all

lemma grid_products:
  fixes z :: int
  assumes z: "z \<noteq> 0" "\<bar>z\<bar> \<le> 2 ^ 31"
  defines "r \<equiv> round53 (of_int z / 10000000)"
  shows "\<bar>r\<bar> < 2 ^ 40" "\<bar>round53 (r * 10000000)\<bar> < 2 ^ 40"
    "\<bar>round53 (r * 10000000) - of_int z\<bar> < 1 / 2"
proof -
  let ?z = "of_int z :: rat" and ?x = "of_int z / 10000000 :: rat"
  have z1: "1 \<le> \<bar>?z\<bar>" using z(1) by (simp add: of_int_abs [symmetric] del: of_int_abs)
  have "(of_int \<bar>z\<bar> :: rat) \<le> of_int (2 ^ 31)" using z(2) by (simp only: of_int_le_iff)
  then have z2: "\<bar>?z\<bar> \<le> 2147483648" by simp
  have ax: "\<bar>?x\<bar> = \<bar>?z\<bar> / 10000000" by simp
  have "pow2 (-1022) \<le> \<bar>?x\<bar>" using z1 by (intro pow2_m1022_le) (simp add: ax)
  then have "\<bar>r - ?x\<bar> \<le> \<bar>?x\<bar> / 2 ^ 53" unfolding r_def by (rule round53_rel_err)
  then have rx: "\<bar>r - ?x\<bar> \<le> \<bar>?z\<bar> / 10000000 / 9007199254740992" by (simp only: ax) simp
  define y where "y = r * 10000000"
  have "y - ?z = (r - ?x) * 10000000" by (simp add: y_def algebra_simps)
  then have "\<bar>y - ?z\<bar> = \<bar>r - ?x\<bar> * 10000000" by (simp only: abs_mult abs_numeral)
  with rx have yz: "\<bar>y - ?z\<bar> \<le> \<bar>?z\<bar> / 9007199254740992" by simp
  with z2 have yz': "\<bar>y - ?z\<bar> \<le> 1 / 4194304" by simp
  with z1 have y1: "1 / 2 \<le> \<bar>y\<bar>" by linarith
  from yz' z2 have y2: "\<bar>y\<bar> \<le> 2147483649" by linarith
  have "pow2 (-1022) \<le> \<bar>y\<bar>" using y1 by (intro pow2_m1022_le) simp
  then have "\<bar>round53 y - y\<bar> \<le> \<bar>y\<bar> / 2 ^ 53" by (rule round53_rel_err)
  then have ry: "\<bar>round53 y - y\<bar> \<le> \<bar>y\<bar> / 9007199254740992" by simp
  with y2 have ry': "\<bar>round53 y - y\<bar> \<le> 1 / 4000000" by simp
  have c: "(2 ^ 40 :: rat) = 1099511627776" by simp
  show "\<bar>r\<bar> < 2 ^ 40" unfolding c using rx z2 ax by linarith
  show "\<bar>round53 (r * 10000000)\<bar> < 2 ^ 40" unfolding c y_def [symmetric] using ry' y2 by linarith
  show "\<bar>round53 (r * 10000000) - of_int z\<bar> < 1 / 2"
    unfolding y_def [symmetric] using ry' yz' by linarith
qed

lemma sint_i32_bounds: "- 2147483648 \<le> sint (v :: i32)" "sint (v :: i32) \<le> 2147483647"
  using sint_range_size [of v] by (auto simp: word_size)

lemma decimicro_degree_roundtrip: "f64_to_decimicro (decimicro_to_f64 v) = v"
proof (cases "sint v = 0")
  case True
  then have "v = 0" by (metis signed_0 signed_word_eqI)
  moreover have "\<lfloor>1 / 2 :: rat\<rfloor> = 0" by (simp add: floor_eq_iff)
  ultimately show ?thesis
    by (simp add: f64_to_decimicro_def decimicro_to_f64_def f64_of_i32_def COORD_SCALE_def
        f64_of_rat_def round53_def Let_def round_away_def trunc_rat_def)
next
  case False
  let ?z = "sint v" and ?r = "round53 (of_int (sint v) / 10000000)"
  have b: "\<bar>?z\<bar> \<le> 2 ^ 31" using sint_i32_bounds [of v] by simp
  note g = grid_products [OF False b]
  have d: "decimicro_to_f64 v = Fin ?r"
    unfolding decimicro_to_f64_def f64_of_i32_def COORD_SCALE_def f64_div_fin.simps
    using g(1) big_2_1024 by (intro f64_of_rat_small) linarith
  have m: "f64_mul (Fin ?r) (Fin COORD_SCALE) = Fin (round53 (?r * 10000000))"
    unfolding COORD_SCALE_def f64_mul.simps
    using g(2) big_2_1024 by (intro f64_of_rat_small) linarith
  have "round_away (round53 (?r * 10000000)) = ?z"
    using g(3) by (rule round_away_near)
  moreover have "f64_as_i32 (Fin (of_int ?z)) = v"
    using sint_i32_bounds [of v] by (simp only: f64_as_i32.simps trunc_rat_int) (simp add: max_def min_def)
  ultimately show ?thesis
    by (simp only: f64_to_decimicro_def d m f64_round.simps)
qed

section \<open>Properties\<close>

text \<open>A key decodes to its id, different ids have different keys, and the lexicographic order
  RocksDB keeps its keys in is the unsigned order of the ids, so a scan visits them sorted.\<close>

theorem encode_key_order:
  "decode_key (encode_key a) = Some a \<and> (encode_key a = encode_key b \<longleftrightarrow> a = b) \<and>
   (bytes_less (encode_key a) (encode_key b) \<longleftrightarrow> a < b)"
  by (simp add: decode_key_encode_key encode_key_inj bytes_less_encode_key)

text \<open>Every value layout of the store decodes to what was encoded, for every list its length
  prefix can count: coordinates, delta-coded references, fixed-width ids and relation
  members. No slice or capacity of the decoders panics on what the encoders wrote.\<close>

theorem value_layouts_roundtrip:
  assumes "capacity_ok 8 (length refs)" "length ids < 2 ^ 32" "length ms < 2 ^ 32"
  shows "decode_node (encode_node lon lat) = Some (lon, lat) \<and>
    decode_delta_id_list (encode_delta_id_list refs) = Some refs \<and>
    decode_fixed_id_list (encode_fixed_id_list ids) = Some ids \<and>
    decode_relation_members (encode_relation_members ms) = Some ms"
  using assms
  by (simp add: node.dec_enc [where v = "(lon, lat)", simplified] delta.dec_enc fixedl.dec_enc members.dec_enc)

theorem value_layouts_roundtrip_witness:
  "capacity_ok 8 (length [7 :: i64, - 1, 7]) \<and>
   decode_delta_id_list (encode_delta_id_list [7, - 1, 7]) = Some [7, - 1, 7] \<and>
   decode_fixed_id_list (encode_fixed_id_list [3]) = Some [3] \<and>
   decode_relation_members (encode_relation_members [(5, 1, 0)]) = Some [(5, 1, 0)]"
  using value_layouts_roundtrip [of "[7, - 1, 7]" "[3]" "[(5, 1, 0)]"] by (simp add: capacity_ok_def)

text \<open>A varint is read back wherever it stands in a buffer, and zigzag is a bijection on
  64-bit words, so the deltas survive their wrap-around.\<close>

theorem uvarint_zigzag_roundtrip:
  "get_uvarint (pre @ put_uvarint [] v @ post) (length pre) = Some (v, length pre + length (put_uvarint [] v)) \<and>
   zigzag_decode (zigzag_encode x) = x \<and> zigzag_encode (zigzag_decode v) = v"
  by (simp add: get_uvarint_put zigzag_decode_encode zigzag_encode_decode)

text \<open>A stored coordinate read as degrees and stored again is unchanged, for every one of the
  2^32 grid values, through the rounded \<open>f64\<close> division and multiplication.\<close>

theorem decimicro_degrees_exact: "f64_to_decimicro (decimicro_to_f64 v) = v"
  by (rule decimicro_degree_roundtrip)

end
