(* ===== verification/Kvstore.thy ===== *)
theory Kvstore
  imports Encoding
begin

text \<open>
  \<open>src/osm/kvstore.rs\<close>: the RocksDB store. A column family is a map from byte
  strings to byte strings, which is what RocksDB's documentation promises of point lookups,
  puts and deletes; a merge operand is folded in with the family's full-merge function. Reads
  decode their value and are \<open>None\<close> where decoding panics. Disk errors and the tuning
  options (caches, compression, compaction) change no result and are not modelled.
\<close>

type_synonym cfmap = "byte list \<rightharpoonup> byte list"

record kv =
  cf_nodes :: cfmap
  cf_ways :: cfmap
  cf_relations :: cfmap
  cf_node_to_ways :: cfmap
  cf_way_to_relations :: cfmap
  cf_meta :: cfmap
  cf_tiles :: cfmap

definition empty_kv :: kv where
  "empty_kv = \<lparr>cf_nodes = Map.empty, cf_ways = Map.empty, cf_relations = Map.empty,
     cf_node_to_ways = Map.empty, cf_way_to_relations = Map.empty, cf_meta = Map.empty,
     cf_tiles = Map.empty\<rparr>"

section \<open>The format stamp\<close>

definition KV_FORMAT_VERSION :: u32 where "KV_FORMAT_VERSION = 1"

definition FORMAT_VERSION_KEY :: "byte list" where
  "FORMAT_VERSION_KEY = map (of_nat \<circ> of_char) ''format_version''"

datatype open_error = FormatUnreadable | FormatMismatch u32

definition stamp_format_version :: "kv \<Rightarrow> kv" where
  "stamp_format_version db =
     db\<lparr>cf_meta := (cf_meta db)(FORMAT_VERSION_KEY \<mapsto> le_bytes 4 KV_FORMAT_VERSION)\<rparr>"

definition check_or_stamp_format_version :: "kv \<Rightarrow> open_error + kv" where
  "check_or_stamp_format_version db =
     (case cf_meta db FORMAT_VERSION_KEY of
        Some bs \<Rightarrow>
          if length bs \<noteq> 4 then Inl FormatUnreadable
          else let found = of_le_bytes bs in
            if found \<noteq> KV_FORMAT_VERSION then Inl (FormatMismatch found) else Inr db
      | None \<Rightarrow> Inr (stamp_format_version db))"

definition kv_clear :: "kv \<Rightarrow> kv" where
  "kv_clear db = stamp_format_version empty_kv"

definition clear_tiles :: "kv \<Rightarrow> kv" where
  "clear_tiles db = db\<lparr>cf_tiles := Map.empty\<rparr>"

section \<open>Nodes\<close>

definition put_node :: "kv \<Rightarrow> i64 \<Rightarrow> i32 \<Rightarrow> i32 \<Rightarrow> kv" where
  "put_node db node_id lon_dm lat_dm =
     db\<lparr>cf_nodes := (cf_nodes db)(encode_key node_id \<mapsto> encode_node lon_dm lat_dm)\<rparr>"

definition get_node :: "kv \<Rightarrow> i64 \<Rightarrow> (i32 \<times> i32) option option" where
  "get_node db node_id =
     (case cf_nodes db (encode_key node_id) of
        Some v \<Rightarrow> map_option Some (decode_node v) | None \<Rightarrow> Some None)"

definition delete_node :: "kv \<Rightarrow> i64 \<Rightarrow> kv" where
  "delete_node db node_id = db\<lparr>cf_nodes := (cf_nodes db)(encode_key node_id := None)\<rparr>"

text \<open>The loop over the batch of lookups; \<open>Some None\<close> is \<open>Ok(None)\<close>, a missing node.\<close>

fun collect_wkb_coords :: "byte list \<Rightarrow> byte list option list \<Rightarrow> byte list option option" where
  "collect_wkb_coords out [] = Some (Some out)"
| "collect_wkb_coords out (None # rs) = Some None"
| "collect_wkb_coords out (Some v # rs) =
     (case push_wkb_coords out v of None \<Rightarrow> None | Some out' \<Rightarrow> collect_wkb_coords out' rs)"

definition multi_get_nodes_wkb_coords :: "kv \<Rightarrow> i64 list \<Rightarrow> byte list option option" where
  "multi_get_nodes_wkb_coords db node_ids =
     collect_wkb_coords [] (map (\<lambda>i. cf_nodes db (encode_key i)) node_ids)"

section \<open>Ways and relations\<close>

definition put_way :: "kv \<Rightarrow> i64 \<Rightarrow> i64 list \<Rightarrow> kv" where
  "put_way db way_id node_ids =
     db\<lparr>cf_ways := (cf_ways db)(encode_key way_id \<mapsto> encode_delta_id_list node_ids)\<rparr>"

definition get_way :: "kv \<Rightarrow> i64 \<Rightarrow> i64 list option option" where
  "get_way db way_id =
     (case cf_ways db (encode_key way_id) of
        Some v \<Rightarrow> map_option Some (decode_delta_id_list v) | None \<Rightarrow> Some None)"

definition delete_way :: "kv \<Rightarrow> i64 \<Rightarrow> kv" where
  "delete_way db way_id = db\<lparr>cf_ways := (cf_ways db)(encode_key way_id := None)\<rparr>"

definition put_relation :: "kv \<Rightarrow> i64 \<Rightarrow> member list \<Rightarrow> kv" where
  "put_relation db relation_id members =
     db\<lparr>cf_relations := (cf_relations db)(encode_key relation_id \<mapsto> encode_relation_members members)\<rparr>"

definition get_relation :: "kv \<Rightarrow> i64 \<Rightarrow> member list option option" where
  "get_relation db relation_id =
     (case cf_relations db (encode_key relation_id) of
        Some v \<Rightarrow> map_option Some (decode_relation_members v) | None \<Rightarrow> Some None)"

definition delete_relation :: "kv \<Rightarrow> i64 \<Rightarrow> kv" where
  "delete_relation db relation_id =
     db\<lparr>cf_relations := (cf_relations db)(encode_key relation_id := None)\<rparr>"

section \<open>Reverse indexes\<close>

definition get_node_to_ways :: "kv \<Rightarrow> i64 \<Rightarrow> i64 list option" where
  "get_node_to_ways db node_id =
     (case cf_node_to_ways db (encode_key node_id) of
        Some v \<Rightarrow> decode_fixed_id_list v | None \<Rightarrow> Some [])"

definition put_node_to_ways :: "kv \<Rightarrow> i64 \<Rightarrow> i64 list \<Rightarrow> kv" where
  "put_node_to_ways db node_id way_ids =
     (if way_ids = [] then
        db\<lparr>cf_node_to_ways := (cf_node_to_ways db)(encode_key node_id := None)\<rparr>
      else
        db\<lparr>cf_node_to_ways :=
             (cf_node_to_ways db)(encode_key node_id \<mapsto> encode_fixed_id_list way_ids)\<rparr>)"

definition add_node_to_ways :: "kv \<Rightarrow> i64 \<Rightarrow> i64 \<Rightarrow> kv option" where
  "add_node_to_ways db node_id way_id =
     (case get_node_to_ways db node_id of None \<Rightarrow> None
      | Some way_ids \<Rightarrow>
          if way_id \<in> set way_ids then Some db
          else Some (put_node_to_ways db node_id (way_ids @ [way_id])))"

definition remove_node_to_ways :: "kv \<Rightarrow> i64 \<Rightarrow> i64 \<Rightarrow> kv option" where
  "remove_node_to_ways db node_id way_id =
     (case get_node_to_ways db node_id of None \<Rightarrow> None
      | Some way_ids \<Rightarrow> Some (put_node_to_ways db node_id (removeAll way_id way_ids)))"

definition get_way_to_relations :: "kv \<Rightarrow> i64 \<Rightarrow> i64 list option" where
  "get_way_to_relations db way_id =
     (case cf_way_to_relations db (encode_key way_id) of
        Some v \<Rightarrow> decode_fixed_id_list v | None \<Rightarrow> Some [])"

definition put_way_to_relations :: "kv \<Rightarrow> i64 \<Rightarrow> i64 list \<Rightarrow> kv" where
  "put_way_to_relations db way_id relation_ids =
     (if relation_ids = [] then
        db\<lparr>cf_way_to_relations := (cf_way_to_relations db)(encode_key way_id := None)\<rparr>
      else
        db\<lparr>cf_way_to_relations :=
             (cf_way_to_relations db)(encode_key way_id \<mapsto> encode_fixed_id_list relation_ids)\<rparr>)"

definition add_way_to_relations :: "kv \<Rightarrow> i64 \<Rightarrow> i64 \<Rightarrow> kv option" where
  "add_way_to_relations db way_id relation_id =
     (case get_way_to_relations db way_id of None \<Rightarrow> None
      | Some relation_ids \<Rightarrow>
          if relation_id \<in> set relation_ids then Some db
          else Some (put_way_to_relations db way_id (relation_ids @ [relation_id])))"

definition remove_way_to_relations :: "kv \<Rightarrow> i64 \<Rightarrow> i64 \<Rightarrow> kv option" where
  "remove_way_to_relations db way_id relation_id =
     (case get_way_to_relations db way_id of None \<Rightarrow> None
      | Some relation_ids \<Rightarrow>
          Some (put_way_to_relations db way_id (removeAll relation_id relation_ids)))"

section \<open>The merge operator and write batches\<close>

definition id_list_full_merge :: "byte list option \<Rightarrow> byte list list \<Rightarrow> byte list" where
  "id_list_full_merge existing operands =
     (let ids = (case existing of
            Some v \<Rightarrow> if 4 \<le> length v then drop 4 v else []
          | None \<Rightarrow> []) @ concat operands
      in le_bytes 4 (of_nat (length ids div 8) :: u32) @ ids)"

definition id_list_partial_merge :: "byte list list \<Rightarrow> byte list" where
  "id_list_partial_merge operands = concat operands"

datatype batch_op =
    BPutNode i64 i32 i32
  | BPutWay i64 "i64 list"
  | BPutRelation i64 "member list"
  | BMergeNodeToWay i64 i64
  | BMergeWayToRelation i64 i64

definition new_batch :: "batch_op list" where
  "new_batch = []"

definition batch_put_node :: "batch_op list \<Rightarrow> i64 \<Rightarrow> i32 \<Rightarrow> i32 \<Rightarrow> batch_op list" where
  "batch_put_node batch node_id lon_dm lat_dm = batch @ [BPutNode node_id lon_dm lat_dm]"

definition batch_put_way :: "batch_op list \<Rightarrow> i64 \<Rightarrow> i64 list \<Rightarrow> batch_op list" where
  "batch_put_way batch way_id node_ids = batch @ [BPutWay way_id node_ids]"

definition batch_put_relation :: "batch_op list \<Rightarrow> i64 \<Rightarrow> member list \<Rightarrow> batch_op list" where
  "batch_put_relation batch relation_id members = batch @ [BPutRelation relation_id members]"

definition batch_merge_node_to_way :: "batch_op list \<Rightarrow> i64 \<Rightarrow> i64 \<Rightarrow> batch_op list" where
  "batch_merge_node_to_way batch node_id way_id = batch @ [BMergeNodeToWay node_id way_id]"

definition batch_merge_way_to_relation :: "batch_op list \<Rightarrow> i64 \<Rightarrow> i64 \<Rightarrow> batch_op list" where
  "batch_merge_way_to_relation batch way_id relation_id =
     batch @ [BMergeWayToRelation way_id relation_id]"

text \<open>A merge on one key: the operand is folded into the stored value.\<close>

definition merge_cf :: "cfmap \<Rightarrow> byte list \<Rightarrow> byte list \<Rightarrow> cfmap" where
  "merge_cf m k operand = m(k \<mapsto> id_list_full_merge (m k) [operand])"

fun apply_batch_op :: "kv \<Rightarrow> batch_op \<Rightarrow> kv" where
  "apply_batch_op db (BPutNode n lon lat) = put_node db n lon lat"
| "apply_batch_op db (BPutWay w ns) = put_way db w ns"
| "apply_batch_op db (BPutRelation r ms) = put_relation db r ms"
| "apply_batch_op db (BMergeNodeToWay n w) =
     db\<lparr>cf_node_to_ways := merge_cf (cf_node_to_ways db) (encode_key n) (le_bytes 8 w)\<rparr>"
| "apply_batch_op db (BMergeWayToRelation w r) =
     db\<lparr>cf_way_to_relations := merge_cf (cf_way_to_relations db) (encode_key w) (le_bytes 8 r)\<rparr>"

definition write_batch :: "kv \<Rightarrow> batch_op list \<Rightarrow> kv" where
  "write_batch db batch = foldl apply_batch_op db batch"

section \<open>Column laws\<close>

text \<open>
  What a client of a column family relies on: a value that fits its layout is read back
  after a put, other keys are untouched, a deleted key is absent.
\<close>

locale column =
  fixes getc :: "'s \<Rightarrow> 'k \<Rightarrow> 'v option option"
    and putc :: "'s \<Rightarrow> 'k \<Rightarrow> 'v \<Rightarrow> 's"
    and delc :: "'s \<Rightarrow> 'k \<Rightarrow> 's"
    and fits :: "'v \<Rightarrow> bool"
  assumes get_put: "fits v \<Longrightarrow> getc (putc s k v) k = Some (Some v)"
    and get_put_other: "k \<noteq> l \<Longrightarrow> getc (putc s k v) l = getc s l"
    and get_del: "getc (delc s k) k = Some None"
    and get_del_other: "k \<noteq> l \<Longrightarrow> getc (delc s k) l = getc s l"
begin

text \<open>A whole list of puts: the last one per key is what is read.\<close>

lemma get_puts:
  assumes "\<And>k v. (k, v) \<in> set kvs \<Longrightarrow> fits v"
  shows "getc (foldl (\<lambda>s (k, v). putc s k v) s kvs) l =
    (case map_of (rev kvs) l of Some v \<Rightarrow> Some (Some v) | None \<Rightarrow> getc s l)"
  using assms
proof (induction kvs rule: rev_induct)
  case Nil
  then show ?case by simp
next
  case (snoc p kvs)
  obtain k v where p: "p = (k, v)" by (cases p)
  have "fits v" using snoc.prems [of k v] p by simp
  with snoc p show ?case
    by (cases "l = k") (auto simp: get_put get_put_other)
qed

lemma put_del: "fits v \<Longrightarrow> getc (delc (putc s k v) k) l = getc (delc s k) l"
  by (cases "k = l") (auto simp: get_del get_del_other get_put_other)

end

interpretation nodes: column get_node "\<lambda>db k (lon, lat). put_node db k lon lat" delete_node "\<lambda>_. True"
  by unfold_locales
    (auto simp: get_node_def put_node_def delete_node_def decode_node_encode_node encode_key_inj
      split: option.splits prod.splits)

interpretation ways: column get_way put_way delete_way "\<lambda>ids. capacity_ok 8 (length ids)"
  by unfold_locales
    (auto simp: get_way_def put_way_def delete_way_def decode_delta_encode_delta encode_key_inj)

interpretation relations: column get_relation put_relation delete_relation "\<lambda>ms. length ms < 2 ^ 32"
  by unfold_locales
    (auto simp: get_relation_def put_relation_def delete_relation_def
      decode_members_encode_members encode_key_inj)

section \<open>Reverse-index laws\<close>

locale reverse_index =
  fixes geti :: "'s \<Rightarrow> i64 \<Rightarrow> i64 list option"
    and addi :: "'s \<Rightarrow> i64 \<Rightarrow> i64 \<Rightarrow> 's option"
    and remi :: "'s \<Rightarrow> i64 \<Rightarrow> i64 \<Rightarrow> 's option"
    and room :: "nat"
  assumes add_get: "geti s k = Some xs \<Longrightarrow> length xs < room \<Longrightarrow>
      \<exists>s'. addi s k v = Some s' \<and> geti s' k = Some (push_absent v xs)
         \<and> (\<forall>l. l \<noteq> k \<longrightarrow> geti s' l = geti s l)"
    and rem_get: "geti s k = Some xs \<Longrightarrow> length xs \<le> room \<Longrightarrow>
      \<exists>s'. remi s k v = Some s' \<and> geti s' k = Some (removeAll v xs)
         \<and> (\<forall>l. l \<noteq> k \<longrightarrow> geti s' l = geti s l)"
begin

text \<open>Adding is idempotent, and removing undoes adding whatever was there before.\<close>

lemma add_twice:
  assumes "geti s k = Some xs" "length xs < room" "addi s k v = Some s1" "length (push_absent v xs) < room"
    "addi s1 k v = Some s2"
  shows "geti s2 l = geti s1 l"
proof -
  from add_get [OF assms(1,2), of v] assms(3)
  have 1: "geti s1 k = Some (push_absent v xs)" by auto
  from add_get [OF 1 assms(4), of v] assms(5)
  show ?thesis using 1 by (cases "l = k") auto
qed

lemma add_then_remove:
  assumes "geti s k = Some xs" "length xs < room" "addi s k v = Some s1" "remi s1 k v = Some s2"
  shows "geti s2 k = Some (removeAll v xs)"
proof -
  from add_get [OF assms(1,2), of v] assms(3)
  have 1: "geti s1 k = Some (push_absent v xs)" by auto
  have "length (push_absent v xs) \<le> room" using assms(2) by (simp add: push_absent_def)
  from rem_get [OF 1 this, of v] assms(4) show ?thesis by (auto simp: removeAll_push_absent)
qed

end

lemma length_removeAll_le: "length (removeAll x xs) \<le> length xs"
  by (simp add: removeAll_filter_not_eq)

interpretation n2w: reverse_index get_node_to_ways add_node_to_ways remove_node_to_ways "2 ^ 32 - 1"
proof unfold_locales
  fix s k xs v
  assume g: "get_node_to_ways s k = Some xs" and "length xs < 2 ^ 32 - 1"
  then have "length (xs @ [v]) < 2 ^ 32" by simp
  from decode_fixed_encode_fixed [OF this] g
  show "\<exists>s'. add_node_to_ways s k v = Some s' \<and> get_node_to_ways s' k = Some (push_absent v xs)
      \<and> (\<forall>l. l \<noteq> k \<longrightarrow> get_node_to_ways s' l = get_node_to_ways s l)"
    by (auto simp: add_node_to_ways_def push_absent_def put_node_to_ways_def get_node_to_ways_def
        encode_key_inj)
next
  fix s k xs v
  assume g: "get_node_to_ways s k = Some xs" and "length xs \<le> 2 ^ 32 - 1"
  then have "length (removeAll v xs) < 2 ^ 32"
    by (intro le_less_trans [OF length_removeAll_le]) simp
  from decode_fixed_encode_fixed [OF this] g
  show "\<exists>s'. remove_node_to_ways s k v = Some s' \<and> get_node_to_ways s' k = Some (removeAll v xs)
      \<and> (\<forall>l. l \<noteq> k \<longrightarrow> get_node_to_ways s' l = get_node_to_ways s l)"
    by (auto simp: remove_node_to_ways_def put_node_to_ways_def get_node_to_ways_def encode_key_inj)
qed

interpretation w2r: reverse_index get_way_to_relations add_way_to_relations remove_way_to_relations
  "2 ^ 32 - 1"
proof unfold_locales
  fix s k xs v
  assume g: "get_way_to_relations s k = Some xs" and "length xs < 2 ^ 32 - 1"
  then have "length (xs @ [v]) < 2 ^ 32" by simp
  from decode_fixed_encode_fixed [OF this] g
  show "\<exists>s'. add_way_to_relations s k v = Some s' \<and> get_way_to_relations s' k = Some (push_absent v xs)
      \<and> (\<forall>l. l \<noteq> k \<longrightarrow> get_way_to_relations s' l = get_way_to_relations s l)"
    by (auto simp: add_way_to_relations_def push_absent_def put_way_to_relations_def
        get_way_to_relations_def encode_key_inj)
next
  fix s k xs v
  assume g: "get_way_to_relations s k = Some xs" and "length xs \<le> 2 ^ 32 - 1"
  then have "length (removeAll v xs) < 2 ^ 32"
    by (intro le_less_trans [OF length_removeAll_le]) simp
  from decode_fixed_encode_fixed [OF this] g
  show "\<exists>s'. remove_way_to_relations s k v = Some s' \<and> get_way_to_relations s' k = Some (removeAll v xs)
      \<and> (\<forall>l. l \<noteq> k \<longrightarrow> get_way_to_relations s' l = get_way_to_relations s l)"
    by (auto simp: remove_way_to_relations_def put_way_to_relations_def get_way_to_relations_def
        encode_key_inj)
qed

section \<open>Merging\<close>

lemma full_merge_encoded:
  assumes "length xs + length ys < 2 ^ 32"
  shows "id_list_full_merge (Some (encode_fixed_id_list xs)) (map (le_bytes 8) ys)
       = encode_fixed_id_list (xs @ ys)"
proof -
  have "length (concat (map (le_bytes 8 :: i64 \<Rightarrow> _) (xs @ ys))) = length (xs @ ys) * 8"
    by (rule length_concat_fixed) simp
  then have "length (concat (map (le_bytes 8) xs) @ concat (map (le_bytes 8) ys)) div 8
      = length xs + length ys" by simp
  then show ?thesis
    by (simp add: id_list_full_merge_def encode_fixed_id_list_def Let_def)
qed

lemma full_merge_new:
  "id_list_full_merge None (map (le_bytes 8) ys) = encode_fixed_id_list ys"
proof -
  have "length (concat (map (le_bytes 8 :: i64 \<Rightarrow> _) ys)) = length ys * 8"
    by (rule length_concat_fixed) simp
  then show ?thesis by (simp add: id_list_full_merge_def encode_fixed_id_list_def Let_def)
qed

lemma full_merge_partial:
  "id_list_full_merge e (xs @ id_list_partial_merge ops # ys) = id_list_full_merge e (xs @ ops @ ys)"
  by (simp add: id_list_full_merge_def id_list_partial_merge_def)

lemma full_merge_full:
  "id_list_full_merge (Some (id_list_full_merge e xs)) ys = id_list_full_merge e (xs @ ys)"
  by (cases e) (simp_all add: id_list_full_merge_def Let_def)

lemma apply_batch_op_get_node_to_ways:
  assumes "get_node_to_ways db n = Some ws" "length ws < 2 ^ 32 - 1"
    "cf_node_to_ways db (encode_key n) = (if ws = [] then None else Some (encode_fixed_id_list ws))"
  shows "cf_node_to_ways (apply_batch_op db (BMergeNodeToWay n w)) (encode_key n)
       = Some (encode_fixed_id_list (ws @ [w]))"
  using assms full_merge_encoded [of ws "[w]"] full_merge_new [of "[w]"]
  by (auto simp: merge_cf_def)

section \<open>The stamp\<close>

lemma check_after_stamp: "check_or_stamp_format_version (stamp_format_version db) = Inr (stamp_format_version db)"
  by (simp add: check_or_stamp_format_version_def stamp_format_version_def of_le_bytes_le_bytes)

lemma check_other_version:
  assumes "cf_meta db FORMAT_VERSION_KEY = Some (le_bytes 4 v)" "v \<noteq> KV_FORMAT_VERSION"
  shows "check_or_stamp_format_version db = Inl (FormatMismatch v)"
  using assms by (simp add: check_or_stamp_format_version_def of_le_bytes_le_bytes Let_def)

section \<open>Properties\<close>

text \<open>The reverse-index merge operator is associative: however RocksDB groups the operands
  into partial and full merges, the value is the fixed-width list of the stored ids followed
  by the merged ones.\<close>

theorem merge_operator_associative:
  assumes "length xs + length ys < 2 ^ 32"
  shows "id_list_full_merge (Some (encode_fixed_id_list xs)) (map (le_bytes 8) ys) = encode_fixed_id_list (xs @ ys) \<and>
    id_list_full_merge None (map (le_bytes 8) ys) = encode_fixed_id_list ys \<and>
    (\<forall>e as bs cs. id_list_full_merge e (as @ id_list_partial_merge bs # cs) = id_list_full_merge e (as @ bs @ cs)) \<and>
    (\<forall>e as bs. id_list_full_merge (Some (id_list_full_merge e as)) bs = id_list_full_merge e (as @ bs))"
  using full_merge_encoded [OF assms] full_merge_new full_merge_partial full_merge_full by blast

theorem merge_operator_associative_witness:
  "id_list_full_merge (Some (encode_fixed_id_list [1])) (map (le_bytes 8) [2, 3 :: i64]) = encode_fixed_id_list [1, 2, 3]"
  using merge_operator_associative [of "[1]" "[2, 3]"] by simp

text \<open>A store opens exactly when it carries no stamp or this version's stamp; an unstamped
  store is stamped, another version and a stamp of the wrong length are refused, and a
  cleared or freshly stamped store opens unchanged.\<close>

theorem format_stamp_guards:
  "check_or_stamp_format_version (stamp_format_version db) = Inr (stamp_format_version db) \<and>
   check_or_stamp_format_version (kv_clear db) = Inr (kv_clear db) \<and>
   (case cf_meta db FORMAT_VERSION_KEY of
      None \<Rightarrow> check_or_stamp_format_version db = Inr (stamp_format_version db)
    | Some bs \<Rightarrow> (check_or_stamp_format_version db = Inr db \<longleftrightarrow> bs = le_bytes 4 KV_FORMAT_VERSION) \<and>
        (\<forall>v. bs = le_bytes 4 v \<and> v \<noteq> KV_FORMAT_VERSION \<longrightarrow>
          check_or_stamp_format_version db = Inl (FormatMismatch v)) \<and>
        (length bs \<noteq> 4 \<longrightarrow> check_or_stamp_format_version db = Inl FormatUnreadable))"
proof -
  have inj: "bs = le_bytes 4 (of_le_bytes bs :: u32)" if "length bs = 4" for bs
    using le_bytes_of_le_bytes [of bs, where ?'a = 32] that by simp
  have c: "check_or_stamp_format_version (kv_clear db) = Inr (kv_clear db)"
    by (simp add: kv_clear_def check_after_stamp)
  have other: "v \<noteq> KV_FORMAT_VERSION \<Longrightarrow> cf_meta db FORMAT_VERSION_KEY = Some (le_bytes 4 v) \<Longrightarrow>
      check_or_stamp_format_version db = Inl (FormatMismatch v)" for v
    by (rule check_other_version)
  show ?thesis
  proof (cases "cf_meta db FORMAT_VERSION_KEY")
    case None
    then show ?thesis using check_after_stamp c by (simp add: check_or_stamp_format_version_def)
  next
    case (Some bs)
    have "check_or_stamp_format_version db = Inr db \<longleftrightarrow> bs = le_bytes 4 KV_FORMAT_VERSION"
      using Some inj [of bs]
      by (auto simp: check_or_stamp_format_version_def Let_def of_le_bytes_le_bytes)
    moreover have "length bs \<noteq> 4 \<longrightarrow> check_or_stamp_format_version db = Inl FormatUnreadable"
      using Some by (simp add: check_or_stamp_format_version_def)
    ultimately show ?thesis using Some other check_after_stamp c by simp
  qed
qed

theorem format_stamp_guards_witness:
  "check_or_stamp_format_version (empty_kv\<lparr>cf_meta := [FORMAT_VERSION_KEY \<mapsto> le_bytes 4 (2 :: u32)]\<rparr>)
     = Inl (FormatMismatch 2)"
  using format_stamp_guards [of "empty_kv\<lparr>cf_meta := [FORMAT_VERSION_KEY \<mapsto> le_bytes 4 (2 :: u32)]\<rparr>"]
  by (simp add: KV_FORMAT_VERSION_def)

text \<open>What a bulk load of ways writes is what the store returns: after a write batch each way
  reads as the last value put for it, and ways outside the batch are untouched.\<close>

theorem write_batch_ways:
  assumes "\<And>w refs. (w, refs) \<in> set puts \<Longrightarrow> capacity_ok 8 (length refs)"
  shows "get_way (write_batch db (foldl (\<lambda>b (w, refs). batch_put_way b w refs) new_batch puts)) i =
    (case map_of (rev puts) i of Some refs \<Rightarrow> Some (Some refs) | None \<Rightarrow> get_way db i)"
proof -
  have b: "foldl (\<lambda>b (w, refs). batch_put_way b w refs) acc puts = acc @ map (\<lambda>(w, refs). BPutWay w refs) puts" for acc
    by (induction puts arbitrary: acc) (auto simp: batch_put_way_def)
  have "write_batch db (map (\<lambda>(w, refs). BPutWay w refs) puts) = foldl (\<lambda>s (k, v). put_way s k v) db puts"
    unfolding write_batch_def by (induction puts arbitrary: db) auto
  then show ?thesis using ways.get_puts [of puts db i] assms by (simp add: b new_batch_def)
qed

theorem write_batch_ways_witness:
  "get_way (write_batch empty_kv (foldl (\<lambda>b (w, refs). batch_put_way b w refs) new_batch [(1, [5]), (1, [6, 7])])) 1
     = Some (Some [6, 7])"
  by (subst write_batch_ways) (auto simp: capacity_ok_def)

end
