(* ===== verification/Store.thy ===== *)
theory Store
  imports Kvstore
begin

text \<open>
  The store as its clients think of it: typed maps from ids to coordinates, node
  references and members, and two reverse indexes. \<open>repr\<close> says that a RocksDB state
  represents a typed store, and every primitive of \<open>Kvstore\<close> refines its typed
  counterpart, without a panic, as long as no list outgrows its 32-bit length prefix.
\<close>

record store =
  s_nodes :: "i64 \<rightharpoonup> i32 \<times> i32"
  s_ways :: "i64 \<rightharpoonup> i64 list"
  s_rels :: "i64 \<rightharpoonup> member list"
  s_n2w :: "i64 \<Rightarrow> i64 list"
  s_w2r :: "i64 \<Rightarrow> i64 list"

definition empty_store :: store where
  "empty_store = \<lparr>s_nodes = Map.empty, s_ways = Map.empty, s_rels = Map.empty,
     s_n2w = (\<lambda>_. []), s_w2r = (\<lambda>_. [])\<rparr>"

definition enc_index :: "i64 list \<Rightarrow> byte list option" where
  "enc_index ids = (if ids = [] then None else Some (encode_fixed_id_list ids))"

definition repr :: "kv \<Rightarrow> store \<Rightarrow> bool" where
  "repr db t \<longleftrightarrow>
     (\<forall>k. cf_nodes db (encode_key k) = map_option (\<lambda>(lon, lat). encode_node lon lat) (s_nodes t k)) \<and>
     (\<forall>k. cf_ways db (encode_key k) = map_option encode_delta_id_list (s_ways t k)) \<and>
     (\<forall>k. cf_relations db (encode_key k) = map_option encode_relation_members (s_rels t k)) \<and>
     (\<forall>k. cf_node_to_ways db (encode_key k) = enc_index (s_n2w t k)) \<and>
     (\<forall>k. cf_way_to_relations db (encode_key k) = enc_index (s_w2r t k)) \<and>
     (\<forall>k ids. s_ways t k = Some ids \<longrightarrow> capacity_ok 8 (length ids)) \<and>
     (\<forall>k ms. s_rels t k = Some ms \<longrightarrow> length ms < 2 ^ 32) \<and>
     (\<forall>k. length (s_n2w t k) < 2 ^ 32) \<and> (\<forall>k. length (s_w2r t k) < 2 ^ 32)"

section \<open>Reads\<close>

lemma repr_get_node: "repr db t \<Longrightarrow> get_node db k = Some (s_nodes t k)"
  by (cases "s_nodes t k") (auto simp: repr_def get_node_def decode_node_encode_node)

lemma repr_get_way: "repr db t \<Longrightarrow> get_way db k = Some (s_ways t k)"
  by (cases "s_ways t k") (auto simp: repr_def get_way_def decode_delta_encode_delta)

lemma repr_get_relation: "repr db t \<Longrightarrow> get_relation db k = Some (s_rels t k)"
  by (cases "s_rels t k") (auto simp: repr_def get_relation_def decode_members_encode_members)

lemma repr_get_n2w: "repr db t \<Longrightarrow> get_node_to_ways db k = Some (s_n2w t k)"
  by (auto simp: repr_def get_node_to_ways_def enc_index_def decode_fixed_encode_fixed)

lemma repr_get_w2r: "repr db t \<Longrightarrow> get_way_to_relations db k = Some (s_w2r t k)"
  by (auto simp: repr_def get_way_to_relations_def enc_index_def decode_fixed_encode_fixed)

lemmas repr_reads = repr_get_node repr_get_way repr_get_relation repr_get_n2w repr_get_w2r

lemma repr_empty: "repr empty_kv empty_store"
  by (simp add: repr_def empty_kv_def empty_store_def enc_index_def)

lemma repr_clear: "repr (kv_clear db) empty_store"
  by (simp add: repr_def kv_clear_def stamp_format_version_def empty_kv_def empty_store_def enc_index_def)

section \<open>Writes\<close>

datatype kv_op =
    PutNode i64 i32 i32 | DelNode i64
  | PutWay i64 "i64 list" | DelWay i64
  | PutRel i64 "member list" | DelRel i64
  | AddN2W i64 i64 | RemN2W i64 i64
  | AddW2R i64 i64 | RemW2R i64 i64

fun raw_op :: "kv \<Rightarrow> kv_op \<Rightarrow> kv option" where
  "raw_op db (PutNode n lon lat) = Some (put_node db n lon lat)"
| "raw_op db (DelNode n) = Some (delete_node db n)"
| "raw_op db (PutWay w ns) = Some (put_way db w ns)"
| "raw_op db (DelWay w) = Some (delete_way db w)"
| "raw_op db (PutRel r ms) = Some (put_relation db r ms)"
| "raw_op db (DelRel r) = Some (delete_relation db r)"
| "raw_op db (AddN2W n w) = add_node_to_ways db n w"
| "raw_op db (RemN2W n w) = remove_node_to_ways db n w"
| "raw_op db (AddW2R w r) = add_way_to_relations db w r"
| "raw_op db (RemW2R w r) = remove_way_to_relations db w r"

fun store_op :: "store \<Rightarrow> kv_op \<Rightarrow> store" where
  "store_op t (PutNode n lon lat) = t\<lparr>s_nodes := (s_nodes t)(n \<mapsto> (lon, lat))\<rparr>"
| "store_op t (DelNode n) = t\<lparr>s_nodes := (s_nodes t)(n := None)\<rparr>"
| "store_op t (PutWay w ns) = t\<lparr>s_ways := (s_ways t)(w \<mapsto> ns)\<rparr>"
| "store_op t (DelWay w) = t\<lparr>s_ways := (s_ways t)(w := None)\<rparr>"
| "store_op t (PutRel r ms) = t\<lparr>s_rels := (s_rels t)(r \<mapsto> ms)\<rparr>"
| "store_op t (DelRel r) = t\<lparr>s_rels := (s_rels t)(r := None)\<rparr>"
| "store_op t (AddN2W n w) = t\<lparr>s_n2w := (s_n2w t)(n := push_absent w (s_n2w t n))\<rparr>"
| "store_op t (RemN2W n w) = t\<lparr>s_n2w := (s_n2w t)(n := removeAll w (s_n2w t n))\<rparr>"
| "store_op t (AddW2R w r) = t\<lparr>s_w2r := (s_w2r t)(w := push_absent r (s_w2r t w))\<rparr>"
| "store_op t (RemW2R w r) = t\<lparr>s_w2r := (s_w2r t)(w := removeAll r (s_w2r t w))\<rparr>"

text \<open>The length prefixes hold: the only way an operation can go wrong.\<close>

fun op_fits :: "store \<Rightarrow> kv_op \<Rightarrow> bool" where
  "op_fits t (PutWay w ns) = capacity_ok 8 (length ns)"
| "op_fits t (PutRel r ms) = (length ms < 2 ^ 32)"
| "op_fits t (AddN2W n w) = (length (s_n2w t n) < 2 ^ 32 - 1)"
| "op_fits t (AddW2R w r) = (length (s_w2r t w) < 2 ^ 32 - 1)"
| "op_fits t _ = True"

fun run_ops :: "kv \<Rightarrow> kv_op list \<Rightarrow> kv option" where
  "run_ops db [] = Some db"
| "run_ops db (x # xs) = (case raw_op db x of None \<Rightarrow> None | Some db' \<Rightarrow> run_ops db' xs)"

fun ops_fit :: "store \<Rightarrow> kv_op list \<Rightarrow> bool" where
  "ops_fit t [] = True"
| "ops_fit t (x # xs) = (op_fits t x \<and> ops_fit (store_op t x) xs)"

lemma repr_put_n2w:
  "repr db t \<Longrightarrow> length ws < 2 ^ 32 \<Longrightarrow>
   repr (put_node_to_ways db n ws) (t\<lparr>s_n2w := (s_n2w t)(n := ws)\<rparr>)"
  by (auto simp: repr_def put_node_to_ways_def enc_index_def encode_key_inj)

lemma repr_put_w2r:
  "repr db t \<Longrightarrow> length rs < 2 ^ 32 \<Longrightarrow>
   repr (put_way_to_relations db w rs) (t\<lparr>s_w2r := (s_w2r t)(w := rs)\<rparr>)"
  by (auto simp: repr_def put_way_to_relations_def enc_index_def encode_key_inj)

lemma repr_n2w_length: "repr db t \<Longrightarrow> length (s_n2w t k) < 2 ^ 32"
  by (simp add: repr_def)

lemma repr_w2r_length: "repr db t \<Longrightarrow> length (s_w2r t k) < 2 ^ 32"
  by (simp add: repr_def)

lemma repr_puts:
  assumes "repr db t"
  shows "repr (put_node db n lon lat) (store_op t (PutNode n lon lat))"
    "repr (delete_node db n) (store_op t (DelNode n))"
    "capacity_ok 8 (length ns) \<Longrightarrow> repr (put_way db w ns) (store_op t (PutWay w ns))"
    "repr (delete_way db w) (store_op t (DelWay w))"
    "length ms < 2 ^ 32 \<Longrightarrow> repr (put_relation db r ms) (store_op t (PutRel r ms))"
    "repr (delete_relation db r) (store_op t (DelRel r))"
  using assms
  by (simp_all add: repr_def put_node_def delete_node_def put_way_def delete_way_def
      put_relation_def delete_relation_def encode_key_inj)

lemma raw_op_refines:
  assumes r: "repr db t" and f: "op_fits t x"
  shows "\<exists>db'. raw_op db x = Some db' \<and> repr db' (store_op t x)"
proof (cases x)
  case (AddN2W n w)
  with f have "length (s_n2w t n @ [w]) < 2 ^ 32" by simp
  with repr_put_n2w [OF r this, of n] r AddN2W show ?thesis
    by (cases "w \<in> set (s_n2w t n)")
      (auto simp: add_node_to_ways_def repr_get_n2w [OF r] push_absent_def)
next
  case (RemN2W n w)
  have "length (removeAll w (s_n2w t n)) < 2 ^ 32"
    using repr_n2w_length [OF r] by (intro le_less_trans [OF length_removeAll_le])
  with repr_put_n2w [OF r this, of n] RemN2W show ?thesis
    by (simp add: remove_node_to_ways_def repr_get_n2w [OF r])
next
  case (AddW2R w rl)
  with f have "length (s_w2r t w @ [rl]) < 2 ^ 32" by simp
  with repr_put_w2r [OF r this, of w] r AddW2R show ?thesis
    by (cases "rl \<in> set (s_w2r t w)")
      (auto simp: add_way_to_relations_def repr_get_w2r [OF r] push_absent_def)
next
  case (RemW2R w rl)
  have "length (removeAll rl (s_w2r t w)) < 2 ^ 32"
    using repr_w2r_length [OF r] by (intro le_less_trans [OF length_removeAll_le])
  with repr_put_w2r [OF r this, of w] RemW2R show ?thesis
    by (simp add: remove_way_to_relations_def repr_get_w2r [OF r])
qed (use f repr_puts [OF r] in simp_all)

lemma run_ops_refines:
  "repr db t \<Longrightarrow> ops_fit t xs \<Longrightarrow> \<exists>db'. run_ops db xs = Some db' \<and> repr db' (foldl store_op t xs)"
proof (induction xs arbitrary: db t)
  case Nil
  then show ?case by simp
next
  case (Cons x xs)
  then obtain db' where "raw_op db x = Some db'" "repr db' (store_op t x)"
    using raw_op_refines by fastforce
  with Cons show ?case by fastforce
qed

section \<open>Properties\<close>

text \<open>C1: RocksDB as it is used refines the typed store: a run of puts, deletes and index edits
  from a state that represents a typed store never panics, and ends in a state that
  represents the typed result, as long as no list outgrows its length prefix; and every
  typed lookup is what the byte-level lookup returns.\<close>

theorem kvstore_refines_store:
  assumes "repr db t" "ops_fit t xs"
  shows "\<exists>db'. run_ops db xs = Some db' \<and> repr db' (foldl store_op t xs) \<and>
    (\<forall>k. get_node db' k = Some (s_nodes (foldl store_op t xs) k) \<and>
         get_way db' k = Some (s_ways (foldl store_op t xs) k) \<and>
         get_relation db' k = Some (s_rels (foldl store_op t xs) k) \<and>
         get_node_to_ways db' k = Some (s_n2w (foldl store_op t xs) k) \<and>
         get_way_to_relations db' k = Some (s_w2r (foldl store_op t xs) k))"
  using run_ops_refines [OF assms] repr_reads by blast

theorem kvstore_refines_store_witness:
  "repr empty_kv empty_store \<and>
   (\<exists>db'. run_ops empty_kv [PutWay 7 [1, 2], AddN2W 1 7, AddN2W 1 7] = Some db' \<and>
      get_way db' 7 = Some (Some [1, 2]) \<and> get_node_to_ways db' 1 = Some [7])"
proof -
  have "ops_fit empty_store [PutWay 7 [1, 2], AddN2W 1 7, AddN2W 1 7]"
    by (simp add: empty_store_def capacity_ok_def push_absent_def)
  from kvstore_refines_store [OF repr_empty this] obtain db' where
    "run_ops empty_kv [PutWay 7 [1, 2], AddN2W 1 7, AddN2W 1 7] = Some db'"
    "get_way db' 7 = Some (Some [1, 2])" "get_node_to_ways db' 1 = Some [7]"
    by (auto simp: empty_store_def push_absent_def)
  with repr_empty show ?thesis by blast
qed

end
