(* ===== verification/Udf.thy ===== *)
theory Udf
  imports Store
begin

text \<open>
  \<open>src/osm/udf.rs\<close>: the two SQL functions that turn stored node references into a WKB
  LineString. A row's result is \<open>Some None\<close> for SQL NULL, \<open>Some (Some wkb)\<close> for a
  blob, \<open>None\<close> for a panic. Registration with DuckDB is not modelled.
\<close>

definition encode_wkb_linestring_raw :: "nat \<Rightarrow> byte list \<Rightarrow> byte list" where
  "encode_wkb_linestring_raw num_points raw_coords =
     [0x01] @ le_bytes 4 (2 :: u32) @ le_bytes 4 (of_nat num_points :: u32) @ raw_coords"

text \<open>One row of \<open>ResolveNodeCoords::invoke\<close>; the argument is NULL or a list.\<close>

definition resolve_node_coords :: "kv \<Rightarrow> i64 list option \<Rightarrow> byte list option option" where
  "resolve_node_coords kv refs =
     (case refs of None \<Rightarrow> Some None
      | Some ids \<Rightarrow>
          if length ids < 2 then Some None
          else case multi_get_nodes_wkb_coords kv ids of
             None \<Rightarrow> None
           | Some None \<Rightarrow> Some None
           | Some (Some raw) \<Rightarrow> Some (Some (encode_wkb_linestring_raw (length ids) raw)))"

text \<open>One row of \<open>ResolveWayCoords::invoke\<close>.\<close>

definition resolve_way_coords :: "kv \<Rightarrow> i64 option \<Rightarrow> byte list option option" where
  "resolve_way_coords kv way_id =
     (case way_id of None \<Rightarrow> Some None
      | Some w \<Rightarrow>
         (case get_way kv w of
            None \<Rightarrow> None
          | Some None \<Rightarrow> Some None
          | Some (Some node_ids) \<Rightarrow>
              if length node_ids < 2 then Some None
              else case multi_get_nodes_wkb_coords kv node_ids of
                 None \<Rightarrow> None
               | Some None \<Rightarrow> Some None
               | Some (Some raw) \<Rightarrow> Some (Some (encode_wkb_linestring_raw (length node_ids) raw))))"

section \<open>What a row means over the typed store\<close>

definition wkb_pair :: "i32 \<times> i32 \<Rightarrow> byte list" where
  "wkb_pair c = le_bytes 8 (f64_to_bits (decimicro_to_f64 (fst c)))
     @ le_bytes 8 (f64_to_bits (decimicro_to_f64 (snd c)))"

definition wkb_line :: "(i32 \<times> i32) list \<Rightarrow> byte list" where
  "wkb_line cs = encode_wkb_linestring_raw (length cs) (concat (map wkb_pair cs))"

text \<open>A line is resolvable when it has two points and every node is stored.\<close>

definition line_of :: "store \<Rightarrow> i64 list \<Rightarrow> (i32 \<times> i32) list option" where
  "line_of t ids = (if length ids < 2 then None else mapM_opt (s_nodes t) ids)"

definition way_line :: "store \<Rightarrow> i64 \<Rightarrow> (i32 \<times> i32) list option" where
  "way_line t w = (case s_ways t w of None \<Rightarrow> None | Some ids \<Rightarrow> line_of t ids)"

lemma mapM_opt_length: "mapM_opt f xs = Some ys \<Longrightarrow> length ys = length xs"
  by (induction xs arbitrary: ys) (auto split: option.splits)

lemma length_wkb_pair [simp]: "length (wkb_pair c) = WKB_COORD_BYTE_LEN"
  by (simp add: wkb_pair_def WKB_COORD_BYTE_LEN_def)

lemma length_wkb_line: "length (wkb_line cs) = 9 + length cs * WKB_COORD_BYTE_LEN"
  by (simp add: wkb_line_def encode_wkb_linestring_raw_def length_concat_fixed)

lemma push_wkb_coords_encoded:
  "push_wkb_coords out (encode_node lon lat) = Some (out @ wkb_pair (lon, lat))"
  by (simp add: push_wkb_coords_def decode_node_encode_node wkb_pair_def)

lemma collect_encoded:
  "collect_wkb_coords out (map (\<lambda>i. map_option (\<lambda>(lon, lat). encode_node lon lat) (f i)) ids)
     = Some (map_option (\<lambda>cs. out @ concat (map wkb_pair cs)) (mapM_opt f ids))"
proof (induction ids arbitrary: out)
  case Nil
  then show ?case by simp
next
  case (Cons i ids)
  then show ?case
    by (cases "f i") (auto simp: push_wkb_coords_encoded split: option.splits)
qed

lemma multi_get_repr:
  assumes "repr db t"
  shows "multi_get_nodes_wkb_coords db ids
       = Some (map_option (\<lambda>cs. concat (map wkb_pair cs)) (mapM_opt (s_nodes t) ids))"
proof -
  have "map (\<lambda>i. cf_nodes db (encode_key i)) ids
      = map (\<lambda>i. map_option (\<lambda>(lon, lat). encode_node lon lat) (s_nodes t i)) ids"
    using assms by (simp add: repr_def)
  then show ?thesis
    by (simp only: multi_get_nodes_wkb_coords_def collect_encoded append_Nil)
qed

lemma resolve_node_coords_repr:
  assumes "repr db t"
  shows "resolve_node_coords db (Some ids) = Some (map_option wkb_line (line_of t ids))"
  by (auto simp: resolve_node_coords_def line_of_def wkb_line_def multi_get_repr [OF assms]
      dest: mapM_opt_length split: option.splits)

lemma resolve_way_coords_repr:
  assumes "repr db t"
  shows "resolve_way_coords db (Some w) = Some (map_option wkb_line (way_line t w))"
  by (auto simp: resolve_way_coords_def way_line_def line_of_def wkb_line_def
      multi_get_repr [OF assms] repr_get_way [OF assms] dest: mapM_opt_length
      split: option.splits)

section \<open>Properties\<close>

text \<open>The SQL function \<open>resolve_way_coords\<close> returns exactly the WKB line of the stored
  coordinates of the way's nodes, in order: NULL for a NULL or unknown way, for fewer than
  two references, or when any node is missing, never a partial line and never a panic; and
  \<open>resolve_node_coords\<close> agrees with it on the way's own references.\<close>

theorem resolve_way_coords_spec:
  assumes "repr db t"
  shows "resolve_way_coords db w =
      Some (case w of None \<Rightarrow> None | Some i \<Rightarrow>
        (case s_ways t i of None \<Rightarrow> None
         | Some refs \<Rightarrow>
             if length refs < 2 \<or> (\<exists>n\<in>set refs. s_nodes t n = None) then None
             else Some (wkb_line (map (\<lambda>n. the (s_nodes t n)) refs)))) \<and>
    (\<forall>i refs. w = Some i \<longrightarrow> s_ways t i = Some refs \<longrightarrow>
      resolve_node_coords db (Some refs) = resolve_way_coords db w)"
proof -
  have l: "line_of t refs = (if length refs < 2 \<or> (\<exists>n\<in>set refs. s_nodes t n = None) then None
      else Some (map (\<lambda>n. the (s_nodes t n)) refs))" for refs
    using mapM_opt_None_iff [of "s_nodes t" refs] mapM_opt_total [of refs "s_nodes t" "\<lambda>n. the (s_nodes t n)"]
    by (auto simp: line_of_def)
  show ?thesis
    by (cases w)
      (auto simp: resolve_way_coords_repr [OF assms] resolve_node_coords_repr [OF assms] way_line_def l
        resolve_way_coords_def [of _ None] split: option.splits)
qed

theorem resolve_way_coords_spec_witness:
  "repr empty_kv empty_store \<and> resolve_way_coords empty_kv (Some 1) = Some None"
  using resolve_way_coords_spec [OF repr_empty, of "Some 1"] repr_empty by (simp add: empty_store_def)

end
