(* ===== verification/Civil.thy ===== *)
theory Civil
  imports Texts "HOL-Library.Signed_Division"
begin

text \<open>
  Calendar arithmetic: \<open>civil_from_days\<close> and \<open>format_rfc3339\<close> of
  \<open>src/server/jobs/mod.rs\<close>, and the specification both it and the PBF header's
  \<open>epoch_secs_to_iso8601\<close> are proved against: the proleptic Gregorian calendar given by
  month lengths and the leap-year rule, one day after another.
\<close>

section \<open>The calendar\<close>

definition leap :: "int \<Rightarrow> bool" where
  "leap y \<longleftrightarrow> 4 dvd y \<and> (\<not> 100 dvd y \<or> 400 dvd y)"

definition month_len :: "int \<Rightarrow> int \<Rightarrow> int" where
  "month_len y m = (if m = 2 then if leap y then 29 else 28
     else if m = 4 \<or> m = 6 \<or> m = 9 \<or> m = 11 then 30 else 31)"

fun next_day :: "int \<times> int \<times> int \<Rightarrow> int \<times> int \<times> int" where
  "next_day (y, m, d) =
     (if d < month_len y m then (y, m, d + 1)
      else if m < 12 then (y, m + 1, 1) else (y + 1, 1, 1))"

fun valid_date :: "int \<times> int \<times> int \<Rightarrow> bool" where
  "valid_date (y, m, d) \<longleftrightarrow> 1 \<le> m \<and> m \<le> 12 \<and> 1 \<le> d \<and> d \<le> month_len y m"

section \<open>The code\<close>

text \<open>\<open>/\<close> on \<open>i64\<close> truncates (\<open>sdiv\<close>); on the non-negative \<open>u64\<close> values it is \<open>div\<close>.\<close>

definition civil_raw :: "int \<Rightarrow> int \<times> int \<times> int" where
  "civil_raw z0 =
     (let z = z0 + 719468;
          era = (if 0 \<le> z then z else z - 146096) sdiv 146097;
          doe = z - era * 146097;
          yoe = (doe - doe div 1460 + doe div 36524 - doe div 146096) div 365;
          y = yoe + era * 400;
          doy = doe - (365 * yoe + yoe div 4 - yoe div 100);
          mp = (5 * doy + 2) div 153;
          d = doy - (153 * mp + 2) div 5 + 1;
          m = (if mp < 10 then mp + 3 else mp - 9)
      in (if m \<le> 2 then y + 1 else y, m, d))"

definition civil_from_days :: "int \<Rightarrow> int \<times> int \<times> int" where
  "civil_from_days z =
     (case civil_raw z of (y, m, d) \<Rightarrow>
        (sint (word_of_int y :: i32), uint (word_of_int m :: u32), uint (word_of_int d :: u32)))"

text \<open>The argument is the time since the epoch in whole seconds, 0 for an earlier time.\<close>

definition format_rfc3339 :: "u64 \<Rightarrow> string" where
  "format_rfc3339 t =
     (let secs = sint t;
          days = secs div 86400;
          sod = secs mod 86400;
          hour = sod div 3600;
          minute = (sod div 60) mod 60;
          second = sod mod 60
      in case civil_from_days days of (y, m, d) \<Rightarrow>
        fmt0 4 y @ ''-'' @ fmt0 2 m @ ''-'' @ fmt0 2 d @ ''T'' @
        fmt0 2 hour @ '':'' @ fmt0 2 minute @ '':'' @ fmt0 2 second @ ''Z'')"

section \<open>The 400-year era\<close>

definition year_of_era :: "int \<Rightarrow> int" where
  "year_of_era doe = (doe - doe div 1460 + doe div 36524 - doe div 146096) div 365"

definition year_start :: "int \<Rightarrow> int" where
  "year_start y = 365 * y + y div 4 - y div 100"

definition year_last :: "int \<Rightarrow> int" where
  "year_last y = (if y = 399 then 146096 else year_start (y + 1) - 1)"

definition month_day :: "int \<Rightarrow> int \<times> int" where
  "month_day doy = (let mp = (5 * doy + 2) div 153
     in (if mp < 10 then mp + 3 else mp - 9, doy - (153 * mp + 2) div 5 + 1))"

definition from_doy :: "int \<Rightarrow> int \<Rightarrow> int \<times> int \<times> int" where
  "from_doy y doy = (case month_day doy of (m, d) \<Rightarrow> (if m \<le> 2 then y + 1 else y, m, d))"

lemma div_mod_succ:
  fixes a k :: int
  assumes "0 < k"
  shows "a mod k + 1 < k \<Longrightarrow> (a + 1) div k = a div k \<and> (a + 1) mod k = a mod k + 1"
    "a mod k + 1 = k \<Longrightarrow> (a + 1) div k = a div k + 1 \<and> (a + 1) mod k = 0"
proof -
  have a: "a + 1 = k * (a div k) + (a mod k + 1)" by simp
  have p: "0 \<le> a mod k" "a mod k < k" using assms by simp_all
  show "a mod k + 1 < k \<Longrightarrow> (a + 1) div k = a div k \<and> (a + 1) mod k = a mod k + 1"
    using int_div_pos_eq [OF a] int_mod_pos_eq [OF a] p by simp
  assume e: "a mod k + 1 = k"
  have "a + 1 = k * (a div k) + k" using a by (simp only: e)
  then have a': "a + 1 = k * (a div k + 1) + 0" by (simp only: distrib_left)
  show "(a + 1) div k = a div k + 1 \<and> (a + 1) mod k = 0"
    using int_div_pos_eq [OF a'] int_mod_pos_eq [OF a'] assms by simp
qed

lemma div_succ_cases:
  fixes a k :: int
  assumes "0 < k"
  shows "(a + 1) div k = a div k \<or> (a + 1) div k = a div k + 1"
proof -
  have "a mod k < k" using assms by simp
  then consider "a mod k + 1 < k" | "a mod k + 1 = k" by linarith
  then show ?thesis using div_mod_succ [OF assms, of a] by cases auto
qed

lemma sub_quarter_mono: "c - c div 4 \<le> (c + 1) - (c + 1) div 4" for c :: int
  using div_succ_cases [of 4 c] by auto

lemma era_div: "(if 0 \<le> z then z else z - 146096) sdiv 146097 = (z :: int) div 146097"
proof (cases "0 \<le> z")
  case True
  then show ?thesis by (cases "z = 0") (simp_all add: signed_divide_int_def)
next
  case False
  have "146096 - z = 146097 * (- (z div 146097)) + (146096 - z mod 146097)"
    using mult_div_mod_eq [of 146097 z] by linarith
  moreover have "0 \<le> z mod 146097" "z mod 146097 < 146097" by simp_all
  ultimately have "(146096 - z) div 146097 = - (z div 146097)"
    by (intro int_div_pos_eq [where r = "146096 - z mod 146097"]) linarith+
  with False show ?thesis by (simp add: signed_divide_int_def)
qed

definition era_date :: "int \<Rightarrow> int \<Rightarrow> int \<times> int \<times> int" where
  "era_date era doe = from_doy (year_of_era doe + era * 400) (doe - year_start (year_of_era doe))"

lemma civil_raw_era_date: "civil_raw z = era_date ((z + 719468) div 146097) ((z + 719468) mod 146097)"
proof -
  have m: "w - w div 146097 * 146097 = w mod 146097" for w :: int
    by (rule minus_div_mult_eq_mod)
  show ?thesis
    unfolding civil_raw_def era_div Let_def m era_date_def from_doy_def month_day_def
      year_of_era_def year_start_def prod.case
    by (rule refl)
qed

lemma year_of_era_step: "year_of_era a \<le> year_of_era (a + 1)"
proof -
  have 4: "b div 146096 = b div 36524 div 4" for b :: int
    by (simp add: zdiv_zmult2_eq [symmetric])
  have "(a + 1) div 1460 \<le> a div 1460 + 1" using div_succ_cases [of 1460 a] by auto
  moreover have "a div 36524 - a div 36524 div 4 \<le> (a + 1) div 36524 - (a + 1) div 36524 div 4"
    using div_succ_cases [of 36524 a] sub_quarter_mono [of "a div 36524"] by auto
  ultimately have "a - a div 1460 + a div 36524 - a div 146096
      \<le> (a + 1) - (a + 1) div 1460 + (a + 1) div 36524 - (a + 1) div 146096"
    unfolding 4 by linarith
  then show ?thesis unfolding year_of_era_def by (rule zdiv_mono1) simp
qed

lemma year_of_era_mono: "a \<le> b \<Longrightarrow> year_of_era a \<le> year_of_era b"
proof (induction "nat (b - a)" arbitrary: b)
  case 0
  then show ?case by simp
next
  case (Suc n)
  then have "n = nat ((b - 1) - a)" "a \<le> b - 1" by auto
  with Suc.hyps(1) [of "b - 1"] year_of_era_step [of "b - 1"] show ?case by simp
qed

definition year_checks :: "int \<Rightarrow> bool" where
  "year_checks y \<longleftrightarrow> year_of_era (year_start y) = y \<and> year_of_era (year_last y) = y
     \<and> year_last y - year_start y = (if leap (y + 1) then 365 else 364)
     \<and> (y < 399 \<longrightarrow> year_start (y + 1) = year_last y + 1)"

lemma all_years: "list_all year_checks [0..399]"
  by code_simp

lemma year_checks: "0 \<le> y \<Longrightarrow> y < 400 \<Longrightarrow> year_checks y"
  using all_years by (auto simp: list_all_iff)

text \<open>Every day of the era lies in the year the code computes for it.\<close>

lemma year_of_era_range:
  assumes "0 \<le> doe" "doe < 146097"
  shows "0 \<le> year_of_era doe" "year_of_era doe < 400"
proof -
  have "year_of_era 0 = 0" "year_of_era 146096 = 399" by (simp_all add: year_of_era_def)
  then show "0 \<le> year_of_era doe" "year_of_era doe < 400"
    using assms year_of_era_mono [of 0 doe] year_of_era_mono [of doe 146096] by simp_all
qed

lemma year_of_era_bounds:
  assumes "0 \<le> doe" "doe < 146097"
  defines "y \<equiv> year_of_era doe"
  shows "year_start y \<le> doe" "doe \<le> year_last y"
proof -
  note r = year_of_era_range [OF assms(1,2), folded y_def]
  have "\<not> doe < year_start y"
  proof
    assume l: "doe < year_start y"
    then have "y \<noteq> 0" using assms(1) by (auto simp: year_start_def)
    with r have 1: "year_checks (y - 1)" "0 \<le> y - 1" "y - 1 < 399" by (auto intro: year_checks)
    then have "doe \<le> year_last (y - 1)" using l by (auto simp: year_checks_def)
    then have "y \<le> y - 1"
      using year_of_era_mono [of doe "year_last (y - 1)"] 1 by (simp add: year_checks_def y_def)
    then show False by simp
  qed
  then show "year_start y \<le> doe" by simp
  have "\<not> year_last y < doe"
  proof
    assume l: "year_last y < doe"
    have "y \<noteq> 399" using l assms(2) by (auto simp: year_last_def)
    with r have 1: "year_checks y" "year_checks (y + 1)" "y < 399" by (auto intro: year_checks)
    then have "year_start (y + 1) \<le> doe" using l by (auto simp: year_checks_def)
    then have "y + 1 \<le> y"
      using year_of_era_mono [of "year_start (y + 1)" doe] 1 by (simp add: year_checks_def y_def)
    then show False by simp
  qed
  then show "doe \<le> year_last y" by simp
qed

lemma year_of_era_unique:
  assumes "0 \<le> y" "y < 400" "year_start y \<le> doe" "doe \<le> year_last y"
  shows "year_of_era doe = y"
  using year_checks [OF assms(1,2)] year_of_era_mono [OF assms(3)] year_of_era_mono [OF assms(4)]
  by (simp add: year_checks_def)

section \<open>Days within a year\<close>

definition day_checks :: "int \<Rightarrow> bool" where
  "day_checks doy \<longleftrightarrow>
     (case (month_day doy, month_day (doy + 1)) of ((m, d), (m', d')) \<Rightarrow>
        1 \<le> m \<and> m \<le> 12 \<and> 1 \<le> d \<and>
        (if m = 2 then m' = 2 \<and> d' = d + 1 \<and> d = doy - 336
         else let l = (if m = 4 \<or> m = 6 \<or> m = 9 \<or> m = 11 then 30 else 31)
              in if d < l then m' = m \<and> d' = d + 1
                 else d = l \<and> d' = 1 \<and> m' = (if m = 12 then 1 else m + 1)))"

lemma all_days: "list_all day_checks [0..364]"
  by code_simp

lemma day_checks: "0 \<le> doy \<Longrightarrow> doy < 365 \<Longrightarrow> day_checks doy"
  using all_days by (auto simp: list_all_iff)

lemma month_day_ends: "month_day 0 = (3, 1)" "month_day 364 = (2, 28)" "month_day 365 = (2, 29)"
  by (simp_all add: month_day_def)

lemma next_day_within:
  assumes "0 \<le> doy" "doy < (if leap (y + 1) then 365 else 364)"
  shows "next_day (from_doy y doy) = from_doy y (doy + 1) \<and> valid_date (from_doy y doy)"
proof -
  obtain m d m' d' where md: "month_day doy = (m, d)" "month_day (doy + 1) = (m', d')"
    by (metis surj_pair)
  have "day_checks doy" using assms by (intro day_checks) (auto split: if_splits)
  with assms show ?thesis
    by (auto simp: day_checks_def md from_doy_def month_len_def Let_def split: if_splits)
qed

lemma next_day_year_end:
  assumes "doy = (if leap (y + 1) then 365 else 364)"
  shows "next_day (from_doy y doy) = from_doy (y + 1) 0 \<and> valid_date (from_doy y doy)"
  using assms by (auto simp: from_doy_def month_day_ends month_len_def)

lemma leap_mod_400: "leap (y + c * 400) = leap y"
proof -
  have "k dvd c * 400" if "k dvd 400" for k :: int using that by (rule dvd_mult)
  then have "(4::int) dvd y + c * 400 \<longleftrightarrow> 4 dvd y" "(100::int) dvd y + c * 400 \<longleftrightarrow> 100 dvd y"
    "(400::int) dvd y + c * 400 \<longleftrightarrow> 400 dvd y"
    by (simp_all add: dvd_add_left_iff)
  then show ?thesis by (simp add: leap_def)
qed

lemma era_date_within:
  assumes "0 \<le> doe" "doe < 146096"
  shows "next_day (era_date era doe) = era_date era (doe + 1) \<and> valid_date (era_date era doe)"
proof -
  define y where "y = year_of_era doe"
  have d: "0 \<le> doe" "doe < 146097" using assms by simp_all
  note r = year_of_era_range [OF d, folded y_def] and b = year_of_era_bounds [OF d, folded y_def]
  have c: "year_checks y" using r by (rule year_checks)
  have lp: "leap (y + era * 400 + 1) = leap (y + 1)"
    using leap_mod_400 [of "y + 1" era] by (simp add: ac_simps)
  have now: "era_date era doe = from_doy (y + era * 400) (doe - year_start y)"
    by (simp add: era_date_def y_def)
  show ?thesis
  proof (cases "doe = year_last y")
    case False
    then have y': "year_of_era (doe + 1) = y" using b r by (intro year_of_era_unique) auto
    have "0 \<le> doe - year_start y"
      "doe - year_start y < (if leap (y + era * 400 + 1) then 365 else 364)"
      using b c False by (auto simp: year_checks_def lp)
    from next_day_within [OF this] show ?thesis
      unfolding now by (simp only: era_date_def y' diff_add_eq)
  next
    case True
    then have "y \<noteq> 399" using assms by (auto simp: year_last_def)
    then have c': "year_checks (y + 1)" "y < 399" using r by (auto intro: year_checks)
    then have e: "doe + 1 = year_start (y + 1)" using True c by (simp add: year_checks_def)
    then have y': "year_of_era (doe + 1) = y + 1" using c' by (simp add: year_checks_def)
    have nxt: "era_date era (doe + 1) = from_doy (y + era * 400 + 1) 0"
      unfolding era_date_def y' unfolding e by (simp add: ac_simps)
    have "doe - year_start y = (if leap (y + era * 400 + 1) then 365 else 364)"
      using True c by (auto simp: year_checks_def lp)
    from next_day_year_end [OF this] show ?thesis unfolding now nxt .
  qed
qed

lemma era_date_last:
  "next_day (era_date era 146096) = era_date (era + 1) 0 \<and> valid_date (era_date era 146096)"
proof -
  have now: "era_date era 146096 = from_doy (399 + era * 400) 365"
    by (simp add: era_date_def year_of_era_def year_start_def)
  have nxt: "era_date (era + 1) 0 = from_doy (399 + era * 400 + 1) 0"
    by (simp add: era_date_def year_of_era_def year_start_def algebra_simps)
  have "leap (399 + era * 400 + 1)"
    using leap_mod_400 [of 400 era] by (simp add: leap_def add.commute)
  then have "365 = (if leap (399 + era * 400 + 1) then 365 else 364 :: int)" by simp
  from next_day_year_end [OF this] show ?thesis unfolding now nxt .
qed

lemma civil_raw_step: "civil_raw (z + 1) = next_day (civil_raw z) \<and> valid_date (civil_raw z)"
proof -
  define w where "w = z + 719468"
  have w1: "z + 1 + 719468 = w + 1" by (simp add: w_def)
  have m: "0 \<le> w mod 146097" "w mod 146097 < 146097" by simp_all
  show ?thesis
  proof (cases "w mod 146097 = 146096")
    case True
    then have "(w + 1) div 146097 = w div 146097 + 1" "(w + 1) mod 146097 = 0"
      using div_mod_succ(2) [of 146097 w] by simp_all
    then show ?thesis
      using era_date_last [of "w div 146097"] True
      unfolding civil_raw_era_date w1 w_def [symmetric] by simp
  next
    case False
    then have "(w + 1) div 146097 = w div 146097" "(w + 1) mod 146097 = w mod 146097 + 1"
      using div_mod_succ(1) [of 146097 w] m by simp_all
    then show ?thesis
      using era_date_within [of "w mod 146097" "w div 146097"] False m
      unfolding civil_raw_era_date w1 w_def [symmetric] by simp
  qed
qed

lemma civil_raw_epoch: "civil_raw 0 = (1970, 1, 1)"
  by (simp add: civil_raw_era_date era_date_def year_of_era_def year_start_def from_doy_def
      month_day_def)

section \<open>What is printed\<close>

text \<open>The date \<open>n\<close> days after 1 January 1970, and the text of a time in whole seconds.\<close>

definition calendar :: "nat \<Rightarrow> int \<times> int \<times> int" where
  "calendar n = (next_day ^^ n) (1970, 1, 1)"

definition utc_text :: "nat \<Rightarrow> string" where
  "utc_text t =
     (case calendar (t div 86400) of (y, m, d) \<Rightarrow>
        fmt0 4 y @ ''-'' @ fmt0 2 m @ ''-'' @ fmt0 2 d @ ''T'' @
        fmt0 2 (int (t mod 86400 div 3600)) @ '':'' @
        fmt0 2 (int (t mod 3600 div 60)) @ '':'' @ fmt0 2 (int (t mod 60)) @ ''Z'')"

lemma civil_raw_calendar: "civil_raw (int n) = calendar n"
proof (induction n)
  case 0
  then show ?case by (simp add: civil_raw_epoch calendar_def)
next
  case (Suc n)
  have "civil_raw (int n + 1) = next_day (civil_raw (int n))" using civil_raw_step by blast
  with Suc show ?case by (simp add: calendar_def add.commute)
qed

lemma civil_raw_valid: "valid_date (civil_raw z)"
  using civil_raw_step by blast

lemma civil_raw_year:
  assumes "0 \<le> z" "z < 2 ^ 39" "civil_raw z = (y, m, d)"
  shows "0 \<le> y" "y < 2 ^ 31" "1 \<le> m" "m \<le> 12" "1 \<le> d" "d \<le> 31"
proof -
  define q r where "q = (z + 719468) div 146097" and "r = (z + 719468) mod 146097"
  have r: "0 \<le> r" "r < 146097" by (simp_all add: r_def)
  have q: "0 \<le> q" using assms by (simp add: q_def)
  have "z + 719468 = 146097 * q + r" by (simp add: q_def r_def)
  then have q2: "146097 * q \<le> 549756533356" using assms(2) r(1) by simp
  have e: "era_date q r = (y, m, d)"
    using assms(3) by (simp only: civil_raw_era_date q_def r_def)
  have "0 \<le> year_of_era r \<and> year_of_era r < 400"
    using year_of_era_range [OF r] by simp
  moreover have "y = year_of_era r + q * 400 \<or> y = year_of_era r + q * 400 + 1"
    using e by (auto simp: era_date_def from_doy_def split: prod.splits if_splits)
  ultimately show "0 \<le> y" "y < 2 ^ 31" using q q2 by auto
  have "valid_date (y, m, d)" using civil_raw_valid [of z] assms(3) by simp
  then show "1 \<le> m" "m \<le> 12" "1 \<le> d" "d \<le> 31"
    by (auto simp: month_len_def split: if_splits)
qed

lemma civil_from_days_raw:
  assumes "0 \<le> z" "z < 2 ^ 39"
  shows "civil_from_days z = civil_raw z"
proof -
  obtain y m d where c: "civil_raw z = (y, m, d)" by (metis prod_cases3)
  note b = civil_raw_year [OF assms c]
  have "sint (word_of_int y :: i32) = y" using b(1,2)
    by (simp add: sint_sbintrunc' signed_take_bit_int_eq_self)
  moreover have "uint (word_of_int m :: u32) = m" "uint (word_of_int d :: u32) = d"
    using b by (simp_all add: uint_word_of_int)
  ultimately show ?thesis by (simp add: civil_from_days_def c)
qed

end
