(* ===== verification/Pbf_Header.thy ===== *)
theory Pbf_Header
  imports Civil Encoding
begin

unbundle bit_operations_syntax

text \<open>
  \<open>src/osm/pbf_header.rs\<close>: the hand-written protobuf reader that takes the replication
  sequence and timestamp out of a PBF extract's header block. The cursor is part of every
  result because the code advances it on failing reads too. Results are
  \<open>'a option option\<close>: the outer \<open>None\<close> is a panic (a slice out of range or an
  arithmetic overflow), the inner one is the function's own \<open>None\<close>. zlib is a parameter.
\<close>

section \<open>Varints and fields\<close>

function read_varint_from :: "byte list \<Rightarrow> nat \<Rightarrow> u64 \<Rightarrow> nat \<Rightarrow> u64 option \<times> nat" where
  "read_varint_from bs pos result shift =
     (if pos < length bs then
        let b = bs ! pos;
            result' = result OR push_bit shift (ucast (b AND 0x7F))
        in if b AND 0x80 = 0 then (Some result', Suc pos)
           else if 64 \<le> shift + 7 then (None, Suc pos)
           else read_varint_from bs (Suc pos) result' (shift + 7)
      else (None, pos))"
  by pat_completeness auto
termination
  by (relation "measure (\<lambda>(bs, pos, result, shift). length bs - pos)") auto

declare read_varint_from.simps [simp del]

definition read_varint :: "byte list \<Rightarrow> nat \<Rightarrow> u64 option \<times> nat" where
  "read_varint bs pos = read_varint_from bs pos 0 0"

definition checked_add :: "nat \<Rightarrow> nat \<Rightarrow> nat option" where
  "checked_add a b = (if a + b < 2 ^ 64 then Some (a + b) else None)"

definition skip_field :: "byte list \<Rightarrow> nat \<Rightarrow> u64 \<Rightarrow> bool \<times> nat" where
  "skip_field bs pos wire =
     (if wire = 0 then (case read_varint bs pos of (v, p) \<Rightarrow> (v \<noteq> None, p))
      else if wire = 1 then
        (case checked_add pos 8 of None \<Rightarrow> (False, pos) | Some p \<Rightarrow> (True, p))
      else if wire = 2 then
        (case read_varint bs pos of
           (None, p) \<Rightarrow> (False, p)
         | (Some len, p) \<Rightarrow>
             (case checked_add p (unat len) of None \<Rightarrow> (False, p) | Some p' \<Rightarrow> (True, p')))
      else if wire = 5 then
        (case checked_add pos 4 of None \<Rightarrow> (False, pos) | Some p \<Rightarrow> (True, p))
      else (False, pos))"

lemma read_varint_from_pos: "pos \<le> snd (read_varint_from bs pos r s)"
proof (induction bs pos r s rule: read_varint_from.induct)
  case (1 bs pos r s)
  then show ?case
    by (subst read_varint_from.simps) (force simp: Let_def dest: Suc_leD)
qed

lemma read_varint_from_progress: "pos < length bs \<Longrightarrow> pos < snd (read_varint_from bs pos r s)"
proof -
  have "Suc pos \<le> snd (read_varint_from bs (Suc pos) r' s')" for r' s'
    by (rule read_varint_from_pos)
  then show "pos < length bs \<Longrightarrow> pos < snd (read_varint_from bs pos r s)"
    by (subst read_varint_from.simps) (auto simp: Let_def Suc_le_eq)
qed

lemma read_varint_pos: "read_varint bs pos = (v, p) \<Longrightarrow> pos \<le> p"
  using read_varint_from_pos [where bs = bs and pos = pos and r = 0 and s = 0]
  by (simp add: read_varint_def)

lemma read_varint_progress: "pos < length bs \<Longrightarrow> read_varint bs pos = (v, p) \<Longrightarrow> pos < p"
  using read_varint_from_progress [where bs = bs and pos = pos and r = 0 and s = 0]
  by (simp add: read_varint_def)

lemma read_varint_Some_progress: "read_varint bs pos = (Some v, p) \<Longrightarrow> pos < p"
proof -
  assume r: "read_varint bs pos = (Some v, p)"
  then have "pos < length bs"
    by (subst (asm) read_varint_def, subst (asm) read_varint_from.simps) (auto split: if_splits)
  then show "pos < p" using r by (rule read_varint_progress)
qed

lemma skip_field_pos: "skip_field bs pos w = (ok, p) \<Longrightarrow> pos \<le> p"
  by (auto simp: skip_field_def checked_add_def dest!: read_varint_pos
      split: if_splits prod.splits option.splits)

lemmas reader_progress =
  read_varint_Some_progress [OF sym] read_varint_pos [OF sym] skip_field_pos [OF sym]

section \<open>The blob header\<close>

text \<open>\<open>String::from_utf8_lossy\<close> is the identity on ASCII and never yields an ASCII text from
  other bytes, so the type string is kept as its bytes.\<close>

function parse_blob_header_from ::
  "byte list \<Rightarrow> nat \<Rightarrow> byte list option \<Rightarrow> nat option \<Rightarrow> (byte list \<times> nat) option option" where
  "parse_blob_header_from bs pos type_str datasize =
     (if pos < length bs then
        (case read_varint bs pos of
           (None, p) \<Rightarrow> Some None
         | (Some tag, p) \<Rightarrow>
             if drop_bit 3 tag = 1 \<and> tag AND 7 = 2 then
               (case read_varint bs p of
                  (None, p2) \<Rightarrow> Some None
                | (Some len, p2) \<Rightarrow>
                    (case slice bs p2 (p2 + unat len) of
                       None \<Rightarrow> None
                     | Some s \<Rightarrow> parse_blob_header_from bs (p2 + unat len) (Some s) datasize))
             else if drop_bit 3 tag = 3 \<and> tag AND 7 = 0 then
               (case read_varint bs p of
                  (None, p2) \<Rightarrow> Some None
                | (Some v, p2) \<Rightarrow> parse_blob_header_from bs p2 type_str (Some (unat v)))
             else
               (case skip_field bs p (tag AND 7) of
                  (False, p2) \<Rightarrow> Some None
                | (True, p2) \<Rightarrow> parse_blob_header_from bs p2 type_str datasize))
      else
        (case type_str of None \<Rightarrow> Some None
         | Some t \<Rightarrow> (case datasize of None \<Rightarrow> Some None | Some n \<Rightarrow> Some (Some (t, n)))))"
  by pat_completeness auto
termination
  by (relation "measure (\<lambda>(bs, pos, t, d). length bs - pos)")
    (fastforce dest: reader_progress)+

definition parse_blob_header :: "byte list \<Rightarrow> (byte list \<times> nat) option option" where
  "parse_blob_header bs = parse_blob_header_from bs 0 None None"

section \<open>The blob\<close>

function decode_blob_from ::
  "(byte list \<Rightarrow> byte list option) \<Rightarrow> byte list \<Rightarrow> nat \<Rightarrow> byte list option option" where
  "decode_blob_from inflate bs pos =
     (if pos < length bs then
        (case read_varint bs pos of
           (None, p) \<Rightarrow> Some None
         | (Some tag, p) \<Rightarrow>
             if drop_bit 3 tag = 1 \<and> tag AND 7 = 2 then
               (case read_varint bs p of
                  (None, p2) \<Rightarrow> Some None
                | (Some len, p2) \<Rightarrow> map_option Some (slice bs p2 (p2 + unat len)))
             else if drop_bit 3 tag = 3 \<and> tag AND 7 = 2 then
               (case read_varint bs p of
                  (None, p2) \<Rightarrow> Some None
                | (Some len, p2) \<Rightarrow> map_option inflate (slice bs p2 (p2 + unat len)))
             else
               (case skip_field bs p (tag AND 7) of
                  (False, p2) \<Rightarrow> Some None
                | (True, p2) \<Rightarrow> decode_blob_from inflate bs p2))
      else Some None)"
  by pat_completeness auto
termination
  by (relation "measure (\<lambda>(inflate, bs, pos). length bs - pos)")
    (fastforce dest: reader_progress)+

definition decode_blob :: "(byte list \<Rightarrow> byte list option) \<Rightarrow> byte list \<Rightarrow> byte list option option" where
  "decode_blob inflate bs = decode_blob_from inflate bs 0"

section \<open>The header block\<close>

function parse_header_from ::
  "byte list \<Rightarrow> nat \<Rightarrow> i64 option \<Rightarrow> i64 option \<Rightarrow> i64 option \<times> i64 option" where
  "parse_header_from bs pos sq ts_secs =
     (if pos < length bs then
        (case read_varint bs pos of
           (None, p) \<Rightarrow> (sq, ts_secs)
         | (Some tag, p) \<Rightarrow>
             if drop_bit 3 tag = 32 \<and> tag AND 7 = 0 then
               (case read_varint bs p of
                  (v, p2) \<Rightarrow> parse_header_from bs p2 sq (Some (case v of None \<Rightarrow> 0 | Some x \<Rightarrow> x)))
             else if drop_bit 3 tag = 33 \<and> tag AND 7 = 0 then
               (case read_varint bs p of
                  (v, p2) \<Rightarrow> parse_header_from bs p2 (Some (case v of None \<Rightarrow> 0 | Some x \<Rightarrow> x)) ts_secs)
             else
               (case skip_field bs p (tag AND 7) of
                  (_, p2) \<Rightarrow> parse_header_from bs p2 sq ts_secs))
      else (sq, ts_secs))"
  by pat_completeness auto
termination
  by (relation "measure (\<lambda>(bs, pos, s, t). length bs - pos)")
    (fastforce dest: reader_progress)+

definition parse_header_block_replication :: "byte list \<Rightarrow> i64 option \<times> i64 option" where
  "parse_header_block_replication bs = parse_header_from bs 0 None None"

section \<open>The timestamp\<close>

definition in_i64 :: "int \<Rightarrow> bool" where
  "in_i64 z \<longleftrightarrow> - (2 ^ 63) \<le> z \<and> z < 2 ^ 63"

text \<open>\<open>None\<close> is the overflow panic of \<open>secs - time_of_day\<close>, the only one possible.\<close>

definition epoch_secs_to_iso8601 :: "i64 \<Rightarrow> string option" where
  "epoch_secs_to_iso8601 w =
     (let secs = sint w;
          time_of_day = secs mod 86400
      in if \<not> in_i64 (secs - time_of_day) then None else
      let days = (secs - time_of_day) sdiv 86400;
          z = days + 719468;
          era = (if 0 \<le> z then z else z - 146096) sdiv 146097;
          doe = z - era * 146097;
          yoe = (doe - doe div 1460 + doe div 36524 - doe div 146096) div 365;
          y = yoe + era * 400;
          doy = doe - (365 * yoe + yoe div 4 - yoe div 100);
          mp = (5 * doy + 2) div 153;
          d = doy - (153 * mp + 2) div 5 + 1;
          m = (if mp < 10 then mp + 3 else mp - 9);
          y' = (if m \<le> 2 then y + 1 else y);
          h = time_of_day div 3600;
          mi = (time_of_day mod 3600) div 60;
          s = time_of_day mod 60
      in Some (fmt0 4 y' @ ''-'' @ fmt0 2 m @ ''-'' @ fmt0 2 d @ ''T'' @
           fmt0 2 h @ '':'' @ fmt0 2 mi @ '':'' @ fmt0 2 s @ ''Z''))"

section \<open>Reading a file\<close>

datatype pbf_error = OpenFailed | ShortRead | BadBlobHeader | NotOsmHeader "byte list" | BadBlob

definition read_exact :: "byte list \<Rightarrow> nat \<Rightarrow> nat \<Rightarrow> byte list option" where
  "read_exact file off n = (if off + n \<le> length file then Some (take n (drop off file)) else None)"

definition OSM_HEADER :: "byte list" where
  "OSM_HEADER = map (of_nat \<circ> of_char) ''OSMHeader''"

text \<open>The file is \<open>None\<close> when it cannot be opened; the outer \<open>None\<close> of the result is a panic.\<close>

definition read_replication_info ::
  "(byte list \<Rightarrow> byte list option) \<Rightarrow> byte list option \<Rightarrow> (pbf_error + (i64 \<times> string) option) option" where
  "read_replication_info inflate path =
     (case path of None \<Rightarrow> Some (Inl OpenFailed)
      | Some file \<Rightarrow>
     (case read_exact file 0 4 of None \<Rightarrow> Some (Inl ShortRead)
      | Some len_buf \<Rightarrow>
        let header_len = unat (of_be_bytes len_buf :: u32) in
     (case read_exact file 4 header_len of None \<Rightarrow> Some (Inl ShortRead)
      | Some header_data \<Rightarrow>
     (case parse_blob_header header_data of
        None \<Rightarrow> None
      | Some None \<Rightarrow> Some (Inl BadBlobHeader)
      | Some (Some (block_type, data_size)) \<Rightarrow>
          if block_type \<noteq> OSM_HEADER then Some (Inl (NotOsmHeader block_type)) else
     (case read_exact file (4 + header_len) data_size of None \<Rightarrow> Some (Inl ShortRead)
      | Some blob_data \<Rightarrow>
     (case decode_blob inflate blob_data of
        None \<Rightarrow> None
      | Some None \<Rightarrow> Some (Inl BadBlob)
      | Some (Some header_block) \<Rightarrow>
     (case parse_header_block_replication header_block of
        (Some sq, Some ts) \<Rightarrow> map_option (\<lambda>t. Inr (Some (sq, t))) (epoch_secs_to_iso8601 ts)
      | _ \<Rightarrow> Some (Inr None))))))))"

section \<open>The two varint readers agree\<close>

lemma read_varint_from_get:
  "s < 64 \<Longrightarrow>
   get_uvarint_from bs pos r s =
     (case read_varint_from bs pos r s of (None, p) \<Rightarrow> None | (Some v, p) \<Rightarrow> Some (v, p))"
proof (induction bs pos r s rule: read_varint_from.induct)
  case (1 bs pos r s)
  let ?r = "r OR push_bit s (ucast (bs ! pos AND 0x7F))"
  have stop: "get_uvarint_from bs (Suc pos) ?r (s + 7) = None" if "64 \<le> s + 7"
    using that by (subst get_uvarint_from.simps) (simp add: Let_def)
  show ?case
  proof (cases "pos < length bs \<and> bs ! pos AND 0x80 \<noteq> 0 \<and> s + 7 < 64")
    case True
    then show ?thesis
      using "1.IH" [of "bs ! pos" ?r]
      by (subst get_uvarint_from.simps, subst read_varint_from.simps) (simp add: Let_def)
  next
    case False
    then show ?thesis
      using "1.prems" stop
      by (subst get_uvarint_from.simps, subst read_varint_from.simps) (auto simp: Let_def not_less)
  qed
qed

lemma read_varint_get:
  "get_uvarint bs pos = (case read_varint bs pos of (None, p) \<Rightarrow> None | (Some v, p) \<Rightarrow> Some (v, p))"
  by (simp add: get_uvarint_def read_varint_def read_varint_from_get)

lemma read_varint_put [byte_simps]:
  "read_varint (pre @ put_uvarint [] v @ post) (length pre)
     = (Some v, length pre + length (put_uvarint [] v))"
  using read_varint_get [of "pre @ put_uvarint [] v @ post" "length pre"]
  by (auto simp: get_uvarint_put split: prod.splits option.splits)

lemma put_uvarint_pos: "0 < length (put_uvarint [] v)"
  using put_uvarint_append [of "[ucast v OR 0x80]" "drop_bit 7 v"]
  by (cases "0x80 \<le> v") (simp_all add: put_uvarint_ge put_uvarint_lt)

section \<open>The wire format written out\<close>

text \<open>A protobuf field as the PBF format writes it: its number and its payload.\<close>

datatype pbf_field =
    Varint_Field u64 u64
  | Fixed64_Field u64 "byte list"
  | Bytes_Field u64 "byte list"
  | Fixed32_Field u64 "byte list"

fun field_num :: "pbf_field \<Rightarrow> u64" where
  "field_num (Varint_Field n v) = n"
| "field_num (Fixed64_Field n b) = n"
| "field_num (Bytes_Field n b) = n"
| "field_num (Fixed32_Field n b) = n"

fun field_wire :: "pbf_field \<Rightarrow> u64" where
  "field_wire (Varint_Field n v) = 0"
| "field_wire (Fixed64_Field n b) = 1"
| "field_wire (Bytes_Field n b) = 2"
| "field_wire (Fixed32_Field n b) = 5"

fun field_body :: "pbf_field \<Rightarrow> byte list" where
  "field_body (Varint_Field n v) = put_uvarint [] v"
| "field_body (Fixed64_Field n b) = b"
| "field_body (Bytes_Field n b) = put_uvarint [] (of_nat (length b)) @ b"
| "field_body (Fixed32_Field n b) = b"

definition field_tag :: "pbf_field \<Rightarrow> byte list" where
  "field_tag f = put_uvarint [] (push_bit 3 (field_num f) OR field_wire f)"

definition field_bytes :: "pbf_field \<Rightarrow> byte list" where
  "field_bytes f = field_tag f @ field_body f"

fun field_ok :: "pbf_field \<Rightarrow> bool" where
  "field_ok (Varint_Field n v) \<longleftrightarrow> n < 2 ^ 61"
| "field_ok (Fixed64_Field n b) \<longleftrightarrow> n < 2 ^ 61 \<and> length b = 8"
| "field_ok (Bytes_Field n b) \<longleftrightarrow> n < 2 ^ 61"
| "field_ok (Fixed32_Field n b) \<longleftrightarrow> n < 2 ^ 61 \<and> length b = 4"

lemma seven: "(7 :: u64) = mask 3"
  by (simp add: mask_eq_exp_minus_1)

lemma tag_bits:
  assumes "n < (2 ^ 61 :: u64)" "w < (8 :: u64)"
  shows "drop_bit 3 (push_bit 3 n OR w) = n" "(push_bit 3 n OR w) AND 7 = w"
proof -
  have "unat n < unat (2 ^ 61 :: u64)" using assms(1) by (simp only: word_less_nat_alt)
  then have n: "take_bit 61 n = n" by (intro take_bit_small) simp
  have bn: "bit n k \<Longrightarrow> k < 61" for k using n by (metis bit_take_bit_iff)
  have "unat w < unat (8 :: u64)" using assms(2) by (simp only: word_less_nat_alt)
  then have w: "take_bit 3 w = w" by (intro take_bit_small) simp
  have bw: "bit w k \<Longrightarrow> k < 3" for k using w by (metis bit_take_bit_iff)
  show "drop_bit 3 (push_bit 3 n OR w) = n"
    by (rule bit_word_eqI)
      (auto simp: bit_drop_bit_eq bit_or_iff bit_push_bit_iff dest: bn bw)
  show "(push_bit 3 n OR w) AND 7 = w"
    unfolding seven
    by (rule bit_word_eqI) (auto simp: bit_and_iff bit_or_iff bit_push_bit_iff bit_mask_iff dest: bw)
qed

lemma field_num_ok: "field_ok f \<Longrightarrow> field_num f < 2 ^ 61"
  by (cases f) auto

lemma field_wire_less: "field_wire f < 8"
  by (cases f) auto

lemma field_tag_bits:
  assumes "field_ok f"
  shows "drop_bit 3 (push_bit 3 (field_num f) OR field_wire f) = field_num f"
    "(push_bit 3 (field_num f) OR field_wire f) AND 7 = field_wire f"
  by (rule tag_bits [OF field_num_ok [OF assms] field_wire_less])+

lemma read_tag:
  "read_varint (pre @ field_bytes f @ post) (length pre)
     = (Some (push_bit 3 (field_num f) OR field_wire f), length pre + length (field_tag f))"
  using read_varint_put [of pre _ "field_body f @ post"]
  by (simp add: field_bytes_def field_tag_def)

lemma read_body_varint:
  "read_varint (pre @ field_bytes (Varint_Field n v) @ post)
      (length pre + length (field_tag (Varint_Field n v)))
     = (Some v, length (pre @ field_bytes (Varint_Field n v)))"
  using read_varint_put [of "pre @ field_tag (Varint_Field n v)" v post]
  by (simp add: field_bytes_def)

lemma read_body_length:
  assumes "length b < 2 ^ 64"
  shows "read_varint (pre @ field_bytes (Bytes_Field n b) @ post)
      (length pre + length (field_tag (Bytes_Field n b)))
     = (Some (of_nat (length b)), length (pre @ field_bytes (Bytes_Field n b)) - length b)"
    "unat (of_nat (length b) :: u64) = length b"
    "slice (pre @ field_bytes (Bytes_Field n b) @ post)
      (length pre + length (field_bytes (Bytes_Field n b)) - length b)
      (length pre + length (field_bytes (Bytes_Field n b))) = Some b"
proof -
  show "read_varint (pre @ field_bytes (Bytes_Field n b) @ post)
      (length pre + length (field_tag (Bytes_Field n b)))
     = (Some (of_nat (length b)), length (pre @ field_bytes (Bytes_Field n b)) - length b)"
    using read_varint_put [of "pre @ field_tag (Bytes_Field n b)" "of_nat (length b)" "b @ post"]
    by (simp add: field_bytes_def)
  show "unat (of_nat (length b) :: u64) = length b"
    using assms by (simp add: unsigned_of_nat take_bit_nat_eq_self)
  show "slice (pre @ field_bytes (Bytes_Field n b) @ post)
      (length pre + length (field_bytes (Bytes_Field n b)) - length b)
      (length pre + length (field_bytes (Bytes_Field n b))) = Some b"
    by (simp add: slice_def field_bytes_def)
qed

lemma skip_whole_field:
  assumes "field_ok f" "length (pre @ field_bytes f @ post) < 2 ^ 64"
  shows "skip_field (pre @ field_bytes f @ post) (length pre + length (field_tag f)) (field_wire f)
     = (True, length (pre @ field_bytes f))"
proof (cases f)
  case (Varint_Field n v)
  then show ?thesis by (simp add: skip_field_def read_body_varint)
next
  case (Fixed64_Field n b)
  then show ?thesis using assms by (simp add: skip_field_def checked_add_def field_bytes_def)
next
  case (Bytes_Field n b)
  have "length b < 2 ^ 64" using assms by (simp add: Bytes_Field field_bytes_def)
  from read_body_length(1,2) [OF this] show ?thesis
    using assms by (simp add: Bytes_Field skip_field_def checked_add_def field_bytes_def)
next
  case (Fixed32_Field n b)
  then show ?thesis using assms by (simp add: skip_field_def checked_add_def field_bytes_def)
qed

declare parse_header_from.simps [simp del] parse_blob_header_from.simps [simp del]
  decode_blob_from.simps [simp del]

section \<open>What the readers take from a message\<close>

fun note_replication :: "i64 option \<times> i64 option \<Rightarrow> pbf_field \<Rightarrow> i64 option \<times> i64 option" where
  "note_replication (sq, ts) (Varint_Field n v) =
     (if n = 32 then (sq, Some v) else if n = 33 then (Some v, ts) else (sq, ts))"
| "note_replication (sq, ts) f = (sq, ts)"

fun note_blob_header :: "byte list option \<times> nat option \<Rightarrow> pbf_field \<Rightarrow> byte list option \<times> nat option" where
  "note_blob_header (t, d) (Bytes_Field n b) = (if n = 1 then (Some b, d) else (t, d))"
| "note_blob_header (t, d) (Varint_Field n v) = (if n = 3 then (t, Some (unat v)) else (t, d))"
| "note_blob_header (t, d) f = (t, d)"

fun first_payload :: "(byte list \<Rightarrow> byte list option) \<Rightarrow> pbf_field list \<Rightarrow> byte list option" where
  "first_payload inflate [] = None"
| "first_payload inflate (Bytes_Field n b # fs) =
     (if n = 1 then Some b else if n = 3 then inflate b else first_payload inflate fs)"
| "first_payload inflate (f # fs) = first_payload inflate fs"

abbreviation message :: "pbf_field list \<Rightarrow> byte list" where
  "message fs \<equiv> concat (map field_bytes fs)"

lemma field_bytes_nonempty: "field_bytes f \<noteq> []"
  using put_uvarint_pos by (auto simp: field_bytes_def field_tag_def)

lemma parse_header_from_fields:
  "list_all field_ok fs \<Longrightarrow> length (pre @ message fs) < 2 ^ 64 \<Longrightarrow>
   parse_header_from (pre @ message fs) (length pre) sq ts = foldl note_replication (sq, ts) fs"
proof (induction fs arbitrary: pre sq ts)
  case Nil
  then show ?case by (simp add: parse_header_from.simps)
next
  case (Cons f fs)
  let ?bs = "pre @ field_bytes f @ message fs"
  have ok: "field_ok f" using Cons.prems by simp
  note tag = field_tag_bits [OF ok] and skip = skip_whole_field [OF ok, of pre "message fs"]
  have IH: "parse_header_from ?bs (length pre + length (field_bytes f)) sq' ts'
      = foldl note_replication (sq', ts') fs" for sq' ts'
    using Cons.IH [of "pre @ field_bytes f"] Cons.prems by simp
  show ?case
  proof (cases f)
    case (Varint_Field n v)
    then show ?thesis
      using tag skip Cons.prems IH
      by (subst parse_header_from.simps)
        (auto simp: field_bytes_nonempty read_tag read_body_varint)
  qed (insert tag skip Cons.prems IH,
    (subst parse_header_from.simps, force simp: field_bytes_nonempty read_tag)+)
qed

lemma parse_blob_header_from_fields:
  "list_all field_ok fs \<Longrightarrow> length (pre @ message fs) < 2 ^ 64 \<Longrightarrow>
   parse_blob_header_from (pre @ message fs) (length pre) t d =
     Some (case foldl note_blob_header (t, d) fs of
             (Some t', Some d') \<Rightarrow> Some (t', d') | _ \<Rightarrow> None)"
proof (induction fs arbitrary: pre t d)
  case Nil
  then show ?case by (simp add: parse_blob_header_from.simps split: option.splits)
next
  case (Cons f fs)
  let ?bs = "pre @ field_bytes f @ message fs"
  have ok: "field_ok f" using Cons.prems by simp
  note tag = field_tag_bits [OF ok] and skip = skip_whole_field [OF ok, of pre "message fs"]
  have IH: "parse_blob_header_from ?bs (length pre + length (field_bytes f)) t' d' =
     Some (case foldl note_blob_header (t', d') fs of
             (Some t', Some d') \<Rightarrow> Some (t', d') | _ \<Rightarrow> None)" for t' d'
    using Cons.IH [of "pre @ field_bytes f"] Cons.prems by simp
  show ?case
  proof (cases f)
    case (Varint_Field n v)
    then show ?thesis
      using tag skip Cons.prems IH
      by (subst parse_blob_header_from.simps)
        (auto simp: field_bytes_nonempty read_tag read_body_varint)
  next
    case (Bytes_Field n b)
    have l: "length b < 2 ^ 64" using Cons.prems by (simp add: Bytes_Field field_bytes_def)
    have "length b \<le> length (field_bytes f)" by (simp add: Bytes_Field field_bytes_def)
    then have e: "length pre + length (field_bytes f) - length b + length b = length pre + length (field_bytes f)"
      by simp
    show ?thesis
      using tag skip Cons.prems IH e
      by (subst parse_blob_header_from.simps)
        (auto simp: Bytes_Field field_bytes_nonempty read_tag read_body_length [OF l])
  qed (insert tag skip Cons.prems IH,
    (subst parse_blob_header_from.simps, force simp: field_bytes_nonempty read_tag)+)
qed

lemma decode_blob_from_fields:
  "list_all field_ok fs \<Longrightarrow> length (pre @ message fs) < 2 ^ 64 \<Longrightarrow>
   decode_blob_from inflate (pre @ message fs) (length pre) = Some (first_payload inflate fs)"
proof (induction fs arbitrary: pre)
  case Nil
  then show ?case by (simp add: decode_blob_from.simps)
next
  case (Cons f fs)
  let ?bs = "pre @ field_bytes f @ message fs"
  have ok: "field_ok f" using Cons.prems by simp
  note tag = field_tag_bits [OF ok] and skip = skip_whole_field [OF ok, of pre "message fs"]
  have IH: "decode_blob_from inflate ?bs (length pre + length (field_bytes f))
      = Some (first_payload inflate fs)"
    using Cons.IH [of "pre @ field_bytes f"] Cons.prems by simp
  show ?case
  proof (cases f)
    case (Bytes_Field n b)
    have l: "length b < 2 ^ 64" using Cons.prems by (simp add: Bytes_Field field_bytes_def)
    have "length b \<le> length (field_bytes f)" by (simp add: Bytes_Field field_bytes_def)
    then have e: "length pre + length (field_bytes f) - length b + length b = length pre + length (field_bytes f)"
      by simp
    show ?thesis
      using tag skip Cons.prems IH e
      by (subst decode_blob_from.simps)
        (auto simp: Bytes_Field field_bytes_nonempty read_tag read_body_length [OF l])
  qed (insert tag skip Cons.prems IH,
    (subst decode_blob_from.simps, force simp: field_bytes_nonempty read_tag)+)
qed

section \<open>The timestamp is the calendar's\<close>

lemma minute_of_day: "t mod 86400 div 60 mod 60 = t mod 3600 div 60" for t :: nat
proof -
  have m: "u mod 3600 = 60 * (u div 60 mod 60) + u mod 60" for u :: nat
    using mod_mult2_eq [of u 60 60] by simp
  have "u mod 3600 div 60 = u div 60 mod 60" for u :: nat
    unfolding m by (simp add: div_add1_eq)
  moreover have "t mod 86400 mod 3600 = t mod 3600" by (rule mod_mod_cancel) simp
  ultimately show ?thesis by metis
qed

lemma second_of_day: "t mod 86400 mod 60 = t mod 60" for t :: nat
  by (rule mod_mod_cancel) simp

lemma format_rfc3339_utc_text:
  assumes "t < 2 ^ 55"
  shows "format_rfc3339 (of_nat t) = utc_text t"
proof -
  have "sint (word_of_int (int t) :: u64) = signed_take_bit 63 (int t)"
    by (simp only: sint_sbintrunc') simp
  also have "\<dots> = int t"
    using assms by (intro signed_take_bit_int_eq_self) simp_all
  finally have s: "sint (of_nat t :: u64) = int t" by (simp only: of_int_of_nat_eq)
  have d: "int t div 86400 = int (t div 86400)" "int t mod 86400 div 3600 = int (t mod 86400 div 3600)"
    "int t mod 86400 div 60 mod 60 = int (t mod 86400 div 60 mod 60)"
    "int t mod 86400 mod 60 = int (t mod 86400 mod 60)"
    by (simp_all add: zdiv_int zmod_int)
  have c: "civil_from_days (int (t div 86400)) = calendar (t div 86400)"
    using assms by (simp only: civil_raw_calendar [symmetric]) (rule civil_from_days_raw, auto)
  show ?thesis
    unfolding format_rfc3339_def utc_text_def Let_def s d c minute_of_day second_of_day ..
qed

lemma epoch_secs_civil:
  "epoch_secs_to_iso8601 w =
     (if \<not> in_i64 (sint w - sint w mod 86400) then None
      else case civil_raw ((sint w - sint w mod 86400) sdiv 86400) of
        (y, m, d) \<Rightarrow> Some (fmt0 4 y @ ''-'' @ fmt0 2 m @ ''-'' @ fmt0 2 d @ ''T'' @
           fmt0 2 (sint w mod 86400 div 3600) @ '':'' @ fmt0 2 (sint w mod 86400 mod 3600 div 60) @ '':'' @
           fmt0 2 (sint w mod 86400 mod 60) @ ''Z''))"
  by (simp only: epoch_secs_to_iso8601_def civil_raw_def Let_def prod.case)

lemma epoch_secs_utc_text:
  assumes "0 \<le> sint w"
  shows "epoch_secs_to_iso8601 w = Some (utc_text (nat (sint w)))"
proof -
  define t where "t = nat (sint w)"
  have s: "sint w = int t" using assms by (simp add: t_def)
  have r: "in_i64 (int t - int t mod 86400)"
  proof -
    have "sint w < 2 ^ 63" using sint_lt [of w] by simp
    moreover have "0 \<le> int t mod 86400" "int t mod 86400 \<le> int t"
      by (auto intro: zmod_le_nonneg_dividend)
    ultimately show ?thesis by (simp add: in_i64_def s)
  qed
  have nn: "a sdiv 86400 = a div 86400" if "0 \<le> a" for a :: int
    using that by (cases "a = 0") (simp_all add: signed_divide_int_def)
  have "0 \<le> 86400 * (int t div 86400)" by simp
  from nn [OF this] have e: "(int t - int t mod 86400) sdiv 86400 = int (t div 86400)"
    by (simp only: minus_mod_eq_mult_div zdiv_int) simp
  have d: "int t mod 86400 div 3600 = int (t mod 86400 div 3600)"
    "int t mod 86400 mod 3600 div 60 = int (t mod 86400 mod 3600 div 60)"
    "int t mod 86400 mod 60 = int (t mod 86400 mod 60)"
    by (simp_all add: zdiv_int zmod_int)
  have h: "t mod 86400 mod 3600 = t mod 3600" by (rule mod_mod_cancel) simp
  obtain y m dd where c: "calendar (t div 86400) = (y, m, dd)" by (metis prod_cases3)
  have "civil_raw (int (t div 86400)) = (y, m, dd)" using c by (simp only: civil_raw_calendar)
  then show ?thesis
    unfolding epoch_secs_civil s e d h second_of_day using r by (simp add: utc_text_def c)
qed

section \<open>A whole file\<close>

lemma read_exact_middle: "read_exact (pre @ xs @ post) (length pre) (length xs) = Some xs"
  by (simp add: read_exact_def)

definition header_file :: "pbf_field list \<Rightarrow> pbf_field list \<Rightarrow> byte list \<Rightarrow> byte list" where
  "header_file hdr blob rest =
     be_bytes 4 (of_nat (length (message hdr)) :: u32) @ message hdr @ message blob @ rest"

lemma header_file_parts:
  assumes "length (message hdr) < 2 ^ 32"
  shows "read_exact (header_file hdr blob rest) 0 4 = Some (be_bytes 4 (of_nat (length (message hdr)) :: u32))"
    "unat (of_be_bytes (be_bytes 4 (of_nat (length (message hdr)) :: u32)) :: u32) = length (message hdr)"
    "read_exact (header_file hdr blob rest) 4 (length (message hdr)) = Some (message hdr)"
    "read_exact (header_file hdr blob rest) (4 + length (message hdr)) (length (message blob))
       = Some (message blob)"
proof -
  let ?n = "be_bytes 4 (of_nat (length (message hdr)) :: u32)"
  show "read_exact (header_file hdr blob rest) 0 4 = Some ?n"
    using read_exact_middle [of "[]" ?n] by (simp add: header_file_def)
  show "unat (of_be_bytes ?n :: u32) = length (message hdr)"
    using assms by (simp add: byte_simps unsigned_of_nat take_bit_nat_eq_self)
  show "read_exact (header_file hdr blob rest) 4 (length (message hdr)) = Some (message hdr)"
    using read_exact_middle [of ?n "message hdr"] by (simp add: header_file_def)
  show "read_exact (header_file hdr blob rest) (4 + length (message hdr)) (length (message blob))
       = Some (message blob)"
    using read_exact_middle [of "?n @ message hdr" "message blob" rest] by (simp add: header_file_def)
qed

lemma readers_on_messages:
  assumes "list_all field_ok fs" "length (message fs) < 2 ^ 64"
  shows "parse_blob_header (message fs) =
     Some (case foldl note_blob_header (None, None) fs of
             (Some t, Some d) \<Rightarrow> Some (t, d) | _ \<Rightarrow> None)"
    "decode_blob inflate (message fs) = Some (first_payload inflate fs)"
    "parse_header_block_replication (message fs) = foldl note_replication (None, None) fs"
  using parse_blob_header_from_fields [of fs "[]"] decode_blob_from_fields [of fs "[]"]
    parse_header_from_fields [of fs "[]"] assms
  by (simp_all add: parse_blob_header_def decode_blob_def parse_header_block_replication_def)

section \<open>Properties\<close>

text \<open>\<open>format_rfc3339\<close> prints the Gregorian date reached by counting days one by one from
  1 January 1970 with the month lengths and the leap-year rule, and the time of day; it holds
  for every time below 2^55 seconds, where the year fits the code's \<open>i32\<close>.\<close>

theorem format_rfc3339_calendar:
  assumes "t < 2 ^ 55"
  shows "format_rfc3339 (of_nat t) = utc_text t"
  using assms by (rule format_rfc3339_utc_text)

theorem format_rfc3339_calendar_witness:
  "(90061 :: nat) < 2 ^ 55 \<and> format_rfc3339 (of_nat 90061) = ''1970-01-02T01:01:01Z''"
proof -
  have "utc_text 90061 = ''1970-01-02T01:01:01Z''"
    by (simp add: utc_text_def calendar_def month_len_def fmt0_def pad0_def) code_simp
  then show ?thesis using format_rfc3339_calendar [of 90061] by simp
qed

text \<open>The second, independent implementation of the date algorithm, in the PBF header
  reader, agrees with the calendar (and so with \<open>format_rfc3339\<close>) on every non-negative
  \<open>i64\<close> and does not panic there.\<close>

theorem epoch_secs_to_iso8601_calendar:
  assumes "0 \<le> sint w"
  shows "epoch_secs_to_iso8601 w = Some (utc_text (nat (sint w)))"
  using assms by (rule epoch_secs_utc_text)

theorem epoch_secs_to_iso8601_calendar_witness:
  "0 \<le> sint (951782400 :: i64) \<and> epoch_secs_to_iso8601 951782400 = Some (utc_text 951782400)"
  using epoch_secs_to_iso8601_calendar [of 951782400] by simp

text \<open>On any file whose first blob is a well-formed OSMHeader, raw or compressed, with its
  protobuf fields in any order and unknown fields anywhere, \<open>read_replication_info\<close> returns
  the last sequence number and the last timestamp of the header block, the latter as the
  calendar's text; no slice or addition of the reader panics.\<close>

theorem read_replication_info_reads:
  assumes "list_all field_ok hdr" "list_all field_ok blob" "list_all field_ok block"
    and "length (message hdr) < 2 ^ 32" "length (message blob) < 2 ^ 64"
    and "length (message block) < 2 ^ 64"
    and "foldl note_blob_header (None, None) hdr = (Some OSM_HEADER, Some (length (message blob)))"
    and "first_payload inflate blob = Some (message block)"
    and "foldl note_replication (None, None) block = (Some sq, Some ts)" "0 \<le> sint ts"
  shows "read_replication_info inflate (Some (header_file hdr blob rest))
    = Some (Inr (Some (sq, utc_text (nat (sint ts)))))"
proof -
  have "length (message hdr) < 2 ^ 64" using assms(4) by simp
  note hdr = readers_on_messages(1) [OF assms(1) this] and blob = readers_on_messages(2) [OF assms(2,5)]
  show ?thesis
    using hdr blob assms(7-10) readers_on_messages(3) [OF assms(3,6)]
    by (simp add: read_replication_info_def epoch_secs_utc_text header_file_parts [OF assms(4)])
qed

theorem read_replication_info_reads_witness:
  "read_replication_info Some (Some (header_file [Bytes_Field 1 OSM_HEADER, Varint_Field 3 8]
      [Bytes_Field 3 (message [Varint_Field 33 7, Varint_Field 32 60])] []))
    = Some (Inr (Some (7, utc_text 60)))"
proof -
  let ?block = "[Varint_Field 33 7, Varint_Field 32 60]"
  have l: "length (message ?block) = 6"
    "length (message [Bytes_Field 3 (message ?block)]) = 8"
    "length (message [Bytes_Field 1 OSM_HEADER, Varint_Field 3 8]) = 13" by code_simp+
  show ?thesis
    using read_replication_info_reads [of "[Bytes_Field 1 OSM_HEADER, Varint_Field 3 8]"
        "[Bytes_Field 3 (message ?block)]" ?block Some 7 60 "[]"] l
    by simp
qed

end
