(* ===== verification/Lifecycle.thy ===== *)
theory Lifecycle
  imports Texts
begin

text \<open>
  \<open>src/osm/lifecycle.rs\<close>: the lifecycle-prefixed building keys, the SQL fragments the import
  reads them as, and \<open>key_of\<close>, their Rust twin over a changeset's tags.
\<close>

type_synonym tags = "(string \<times> string) list"

definition LIFECYCLE_BUILDING_KEYS :: "string list" where
  "LIFECYCLE_BUILDING_KEYS =
     [''demolished:building'', ''destroyed:building'', ''abandoned:building'', ''was:building'',
      ''razed:building'', ''removed:building'', ''disused:building'', ''ruins:building'']"

definition key_list_sql :: string where
  "key_list_sql =
     ''['' @ join_with '', '' (map (\<lambda>k. [CHR 0x27] @ k @ [CHR 0x27]) LIFECYCLE_BUILDING_KEYS) @ '']''"

definition has_any_key_sql :: "string \<Rightarrow> string" where
  "has_any_key_sql tags_expr = ''list_has_any(map_keys('' @ tags_expr @ ''), '' @ key_list_sql @ '')''"

definition matched_key_sql :: "string \<Rightarrow> string" where
  "matched_key_sql tags_expr =
     ''list_filter('' @ key_list_sql @ '', lambda k: map_contains('' @ tags_expr @ '', k))[1]''"

definition is_former_building_sql :: "string \<Rightarrow> string" where
  "is_former_building_sql tags_expr =
     ''('' @ has_any_key_sql tags_expr @ '' AND element_at('' @ tags_expr @ '', '' @
     [CHR 0x27] @ ''building'' @ [CHR 0x27] @ '')[1] IS NULL)''"

definition has_key :: "string \<Rightarrow> tags \<Rightarrow> bool" where
  "has_key key tags = list_ex (\<lambda>(k, _). k = key) tags"

definition key_of :: "tags \<Rightarrow> string option" where
  "key_of tags =
     (if has_key ''building'' tags then None
      else find (\<lambda>key. has_key key tags) LIFECYCLE_BUILDING_KEYS)"

section \<open>The key list\<close>

lemma has_key_iff: "has_key key tags \<longleftrightarrow> key \<in> fst ` set tags"
  by (force simp: has_key_def list_ex_iff)

lemma lifecycle_keys_distinct: "distinct LIFECYCLE_BUILDING_KEYS"
  by (simp add: LIFECYCLE_BUILDING_KEYS_def)

lemma building_not_lifecycle: "''building'' \<notin> set LIFECYCLE_BUILDING_KEYS"
  by (simp add: LIFECYCLE_BUILDING_KEYS_def)

text \<open>\<open>find\<close> returns the first hit: an element of the list with no earlier one.\<close>

lemma find_first:
  "find P xs = Some x \<longleftrightarrow> (\<exists>i<length xs. xs ! i = x \<and> P x \<and> (\<forall>j<i. \<not> P (xs ! j)))"
  by (auto simp: find_Some_iff)

lemma key_of_Some:
  "key_of tags = Some k \<longleftrightarrow>
     ''building'' \<notin> fst ` set tags \<and> k \<in> fst ` set tags \<and>
     (\<exists>i<length LIFECYCLE_BUILDING_KEYS. LIFECYCLE_BUILDING_KEYS ! i = k \<and>
        (\<forall>j<i. LIFECYCLE_BUILDING_KEYS ! j \<notin> fst ` set tags))"
  by (auto simp: key_of_def has_key_iff find_first)

lemma key_of_None:
  "key_of tags = None \<longleftrightarrow>
     ''building'' \<in> fst ` set tags \<or> set LIFECYCLE_BUILDING_KEYS \<inter> fst ` set tags = {}"
  by (auto simp: key_of_def has_key_iff find_None_iff)

text \<open>Only the set of keys matters, so neither tag order nor the values do.\<close>

lemma key_of_cong: "fst ` set tags = fst ` set tags' \<Longrightarrow> key_of tags = key_of tags'"
  by (simp add: key_of_def has_key_iff)

section \<open>Properties\<close>

text \<open>\<open>key_of\<close> classifies a tag list by its key set alone: an object with a live
  \<open>building\<close> key is never a former building, otherwise it is one exactly when it carries a
  lifecycle key, and the key recorded is the one of highest priority that it carries.\<close>

theorem key_of_spec:
  "(''building'' \<in> fst ` set tags \<longrightarrow> key_of tags = None) \<and>
   (key_of tags = None \<longleftrightarrow>
      ''building'' \<in> fst ` set tags \<or> set LIFECYCLE_BUILDING_KEYS \<inter> fst ` set tags = {}) \<and>
   (\<forall>k. key_of tags = Some k \<longleftrightarrow>
      ''building'' \<notin> fst ` set tags \<and> k \<in> fst ` set tags \<and>
      (\<exists>i<length LIFECYCLE_BUILDING_KEYS. LIFECYCLE_BUILDING_KEYS ! i = k \<and>
        (\<forall>j<i. LIFECYCLE_BUILDING_KEYS ! j \<notin> fst ` set tags)))"
  using key_of_None key_of_Some by blast

theorem key_of_spec_witness:
  "''building'' \<in> fst ` set [(''building'', ''yes'')] \<and> key_of [(''building'', ''yes'')] = None \<and>
   key_of [(''ruins:building'', ''yes''), (''was:building'', ''yes'')] = Some ''was:building''"
proof -
  have "key_of [(''building'', ''yes'')] = None"
    using key_of_spec [of "[(''building'', ''yes'')]"] by simp
  moreover have "key_of [(''ruins:building'', ''yes''), (''was:building'', ''yes'')] = Some ''was:building''"
    by code_simp
  ultimately show ?thesis by simp
qed

end
