(* ===== verification/Replication.thy ===== *)
theory Replication
  imports Lifecycle Float64
begin

text \<open>
  \<open>src/osm/replication.rs\<close>: the OsmChange model, the event loop of \<open>parse_osc\<close>, the collapse
  of several diffs to one change per object, \<open>state.txt\<close> and the replication paths. The XML
  reader is the \<open>quick_xml\<close> crate: its event stream is the argument of \<open>parse_osc\<close>.
\<close>

section \<open>Parsing a binary64 literal\<close>

text \<open>\<open>str::parse::<f64>\<close>: an optional sign, then \<open>inf\<close>, \<open>infinity\<close> or \<open>nan\<close> in any case, or
  digits with an optional point and exponent, at least one digit before the exponent.\<close>

definition is_digit :: "char \<Rightarrow> bool" where
  "is_digit c \<longleftrightarrow> digit_val c \<noteq> None"

definition split_sign :: "string \<Rightarrow> bool \<times> string" where
  "split_sign s = (case s of
     c # cs \<Rightarrow> if c = CHR ''-'' then (True, cs) else if c = CHR ''+'' then (False, cs) else (False, s)
   | [] \<Rightarrow> (False, s))"

definition parse_exponent :: "string \<Rightarrow> int option" where
  "parse_exponent s = (case s of
     [] \<Rightarrow> Some 0
   | c # cs \<Rightarrow>
       if c = CHR ''e'' \<or> c = CHR ''E'' then
         (case split_sign cs of (neg, ds) \<Rightarrow>
            map_option (\<lambda>n. if neg then - int n else int n) (parse_nat ds))
       else None)"

definition parse_number :: "string \<Rightarrow> rat option" where
  "parse_number s =
     (let whole = takeWhile is_digit s;
          rest = dropWhile is_digit s;
          point = (case rest of c # cs \<Rightarrow> c = CHR ''.'' | [] \<Rightarrow> False);
          frac = (if point then takeWhile is_digit (tl rest) else []);
          ex = (if point then dropWhile is_digit (tl rest) else rest)
      in case parse_nat (whole @ frac) of
           None \<Rightarrow> None
         | Some n \<Rightarrow>
             (case parse_exponent ex of
                None \<Rightarrow> None
              | Some e \<Rightarrow>
                  (let k = e - int (length frac)
                   in Some (if 0 \<le> k then of_nat n * 10 ^ nat k else of_nat n / 10 ^ nat (- k)))))"

definition parse_f64 :: "string \<Rightarrow> f64 option" where
  "parse_f64 s =
     (case split_sign s of (neg, r) \<Rightarrow>
        if eq_ignore_case r ''inf'' \<or> eq_ignore_case r ''infinity'' then Some (Inf neg)
        else if eq_ignore_case r ''nan'' then Some NaN
        else map_option (\<lambda>x. f64_of_rat (if neg then - x else x)) (parse_number r))"

section \<open>The change model\<close>

datatype change_action = Create | Modify | Delete

record node_change =
  n_action :: change_action
  n_id :: i64
  n_version :: u64
  n_lon :: f64
  n_lat :: f64
  n_tags :: tags

record way_change =
  w_action :: change_action
  w_id :: i64
  w_version :: u64
  w_refs :: "i64 list"
  w_tags :: tags

record relation_member =
  m_type :: string
  m_ref :: i64
  m_role :: string

record relation_change =
  r_action :: change_action
  r_id :: i64
  r_version :: u64
  r_members :: "relation_member list"
  r_tags :: tags

record osm_change =
  nodes :: "node_change list"
  ways :: "way_change list"
  relations :: "relation_change list"

definition empty_change :: osm_change where
  "empty_change = \<lparr>nodes = [], ways = [], relations = []\<rparr>"

section \<open>One change per object\<close>

definition latest_per_id :: "('a \<Rightarrow> int \<times> u64) \<Rightarrow> 'a list \<Rightarrow> 'a list" where
  "latest_per_id key items =
     (let sorted = sort_key key items
      in map snd (filter
           (\<lambda>(i, t). case nth_opt sorted (i + 1) of
              None \<Rightarrow> True | Some nx \<Rightarrow> fst (key nx) \<noteq> fst (key t))
           (enumerate 0 sorted)))"

definition node_key :: "node_change \<Rightarrow> int \<times> u64" where
  "node_key n = (sint (n_id n), n_version n)"

definition way_key :: "way_change \<Rightarrow> int \<times> u64" where
  "way_key w = (sint (w_id w), w_version w)"

definition relation_key :: "relation_change \<Rightarrow> int \<times> u64" where
  "relation_key r = (sint (r_id r), r_version r)"

definition collapse :: "osm_change list \<Rightarrow> osm_change" where
  "collapse parts =
     \<lparr>nodes = latest_per_id node_key (concat (map nodes parts)),
      ways = latest_per_id way_key (concat (map ways parts)),
      relations = latest_per_id relation_key (concat (map relations parts))\<rparr>"

section \<open>Parsing OsmChange events\<close>

text \<open>An attribute is its key, \<open>None\<close> when it is not UTF-8, and its value, \<open>None\<close> when it cannot
  be decoded or unescaped; malformed attributes are dropped by the reader's iterator.\<close>

type_synonym attr = "string option \<times> string option"

datatype xml_event =
    Start "string option" "attr list"
  | Empty "string option" "attr list"
  | End_Tag "string option"
  | Other
  | Broken

datatype osc_error =
    Bad_Name | Outside_Action string | Bad_Key | Bad_Value | Bad_Number string | Broken_Xml

record osc_state =
  o_change :: osm_change
  o_action :: "change_action option"
  o_node :: "node_change option"
  o_way :: "way_change option"
  o_relation :: "relation_change option"

definition init_osc :: osc_state where
  "init_osc = \<lparr>o_change = empty_change, o_action = None, o_node = None, o_way = None,
     o_relation = None\<rparr>"

fun each_attr :: "('a \<Rightarrow> string \<Rightarrow> string \<Rightarrow> osc_error + 'a) \<Rightarrow> 'a \<Rightarrow> attr list \<Rightarrow> osc_error + 'a" where
  "each_attr f acc [] = Inr acc"
| "each_attr f acc ((k, v) # as) =
     (case k of None \<Rightarrow> Inl Bad_Key
      | Some key \<Rightarrow>
     (case v of None \<Rightarrow> Inl Bad_Value
      | Some val \<Rightarrow> bindR (f acc key val) (\<lambda>acc'. each_attr f acc' as)))"

definition parsed :: "'a option \<Rightarrow> string \<Rightarrow> ('a \<Rightarrow> 'b) \<Rightarrow> osc_error + 'b" where
  "parsed r val f = (case r of None \<Rightarrow> Inl (Bad_Number val) | Some x \<Rightarrow> Inr (f x))"

definition node_attr :: "node_change \<Rightarrow> string \<Rightarrow> string \<Rightarrow> osc_error + node_change" where
  "node_attr n key val =
     (if key = ''id'' then parsed (parse_i64 val) val (\<lambda>x. n\<lparr>n_id := word_of_int x\<rparr>)
      else if key = ''version'' then parsed (parse_u64 val) val (\<lambda>x. n\<lparr>n_version := of_nat x\<rparr>)
      else if key = ''lon'' then parsed (parse_f64 val) val (\<lambda>x. n\<lparr>n_lon := x\<rparr>)
      else if key = ''lat'' then parsed (parse_f64 val) val (\<lambda>x. n\<lparr>n_lat := x\<rparr>)
      else Inr n)"

definition read_node :: "change_action \<Rightarrow> attr list \<Rightarrow> osc_error + node_change" where
  "read_node a = each_attr node_attr
     \<lparr>n_action = a, n_id = 0, n_version = 0, n_lon = Fin 0, n_lat = Fin 0, n_tags = []\<rparr>"

definition way_attr :: "way_change \<Rightarrow> string \<Rightarrow> string \<Rightarrow> osc_error + way_change" where
  "way_attr w key val =
     (if key = ''id'' then parsed (parse_i64 val) val (\<lambda>x. w\<lparr>w_id := word_of_int x\<rparr>)
      else if key = ''version'' then parsed (parse_u64 val) val (\<lambda>x. w\<lparr>w_version := of_nat x\<rparr>)
      else Inr w)"

definition read_way :: "change_action \<Rightarrow> attr list \<Rightarrow> osc_error + way_change" where
  "read_way a = each_attr way_attr
     \<lparr>w_action = a, w_id = 0, w_version = 0, w_refs = [], w_tags = []\<rparr>"

definition relation_attr :: "relation_change \<Rightarrow> string \<Rightarrow> string \<Rightarrow> osc_error + relation_change" where
  "relation_attr r key val =
     (if key = ''id'' then parsed (parse_i64 val) val (\<lambda>x. r\<lparr>r_id := word_of_int x\<rparr>)
      else if key = ''version'' then parsed (parse_u64 val) val (\<lambda>x. r\<lparr>r_version := of_nat x\<rparr>)
      else Inr r)"

definition read_relation :: "change_action \<Rightarrow> attr list \<Rightarrow> osc_error + relation_change" where
  "read_relation a = each_attr relation_attr
     \<lparr>r_action = a, r_id = 0, r_version = 0, r_members = [], r_tags = []\<rparr>"

definition tag_attr :: "string \<times> string \<Rightarrow> string \<Rightarrow> string \<Rightarrow> osc_error + (string \<times> string)" where
  "tag_attr kv key val =
     Inr (if key = ''k'' then (val, snd kv) else if key = ''v'' then (fst kv, val) else kv)"

definition nd_attr :: "i64 list \<Rightarrow> string \<Rightarrow> string \<Rightarrow> osc_error + i64 list" where
  "nd_attr refs key val =
     (if key = ''ref'' then parsed (parse_i64 val) val (\<lambda>x. refs @ [word_of_int x]) else Inr refs)"

definition member_attr :: "relation_member \<Rightarrow> string \<Rightarrow> string \<Rightarrow> osc_error + relation_member" where
  "member_attr m key val =
     (if key = ''type'' then Inr (m\<lparr>m_type := val\<rparr>)
      else if key = ''ref'' then parsed (parse_i64 val) val (\<lambda>x. m\<lparr>m_ref := word_of_int x\<rparr>)
      else if key = ''role'' then Inr (m\<lparr>m_role := val\<rparr>)
      else Inr m)"

definition action_of :: "string \<Rightarrow> osc_state \<Rightarrow> osc_error + change_action" where
  "action_of what st = (case o_action st of None \<Rightarrow> Inl (Outside_Action what) | Some a \<Rightarrow> Inr a)"

definition handle_start :: "string \<Rightarrow> attr list \<Rightarrow> osc_state \<Rightarrow> osc_error + osc_state" where
  "handle_start name attrs st =
     (if name = ''create'' then Inr (st\<lparr>o_action := Some Create\<rparr>)
      else if name = ''modify'' then Inr (st\<lparr>o_action := Some Modify\<rparr>)
      else if name = ''delete'' then Inr (st\<lparr>o_action := Some Delete\<rparr>)
      else if name = ''node'' then
        bindR (action_of ''Node'' st) (\<lambda>a. bindR (read_node a attrs) (\<lambda>n. Inr (st\<lparr>o_node := Some n\<rparr>)))
      else if name = ''way'' then
        bindR (action_of ''Way'' st) (\<lambda>a. bindR (read_way a attrs) (\<lambda>w. Inr (st\<lparr>o_way := Some w\<rparr>)))
      else if name = ''relation'' then
        bindR (action_of ''Relation'' st)
          (\<lambda>a. bindR (read_relation a attrs) (\<lambda>r. Inr (st\<lparr>o_relation := Some r\<rparr>)))
      else Inr st)"

definition push_node :: "node_change \<Rightarrow> osm_change \<Rightarrow> osm_change" where
  "push_node n c = c\<lparr>nodes := nodes c @ [n]\<rparr>"

definition push_way :: "way_change \<Rightarrow> osm_change \<Rightarrow> osm_change" where
  "push_way w c = c\<lparr>ways := ways c @ [w]\<rparr>"

definition push_relation :: "relation_change \<Rightarrow> osm_change \<Rightarrow> osm_change" where
  "push_relation r c = c\<lparr>relations := relations c @ [r]\<rparr>"

definition push_tag :: "string \<times> string \<Rightarrow> osc_state \<Rightarrow> osc_state" where
  "push_tag kv st =
     (case o_node st of
        Some n \<Rightarrow> st\<lparr>o_node := Some (n\<lparr>n_tags := n_tags n @ [kv]\<rparr>)\<rparr>
      | None \<Rightarrow>
     (case o_way st of
        Some w \<Rightarrow> st\<lparr>o_way := Some (w\<lparr>w_tags := w_tags w @ [kv]\<rparr>)\<rparr>
      | None \<Rightarrow>
     (case o_relation st of
        Some r \<Rightarrow> st\<lparr>o_relation := Some (r\<lparr>r_tags := r_tags r @ [kv]\<rparr>)\<rparr>
      | None \<Rightarrow> st)))"

definition handle_empty :: "string \<Rightarrow> attr list \<Rightarrow> osc_state \<Rightarrow> osc_error + osc_state" where
  "handle_empty name attrs st =
     (if name = ''tag'' then
        bindR (each_attr tag_attr ([], []) attrs) (\<lambda>kv. Inr (push_tag kv st))
      else if name = ''nd'' then
        (case o_way st of None \<Rightarrow> Inr st
         | Some w \<Rightarrow> bindR (each_attr nd_attr (w_refs w) attrs)
                      (\<lambda>refs. Inr (st\<lparr>o_way := Some (w\<lparr>w_refs := refs\<rparr>)\<rparr>)))
      else if name = ''member'' then
        (case o_relation st of None \<Rightarrow> Inr st
         | Some r \<Rightarrow> bindR (each_attr member_attr \<lparr>m_type = [], m_ref = 0, m_role = []\<rparr> attrs)
                      (\<lambda>m. Inr (st\<lparr>o_relation := Some (r\<lparr>r_members := r_members r @ [m]\<rparr>)\<rparr>)))
      else if name = ''node'' then
        bindR (action_of ''Node'' st) (\<lambda>a. bindR (read_node a attrs)
          (\<lambda>n. Inr (st\<lparr>o_change := push_node n (o_change st)\<rparr>)))
      else if name = ''way'' then
        bindR (action_of ''Way'' st) (\<lambda>a. bindR (read_way a attrs)
          (\<lambda>w. Inr (st\<lparr>o_change := push_way w (o_change st)\<rparr>)))
      else if name = ''relation'' then
        bindR (action_of ''Relation'' st) (\<lambda>a. bindR (read_relation a attrs)
          (\<lambda>r. Inr (st\<lparr>o_change := push_relation r (o_change st)\<rparr>)))
      else Inr st)"

definition handle_end :: "string \<Rightarrow> osc_state \<Rightarrow> osc_state" where
  "handle_end name st =
     (if name = ''create'' \<or> name = ''modify'' \<or> name = ''delete'' then st\<lparr>o_action := None\<rparr>
      else if name = ''node'' then
        (case o_node st of None \<Rightarrow> st
         | Some n \<Rightarrow> st\<lparr>o_change := push_node n (o_change st), o_node := None\<rparr>)
      else if name = ''way'' then
        (case o_way st of None \<Rightarrow> st
         | Some w \<Rightarrow> st\<lparr>o_change := push_way w (o_change st), o_way := None\<rparr>)
      else if name = ''relation'' then
        (case o_relation st of None \<Rightarrow> st
         | Some r \<Rightarrow> st\<lparr>o_change := push_relation r (o_change st), o_relation := None\<rparr>)
      else st)"

text \<open>The end of the list is the end of the document.\<close>

fun parse_events :: "osc_state \<Rightarrow> xml_event list \<Rightarrow> osc_error + osc_state" where
  "parse_events st [] = Inr st"
| "parse_events st (ev # evs) =
     bindR (case ev of
         Start name attrs \<Rightarrow> (case name of None \<Rightarrow> Inl Bad_Name | Some n \<Rightarrow> handle_start n attrs st)
       | Empty name attrs \<Rightarrow> (case name of None \<Rightarrow> Inl Bad_Name | Some n \<Rightarrow> handle_empty n attrs st)
       | End_Tag name \<Rightarrow> (case name of None \<Rightarrow> Inl Bad_Name | Some n \<Rightarrow> Inr (handle_end n st))
       | Other \<Rightarrow> Inr st
       | Broken \<Rightarrow> Inl Broken_Xml)
       (\<lambda>st'. parse_events st' evs)"

definition parse_osc :: "xml_event list \<Rightarrow> osc_error + osm_change" where
  "parse_osc events = bindR (parse_events init_osc events) (\<lambda>st. Inr (o_change st))"

section \<open>The replication state and paths\<close>

datatype state_error = Bad_Sequence | No_Sequence | No_Timestamp

fun state_lines :: "nat option \<Rightarrow> string option \<Rightarrow> string list \<Rightarrow> state_error + (nat option \<times> string option)" where
  "state_lines sq ts [] = Inr (sq, ts)"
| "state_lines sq ts (l # ls) =
     (let line = trim l in
      case strip_prefix ''sequenceNumber='' line of
        Some val \<Rightarrow>
          (case parse_u64 val of None \<Rightarrow> Inl Bad_Sequence | Some n \<Rightarrow> state_lines (Some n) ts ls)
      | None \<Rightarrow>
          (case strip_prefix ''timestamp='' line of
             Some val \<Rightarrow> state_lines sq (Some (replace2 (CHR 0x5C) (CHR '':'') (CHR '':'') val)) ls
           | None \<Rightarrow> state_lines sq ts ls))"

definition parse_state_txt :: "string \<Rightarrow> state_error + (nat \<times> string)" where
  "parse_state_txt txt =
     bindR (state_lines None None (lines_of txt)) (\<lambda>(sq, ts).
       case sq of None \<Rightarrow> Inl No_Sequence
       | Some s \<Rightarrow> (case ts of None \<Rightarrow> Inl No_Timestamp | Some t \<Rightarrow> Inr (s, t)))"

definition sequence_stem :: "u64 \<Rightarrow> string" where
  "sequence_stem sq =
     (let s = pad0 9 (show_nat (unat sq))
      in take 3 s @ ''/'' @ take 3 (drop 3 s) @ ''/'' @ take 3 (drop 6 s))"

definition sequence_to_path :: "u64 \<Rightarrow> string" where
  "sequence_to_path sq = sequence_stem sq @ ''.osc.gz''"

definition sequence_state_path :: "u64 \<Rightarrow> string" where
  "sequence_state_path sq = sequence_stem sq @ ''.state.txt''"

section \<open>Lemmas: collapse\<close>

fun last_runs :: "('a \<Rightarrow> int \<times> u64) \<Rightarrow> 'a list \<Rightarrow> 'a list" where
  "last_runs key [] = []"
| "last_runs key [x] = [x]"
| "last_runs key (x # y # xs) =
     (if fst (key y) \<noteq> fst (key x) then x # last_runs key (y # xs) else last_runs key (y # xs))"

lemma filter_enumerate_last_runs:
  "map snd (filter (\<lambda>(i, t). case nth_opt (pre @ xs) (i + 1) of
       None \<Rightarrow> True | Some nx \<Rightarrow> fst (key nx) \<noteq> fst (key t)) (enumerate (length pre) xs))
     = last_runs key xs"
proof (induction key xs arbitrary: pre rule: last_runs.induct)
  case (3 key x y xs)
  have n: "nth_opt (pre @ x # y # xs) (length pre + 1) = Some y"
    by (simp add: nth_opt_def nth_append)
  show ?case
    using "3.IH" [of "pre @ [x]"] n by (simp add: case_prod_beta)
qed (simp_all add: nth_opt_def)

lemma latest_last_runs: "latest_per_id key items = last_runs key (sort_key key items)"
  using filter_enumerate_last_runs [where pre = "[]" and xs = "sort_key key items" and key = key]
  by (simp add: latest_per_id_def Let_def)

text \<open>The change that wins for one id: the highest version, the last one among equals.\<close>

fun newest_from :: "('a \<Rightarrow> int \<times> u64) \<Rightarrow> 'a option \<Rightarrow> 'a list \<Rightarrow> 'a option" where
  "newest_from key acc [] = acc"
| "newest_from key acc (x # xs) =
     newest_from key (case acc of None \<Rightarrow> Some x
       | Some u \<Rightarrow> if snd (key u) \<le> snd (key x) then Some x else Some u) xs"

definition newest :: "('a \<Rightarrow> int \<times> u64) \<Rightarrow> int \<Rightarrow> 'a list \<Rightarrow> 'a option" where
  "newest key a items = newest_from key None (filter (\<lambda>t. fst (key t) = a) items)"

lemma last_insort_key:
  "sorted (map f xs) \<Longrightarrow> last (insort_key f x xs) =
     (if xs = [] \<or> f (last xs) < f x then x else last xs)"
proof (induction xs)
  case (Cons a xs)
  have "\<not> f (last xs) < f x" if "xs \<noteq> []" "f x \<le> f a"
  proof -
    have "f a \<le> f (last xs)" using Cons.prems that by simp
    with that show ?thesis by simp
  qed
  then show ?case using Cons by (cases "xs = []") auto
qed simp

lemma newest_from_append:
  "newest_from key acc (xs @ ys) = newest_from key (newest_from key acc xs) ys"
  by (induction key acc xs rule: newest_from.induct) auto

lemma newest_from_snoc:
  "newest_from key None (xs @ [x]) = (case newest_from key None xs of
     None \<Rightarrow> Some x | Some u \<Rightarrow> if snd (key u) \<le> snd (key x) then Some x else Some u)"
  by (simp add: newest_from_append split: option.splits)

lemma newest_from_Some: "newest_from key acc xs = Some u \<Longrightarrow> u \<in> set xs \<or> acc = Some u"
  by (induction key acc xs rule: newest_from.induct) (auto split: option.splits if_splits)

lemma newest_from_None: "newest_from key acc xs = None \<longleftrightarrow> acc = None \<and> xs = []"
  by (induction key acc xs rule: newest_from.induct) (auto split: option.splits if_splits)

text \<open>The best of \<open>x\<close> followed by a list, read from the front.\<close>

lemma newest_from_front:
  "newest_from key (Some u) xs = (case newest_from key None xs of None \<Rightarrow> Some u
     | Some v \<Rightarrow> if snd (key u) \<le> snd (key v) then Some v else Some u)"
proof (induction xs arbitrary: u)
  case (Cons x xs)
  show ?case
    using Cons [of x] Cons [of u] by (auto split: option.splits)
qed simp

lemma last_sort_newest:
  assumes "xs \<noteq> []"
  shows "newest_from key None xs = Some (last (sort_key (\<lambda>t. snd (key t)) xs))"
  using assms
proof (induction xs)
  case (Cons x xs)
  let ?s = "sort_key (\<lambda>t. snd (key t)) xs"
  show ?case
  proof (cases "xs = []")
    case False
    then have n: "newest_from key None xs = Some (last ?s)" using Cons.IH by simp
    have ne: "?s \<noteq> []" using False by (metis length_0_conv length_sort)
    have "last (insort_key (\<lambda>t. snd (key t)) x ?s)
        = (if snd (key (last ?s)) < snd (key x) then x else last ?s)"
      using last_insort_key [of "\<lambda>t. snd (key t)" ?s x] ne by simp
    then show ?thesis
      by (simp add: newest_from_front [of key x] n not_less [symmetric])
  qed simp
qed simp

lemma sort_key_one_id:
  "\<forall>t\<in>set xs. fst (key t) = a \<Longrightarrow> sort_key key xs = sort_key (\<lambda>t. snd (key t)) xs"
proof (induction xs)
  case (Cons x xs)
  have "insort_key key x ys = insort_key (\<lambda>t. snd (key t)) x ys"
    if "\<forall>t\<in>set ys. fst (key t) = a" for ys
    using that Cons.prems by (induction ys) (auto simp: less_eq_prod_def less_le)
  then show ?case using Cons by simp
qed simp

lemma newest_sorted:
  "newest key a items = (let ys = filter (\<lambda>t. fst (key t) = a) (sort_key key items)
     in if ys = [] then None else Some (last ys))"
proof -
  let ?f = "filter (\<lambda>t. fst (key t) = a) items"
  have s: "filter (\<lambda>t. fst (key t) = a) (sort_key key items) = sort_key (\<lambda>t. snd (key t)) ?f"
    by (simp only: filter_sort) (rule sort_key_one_id [of _ _ a], simp)
  show ?thesis
  proof (cases "?f = []")
    case True
    then show ?thesis unfolding s by (simp add: newest_def)
  next
    case False
    then have "sort_key (\<lambda>t. snd (key t)) ?f \<noteq> []" by (metis length_0_conv length_sort)
    then show ?thesis unfolding s using last_sort_newest [OF False] by (simp add: newest_def)
  qed
qed

text \<open>One entry of a sorted list per id, each the last of its run.\<close>

lemma last_runs_set: "fst ` key ` set (last_runs key xs) = fst ` key ` set xs"
  by (induction key xs rule: last_runs.induct) (auto simp: image_iff)

lemma last_runs_strict:
  "sorted (map key xs) \<Longrightarrow> sorted_wrt (\<lambda>s t. fst (key s) < fst (key t)) (last_runs key xs)"
proof (induction key xs rule: last_runs.induct)
  case (3 key x y xs)
  have "fst (key y) \<le> fst (key t)" if "t \<in> set (last_runs key (y # xs))" for t
  proof -
    have "fst (key t) \<in> fst ` key ` set (y # xs)"
      using that last_runs_set [of key "y # xs"] by blast
    then show ?thesis using "3.prems" by (auto simp: less_eq_prod_def)
  qed
  moreover have "fst (key x) \<le> fst (key y)" using "3.prems" by (auto simp: less_eq_prod_def)
  ultimately show ?case using 3 by fastforce
qed simp_all

lemma last_runs_last:
  "sorted (map key xs) \<Longrightarrow> t \<in> set (last_runs key xs) \<Longrightarrow>
     last (filter (\<lambda>s. fst (key s) = fst (key t)) xs) = t \<and> t \<in> set xs"
proof (induction key xs rule: last_runs.induct)
  case (3 key x y xs)
  show ?case
  proof (cases "t \<in> set (last_runs key (y # xs))")
    case True
    then have l: "last (filter (\<lambda>s. fst (key s) = fst (key t)) (y # xs)) = t" "t \<in> set (y # xs)"
      using 3 by (auto split: if_splits)
    have "filter (\<lambda>s. fst (key s) = fst (key t)) (y # xs) \<noteq> []"
      using l(2) by (auto simp: filter_empty_conv)
    then show ?thesis using l by simp
  next
    case False
    then have t: "t = x" "fst (key y) \<noteq> fst (key x)" using "3.prems" by (auto split: if_splits)
    have le: "fst (key x) \<le> fst (key y)" "\<forall>s\<in>set xs. fst (key y) \<le> fst (key s)"
      using "3.prems" by (auto simp: less_eq_prod_def)
    then have "\<forall>s\<in>set (y # xs). fst (key s) \<noteq> fst (key x)"
      using t(2) by (metis antisym list.set_cases order.trans set_ConsD)
    then have "filter (\<lambda>s. fst (key s) = fst (key x)) (y # xs) = []"
      by (simp add: filter_empty_conv)
    then show ?thesis unfolding t(1) by simp
  qed
qed simp_all

lemma latest_ids: "fst ` key ` set (latest_per_id key items) = fst ` key ` set items"
  by (simp add: latest_last_runs last_runs_set)

lemma latest_strict: "sorted_wrt (\<lambda>s t. fst (key s) < fst (key t)) (latest_per_id key items)"
  by (simp add: latest_last_runs last_runs_strict)

lemma latest_newest:
  assumes "t \<in> set (latest_per_id key items)"
  shows "newest key (fst (key t)) items = Some t"
proof -
  have l: "last (filter (\<lambda>s. fst (key s) = fst (key t)) (sort_key key items)) = t"
    "t \<in> set (sort_key key items)"
    using last_runs_last [of key "sort_key key items" t] assms by (simp_all add: latest_last_runs)
  then have "filter (\<lambda>s. fst (key s) = fst (key t)) (sort_key key items) \<noteq> []"
    by (auto simp: filter_empty_conv)
  with l show ?thesis by (simp add: newest_sorted)
qed

lemma sorted_wrt_filter_one:
  "sorted_wrt (\<lambda>s t. f s < f t) xs \<Longrightarrow> t \<in> set xs \<Longrightarrow> filter (\<lambda>s. f s = f t) xs = [t]"
  for f :: "'a \<Rightarrow> int"
proof (induction xs)
  case (Cons x xs)
  then show ?case
    by (cases "t = x") (auto simp: filter_empty_conv dest: bspec)
qed simp

lemma newest_latest:
  "newest key a items = (case filter (\<lambda>t. fst (key t) = a) (latest_per_id key items) of
     [] \<Rightarrow> None | t # ts \<Rightarrow> Some t)"
proof (cases "a \<in> fst ` key ` set items")
  case True
  then obtain t where t: "t \<in> set (latest_per_id key items)" "fst (key t) = a"
    using latest_ids [of key items] by (metis imageE image_eqI)
  from sorted_wrt_filter_one [OF latest_strict t(1)] show ?thesis
    using latest_newest [OF t(1)] t(2) by simp
next
  case False
  then have "filter (\<lambda>t. fst (key t) = a) items = []"
    by (auto simp: filter_empty_conv)
  moreover have "a \<notin> fst ` key ` set (latest_per_id key items)"
    using False latest_ids [of key items] by simp
  then have "filter (\<lambda>t. fst (key t) = a) (latest_per_id key items) = []"
    by (auto simp: filter_empty_conv)
  ultimately show ?thesis by (simp add: newest_def)
qed


text \<open>A strictly sorted list is determined by the entry of each id.\<close>

lemma newest_key: "newest key a items = Some t \<Longrightarrow> fst (key t) = a \<and> t \<in> set items"
  using newest_from_Some [of key None "filter (\<lambda>t. fst (key t) = a) items" t]
  by (auto simp: newest_def)

lemma newest_ids: "newest key a items \<noteq> None \<longleftrightarrow> a \<in> fst ` key ` set items"
  by (auto simp: newest_def newest_from_None filter_empty_conv)

lemma sorted_list_of_ids:
  "sorted_wrt (\<lambda>s t. f s < f t) xs \<Longrightarrow> sorted_list_of_set (f ` set xs) = map f xs"
  for f :: "'a \<Rightarrow> int"
proof -
  assume s: "sorted_wrt (\<lambda>s t. f s < f t) xs"
  then have "sorted_wrt (<) (map f xs)" by (simp add: sorted_wrt_map)
  then have "sorted (map f xs)" "distinct (map f xs)" by (simp_all add: strict_sorted_iff)
  then show ?thesis by (metis list.set_map sorted_list_of_set.idem_if_sorted_distinct)
qed

lemma latest_canonical:
  "latest_per_id key items =
     map (\<lambda>a. the (newest key a items)) (sorted_list_of_set (fst ` key ` set items))"
proof -
  let ?l = "latest_per_id key items"
  have "sorted_list_of_set ((\<lambda>t. fst (key t)) ` set ?l) = map (\<lambda>t. fst (key t)) ?l"
    by (rule sorted_list_of_ids [OF latest_strict])
  then have "sorted_list_of_set (fst ` key ` set items) = map (\<lambda>t. fst (key t)) ?l"
    using latest_ids [of key items] by (simp add: image_image)
  moreover have "map (\<lambda>t. the (newest key (fst (key t)) items)) ?l = ?l"
    by (rule map_idI) (simp add: latest_newest)
  ultimately show ?thesis by (simp add: comp_def)
qed

lemma latest_cong:
  assumes "\<And>a. newest key a xs = newest key a ys"
  shows "latest_per_id key xs = latest_per_id key ys"
proof -
  have "fst ` key ` set xs = fst ` key ` set ys"
    by (rule set_eqI) (simp only: newest_ids [symmetric] assms)
  then show ?thesis by (simp add: latest_canonical assms)
qed

lemma newest_append:
  "newest key a (xs @ ys) = (case newest key a ys of None \<Rightarrow> newest key a xs
     | Some v \<Rightarrow> (case newest key a xs of None \<Rightarrow> Some v
         | Some u \<Rightarrow> if snd (key u) \<le> snd (key v) then Some v else Some u))"
proof -
  let ?f = "filter (\<lambda>t. fst (key t) = a)"
  have "newest key a (xs @ ys) = newest_from key (newest key a xs) (?f ys)"
    by (simp add: newest_def newest_from_append)
  then show ?thesis
    by (cases "newest key a xs") (auto simp: newest_from_front newest_def [symmetric] split: option.splits)
qed

lemma newest_of_latest: "newest key a (latest_per_id key xs) = newest key a xs"
proof -
  consider "filter (\<lambda>t. fst (key t) = a) (latest_per_id key xs) = []"
    | t where "t \<in> set (latest_per_id key xs)" "fst (key t) = a"
    by (auto simp: filter_empty_conv)
  then show ?thesis
  proof cases
    case 1
    then show ?thesis using newest_latest [of key a xs] by (simp add: newest_def)
  next
    case 2
    from sorted_wrt_filter_one [OF latest_strict this(1)] 2(2) latest_newest [OF 2(1)]
    show ?thesis by (simp add: newest_def)
  qed
qed

lemma newest_concat:
  "newest key a (concat (map (latest_per_id key) xss)) = newest key a (concat xss)"
  by (induction xss) (simp_all add: newest_append newest_of_latest split: option.splits)

lemma latest_concat:
  "latest_per_id key (concat (map (latest_per_id key) xss)) = latest_per_id key (concat xss)"
  by (rule latest_cong) (rule newest_concat)

lemma collapse_groups: "collapse (map collapse groups) = collapse (concat groups)"
proof -
  have "concat (map nodes (concat groups)) = concat (map (\<lambda>g. concat (map nodes g)) groups)"
    "concat (map ways (concat groups)) = concat (map (\<lambda>g. concat (map ways g)) groups)"
    "concat (map relations (concat groups)) = concat (map (\<lambda>g. concat (map relations g)) groups)"
    by (induction groups) simp_all
  then show ?thesis
    using latest_concat [of node_key "map (\<lambda>g. concat (map nodes g)) groups"]
      latest_concat [of way_key "map (\<lambda>g. concat (map ways g)) groups"]
      latest_concat [of relation_key "map (\<lambda>g. concat (map relations g)) groups"]
    by (simp add: collapse_def comp_def)
qed


section \<open>A written-out OsmChange document\<close>

datatype osc_elem = Node_Elem node_change | Way_Elem way_change | Relation_Elem relation_change

fun action_name :: "change_action \<Rightarrow> string" where
  "action_name Create = ''create''"
| "action_name Modify = ''modify''"
| "action_name Delete = ''delete''"

definition attr_kv :: "string \<Rightarrow> string \<Rightarrow> attr" where
  "attr_kv k v = (Some k, Some v)"

definition show_i64 :: "i64 \<Rightarrow> string" where
  "show_i64 w = show_int (sint w)"

definition tag_events :: "tags \<Rightarrow> xml_event list" where
  "tag_events ts = map (\<lambda>(k, v). Empty (Some ''tag'') [attr_kv ''k'' k, attr_kv ''v'' v]) ts"

definition nd_events :: "i64 list \<Rightarrow> xml_event list" where
  "nd_events refs = map (\<lambda>x. Empty (Some ''nd'') [attr_kv ''ref'' (show_i64 x)]) refs"

definition member_events :: "relation_member list \<Rightarrow> xml_event list" where
  "member_events ms = map (\<lambda>m. Empty (Some ''member'')
     [attr_kv ''type'' (m_type m), attr_kv ''ref'' (show_i64 (m_ref m)),
      attr_kv ''role'' (m_role m)]) ms"

definition id_attrs :: "i64 \<Rightarrow> u64 \<Rightarrow> attr list" where
  "id_attrs i v = [attr_kv ''id'' (show_i64 i), attr_kv ''version'' (show_nat (unat v))]"

definition element_events :: "string \<Rightarrow> attr list \<Rightarrow> xml_event list \<Rightarrow> xml_event list" where
  "element_events name attrs inner =
     (if inner = [] then [Empty (Some name) attrs]
      else [Start (Some name) attrs] @ inner @ [End_Tag (Some name)])"

fun elem_events :: "(f64 \<Rightarrow> string) \<Rightarrow> osc_elem \<Rightarrow> xml_event list" where
  "elem_events sh (Node_Elem n) =
     element_events ''node''
       (id_attrs (n_id n) (n_version n) @
        [attr_kv ''lat'' (sh (n_lat n)), attr_kv ''lon'' (sh (n_lon n))])
       (tag_events (n_tags n))"
| "elem_events sh (Way_Elem w) =
     element_events ''way'' (id_attrs (w_id w) (w_version w)) (nd_events (w_refs w) @ tag_events (w_tags w))"
| "elem_events sh (Relation_Elem r) =
     element_events ''relation'' (id_attrs (r_id r) (r_version r))
       (member_events (r_members r) @ tag_events (r_tags r))"

fun elem_action :: "osc_elem \<Rightarrow> change_action" where
  "elem_action (Node_Elem n) = n_action n"
| "elem_action (Way_Elem w) = w_action w"
| "elem_action (Relation_Elem r) = r_action r"

fun push_elem :: "osm_change \<Rightarrow> osc_elem \<Rightarrow> osm_change" where
  "push_elem c (Node_Elem n) = push_node n c"
| "push_elem c (Way_Elem w) = push_way w c"
| "push_elem c (Relation_Elem r) = push_relation r c"

definition block_events :: "(f64 \<Rightarrow> string) \<Rightarrow> change_action \<times> osc_elem list \<Rightarrow> xml_event list" where
  "block_events sh b =
     [Start (Some (action_name (fst b))) []] @ concat (map (elem_events sh) (snd b)) @
     [End_Tag (Some (action_name (fst b)))]"

definition document_events :: "(f64 \<Rightarrow> string) \<Rightarrow> (change_action \<times> osc_elem list) list \<Rightarrow> xml_event list" where
  "document_events sh blocks =
     [Start (Some ''osmChange'') [attr_kv ''version'' ''0.6'']] @ concat (map (block_events sh) blocks) @
     [End_Tag (Some ''osmChange'')]"

fun elem_shows :: "(f64 \<Rightarrow> string) \<Rightarrow> osc_elem \<Rightarrow> bool" where
  "elem_shows sh (Node_Elem n) \<longleftrightarrow>
     parse_f64 (sh (n_lon n)) = Some (n_lon n) \<and> parse_f64 (sh (n_lat n)) = Some (n_lat n)"
| "elem_shows sh e \<longleftrightarrow> True"

lemma parse_i64_show_int: "- (2 ^ 63) \<le> z \<Longrightarrow> z < 2 ^ 63 \<Longrightarrow> parse_i64 (show_int z) = Some z"
proof -
  assume z: "- (2 ^ 63) \<le> z" "z < 2 ^ 63"
  show ?thesis
  proof (cases "z < 0")
    case True
    then have "nat (- z) \<le> 2 ^ 63" using z by simp
    with True show ?thesis by (simp add: show_int_def parse_i64_def)
  next
    case False
    obtain c cs where s: "show_nat (nat z) = c # cs" by (cases "show_nat (nat z)") auto
    then have "c \<noteq> CHR ''-''" using show_nat_digits [of c "nat z"] digit_char_neq(2) by force
    moreover have "nat z < 2 ^ 63" using z False by simp
    ultimately show ?thesis
      using False strip_plus_show [of "nat z"] parse_nat_show [of "nat z"]
      by (simp add: show_int_def parse_i64_def s)
  qed
qed

lemma parse_show_i64 [simp]: "parse_i64 (show_i64 w) = Some (sint w)"
  using parse_i64_show_int [of "sint w"] sint_ge [of w] sint_lt [of w] by (simp add: show_i64_def)

lemma parse_show_u64 [simp]: "parse_u64 (show_nat (unat v)) = Some (unat v)" for v :: u64
  using unsigned_less [of v, where ?'a = nat] by (intro parse_u64_show) simp

lemma parse_events_append:
  "parse_events st (xs @ ys) = bindR (parse_events st xs) (\<lambda>st'. parse_events st' ys)"
proof (induction xs arbitrary: st)
  case (Cons x xs)
  have a: "bindR (bindR r f) g = bindR r (\<lambda>y. bindR (f y) g)" for r :: "osc_error + osc_state" and f g
    by (cases r) auto
  show ?case by (simp add: Cons a)
qed simp

lemma parse_events_ignores_other: "parse_events st (filter (\<lambda>e. e \<noteq> Other) evs) = parse_events st evs"
  by (induction evs arbitrary: st) auto

lemmas attr_simps = each_attr.simps attr_kv_def node_attr_def way_attr_def relation_attr_def nd_attr_def
  member_attr_def tag_attr_def parsed_def id_attrs_def

lemma tags_node:
  "o_node st = Some n \<Longrightarrow>
   parse_events st (tag_events ts) = Inr (st\<lparr>o_node := Some (n\<lparr>n_tags := n_tags n @ ts\<rparr>)\<rparr>)"
proof (induction ts arbitrary: st n)
  case (Cons t ts)
  then show ?case by (simp add: tag_events_def handle_empty_def attr_simps push_tag_def split_beta)
qed (simp add: tag_events_def)

lemma tags_way:
  "o_node st = None \<Longrightarrow> o_way st = Some w \<Longrightarrow>
   parse_events st (tag_events ts) = Inr (st\<lparr>o_way := Some (w\<lparr>w_tags := w_tags w @ ts\<rparr>)\<rparr>)"
proof (induction ts arbitrary: st w)
  case (Cons t ts)
  then show ?case by (simp add: tag_events_def handle_empty_def attr_simps push_tag_def split_beta)
qed (simp add: tag_events_def)

lemma tags_relation:
  "o_node st = None \<Longrightarrow> o_way st = None \<Longrightarrow> o_relation st = Some r \<Longrightarrow>
   parse_events st (tag_events ts) = Inr (st\<lparr>o_relation := Some (r\<lparr>r_tags := r_tags r @ ts\<rparr>)\<rparr>)"
proof (induction ts arbitrary: st r)
  case (Cons t ts)
  then show ?case by (simp add: tag_events_def handle_empty_def attr_simps push_tag_def split_beta)
qed (simp add: tag_events_def)

lemma nds_way:
  "o_way st = Some w \<Longrightarrow>
   parse_events st (nd_events xs) = Inr (st\<lparr>o_way := Some (w\<lparr>w_refs := w_refs w @ xs\<rparr>)\<rparr>)"
proof (induction xs arbitrary: st w)
  case (Cons x xs)
  then show ?case by (simp add: nd_events_def handle_empty_def attr_simps)
qed (simp add: nd_events_def)

lemma members_relation:
  "o_relation st = Some r \<Longrightarrow>
   parse_events st (member_events ms) =
     Inr (st\<lparr>o_relation := Some (r\<lparr>r_members := r_members r @ ms\<rparr>)\<rparr>)"
proof (induction ms arbitrary: st r)
  case (Cons m ms)
  then show ?case by (simp add: member_events_def handle_empty_def attr_simps)
qed (simp add: member_events_def)

definition idle :: "osc_state \<Rightarrow> bool" where
  "idle st \<longleftrightarrow> o_node st = None \<and> o_way st = None \<and> o_relation st = None"

lemma events_nil [simp]:
  "tag_events ts = [] \<longleftrightarrow> ts = []" "nd_events xs = [] \<longleftrightarrow> xs = []" "member_events ms = [] \<longleftrightarrow> ms = []"
  by (simp_all add: tag_events_def nd_events_def member_events_def)

lemmas element_simps = element_events_def idle_def handle_start_def handle_empty_def
  handle_end_def action_of_def read_node_def read_way_def read_relation_def attr_simps
  parse_events_append

lemma elem_events_parse:
  assumes "idle st" "o_action st = Some (elem_action e)" "elem_shows sh e"
  shows "parse_events st (elem_events sh e) = Inr (st\<lparr>o_change := push_elem (o_change st) e\<rparr>)"
proof (cases e)
  case (Node_Elem n)
  show ?thesis
    using assms by (cases n) (auto simp: Node_Elem element_simps tags_node)
next
  case (Way_Elem w)
  show ?thesis
    using assms by (cases w) (auto simp: Way_Elem element_simps tags_way nds_way)
next
  case (Relation_Elem r)
  show ?thesis
    using assms by (cases r) (auto simp: Relation_Elem element_simps tags_relation members_relation)
qed

lemma elems_parse:
  assumes "idle st" "o_action st = Some a" "\<forall>e\<in>set es. elem_action e = a \<and> elem_shows sh e"
  shows "parse_events st (concat (map (elem_events sh) es)) =
     Inr (st\<lparr>o_change := foldl push_elem (o_change st) es\<rparr>)"
  using assms
proof (induction es arbitrary: st)
  case (Cons e es)
  have "idle (st\<lparr>o_change := push_elem (o_change st) e\<rparr>)" using Cons.prems by (simp add: idle_def)
  then show ?case
    using Cons by (simp add: parse_events_append elem_events_parse)
qed simp

lemma block_parse:
  assumes "idle st" "o_action st = None"
    "\<forall>e\<in>set (snd b). elem_action e = fst b \<and> elem_shows sh e"
  shows "parse_events st (block_events sh b) =
     Inr (st\<lparr>o_change := foldl push_elem (o_change st) (snd b)\<rparr>)"
proof -
  have start: "handle_start (action_name (fst b)) [] st = Inr (st\<lparr>o_action := Some (fst b)\<rparr>)"
    by (cases "fst b") (simp_all add: handle_start_def)
  have "handle_end (action_name (fst b)) s = s\<lparr>o_action := None\<rparr>" for s
    by (cases "fst b") (simp_all add: handle_end_def)
  moreover have "idle (st\<lparr>o_action := Some (fst b)\<rparr>)" using assms(1) by (simp add: idle_def)
  ultimately show ?thesis
    using assms(2,3) start
    by (simp add: block_events_def parse_events_append elems_parse)
qed

lemma blocks_parse:
  assumes "idle st" "o_action st = None"
    "\<forall>b\<in>set blocks. \<forall>e\<in>set (snd b). elem_action e = fst b \<and> elem_shows sh e"
  shows "parse_events st (concat (map (block_events sh) blocks)) =
     Inr (st\<lparr>o_change := foldl push_elem (o_change st) (concat (map snd blocks))\<rparr>)"
  using assms
proof (induction blocks arbitrary: st)
  case (Cons b bs)
  have "idle (st\<lparr>o_change := foldl push_elem (o_change st) (snd b)\<rparr>)"
    using Cons.prems by (simp add: idle_def)
  then show ?case
    using Cons by (simp add: parse_events_append block_parse)
qed simp

lemma document_parse:
  assumes "\<forall>b\<in>set blocks. \<forall>e\<in>set (snd b). elem_action e = fst b \<and> elem_shows sh e"
  shows "parse_osc (document_events sh blocks) =
     Inr (foldl push_elem empty_change (concat (map snd blocks)))"
proof -
  have "handle_start ''osmChange'' as s = Inr s" "handle_end ''osmChange'' s = s" for as s
    by (simp_all add: handle_start_def handle_end_def)
  moreover have "idle init_osc" "o_action init_osc = None" "o_change init_osc = empty_change"
    by (simp_all add: idle_def init_osc_def)
  ultimately show ?thesis
    using assms by (simp add: parse_osc_def document_events_def parse_events_append blocks_parse)
qed

section \<open>Paths and state files\<close>

lemma sequence_stem_parts:
  assumes "unat sq < 10 ^ 9"
  defines "s \<equiv> pad0 9 (show_nat (unat sq))"
  shows "length s = 9" "s = take 3 s @ take 3 (drop 3 s) @ take 3 (drop 6 s)"
proof -
  show l: "length s = 9" using assms(1) unfolding s_def by (intro length_pad0_fit) simp_all
  show "s = take 3 s @ take 3 (drop 3 s) @ take 3 (drop 6 s)"
    using l by (auto simp: numeral_eq_Suc length_Suc_conv)
qed

fun escape_colons :: "string \<Rightarrow> string" where
  "escape_colons [] = []"
| "escape_colons (c # cs) = (if c = CHR '':'' then [CHR 0x5C, CHR '':''] else [c]) @ escape_colons cs"

lemma replace2_escape:
  "CHR 0x5C \<notin> set t \<Longrightarrow> replace2 (CHR 0x5C) (CHR '':'') (CHR '':'') (escape_colons t) = t"
proof (induction t)
  case (Cons c cs)
  then show ?case by (cases "escape_colons cs") auto
qed simp

lemma lines_of_unlines:
  "\<forall>l\<in>set ls. CHR 0x0A \<notin> set l \<Longrightarrow> lines_of (concat (map (\<lambda>l. l @ [CHR 0x0A]) ls)) = map strip_cr ls"
proof -
  assume a: "\<forall>l\<in>set ls. CHR 0x0A \<notin> set l"
  have "split_on (CHR 0x0A) (concat (map (\<lambda>l. l @ [CHR 0x0A]) ls)) = ls @ [[]]"
    using a by (induction ls) (simp_all add: split_on_append)
  then show ?thesis by (simp add: lines_of_def Let_def)
qed

text \<open>A line that survives \<open>trim\<close> as it is.\<close>

definition plain_line :: "string \<Rightarrow> bool" where
  "plain_line l \<longleftrightarrow> l \<noteq> [] \<and> list_all (\<lambda>c. \<not> is_ws c) l"

lemma trim_plain: "plain_line l \<Longrightarrow> trim l = l \<and> strip_cr l = l \<and> CHR 0x0A \<notin> set l"
proof -
  assume p: "plain_line l"
  have d: "dropWhile is_ws xs = xs" if "list_all (\<lambda>c. \<not> is_ws c) xs" for xs
    using that by (cases xs) auto
  have "is_ws (CHR 0x0A)" "is_ws (CHR 0x0D)" by code_simp+
  then have "CHR 0x0A \<notin> set l" "CHR 0x0D \<notin> set l" using p by (auto simp: plain_line_def list_all_iff)
  moreover have "last l \<noteq> CHR 0x0D"
    using p \<open>CHR 0x0D \<notin> set l\<close> by (metis last_in_set plain_line_def)
  moreover have "list_all (\<lambda>c. \<not> is_ws c) (rev l)" using p by (simp add: plain_line_def)
  ultimately show ?thesis
    using p d [of l] d [of "rev l"] by (auto simp: trim_def strip_cr_def plain_line_def)
qed

lemma escape_plain: "list_all (\<lambda>c. \<not> is_ws c) t \<Longrightarrow> list_all (\<lambda>c. \<not> is_ws c) (escape_colons t)"
proof -
  have "\<not> is_ws (CHR 0x5C)" "\<not> is_ws (CHR '':'')" by code_simp+
  then show "list_all (\<lambda>c. \<not> is_ws c) t \<Longrightarrow> list_all (\<lambda>c. \<not> is_ws c) (escape_colons t)"
    by (induction t) auto
qed

lemma show_nat_plain: "list_all (\<lambda>c. \<not> is_ws c) (show_nat n)"
proof -
  have ws: "is_ws (digit_char d) = False" if "d < 10" for d
    using that of_char_digit_char [OF that] by (simp add: is_ws_def Let_def)
  have "\<not> is_ws c" if "c \<in> set (show_nat n)" for c
    using show_nat_digits [OF that] ws by auto
  then show ?thesis by (auto simp: list_all_iff)
qed

lemma state_text_parse:
  assumes "n < 2 ^ 64" "list_all (\<lambda>c. \<not> is_ws c) t" "CHR 0x5C \<notin> set t"
    and "list_all (\<lambda>c. \<not> is_ws c) note"
  shows "parse_state_txt (concat (map (\<lambda>l. l @ [CHR 0x0A])
      [''#'' @ note, ''sequenceNumber='' @ show_nat n, ''timestamp='' @ escape_colons t]))
    = Inr (n, t)"
proof -
  have k: "list_all (\<lambda>c. \<not> is_ws c) ''sequenceNumber=''" "list_all (\<lambda>c. \<not> is_ws c) ''timestamp=''"
    "list_all (\<lambda>c. \<not> is_ws c) ''#''" by code_simp+
  have l: "plain_line (''#'' @ note)" "plain_line (''sequenceNumber='' @ show_nat n)"
    "plain_line (''timestamp='' @ escape_colons t)"
    using k assms escape_plain show_nat_plain by (simp_all add: plain_line_def)
  note t = trim_plain [OF l(1)] trim_plain [OF l(2)] trim_plain [OF l(3)]
  have "lines_of (concat (map (\<lambda>l. l @ [CHR 0x0A])
      [''#'' @ note, ''sequenceNumber='' @ show_nat n, ''timestamp='' @ escape_colons t])) =
      [''#'' @ note, ''sequenceNumber='' @ show_nat n, ''timestamp='' @ escape_colons t]"
    by (subst lines_of_unlines) (use t in auto)
  moreover have "parse_u64 (show_nat n) = Some n" using assms(1) by (rule parse_u64_show)
  ultimately show ?thesis
    using t assms(3) by (simp add: parse_state_txt_def replace2_escape)
qed

section \<open>Properties\<close>

text \<open>The collapse of a list of changes of one type has one entry per id, in increasing id
  order, for exactly the ids that occur, and the entry kept for an id is the one with the
  highest version, the last of them in the order given when versions tie.\<close>

theorem latest_per_id_spec:
  "latest_per_id key items =
     map (\<lambda>a. the (newest key a items)) (sorted_list_of_set (fst ` key ` set items)) \<and>
   sorted_wrt (\<lambda>s t. fst (key s) < fst (key t)) (latest_per_id key items) \<and>
   (\<forall>a. newest key a items = None \<longleftrightarrow> a \<notin> fst ` key ` set items)"
  using latest_canonical latest_strict newest_ids by blast

text \<open>Collapsing is compositional: collapsing each group of diffs and then the results is
  collapsing the whole sequence, so the size of a catch-up batch does not change what is
  applied.\<close>

theorem collapse_compositional: "collapse (map collapse groups) = collapse (concat groups)"
  by (rule collapse_groups)

text \<open>The event loop of \<open>parse_osc\<close> reads back every OsmChange document: for blocks of
  elements with their ids, versions, coordinates, references, members and tags, written as
  self-closing elements or with children, with any other events in between, the change it
  returns holds each element once, under its block's action, in document order.\<close>

theorem parse_osc_document:
  assumes "\<forall>b\<in>set blocks. \<forall>e\<in>set (snd b). elem_action e = fst b \<and> elem_shows sh e"
    and "filter (\<lambda>e. e \<noteq> Other) events = document_events sh blocks"
  shows "parse_osc events = Inr (foldl push_elem empty_change (concat (map snd blocks)))"
proof -
  have "parse_osc events = parse_osc (filter (\<lambda>e. e \<noteq> Other) events)"
    by (simp add: parse_osc_def parse_events_ignores_other)
  with assms document_parse show ?thesis by simp
qed

theorem parse_osc_document_witness:
  "parse_osc (Other # document_events (\<lambda>x. ''1'')
     [(Delete, [Node_Elem \<lparr>n_action = Delete, n_id = - 5, n_version = 2, n_lon = Fin 1, n_lat = Fin 1,
         n_tags = [(''a'', ''b'')]\<rparr>])]) =
   Inr \<lparr>nodes = [\<lparr>n_action = Delete, n_id = - 5, n_version = 2, n_lon = Fin 1, n_lat = Fin 1,
         n_tags = [(''a'', ''b'')]\<rparr>], ways = [], relations = []\<rparr>"
proof -
  let ?n = "\<lparr>n_action = Delete, n_id = - 5, n_version = 2, n_lon = Fin 1, n_lat = Fin 1,
      n_tags = [(''a'', ''b'')]\<rparr>"
  let ?d = "document_events (\<lambda>x. ''1'') [(Delete, [Node_Elem ?n])]"
  have "parse_number ''1'' = Some 1" by code_simp
  moreover have "round53 1 = 1" using round53_int [of 1] by simp
  ultimately have "parse_f64 ''1'' = Some (Fin 1)"
    by (simp add: parse_f64_def split_sign_def eq_ignore_case_def f64_of_rat_def)
  moreover have "filter (\<lambda>e. e \<noteq> Other) (Other # ?d) = ?d"
    by (simp add: document_events_def block_events_def element_events_def tag_events_def)
  ultimately show ?thesis
    using parse_osc_document [of "[(Delete, [Node_Elem ?n])]" "\<lambda>x. ''1''" "Other # ?d"]
    by (simp add: push_node_def empty_change_def)
qed

text \<open>A replication \<open>state.txt\<close> with a comment line, the sequence number and the timestamp
  with its colons escaped is read back exactly.\<close>

theorem parse_state_txt_roundtrip:
  assumes "n < 2 ^ 64" "list_all (\<lambda>c. \<not> is_ws c) t" "CHR 0x5C \<notin> set t"
    and "list_all (\<lambda>c. \<not> is_ws c) note"
  shows "parse_state_txt (concat (map (\<lambda>l. l @ [CHR 0x0A])
      [''#'' @ note, ''sequenceNumber='' @ show_nat n, ''timestamp='' @ escape_colons t]))
    = Inr (n, t)"
  using assms by (rule state_text_parse)

theorem parse_state_txt_roundtrip_witness:
  "parse_state_txt (concat (map (\<lambda>l. l @ [CHR 0x0A]) [''#'' @ ''x'', ''sequenceNumber='' @ show_nat 7,
      ''timestamp='' @ escape_colons ''2026-01-01T00:00:00Z''])) = Inr (7, ''2026-01-01T00:00:00Z'')"
proof (rule parse_state_txt_roundtrip)
  show "(7 :: nat) < 2 ^ 64" by simp
qed code_simp+

text \<open>Below 10^9 a sequence number is laid out as three directory levels of three digits
  that spell it, so different sequences never share a diff or state path.\<close>

theorem sequence_paths:
  assumes "unat sq < 10 ^ 9"
  shows "\<exists>a b c. sequence_to_path sq = a @ ''/'' @ b @ ''/'' @ c @ ''.osc.gz'' \<and>
      sequence_state_path sq = a @ ''/'' @ b @ ''/'' @ c @ ''.state.txt'' \<and>
      length a = 3 \<and> length b = 3 \<and> length c = 3 \<and> parse_nat (a @ b @ c) = Some (unat sq)"
proof -
  let ?s = "pad0 9 (show_nat (unat sq))"
  note p = sequence_stem_parts [OF assms]
  have "parse_nat (take 3 ?s @ take 3 (drop 3 ?s) @ take 3 (drop 6 ?s)) = Some (unat sq)"
    using p(2) parse_nat_pad0 [of 9 "unat sq"] by simp
  then show ?thesis
    using p(1) by (intro exI [of _ "take 3 ?s"] exI [of _ "take 3 (drop 3 ?s)"] exI [of _ "take 3 (drop 6 ?s)"])
      (simp add: sequence_to_path_def sequence_state_path_def sequence_stem_def Let_def)
qed

theorem sequence_paths_witness:
  "unat (7298244 :: u64) < 10 ^ 9 \<and> sequence_to_path 7298244 = ''007/298/244.osc.gz'' \<and>
   (\<exists>a b c. sequence_to_path 7298244 = a @ ''/'' @ b @ ''/'' @ c @ ''.osc.gz'')"
proof -
  have two_zeros: "replicate 2 (CHR ''0'') = ''00''" by code_simp
  have "show_nat 7298244 = ''7298244''" by (simp add: show_numeral)
  then have "sequence_to_path 7298244 = ''007/298/244.osc.gz''"
    by (simp add: sequence_to_path_def sequence_stem_def pad0_def two_zeros)
  moreover have "\<exists>a b c. sequence_to_path 7298244 = a @ ''/'' @ b @ ''/'' @ c @ ''.osc.gz''"
    using sequence_paths [of 7298244] by (simp, blast)
  ultimately show ?thesis by simp
qed

end
