(* ===== verification/Dirty_Cells.thy ===== *)
theory Dirty_Cells
  imports Float64
begin

unbundle bit_operations_syntax

text \<open>
  \<open>src/update/dirty_cells.rs\<close>: the change cells an update run records and flushes into
  \<open>match_dirty_cells\<close>; and \<open>src/server/tile_dirty.rs\<close>: the tiles a changed cell can affect.
  The Web-Mercator projection (\<open>tan\<close>, \<open>ln\<close>) is a parameter of the point path, and the cell
  bounding box DuckDB computes for a stored row is the argument of the row path.
\<close>

section \<open>Floating-point sums\<close>

fun f64_add :: "f64 \<Rightarrow> f64 \<Rightarrow> f64" where
  "f64_add (Fin a) (Fin b) = f64_of_rat (a + b)"
| "f64_add (Inf s) (Fin b) = Inf s"
| "f64_add (Fin a) (Inf t) = Inf t"
| "f64_add (Inf s) (Inf t) = (if s = t then Inf s else NaN)"
| "f64_add _ _ = NaN"

fun f64_neg :: "f64 \<Rightarrow> f64" where
  "f64_neg (Fin a) = Fin (- a)"
| "f64_neg (Inf s) = Inf (\<not> s)"
| "f64_neg NaN = NaN"

definition f64_sub :: "f64 \<Rightarrow> f64 \<Rightarrow> f64" where
  "f64_sub a b = f64_add a (f64_neg b)"

fun is_finite :: "f64 \<Rightarrow> bool" where
  "is_finite (Fin x) = True"
| "is_finite _ = False"

section \<open>Recorded cells\<close>

definition CHANGE_CELL_ZOOM :: nat where
  "CHANGE_CELL_ZOOM = 14"

definition OSM_MATCH_BUFFER_DEG :: f64 where
  "OSM_MATCH_BUFFER_DEG = f64_of_rat (3 / 1000)"

datatype layer = Buildings | Addresses

fun layer_buffer_deg :: "layer \<Rightarrow> f64" where
  "layer_buffer_deg Buildings = Fin 0"
| "layer_buffer_deg Addresses = OSM_MATCH_BUFFER_DEG"

definition MAX_ENQUEUE_CELLS_PER_ROW :: int where
  "MAX_ENQUEUE_CELLS_PER_ROW = 1024"

record dirty_cells =
  d_buildings :: "cell set"
  d_addresses :: "cell set"

definition new_dirty :: dirty_cells where
  "new_dirty = \<lparr>d_buildings = {}, d_addresses = {}\<rparr>"

fun cells_of :: "layer \<Rightarrow> dirty_cells \<Rightarrow> cell set" where
  "cells_of Buildings d = d_buildings d"
| "cells_of Addresses d = d_addresses d"

fun add_cells :: "layer \<Rightarrow> cell set \<Rightarrow> dirty_cells \<Rightarrow> dirty_cells" where
  "add_cells Buildings cs d = d\<lparr>d_buildings := d_buildings d \<union> cs\<rparr>"
| "add_cells Addresses cs d = d\<lparr>d_addresses := d_addresses d \<union> cs\<rparr>"

text \<open>\<open>x as i32\<close> of a \<open>u32\<close> keeps the bits.\<close>

definition note_point ::
  "(f64 \<Rightarrow> f64 \<Rightarrow> nat \<Rightarrow> u32 \<times> u32) \<Rightarrow> layer \<Rightarrow> f64 \<Rightarrow> f64 \<Rightarrow> dirty_cells \<Rightarrow> dirty_cells" where
  "note_point lonlat_to_tile layer lon lat d =
     (if is_finite lon \<and> is_finite lat then
        let buf = layer_buffer_deg layer;
            (x_lo, y_lo) = lonlat_to_tile (f64_sub lon buf) (f64_add lat buf) CHANGE_CELL_ZOOM;
            (x_hi, y_hi) = lonlat_to_tile (f64_add lon buf) (f64_sub lat buf) CHANGE_CELL_ZOOM
        in add_cells layer
             (set (concat (map (\<lambda>x. map (\<lambda>y. (sint (of_nat x :: i32), sint (of_nat y :: i32)))
                [unat y_lo..<Suc (unat y_hi)]) [unat x_lo..<Suc (unat x_hi)]))) d
      else d)"

text \<open>The cell bounding box of a stored row, under the layer's buffer: \<open>x_lo\<close>, \<open>x_hi\<close>,
  \<open>y_lo\<close>, \<open>y_hi\<close>, each an \<open>i32\<close>.\<close>

type_synonym cell_box = "int \<times> int \<times> int \<times> int"

definition box_count :: "cell_box \<Rightarrow> int" where
  "box_count = (\<lambda>(x_lo, x_hi, y_lo, y_hi). (x_hi - x_lo + 1) * (y_hi - y_lo + 1))"

definition box_cells :: "cell_box \<Rightarrow> cell set" where
  "box_cells = (\<lambda>(x_lo, x_hi, y_lo, y_hi).
     set (concat (map (\<lambda>x. map (\<lambda>y. (x, y)) [y_lo..y_hi]) [x_lo..x_hi])))"

fun note_existing :: "layer \<Rightarrow> cell_box list \<Rightarrow> dirty_cells \<Rightarrow> dirty_cells" where
  "note_existing layer [] d = d"
| "note_existing layer (b # bs) d =
     (if box_count b > MAX_ENQUEUE_CELLS_PER_ROW then note_existing layer bs d
      else note_existing layer bs (add_cells layer (box_cells b) d))"

text \<open>A row of \<open>match_dirty_cells\<close>: source, zoom, cell. The order of a \<open>HashSet\<close> is
  unspecified; the model lists it sorted.\<close>

type_synonym dirty_row = "string \<times> nat \<times> cell"

definition insert_cells :: "string \<Rightarrow> nat \<Rightarrow> cell set \<Rightarrow> dirty_row list \<Rightarrow> dirty_row list" where
  "insert_cells source z cells queue =
     (if cells = {} then queue else queue @ map (\<lambda>c. (source, z, c)) (sorted_list_of_set cells))"

definition flush :: "dirty_cells \<Rightarrow> dirty_row list \<Rightarrow> dirty_row list" where
  "flush d queue =
     insert_cells ''prg'' CHANGE_CELL_ZOOM (d_addresses d)
       (insert_cells ''egib'' CHANGE_CELL_ZOOM (d_buildings d)
         (insert_cells ''bdot10k'' CHANGE_CELL_ZOOM (d_buildings d) queue))"

section \<open>The tiles a changed cell affects\<close>

definition RING_RADIUS :: int where
  "RING_RADIUS = 1"

definition MIN_PERSISTED_ZOOM :: nat where
  "MIN_PERSISTED_ZOOM = 12"

type_synonym tile_key = "nat \<times> nat \<times> nat"

definition tiles_for_cell :: "int \<Rightarrow> int \<Rightarrow> tile_key list" where
  "tiles_for_cell cell_x cell_y =
     (let mx = 2 ^ CHANGE_CELL_ZOOM :: int;
          ring = concat (map (\<lambda>dy. concat (map (\<lambda>dx.
            let x = cell_x + dx; y = cell_y + dy in
            if x < 0 \<or> y < 0 \<or> x \<ge> mx \<or> y \<ge> mx then []
            else [(CHANGE_CELL_ZOOM, nat x, nat y)])
            [- RING_RADIUS..RING_RADIUS])) [- RING_RADIUS..RING_RADIUS]);
          parents =
            (if cell_x \<ge> 0 \<and> cell_y \<ge> 0 \<and> cell_x < mx \<and> cell_y < mx then
               map (\<lambda>z. let shift = CHANGE_CELL_ZOOM - z in
                 (z, drop_bit shift (nat cell_x), drop_bit shift (nat cell_y)))
                 [MIN_PERSISTED_ZOOM..<CHANGE_CELL_ZOOM]
             else [])
      in ring @ parents)"

definition enqueue_from_select_sql :: "string \<Rightarrow> string \<Rightarrow> string \<Rightarrow> string" where
  "enqueue_from_select_sql cell_x_expr cell_y_expr from_sql =
     ''INSERT INTO tile_dirty_cells (cell_x, cell_y, enqueued_at)'' @ [CHR 0x0A] @
     ''         SELECT DISTINCT '' @ cell_x_expr @ '', '' @ cell_y_expr @ '', now() '' @ from_sql"

section \<open>Lemmas\<close>

lemma box_cells_iff [simp]:
  "(x, y) \<in> box_cells (x_lo, x_hi, y_lo, y_hi) \<longleftrightarrow> x_lo \<le> x \<and> x \<le> x_hi \<and> y_lo \<le> y \<and> y \<le> y_hi"
  by (auto simp: box_cells_def image_iff)

lemma box_cells_times: "box_cells (x_lo, x_hi, y_lo, y_hi) = {x_lo..x_hi} \<times> {y_lo..y_hi}"
  by (auto simp: box_cells_def)

lemma finite_box_cells [simp]: "finite (box_cells b)"
  by (cases b) (simp add: box_cells_times)

lemma card_box_cells:
  assumes "box_count b \<le> MAX_ENQUEUE_CELLS_PER_ROW"
  shows "card (box_cells b) \<le> 1024"
proof (cases b)
  case (fields x_lo x_hi y_lo y_hi)
  show ?thesis
  proof (cases "x_lo \<le> x_hi \<and> y_lo \<le> y_hi")
    case True
    then have "int (card (box_cells b)) = box_count b"
      by (simp add: fields box_cells_times box_count_def card_cartesian_product)
    with assms show ?thesis by (simp add: MAX_ENQUEUE_CELLS_PER_ROW_def)
  next
    case False
    then have "box_cells b = {}" by (auto simp: fields box_cells_times)
    then show ?thesis by simp
  qed
qed

lemma cells_of_add: "cells_of l (add_cells l' cs d) = (if l = l' then cells_of l d \<union> cs else cells_of l d)"
  by (cases l; cases l') auto

text \<open>The rows that are not skipped as implausibly large.\<close>

definition plausible :: "cell_box \<Rightarrow> bool" where
  "plausible b \<longleftrightarrow> box_count b \<le> MAX_ENQUEUE_CELLS_PER_ROW"

lemma cells_note_existing_same:
  "cells_of l (note_existing l bs d) = cells_of l d \<union> (\<Union>b\<in>set (filter plausible bs). box_cells b)"
proof (induction bs arbitrary: d)
  case (Cons b bs)
  show ?case by (simp add: Cons.IH cells_of_add plausible_def not_less Un_assoc)
qed simp

lemma cells_note_existing_other: "l \<noteq> l' \<Longrightarrow> cells_of l (note_existing l' bs d) = cells_of l d"
  by (induction bs arbitrary: d) (auto simp: cells_of_add)

lemma cells_note_existing:
  "cells_of l (note_existing l' bs d) =
     (if l = l' then cells_of l d \<union> (\<Union>b\<in>set (filter plausible bs). box_cells b) else cells_of l d)"
  using cells_note_existing_same cells_note_existing_other by simp

lemma cells_note_existing_mono: "cells_of l d \<subseteq> cells_of l (note_existing l' bs d)"
  by (auto simp: cells_note_existing)

lemma cells_note_point_mono: "cells_of l d \<subseteq> cells_of l (note_point tf l' lon lat d)"
  by (auto simp: note_point_def Let_def cells_of_add split: prod.splits)

text \<open>The \<open>i64\<close> product of the guard cannot overflow unless both spans pass \<open>2 ^ 31\<close>.\<close>

lemma box_count_in_i64:
  assumes "\<bar>x_lo\<bar> < 2 ^ 30" "\<bar>x_hi\<bar> < 2 ^ 30" "\<bar>y_lo\<bar> < 2 ^ 30" "\<bar>y_hi\<bar> < 2 ^ 30"
  shows "\<bar>box_count (x_lo, x_hi, y_lo, y_hi)\<bar> < 2 ^ 63"
proof -
  have "\<bar>x_hi - x_lo + 1\<bar> \<le> 2 ^ 31" "\<bar>y_hi - y_lo + 1\<bar> \<le> 2 ^ 31" using assms by auto
  then have "\<bar>x_hi - x_lo + 1\<bar> * \<bar>y_hi - y_lo + 1\<bar> \<le> 2 ^ 31 * 2 ^ 31" by (intro mult_mono) auto
  then show ?thesis by (simp add: box_count_def abs_mult)
qed

lemma set_flush:
  "finite (d_buildings d) \<Longrightarrow> finite (d_addresses d) \<Longrightarrow>
   set (flush d queue) = set queue \<union>
     (\<lambda>c. (''bdot10k'', CHANGE_CELL_ZOOM, c)) ` d_buildings d \<union>
     (\<lambda>c. (''egib'', CHANGE_CELL_ZOOM, c)) ` d_buildings d \<union>
     (\<lambda>c. (''prg'', CHANGE_CELL_ZOOM, c)) ` d_addresses d"
  by (auto simp: flush_def insert_cells_def)

lemma ring_list: "[- RING_RADIUS..RING_RADIUS] = [- 1, 0, 1]"
  by (simp add: RING_RADIUS_def upto.simps)

lemma parents_list: "[MIN_PERSISTED_ZOOM..<CHANGE_CELL_ZOOM] = [12, 13]"
  by (simp add: MIN_PERSISTED_ZOOM_def CHANGE_CELL_ZOOM_def upt_rec)

lemma in_concat_map: "a \<in> set (concat (map f xs)) \<longleftrightarrow> (\<exists>x\<in>set xs. a \<in> set (f x))"
  by auto

lemma ring_member:
  "(CHANGE_CELL_ZOOM, x, y) \<in> set (if a < 0 \<or> b < 0 \<or> a \<ge> 2 ^ CHANGE_CELL_ZOOM \<or> b \<ge> 2 ^ CHANGE_CELL_ZOOM
      then [] else [(CHANGE_CELL_ZOOM, nat a, nat b)])
   \<longleftrightarrow> int x = a \<and> int y = b \<and> x < 2 ^ 14 \<and> y < 2 ^ 14"
  by (auto simp: CHANGE_CELL_ZOOM_def)

lemma parent_member:
  "(z, x, y) \<in> set (map (\<lambda>z. let shift = CHANGE_CELL_ZOOM - z in
       (z, drop_bit shift (nat cx), drop_bit shift (nat cy))) [12, 13])
   \<longleftrightarrow> (z = 12 \<or> z = 13) \<and> x = nat cx div 2 ^ (14 - z) \<and> y = nat cy div 2 ^ (14 - z)"
  by (auto simp: CHANGE_CELL_ZOOM_def drop_bit_eq_div)

lemma tiles_z14:
  "(CHANGE_CELL_ZOOM, x, y) \<in> set (tiles_for_cell cx cy) \<longleftrightarrow>
     \<bar>int x - cx\<bar> \<le> 1 \<and> \<bar>int y - cy\<bar> \<le> 1 \<and> x < 2 ^ 14 \<and> y < 2 ^ 14"
proof -
  have np: "(CHANGE_CELL_ZOOM, x, y) \<notin> set (if c then map (\<lambda>z. let shift = CHANGE_CELL_ZOOM - z in
       (z, drop_bit shift (nat cx), drop_bit shift (nat cy))) [12, 13] else [])" for c
    by (simp add: CHANGE_CELL_ZOOM_def)
  note np = np [unfolded Let_def]
  have "(CHANGE_CELL_ZOOM, x, y) \<in> set (tiles_for_cell cx cy) \<longleftrightarrow>
    (\<exists>dy \<in> {- 1, 0, 1}. \<exists>dx \<in> {- 1, 0, 1}. int x = cx + dx \<and> int y = cy + dy \<and> x < 2 ^ 14 \<and> y < 2 ^ 14)"
    unfolding tiles_for_cell_def ring_list parents_list Let_def
    by (simp only: set_append Un_iff in_concat_map ring_member np simp_thms list.set)
  also have "\<dots> \<longleftrightarrow> \<bar>int x - cx\<bar> \<le> 1 \<and> \<bar>int y - cy\<bar> \<le> 1 \<and> x < 2 ^ 14 \<and> y < 2 ^ 14"
    by (auto simp: abs_le_iff)
  finally show ?thesis .
qed

lemma tiles_parents:
  assumes "0 \<le> cx" "cx < 2 ^ 14" "0 \<le> cy" "cy < 2 ^ 14" "z \<noteq> CHANGE_CELL_ZOOM"
  shows "(z, x, y) \<in> set (tiles_for_cell cx cy) \<longleftrightarrow>
     (z = 12 \<or> z = 13) \<and> x = nat cx div 2 ^ (14 - z) \<and> y = nat cy div 2 ^ (14 - z)"
proof -
  have nr: "(z, x, y) \<notin> set (if c then [] else [(CHANGE_CELL_ZOOM, a, b)])" for c a b
    using assms(5) by simp
  have c: "cx \<ge> 0 \<and> cy \<ge> 0 \<and> cx < 2 ^ CHANGE_CELL_ZOOM \<and> cy < 2 ^ CHANGE_CELL_ZOOM"
    using assms by (simp add: CHANGE_CELL_ZOOM_def)
  show ?thesis
    unfolding tiles_for_cell_def ring_list parents_list Let_def
    using c by (simp only: set_append Un_iff in_concat_map nr parent_member [unfolded Let_def] simp_thms if_True) simp
qed

text \<open>The z14 cells a lower-zoom tile covers, as the serving path derives them.\<close>

lemma parent_covers:
  "x = c div 2 ^ s \<longleftrightarrow> x * 2 ^ s \<le> c \<and> c \<le> (x + 1) * 2 ^ s - 1" for c s x :: nat
proof -
  have p: "(0 :: nat) < 2 ^ s" by simp
  have "x = c div 2 ^ s \<longleftrightarrow> x \<le> c div 2 ^ s \<and> c div 2 ^ s < x + 1" by auto
  also have "\<dots> \<longleftrightarrow> x * 2 ^ s \<le> c \<and> c < (x + 1) * 2 ^ s"
    using p by (simp only: less_eq_div_iff_mult_less_eq div_less_iff_less_mult)
  also have "\<dots> \<longleftrightarrow> x * 2 ^ s \<le> c \<and> c \<le> (x + 1) * 2 ^ s - 1"
  proof -
    have "0 < (x + 1) * 2 ^ s" using p by simp
    then show ?thesis by linarith
  qed
  finally show ?thesis .
qed

section \<open>Properties\<close>

text \<open>The expansion of a changed cell into tile keys is exact: at zoom 14 it is the ring of
  in-range tiles at distance at most one, and at zoom 12 and 13 it is the single tile whose
  served cell range, computed with the serving path's shifts, contains the cell; no other
  zoom occurs.\<close>

theorem tiles_for_cell_exact:
  assumes "0 \<le> cx" "cx < 2 ^ 14" "0 \<le> cy" "cy < 2 ^ 14"
  shows "(z, x, y) \<in> set (tiles_for_cell cx cy) \<longleftrightarrow>
     (z = 14 \<and> \<bar>int x - cx\<bar> \<le> 1 \<and> \<bar>int y - cy\<bar> \<le> 1 \<and> x < 2 ^ 14 \<and> y < 2 ^ 14) \<or>
     ((z = 12 \<or> z = 13) \<and>
        x * 2 ^ (14 - z) \<le> nat cx \<and> nat cx \<le> (x + 1) * 2 ^ (14 - z) - 1 \<and>
        y * 2 ^ (14 - z) \<le> nat cy \<and> nat cy \<le> (y + 1) * 2 ^ (14 - z) - 1)"
proof (cases "z = CHANGE_CELL_ZOOM")
  case True
  then show ?thesis using tiles_z14 by (simp add: CHANGE_CELL_ZOOM_def)
next
  case False
  then have "z \<noteq> 14" by (simp add: CHANGE_CELL_ZOOM_def)
  then show ?thesis using tiles_parents [OF assms False] parent_covers by blast
qed

theorem tiles_for_cell_exact_witness:
  "((13 :: nat), (50 :: nat), (100 :: nat)) \<in> set (tiles_for_cell 100 200) \<and>
   (14, 99, 201) \<in> set (tiles_for_cell 100 200) \<and> (14, 102, 200) \<notin> set (tiles_for_cell 100 200)"
  by (simp add: tiles_for_cell_exact)

text \<open>Every row noted before or after a change has all the cells of its bounding box
  recorded for its layer, unless the box exceeds the ceiling; the recorded set only grows,
  nothing outside the boxes of plausible rows is recorded, and a row adds at most 1024
  cells.\<close>

theorem note_existing_exact:
  "cells_of layer (note_existing layer boxes d) =
     cells_of layer d \<union> (\<Union>b\<in>set (filter plausible boxes). box_cells b) \<and>
   (\<forall>l. l \<noteq> layer \<longrightarrow> cells_of l (note_existing layer boxes d) = cells_of l d) \<and>
   (\<forall>b. plausible b \<longrightarrow> card (box_cells b) \<le> 1024)"
  using cells_note_existing_same cells_note_existing_other card_box_cells by (auto simp: plausible_def)

theorem note_existing_exact_witness:
  "plausible (5, 6, 7, 7) \<and>
   cells_of Buildings (note_existing Buildings [(5, 6, 7, 7), (0, 954, 0, 2780)] new_dirty) = {(5, 7), (6, 7)}"
proof -
  have p: "plausible (5, 6, 7, 7)" "\<not> plausible (0, 954, 0, 2780)"
    by (simp_all add: plausible_def box_count_def MAX_ENQUEUE_CELLS_PER_ROW_def)
  have "box_cells (5, 6, 7, 7) = {(5, 7), (6, 7)}" by (auto simp: box_cells_times)
  then show ?thesis
    using note_existing_exact [of Buildings "[(5, 6, 7, 7), (0, 954, 0, 2780)]" new_dirty] p
    by (simp add: new_dirty_def)
qed

end
