(* ===== verification/Osm_Apply.thy ===== *)
theory Osm_Apply
  imports Udf Replication Dirty_Cells
begin

text \<open>
  The apply path of \<open>src/update/osm.rs\<close>: how one collapsed change set is written to the
  key-value store and to the three served tables, with the dirty cells it leaves behind. The
  store is the typed view of \<open>Store\<close>, whose operations the RocksDB model refines; the
  writes are kept as a list of \<open>kv_op\<close>, in program order, because a crash can stop after any
  of them. DuckDB's spatial functions are a parameter.
\<close>

section \<open>Tables and the spatial engine\<close>

record 'g spatial =
  st_npoints :: "byte list \<Rightarrow> nat"
  st_is_closed :: "byte list \<Rightarrow> bool"
  st_make_polygon :: "byte list \<Rightarrow> 'g"
  st_union_agg :: "'g list \<Rightarrow> 'g"
  st_difference :: "'g \<Rightarrow> 'g \<Rightarrow> 'g"
  st_centroid_line :: "byte list \<Rightarrow> 'g"
  st_centroid_collect :: "byte list list \<Rightarrow> 'g"
  st_point :: "f64 \<Rightarrow> f64 \<Rightarrow> 'g"
  repaired_geom :: "'g \<Rightarrow> 'g"
  has_polygon :: "'g \<Rightarrow> bool"
  geom_cells :: "layer \<Rightarrow> 'g \<Rightarrow> cell_box"
  tile_of_point :: "f64 \<Rightarrow> f64 \<Rightarrow> nat \<Rightarrow> u32 \<times> u32"

record ('p, 'g) row =
  row_id :: i64
  row_type :: string
  row_data :: 'p
  row_geom :: "'g option"

type_synonym address = "string option \<times> string option \<times> string option \<times> string option"

record 'g tables =
  osm_buildings :: "(string option, 'g) row list"
  osm_former_buildings :: "(string \<times> string, 'g) row list"
  osm_addresses :: "(address, 'g) row list"

text \<open>Tables and recorded cells, threaded together through a transaction.\<close>

type_synonym 'g work = "'g tables \<times> dirty_cells"

definition REBUILD_CHUNK :: nat where
  "REBUILD_CHUNK = 1000"

definition is_row :: "string \<Rightarrow> i64 list \<Rightarrow> ('p, 'g) row \<Rightarrow> bool" where
  "is_row typ ids r \<longleftrightarrow> row_type r = typ \<and> row_id r \<in> set ids"

definition delete_rows :: "string \<Rightarrow> i64 list \<Rightarrow> ('p, 'g) row list \<Rightarrow> ('p, 'g) row list" where
  "delete_rows typ ids rows = (if ids = [] then rows else filter (\<lambda>r. \<not> is_row typ ids r) rows)"

definition note_rows ::
  "'g spatial \<Rightarrow> layer \<Rightarrow> ('p, 'g) row list \<Rightarrow> i64 list \<Rightarrow> string \<Rightarrow> dirty_cells \<Rightarrow> dirty_cells" where
  "note_rows sp layer rows ids typ d =
     (if ids = [] then d
      else note_existing layer
        (map (geom_cells sp layer) (List.map_filter row_geom (filter (is_row typ ids) rows))) d)"

definition remove_chunk :: "'g spatial \<Rightarrow> string \<Rightarrow> 'g work \<Rightarrow> i64 list \<Rightarrow> 'g work" where
  "remove_chunk sp typ work chunk =
     (let (tabs, d) = work;
          d1 = note_rows sp Buildings (osm_buildings tabs) chunk typ d;
          d2 = note_rows sp Addresses (osm_addresses tabs) chunk typ d1;
          d3 = note_rows sp Buildings (osm_former_buildings tabs) chunk typ d2
      in (\<lparr>osm_buildings = delete_rows typ chunk (osm_buildings tabs),
           osm_former_buildings = delete_rows typ chunk (osm_former_buildings tabs),
           osm_addresses = delete_rows typ chunk (osm_addresses tabs)\<rparr>, d3))"

definition remove_served_rows :: "'g spatial \<Rightarrow> string \<Rightarrow> i64 list \<Rightarrow> 'g work \<Rightarrow> 'g work" where
  "remove_served_rows sp typ ids work = foldl (remove_chunk sp typ) work (chunks REBUILD_CHUNK ids)"

section \<open>Tags\<close>

definition tag_value :: "tags \<Rightarrow> string \<Rightarrow> string option" where
  "tag_value tags key = map_option snd (find (\<lambda>(k, _). k = key) tags)"

definition or_else :: "'a option \<Rightarrow> 'a option \<Rightarrow> 'a option" where
  "or_else a b = (case a of None \<Rightarrow> b | Some x \<Rightarrow> Some x)"

record rebuild_tags =
  rt_building :: "string option"
  rt_housenumber :: "string option"
  rt_street :: "string option"
  rt_city :: "string option"
  rt_postcode :: "string option"
  rt_former :: "(string \<times> string) option"

definition change_rebuild_tags :: "tags \<Rightarrow> rebuild_tags" where
  "change_rebuild_tags tags =
     \<lparr>rt_building = tag_value tags ''building'',
      rt_housenumber = tag_value tags ''addr:housenumber'',
      rt_street = tag_value tags ''addr:street'',
      rt_city = or_else (tag_value tags ''addr:city'') (tag_value tags ''addr:place''),
      rt_postcode = tag_value tags ''addr:postcode'',
      rt_former = map_option (\<lambda>key. (key, case tag_value tags key of None \<Rightarrow> [] | Some v \<Rightarrow> v)) (key_of tags)\<rparr>"

text \<open>The row an id has in a table; of several the query's first wins.\<close>

definition row_of :: "string \<Rightarrow> i64 \<Rightarrow> ('p, 'g) row list \<Rightarrow> 'p option" where
  "row_of typ i rows = map_option row_data (find (is_row typ [i]) rows)"

definition stored_rebuild_tags :: "'g tables \<Rightarrow> string \<Rightarrow> i64 list \<Rightarrow> i64 \<Rightarrow> rebuild_tags option" where
  "stored_rebuild_tags tabs typ ids i =
     (if i \<notin> set ids then None else
      let building = map_option (\<lambda>b. case b of None \<Rightarrow> ''yes'' | Some x \<Rightarrow> x) (row_of typ i (osm_buildings tabs));
          addr = row_of typ i (osm_addresses tabs);
          former = row_of typ i (osm_former_buildings tabs)
      in if building = None \<and> addr = None \<and> former = None then None
         else let (hn, street, city, postcode) =
                (case addr of
                   Some (hn, street, city, postcode) \<Rightarrow> (or_else hn (Some []), street, city, postcode)
                 | None \<Rightarrow> (None, None, None, None))
              in Some \<lparr>rt_building = building, rt_housenumber = hn, rt_street = street, rt_city = city,
                   rt_postcode = postcode, rt_former = former\<rparr>)"

record rebuild_rows =
  rr_buildings :: "(i64 \<times> string) list"
  rr_former :: "(i64 \<times> (string \<times> string)) list"
  rr_addresses :: "(i64 \<times> address) list"

definition no_rows :: rebuild_rows where
  "no_rows = \<lparr>rr_buildings = [], rr_former = [], rr_addresses = []\<rparr>"

definition wants_any :: "rebuild_tags \<Rightarrow> bool" where
  "wants_any tags \<longleftrightarrow> rt_building tags \<noteq> None \<or> rt_housenumber tags \<noteq> None \<or> rt_former tags \<noteq> None"

definition push_rows :: "i64 \<Rightarrow> rebuild_tags \<Rightarrow> rebuild_rows \<Rightarrow> rebuild_rows" where
  "push_rows i tags rows =
     \<lparr>rr_buildings = rr_buildings rows @ (case rt_building tags of None \<Rightarrow> [] | Some b \<Rightarrow> [(i, b)]),
      rr_former = rr_former rows @ (case rt_former tags of None \<Rightarrow> [] | Some f \<Rightarrow> [(i, f)]),
      rr_addresses = rr_addresses rows @
        (case rt_housenumber tags of None \<Rightarrow> []
         | Some h \<Rightarrow> [(i, (Some h, rt_street tags, rt_city tags, rt_postcode tags))])\<rparr>"

section \<open>Unresolved ways\<close>

text \<open>\<open>missing_nodes\<close> is \<open>None\<close> when the way itself is not stored.\<close>

record unresolved_way =
  uw_way :: i64
  uw_missing :: "i64 list option"

definition missing_nodes :: "store \<Rightarrow> i64 list \<Rightarrow> i64 list" where
  "missing_nodes t refs =
     foldl (\<lambda>missing n. if n \<notin> set missing \<and> s_nodes t n = None then missing @ [n] else missing) [] refs"

fun unresolved_way_members :: "store \<Rightarrow> i64 list \<Rightarrow> unresolved_way list" where
  "unresolved_way_members t [] = []"
| "unresolved_way_members t (w # ws) =
     (case s_ways t w of
        None \<Rightarrow> \<lparr>uw_way = w, uw_missing = None\<rparr> # unresolved_way_members t ws
      | Some refs \<Rightarrow>
          if mapM_opt (s_nodes t) refs \<noteq> None then unresolved_way_members t ws
          else \<lparr>uw_way = w, uw_missing = Some (missing_nodes t refs)\<rparr> # unresolved_way_members t ws)"

definition describe_unresolved :: "unresolved_way list \<Rightarrow> string" where
  "describe_unresolved us =
     join_with ''; '' (map (\<lambda>u. case uw_missing u of
         None \<Rightarrow> ''way/'' @ show_int (sint (uw_way u)) @ '' is not in the store''
       | Some ns \<Rightarrow> ''way/'' @ show_int (sint (uw_way u)) @ '' is missing '' @
           join_with '', '' (map (\<lambda>n. ''node/'' @ show_int (sint n)) ns)) us)
     @ '' (outside the extract?)''"

definition chunk_label :: "string \<Rightarrow> i64 list \<Rightarrow> string" where
  "chunk_label kind ids =
     (if ids = [] then kind @ ''s (empty chunk)''
      else kind @ ''s '' @ show_int (sint (hd ids)) @ ''..='' @ show_int (sint (last ids)) @
        '' ('' @ show_nat (length ids) @ '' in chunk)'')"

section \<open>Rebuilding ways\<close>

text \<open>The polygon of a closed way, as the statements' \<open>closed_ring\<close> and guard select it.\<close>

definition way_ring :: "'g spatial \<Rightarrow> store \<Rightarrow> i64 \<Rightarrow> 'g option" where
  "way_ring sp t w =
     (case way_line t w of None \<Rightarrow> None
      | Some cs \<Rightarrow>
          let wkb = wkb_line cs; ring = st_make_polygon sp wkb
          in if st_npoints sp wkb \<ge> 4 \<and> st_is_closed sp wkb \<and> has_polygon sp ring
             then Some (repaired_geom sp ring) else None)"

definition way_centroid :: "'g spatial \<Rightarrow> store \<Rightarrow> i64 \<Rightarrow> 'g option" where
  "way_centroid sp t w = map_option (\<lambda>cs. st_centroid_line sp (wkb_line cs)) (way_line t w)"

text \<open>An INSERT: one row per value whose geometry the statement's WHERE accepts.\<close>

definition insert_rows ::
  "string \<Rightarrow> (i64 \<Rightarrow> 'g option option) \<Rightarrow> ('v \<Rightarrow> 'p) \<Rightarrow> (i64 \<times> 'v) list \<Rightarrow> ('p, 'g) row list" where
  "insert_rows typ geom payload vals =
     concat (map (\<lambda>(i, v). case geom i of None \<Rightarrow> []
       | Some g \<Rightarrow> [\<lparr>row_id = i, row_type = typ, row_data = payload v, row_geom = g\<rparr>]) vals)"

definition insert_buildings ::
  "'g spatial \<Rightarrow> string \<Rightarrow> (i64 \<Rightarrow> 'g option option) \<Rightarrow> (i64 \<times> string) list \<Rightarrow> 'g work \<Rightarrow> 'g work" where
  "insert_buildings sp typ geom vals work =
     (if vals = [] then work else
        let (tabs, d) = work; b = osm_buildings tabs @ insert_rows typ geom Some vals
        in (tabs\<lparr>osm_buildings := b\<rparr>, note_rows sp Buildings b (map fst vals) typ d))"

definition insert_former ::
  "'g spatial \<Rightarrow> string \<Rightarrow> (i64 \<Rightarrow> 'g option option) \<Rightarrow> (i64 \<times> (string \<times> string)) list \<Rightarrow> 'g work \<Rightarrow> 'g work" where
  "insert_former sp typ geom vals work =
     (if vals = [] then work else
        let (tabs, d) = work; f = osm_former_buildings tabs @ insert_rows typ geom id vals
        in (tabs\<lparr>osm_former_buildings := f\<rparr>, note_rows sp Buildings f (map fst vals) typ d))"

definition insert_addresses ::
  "'g spatial \<Rightarrow> string \<Rightarrow> (i64 \<Rightarrow> 'g option option) \<Rightarrow> (i64 \<times> address) list \<Rightarrow> 'g work \<Rightarrow> 'g work" where
  "insert_addresses sp typ geom vals work =
     (if vals = [] then work else
        let (tabs, d) = work; a = osm_addresses tabs @ insert_rows typ geom id vals
        in (tabs\<lparr>osm_addresses := a\<rparr>, note_rows sp Addresses a (map fst vals) typ d))"

definition insert_all ::
  "'g spatial \<Rightarrow> string \<Rightarrow> (i64 \<Rightarrow> 'g option option) \<Rightarrow> (i64 \<Rightarrow> 'g option option) \<Rightarrow>
     rebuild_rows \<Rightarrow> 'g work \<Rightarrow> 'g work" where
  "insert_all sp typ polygon centroid rows work =
     insert_addresses sp typ centroid (rr_addresses rows)
       (insert_former sp typ polygon (rr_former rows)
         (insert_buildings sp typ polygon (rr_buildings rows) work))"

definition way_targets ::
  "'g tables \<Rightarrow> (i64 \<rightharpoonup> way_change) \<Rightarrow> i64 list \<Rightarrow> (i64 \<times> rebuild_tags) list" where
  "way_targets tabs way_changes chunk =
     (let inferred = filter (\<lambda>i. way_changes i = None) chunk;
          stored = stored_rebuild_tags tabs ''way'' inferred
      in List.map_filter (\<lambda>i. case way_changes i of
           Some wc \<Rightarrow> Some (i, change_rebuild_tags (w_tags wc))
         | None \<Rightarrow> map_option (\<lambda>tags. (i, tags)) (stored i)) chunk)"

definition way_rows :: "store \<Rightarrow> (i64 \<times> rebuild_tags) list \<Rightarrow> rebuild_rows" where
  "way_rows t targets =
     foldl (\<lambda>rows (i, tags).
        if wants_any tags \<and> unresolved_way_members t [i] \<noteq> [] then rows
        else push_rows i tags rows) no_rows targets"

definition rebuild_way_chunk ::
  "'g spatial \<Rightarrow> store \<Rightarrow> (i64 \<rightharpoonup> way_change) \<Rightarrow> 'g work \<Rightarrow> i64 list \<Rightarrow> 'g work" where
  "rebuild_way_chunk sp t way_changes work chunk =
     (let targets = way_targets (fst work) way_changes chunk;
          work1 = remove_served_rows sp ''way'' (map fst targets) work
      in insert_all sp ''way'' (\<lambda>i. map_option Some (way_ring sp t i))
           (\<lambda>i. map_option Some (way_centroid sp t i)) (way_rows t targets) work1)"

definition rebuild_way_geometries ::
  "'g spatial \<Rightarrow> store \<Rightarrow> (i64 \<rightharpoonup> way_change) \<Rightarrow> i64 list \<Rightarrow> 'g work \<Rightarrow> 'g work" where
  "rebuild_way_geometries sp t way_changes way_ids work =
     foldl (rebuild_way_chunk sp t way_changes) work
       (chunks REBUILD_CHUNK (filter (\<lambda>w. s_ways t w \<noteq> None) way_ids))"

section \<open>Rebuilding relations\<close>

type_synonym way_members = "(i64 \<times> string) list"

definition relation_ways :: "member list \<Rightarrow> way_members" where
  "relation_ways members =
     map (\<lambda>(r, _, role). (r, decode_member_role role))
       (filter (\<lambda>(_, ty, _). ty = encode_member_type ''way'') members)"

text \<open>\<open>relation_multipolygon_geom_sql\<close>: the lines of the members, in member order.\<close>

definition way_geoms :: "store \<Rightarrow> way_members \<Rightarrow> (string \<times> byte list) list" where
  "way_geoms t wms =
     List.map_filter (\<lambda>(w, role). map_option (\<lambda>cs. (role, wkb_line cs)) (way_line t w)) wms"

definition role_polys :: "'g spatial \<Rightarrow> (string \<Rightarrow> bool) \<Rightarrow> (string \<times> byte list) list \<Rightarrow> 'g option" where
  "role_polys sp role_ok lines =
     (let ps = map (\<lambda>(_, l). st_make_polygon sp l)
            (filter (\<lambda>(role, l). role_ok role \<and> st_npoints sp l \<ge> 4 \<and> st_is_closed sp l) lines)
      in if ps = [] then None else Some (st_union_agg sp ps))"

definition outer_role :: "string \<Rightarrow> bool" where
  "outer_role r \<longleftrightarrow> r = ''outer'' \<or> r = []"

definition inner_role :: "string \<Rightarrow> bool" where
  "inner_role r \<longleftrightarrow> r = ''inner''"

definition relation_polygon :: "'g spatial \<Rightarrow> store \<Rightarrow> way_members \<Rightarrow> 'g option" where
  "relation_polygon sp t wms =
     (let lines = way_geoms t wms in
      case role_polys sp outer_role lines of None \<Rightarrow> None
      | Some outer_geom \<Rightarrow>
          let g = (case role_polys sp inner_role lines of
                     Some inner_geom \<Rightarrow> st_difference sp outer_geom inner_geom
                   | None \<Rightarrow> outer_geom)
          in if has_polygon sp g then Some (repaired_geom sp g) else None)"

definition relation_centroid :: "'g spatial \<Rightarrow> store \<Rightarrow> way_members \<Rightarrow> 'g option" where
  "relation_centroid sp t wms =
     (let lines = map snd (way_geoms t wms)
      in if lines = [] then None else Some (st_centroid_collect sp lines))"

definition relation_targets ::
  "'g tables \<Rightarrow> (i64 \<rightharpoonup> relation_change) \<Rightarrow> (i64 \<times> member list) list \<Rightarrow> (i64 \<times> member list \<times> rebuild_tags) list" where
  "relation_targets tabs relation_changes chunk =
     (let inferred = filter (\<lambda>i. relation_changes i = None) (map fst chunk);
          stored = stored_rebuild_tags tabs ''relation'' inferred
      in List.map_filter (\<lambda>(i, members). case relation_changes i of
           Some rc \<Rightarrow> Some (i, members, change_rebuild_tags (r_tags rc))
         | None \<Rightarrow> map_option (\<lambda>tags. (i, members, tags)) (stored i)) chunk)"

definition relation_rows ::
  "store \<Rightarrow> (i64 \<times> member list \<times> rebuild_tags) list \<Rightarrow> (i64 \<rightharpoonup> way_members) \<times> rebuild_rows" where
  "relation_rows t targets =
     foldl (\<lambda>(wm, rows) (i, members, tags).
        let wms = relation_ways members in
        if wms = [] then (wm, rows)
        else if wants_any tags \<and> unresolved_way_members t (map fst wms) \<noteq> [] then (wm, rows)
        else (wm(i \<mapsto> wms), push_rows i tags rows)) (Map.empty, no_rows) targets"

definition rebuild_relation_chunk ::
  "'g spatial \<Rightarrow> store \<Rightarrow> (i64 \<rightharpoonup> relation_change) \<Rightarrow> 'g work \<Rightarrow> (i64 \<times> member list) list \<Rightarrow> 'g work" where
  "rebuild_relation_chunk sp t relation_changes work chunk =
     (let targets = relation_targets (fst work) relation_changes chunk;
          work1 = remove_served_rows sp ''relation'' (map fst targets) work;
          (wm, rows) = relation_rows t targets;
          wms = (\<lambda>i. case wm i of Some ws \<Rightarrow> ws | None \<Rightarrow> [])
      in insert_all sp ''relation'' (\<lambda>i. map_option Some (relation_polygon sp t (wms i)))
           (\<lambda>i. Some (relation_centroid sp t (wms i))) rows work1)"

definition rebuild_relation_geometries ::
  "'g spatial \<Rightarrow> store \<Rightarrow> (i64 \<rightharpoonup> relation_change) \<Rightarrow> i64 list \<Rightarrow> 'g work \<Rightarrow> 'g work" where
  "rebuild_relation_geometries sp t relation_changes relation_ids work =
     foldl (rebuild_relation_chunk sp t relation_changes) work
       (chunks REBUILD_CHUNK
         (List.map_filter (\<lambda>r. map_option (\<lambda>ms. (r, ms)) (s_rels t r)) relation_ids))"

section \<open>The writes to the store\<close>

definition node_change_ops :: "store \<Rightarrow> node_change \<Rightarrow> kv_op list" where
  "node_change_ops t n =
     (case n_action n of
        Delete \<Rightarrow> map (RemN2W (n_id n)) (s_n2w t (n_id n)) @ [DelNode (n_id n)]
      | _ \<Rightarrow> [PutNode (n_id n) (f64_to_decimicro (n_lon n)) (f64_to_decimicro (n_lat n))])"

definition drop_way_refs :: "store \<Rightarrow> i64 \<Rightarrow> kv_op list" where
  "drop_way_refs t w = (case s_ways t w of None \<Rightarrow> [] | Some old \<Rightarrow> map (\<lambda>n. RemN2W n w) old)"

definition way_change_ops :: "store \<Rightarrow> way_change \<Rightarrow> kv_op list" where
  "way_change_ops t w =
     (case w_action w of
        Delete \<Rightarrow> drop_way_refs t (w_id w) @ [DelWay (w_id w)]
      | _ \<Rightarrow> drop_way_refs t (w_id w) @ [PutWay (w_id w) (w_refs w)] @
              map (\<lambda>n. AddN2W n (w_id w)) (w_refs w))"

definition way_refs_of :: "member list \<Rightarrow> i64 list" where
  "way_refs_of ms = map fst (filter (\<lambda>(_, ty, _). ty = encode_member_type ''way'') ms)"

definition drop_relation_members :: "store \<Rightarrow> i64 \<Rightarrow> kv_op list" where
  "drop_relation_members t r =
     (case s_rels t r of None \<Rightarrow> [] | Some old \<Rightarrow> map (\<lambda>w. RemW2R w r) (way_refs_of old))"

definition encoded_members :: "relation_member list \<Rightarrow> member list" where
  "encoded_members ms =
     map (\<lambda>m. (m_ref m, encode_member_type (m_type m), encode_member_role (m_role m))) ms"

definition relation_change_ops :: "store \<Rightarrow> relation_change \<Rightarrow> kv_op list" where
  "relation_change_ops t r =
     (case r_action r of
        Delete \<Rightarrow> drop_relation_members t (r_id r) @ [DelRel (r_id r)]
      | _ \<Rightarrow> drop_relation_members t (r_id r) @ [PutRel (r_id r) (encoded_members (r_members r))] @
              map (\<lambda>m. AddW2R (m_ref m) (r_id r)) (filter (\<lambda>m. m_type m = ''way'') (r_members r)))"

text \<open>The store, the writes made so far and the ids affected, as one state of the three phases.\<close>

record kv_phase =
  p_store :: store
  p_ops :: "kv_op list"
  p_ways :: "i64 list"
  p_rels :: "i64 list"

definition do_ops :: "kv_op list \<Rightarrow> kv_phase \<Rightarrow> kv_phase" where
  "do_ops ops p = p\<lparr>p_store := foldl store_op (p_store p) ops, p_ops := p_ops p @ ops\<rparr>"

definition apply_node :: "kv_phase \<Rightarrow> node_change \<Rightarrow> kv_phase" where
  "apply_node p n =
     (do_ops (node_change_ops (p_store p) n) p)\<lparr>p_ways := p_ways p @ s_n2w (p_store p) (n_id n)\<rparr>"

definition apply_way :: "kv_phase \<Rightarrow> way_change \<Rightarrow> kv_phase" where
  "apply_way p w =
     (let p' = do_ops (way_change_ops (p_store p) w) p;
          p'' = p'\<lparr>p_rels := p_rels p @ s_w2r (p_store p') (w_id w)\<rparr>
      in if w_action w = Delete then p'' else p''\<lparr>p_ways := p_ways p @ [w_id w]\<rparr>)"

definition apply_relation :: "kv_phase \<Rightarrow> relation_change \<Rightarrow> kv_phase" where
  "apply_relation p r =
     (let p' = do_ops (relation_change_ops (p_store p) r) p
      in if r_action r = Delete then p' else p'\<lparr>p_rels := p_rels p @ [r_id r]\<rparr>)"

definition kv_phases :: "osm_change \<Rightarrow> store \<Rightarrow> kv_phase" where
  "kv_phases c t =
     foldl apply_relation
       (foldl apply_way
         (foldl apply_node \<lparr>p_store = t, p_ops = [], p_ways = [], p_rels = []\<rparr> (nodes c))
         (ways c))
       (relations c)"

section \<open>Applying a change set\<close>

text \<open>A \<open>HashSet\<close> of ids sorted as \<open>sort_unstable\<close> leaves it.\<close>

definition sorted_ids :: "i64 list \<Rightarrow> i64 list" where
  "sorted_ids xs = sort_key sint (remdups xs)"

definition node_rows :: "'g spatial \<Rightarrow> node_change list \<Rightarrow> (address, 'g) row list" where
  "node_rows sp ns =
     map (\<lambda>n. \<lparr>row_id = n_id n, row_type = ''node'',
       row_data = (tag_value (n_tags n) ''addr:housenumber'', tag_value (n_tags n) ''addr:street'',
         or_else (tag_value (n_tags n) ''addr:city'') (tag_value (n_tags n) ''addr:place''),
         tag_value (n_tags n) ''addr:postcode''),
       row_geom = Some (st_point sp (n_lon n) (n_lat n))\<rparr>) ns"

definition insert_node_addresses :: "'g spatial \<Rightarrow> 'g work \<Rightarrow> node_change list \<Rightarrow> 'g work" where
  "insert_node_addresses sp work chunk =
     (let (tabs, d) = work
      in (tabs\<lparr>osm_addresses := osm_addresses tabs @ node_rows sp chunk\<rparr>,
          foldl (\<lambda>d n. note_point (tile_of_point sp) Addresses (n_lon n) (n_lat n) d) d chunk))"

definition remove_node_rows :: "'g spatial \<Rightarrow> 'g work \<Rightarrow> i64 list \<Rightarrow> 'g work" where
  "remove_node_rows sp work chunk =
     (let (tabs, d) = work
      in (tabs\<lparr>osm_addresses := delete_rows ''node'' chunk (osm_addresses tabs)\<rparr>,
          note_rows sp Addresses (osm_addresses tabs) chunk ''node'' d))"

definition address_nodes :: "node_change list \<Rightarrow> node_change list" where
  "address_nodes ns =
     filter (\<lambda>n. n_action n \<noteq> Delete \<and> tag_value (n_tags n) ''addr:housenumber'' \<noteq> None) ns"

definition node_sql :: "'g spatial \<Rightarrow> node_change list \<Rightarrow> 'g work \<Rightarrow> 'g work" where
  "node_sql sp ns work =
     foldl (insert_node_addresses sp)
       (foldl (remove_node_rows sp) work (chunks REBUILD_CHUNK (map n_id ns)))
       (chunks REBUILD_CHUNK (address_nodes ns))"

definition way_changes_of :: "osm_change \<Rightarrow> i64 \<rightharpoonup> way_change" where
  "way_changes_of c = map_of (rev (map (\<lambda>w. (w_id w, w)) (ways c)))"

definition relation_changes_of :: "osm_change \<Rightarrow> i64 \<rightharpoonup> relation_change" where
  "relation_changes_of c = map_of (rev (map (\<lambda>r. (r_id r, r)) (relations c)))"

definition cascaded :: "kv_phase \<Rightarrow> i64 list" where
  "cascaded p = p_rels p @ concat (map (s_w2r (p_store p)) (remdups (p_ways p)))"

record 'g duck =
  dk_tables :: "'g tables"
  dk_queue :: "dirty_row list"
  dk_meta :: "string \<rightharpoonup> string"

definition apply_sql :: "'g spatial \<Rightarrow> osm_change \<Rightarrow> kv_phase \<Rightarrow> 'g work \<Rightarrow> 'g work" where
  "apply_sql sp c p work =
     (let work1 = node_sql sp (nodes c) work;
          work2 = remove_served_rows sp ''way'' (map w_id (filter (\<lambda>w. w_action w = Delete) (ways c))) work1;
          work3 = remove_served_rows sp ''relation''
            (map r_id (filter (\<lambda>r. r_action r = Delete) (relations c))) work2;
          work4 = rebuild_way_geometries sp (p_store p) (way_changes_of c) (sorted_ids (p_ways p)) work3
      in rebuild_relation_geometries sp (p_store p) (relation_changes_of c) (sorted_ids (cascaded p)) work4)"

definition apply_collapsed ::
  "'g spatial \<Rightarrow> osm_change \<Rightarrow> store \<times> 'g duck \<Rightarrow> store \<times> 'g duck" where
  "apply_collapsed sp c w =
     (let (t, db) = w;
          p = kv_phases c t;
          (tabs, d) = apply_sql sp c p (dk_tables db, new_dirty)
      in (p_store p, db\<lparr>dk_tables := tabs, dk_queue := flush d (dk_queue db)\<rparr>))"

end
