(* ===== verification/Osm_Kv.thy ===== *)
theory Osm_Kv
  imports Osm_Apply
begin

text \<open>
  What the three RocksDB phases of \<open>apply_batch\<close> (\<open>src/update/osm.rs\<close>) leave in the typed store, object
  by object: the coordinates, references and members of every changed id and the exact contents of
  both reverse indexes, for a whole phase and for a prefix of its writes that a crash cut off.
\<close>

section \<open>What a phase leaves in the store\<close>

definition sound :: "store \<Rightarrow> bool" where
  "sound t \<longleftrightarrow>
     (\<forall>n w. w \<in> set (s_n2w t n) \<longrightarrow> (\<exists>refs. s_ways t w = Some refs \<and> n \<in> set refs)) \<and>
     (\<forall>w r. r \<in> set (s_w2r t w) \<longrightarrow> (\<exists>ms. s_rels t r = Some ms \<and> w \<in> set (way_refs_of ms)))"

lemma sound_n2w: "sound t \<Longrightarrow> w \<in> set (s_n2w t n) \<Longrightarrow> \<exists>refs. s_ways t w = Some refs \<and> n \<in> set refs"
  by (auto simp: sound_def)

lemma sound_w2r: "sound t \<Longrightarrow> r \<in> set (s_w2r t w) \<Longrightarrow> \<exists>ms. s_rels t r = Some ms \<and> w \<in> set (way_refs_of ms)"
  by (auto simp: sound_def)

lemma run_rem_n2w_ways:
  "foldl store_op t (map (RemN2W n) ws) = t\<lparr>s_n2w := (s_n2w t)(n := filter (\<lambda>w. w \<notin> set ws) (s_n2w t n))\<rparr>"
proof (induction ws arbitrary: t)
  case (Cons w ws)
  show ?case
    by (simp add: Cons removeAll_filter_not_eq)
      (intro store.equality ext; auto intro: filter_cong)
qed simp

lemma run_rem_n2w_nodes:
  "foldl store_op t (map (\<lambda>n. RemN2W n w) ns) =
     t\<lparr>s_n2w := \<lambda>n. if n \<in> set ns then removeAll w (s_n2w t n) else s_n2w t n\<rparr>"
proof (induction ns arbitrary: t)
  case (Cons n ns)
  show ?case by (simp add: Cons) (intro store.equality ext; simp)
qed simp

lemma run_add_n2w:
  "foldl store_op t (map (\<lambda>n. AddN2W n w) ns) =
     t\<lparr>s_n2w := \<lambda>n. if n \<in> set ns then push_absent w (s_n2w t n) else s_n2w t n\<rparr>"
proof (induction ns arbitrary: t)
  case (Cons n ns)
  show ?case by (simp add: Cons) (intro store.equality ext; simp)
qed simp

lemma run_rem_w2r:
  "foldl store_op t (map (\<lambda>w. RemW2R w r) ws) =
     t\<lparr>s_w2r := \<lambda>w. if w \<in> set ws then removeAll r (s_w2r t w) else s_w2r t w\<rparr>"
proof (induction ws arbitrary: t)
  case (Cons w ws)
  show ?case by (simp add: Cons) (intro store.equality ext; simp)
qed simp

lemma run_add_w2r:
  "foldl store_op t (map (\<lambda>w. AddW2R w r) ws) =
     t\<lparr>s_w2r := \<lambda>w. if w \<in> set ws then push_absent r (s_w2r t w) else s_w2r t w\<rparr>"
proof (induction ws arbitrary: t)
  case (Cons w ws)
  show ?case by (simp add: Cons) (intro store.equality ext; simp)
qed simp

text \<open>Dropping a way's stored references removes it from the whole index.\<close>

lemma run_drop_way:
  assumes "sound t"
  shows "foldl store_op t (drop_way_refs t w) = t\<lparr>s_n2w := \<lambda>n. removeAll w (s_n2w t n)\<rparr>"
proof (cases "s_ways t w")
  case None
  then have "w \<notin> set (s_n2w t n)" for n using sound_n2w [OF assms] by force
  then show ?thesis by (simp add: drop_way_refs_def None removeAll_id)
next
  case (Some old)
  have "n \<notin> set old \<Longrightarrow> w \<notin> set (s_n2w t n)" for n using sound_n2w [OF assms, of w n] Some by auto
  then show ?thesis
    by (simp add: drop_way_refs_def Some run_rem_n2w_nodes) (intro store.equality ext; simp)
qed

lemma run_drop_relation:
  assumes "sound t"
  shows "foldl store_op t (drop_relation_members t r) = t\<lparr>s_w2r := \<lambda>w. removeAll r (s_w2r t w)\<rparr>"
proof (cases "s_rels t r")
  case None
  then have "r \<notin> set (s_w2r t w)" for w using sound_w2r [OF assms] by force
  then show ?thesis by (simp add: drop_relation_members_def None removeAll_id)
next
  case (Some old)
  have "w \<notin> set (way_refs_of old) \<Longrightarrow> r \<notin> set (s_w2r t w)" for w
    using sound_w2r [OF assms, of r w] Some by auto
  then show ?thesis
    by (simp add: drop_relation_members_def Some run_rem_w2r) (intro store.equality ext; simp)
qed

definition node_value :: "node_change \<Rightarrow> (i32 \<times> i32) option" where
  "node_value n = (if n_action n = Delete then None
     else Some (f64_to_decimicro (n_lon n), f64_to_decimicro (n_lat n)))"

definition way_value :: "way_change \<Rightarrow> i64 list option" where
  "way_value w = (if w_action w = Delete then None else Some (w_refs w))"

definition relation_value :: "relation_change \<Rightarrow> member list option" where
  "relation_value r = (if r_action r = Delete then None else Some (encoded_members (r_members r)))"

definition way_adds :: "way_change \<Rightarrow> i64 \<Rightarrow> i64 list" where
  "way_adds w n = (if w_action w \<noteq> Delete \<and> n \<in> set (w_refs w) then [w_id w] else [])"

definition relation_adds :: "relation_change \<Rightarrow> i64 \<Rightarrow> i64 list" where
  "relation_adds r w = (if r_action r \<noteq> Delete \<and>
     w \<in> set (map m_ref (filter (\<lambda>m. m_type m = ''way'') (r_members r))) then [r_id r] else [])"

lemma node_step_store:
  "foldl store_op t (node_change_ops t n) =
     t\<lparr>s_nodes := (s_nodes t)(n_id n := node_value n),
       s_n2w := if n_action n = Delete then (s_n2w t)(n_id n := []) else s_n2w t\<rparr>"
  by (cases "n_action n")
    (simp_all add: node_change_ops_def node_value_def run_rem_n2w_ways filter_empty_conv)

lemma way_step_store:
  assumes "sound t"
  shows "foldl store_op t (way_change_ops t w) =
     t\<lparr>s_ways := (s_ways t)(w_id w := way_value w),
       s_n2w := \<lambda>n. removeAll (w_id w) (s_n2w t n) @ way_adds w n\<rparr>"
  by (cases "w_action w")
    (simp_all add: way_change_ops_def way_value_def way_adds_def run_drop_way [OF assms] run_add_n2w
      push_absent_removeAll, (intro store.equality ext; simp add: push_absent_removeAll)+)

lemma relation_step_store:
  assumes "sound t"
  shows "foldl store_op t (relation_change_ops t r) =
     t\<lparr>s_rels := (s_rels t)(r_id r := relation_value r),
       s_w2r := \<lambda>w. removeAll (r_id r) (s_w2r t w) @ relation_adds r w\<rparr>"
proof -
  have e: "map (\<lambda>m. AddW2R (m_ref m) (r_id r)) ms = map (\<lambda>w. AddW2R w (r_id r)) (map m_ref ms)" for ms
    by simp
  show ?thesis
    by (cases "r_action r")
      (simp_all add: relation_change_ops_def relation_value_def relation_adds_def run_drop_relation [OF assms]
        e run_add_w2r push_absent_removeAll del: map_map,
        (intro store.equality ext; simp add: push_absent_removeAll)+)
qed


section \<open>Every single write keeps the index sound\<close>

fun op_safe :: "store \<Rightarrow> kv_op \<Rightarrow> bool" where
  "op_safe t (PutWay w refs) \<longleftrightarrow> (\<forall>n. w \<in> set (s_n2w t n) \<longrightarrow> n \<in> set refs)"
| "op_safe t (DelWay w) \<longleftrightarrow> (\<forall>n. w \<notin> set (s_n2w t n))"
| "op_safe t (PutRel r ms) \<longleftrightarrow> (\<forall>w. r \<in> set (s_w2r t w) \<longrightarrow> w \<in> set (way_refs_of ms))"
| "op_safe t (DelRel r) \<longleftrightarrow> (\<forall>w. r \<notin> set (s_w2r t w))"
| "op_safe t (AddN2W n w) \<longleftrightarrow> (\<exists>refs. s_ways t w = Some refs \<and> n \<in> set refs)"
| "op_safe t (AddW2R w r) \<longleftrightarrow> (\<exists>ms. s_rels t r = Some ms \<and> w \<in> set (way_refs_of ms))"
| "op_safe t _ \<longleftrightarrow> True"

fun ops_safe :: "store \<Rightarrow> kv_op list \<Rightarrow> bool" where
  "ops_safe t [] \<longleftrightarrow> True"
| "ops_safe t (x # xs) \<longleftrightarrow> op_safe t x \<and> ops_safe (store_op t x) xs"

lemma op_safe_sound: "sound t \<Longrightarrow> op_safe t x \<Longrightarrow> sound (store_op t x)"
  by (cases x) (fastforce simp: sound_def split: if_splits)+

lemma ops_safe_append: "ops_safe t (xs @ ys) \<longleftrightarrow> ops_safe t xs \<and> ops_safe (foldl store_op t xs) ys"
  by (induction xs arbitrary: t) auto

lemma ops_safe_sound: "sound t \<Longrightarrow> ops_safe t xs \<Longrightarrow> sound (foldl store_op t (take k xs))"
proof (induction xs arbitrary: t k)
  case (Cons x xs)
  then show ?case by (cases k) (auto intro: op_safe_sound)
qed simp

lemma ops_safe_all: "sound t \<Longrightarrow> ops_safe t xs \<Longrightarrow> sound (foldl store_op t xs)"
  using ops_safe_sound [of t xs "length xs"] by simp

lemma always_safe: "(\<And>x t. x \<in> set xs \<Longrightarrow> op_safe t x) \<Longrightarrow> ops_safe t xs"
  by (induction xs arbitrary: t) auto

lemma adds_safe:
  "s_ways t w = Some refs \<Longrightarrow> set ns \<subseteq> set refs \<Longrightarrow> ops_safe t (map (\<lambda>n. AddN2W n w) ns)"
  by (induction ns arbitrary: t) auto

lemma adds_rel_safe:
  "s_rels t r = Some ms \<Longrightarrow> set ws \<subseteq> set (way_refs_of ms) \<Longrightarrow> ops_safe t (map (\<lambda>w. AddW2R w r) ws)"
  by (induction ws arbitrary: t) auto

lemma node_ops_safe: "ops_safe t (node_change_ops t n)"
  by (rule always_safe) (auto simp: node_change_ops_def split: change_action.splits)

lemma drops_safe: "ops_safe t (drop_way_refs s w)" "ops_safe t (drop_relation_members s r)"
  by (rule always_safe, auto simp: drop_way_refs_def drop_relation_members_def split: option.splits)+

lemma way_ops_safe: "sound t \<Longrightarrow> ops_safe t (way_change_ops t w)"
  by (auto simp: way_change_ops_def ops_safe_append drops_safe run_drop_way intro!: adds_safe
      split: change_action.splits)

lemma way_refs_encoded: "way_refs_of (encoded_members ms) = map m_ref (filter (\<lambda>m. m_type m = ''way'') ms)"
proof -
  have "encode_member_type ty = encode_member_type ''way'' \<longleftrightarrow> ty = ''way''" for ty
    by (simp add: encode_member_type_def)
  then show ?thesis by (induction ms) (simp_all add: way_refs_of_def encoded_members_def)
qed

lemma relation_ops_safe:
  assumes "sound t"
  shows "ops_safe t (relation_change_ops t r)"
proof -
  have e: "map (\<lambda>m. AddW2R (m_ref m) (r_id r)) ms = map (\<lambda>w. AddW2R w (r_id r)) (map m_ref ms)" for ms
    by simp
  show ?thesis
    using assms
    by (auto simp: relation_change_ops_def ops_safe_append drops_safe run_drop_relation e way_refs_encoded
        simp del: map_map intro!: adds_rel_safe split: change_action.splits)
qed

section \<open>The phases as a run of writes\<close>

text \<open>The invariant of the three folds: the store is the start followed by the writes so far,
  which are safe.\<close>

definition ran :: "store \<Rightarrow> kv_phase \<Rightarrow> bool" where
  "ran t p \<longleftrightarrow> p_store p = foldl store_op t (p_ops p) \<and> ops_safe t (p_ops p)"

lemma ran_sound: "sound t \<Longrightarrow> ran t p \<Longrightarrow> sound (p_store p)"
  by (auto simp: ran_def ops_safe_all)

lemma ran_do_ops: "ran t p \<Longrightarrow> ops_safe (p_store p) ops \<Longrightarrow> ran t (do_ops ops p)"
  by (simp add: ran_def do_ops_def ops_safe_append)

lemma ran_cong: "p_store p = p_store q \<Longrightarrow> p_ops p = p_ops q \<Longrightarrow> ran t p = ran t q"
  by (simp add: ran_def)

lemma ran_steps:
  assumes "sound t" "ran t p"
  shows "ran t (apply_node p n)" "ran t (apply_way p w)" "ran t (apply_relation p r)"
proof -
  note s = ran_sound [OF assms]
  have "ran t (do_ops (node_change_ops (p_store p) n) p)"
    by (rule ran_do_ops [OF assms(2) node_ops_safe])
  then show "ran t (apply_node p n)" by (simp add: apply_node_def ran_def)
  have "ran t (do_ops (way_change_ops (p_store p) w) p)"
    by (rule ran_do_ops [OF assms(2) way_ops_safe [OF s]])
  then show "ran t (apply_way p w)" by (simp add: apply_way_def ran_def Let_def)
  have "ran t (do_ops (relation_change_ops (p_store p) r) p)"
    by (rule ran_do_ops [OF assms(2) relation_ops_safe [OF s]])
  then show "ran t (apply_relation p r)" by (simp add: apply_relation_def ran_def Let_def)
qed

lemma ran_folds:
  assumes "sound t"
  shows "ran t p \<Longrightarrow> ran t (foldl apply_node p ns)" "ran t p \<Longrightarrow> ran t (foldl apply_way p ws)"
    "ran t p \<Longrightarrow> ran t (foldl apply_relation p rs)"
  by (induction ns arbitrary: p, auto intro: ran_steps [OF assms],
      induction ws arbitrary: p, auto intro: ran_steps [OF assms],
      induction rs arbitrary: p, auto intro: ran_steps [OF assms])

lemma ran_kv_phases: "sound t \<Longrightarrow> ran t (kv_phases c t)"
  unfolding kv_phases_def by (intro ran_folds) (simp_all add: ran_def)

lemma crash_sound: "sound t \<Longrightarrow> sound (foldl store_op t (take k (p_ops (kv_phases c t))))"
  using ran_kv_phases [of t c] by (auto simp: ran_def intro: ops_safe_sound)

lemma kv_phases_sound: "sound t \<Longrightarrow> sound (p_store (kv_phases c t))"
  using ran_kv_phases ran_sound by blast

section \<open>Stores that differ only where a change set will write\<close>

text \<open>\<open>N\<close>, \<open>D\<close>, \<open>W\<close>, \<open>R\<close>: the nodes, deleted nodes, ways and relations still to be written.\<close>

definition agree :: "i64 set \<Rightarrow> i64 set \<Rightarrow> i64 set \<Rightarrow> i64 set \<Rightarrow> store \<Rightarrow> store \<Rightarrow> bool" where
  "agree N D W R t t' \<longleftrightarrow>
     (\<forall>i. i \<notin> N \<longrightarrow> s_nodes t i = s_nodes t' i) \<and>
     (\<forall>w. w \<notin> W \<longrightarrow> s_ways t w = s_ways t' w) \<and>
     (\<forall>r. r \<notin> R \<longrightarrow> s_rels t r = s_rels t' r) \<and>
     (\<forall>n. n \<notin> D \<longrightarrow> filter (\<lambda>w. w \<notin> W) (s_n2w t n) = filter (\<lambda>w. w \<notin> W) (s_n2w t' n)) \<and>
     (\<forall>w. filter (\<lambda>r. r \<notin> R) (s_w2r t w) = filter (\<lambda>r. r \<notin> R) (s_w2r t' w))"

lemma agree_refl: "agree N D W R t t"
  by (simp add: agree_def)

lemma agree_empty: "agree {} {} {} {} t t' \<Longrightarrow> t = t'"
  by (intro store.equality ext) (simp_all add: agree_def)

fun op_local :: "i64 set \<Rightarrow> i64 set \<Rightarrow> i64 set \<Rightarrow> i64 set \<Rightarrow> kv_op \<Rightarrow> bool" where
  "op_local N D W R (PutNode n lon lat) \<longleftrightarrow> n \<in> N"
| "op_local N D W R (DelNode n) \<longleftrightarrow> n \<in> N"
| "op_local N D W R (PutWay w refs) \<longleftrightarrow> w \<in> W"
| "op_local N D W R (DelWay w) \<longleftrightarrow> w \<in> W"
| "op_local N D W R (PutRel r ms) \<longleftrightarrow> r \<in> R"
| "op_local N D W R (DelRel r) \<longleftrightarrow> r \<in> R"
| "op_local N D W R (AddN2W n w) \<longleftrightarrow> w \<in> W"
| "op_local N D W R (RemN2W n w) \<longleftrightarrow> w \<in> W \<or> n \<in> D"
| "op_local N D W R (AddW2R w r) \<longleftrightarrow> r \<in> R"
| "op_local N D W R (RemW2R w r) \<longleftrightarrow> r \<in> R"

lemma filter_removeAll_in: "x \<in> W \<Longrightarrow> filter (\<lambda>y. y \<notin> W) (removeAll x ys) = filter (\<lambda>y. y \<notin> W) ys"
  by (induction ys) auto

lemma filter_push_absent_in: "x \<in> W \<Longrightarrow> filter (\<lambda>y. y \<notin> W) (push_absent x ys) = filter (\<lambda>y. y \<notin> W) ys"
  by (simp add: push_absent_def)

lemma agree_op: "agree N D W R t t' \<Longrightarrow> op_local N D W R x \<Longrightarrow> agree N D W R t (store_op t' x)"
  by (cases x) (auto simp: agree_def filter_removeAll_in filter_push_absent_in)

lemma agree_ops:
  "agree N D W R t t' \<Longrightarrow> (\<And>x. x \<in> set xs \<Longrightarrow> op_local N D W R x) \<Longrightarrow> agree N D W R t (foldl store_op t' xs)"
  by (induction xs arbitrary: t') (auto intro: agree_op)

section \<open>The writes of a change set are local to it\<close>

abbreviation changed_nodes :: "osm_change \<Rightarrow> i64 set" where
  "changed_nodes c \<equiv> n_id ` set (nodes c)"

definition deleted_nodes :: "osm_change \<Rightarrow> i64 set" where
  "deleted_nodes c = n_id ` {n \<in> set (nodes c). n_action n = Delete}"

abbreviation changed_ways :: "osm_change \<Rightarrow> i64 set" where
  "changed_ways c \<equiv> w_id ` set (ways c)"

abbreviation changed_relations :: "osm_change \<Rightarrow> i64 set" where
  "changed_relations c \<equiv> r_id ` set (relations c)"

abbreviation agree_on :: "osm_change \<Rightarrow> store \<Rightarrow> store \<Rightarrow> bool" where
  "agree_on c \<equiv> agree (changed_nodes c) (deleted_nodes c) (changed_ways c) (changed_relations c)"

definition ops_local :: "osm_change \<Rightarrow> kv_op list \<Rightarrow> bool" where
  "ops_local c xs \<longleftrightarrow> list_all
     (op_local (changed_nodes c) (deleted_nodes c) (changed_ways c) (changed_relations c)) xs"

lemma node_ops_local: "n \<in> set (nodes c) \<Longrightarrow> ops_local c (node_change_ops t n)"
  by (auto simp: ops_local_def node_change_ops_def deleted_nodes_def list_all_iff split: change_action.splits)

lemma way_ops_local: "w \<in> set (ways c) \<Longrightarrow> ops_local c (way_change_ops t w)"
  by (auto simp: ops_local_def way_change_ops_def drop_way_refs_def list_all_iff
      split: change_action.splits option.splits)

lemma relation_ops_local: "r \<in> set (relations c) \<Longrightarrow> ops_local c (relation_change_ops t r)"
  by (auto simp: ops_local_def relation_change_ops_def drop_relation_members_def list_all_iff
      split: change_action.splits option.splits)

lemma ops_local_append: "ops_local c (xs @ ys) \<longleftrightarrow> ops_local c xs \<and> ops_local c ys"
  by (simp add: ops_local_def)

lemma local_folds:
  "ops_local c (p_ops p) \<Longrightarrow> set ns \<subseteq> set (nodes c) \<Longrightarrow> ops_local c (p_ops (foldl apply_node p ns))"
  "ops_local c (p_ops p) \<Longrightarrow> set ws \<subseteq> set (ways c) \<Longrightarrow> ops_local c (p_ops (foldl apply_way p ws))"
  "ops_local c (p_ops p) \<Longrightarrow> set rs \<subseteq> set (relations c) \<Longrightarrow> ops_local c (p_ops (foldl apply_relation p rs))"
  by (induction ns arbitrary: p, auto simp: apply_node_def do_ops_def ops_local_append node_ops_local,
      induction ws arbitrary: p, auto simp: apply_way_def do_ops_def Let_def ops_local_append way_ops_local,
      induction rs arbitrary: p, auto simp: apply_relation_def do_ops_def Let_def ops_local_append relation_ops_local)

lemma kv_phases_local: "ops_local c (p_ops (kv_phases c t))"
  unfolding kv_phases_def by (intro local_folds) (simp_all add: ops_local_def)

lemma crash_agrees:
  "agree_on c t t' \<Longrightarrow> agree_on c t (foldl store_op t' (take k (p_ops (kv_phases c t'))))"
  using kv_phases_local [of c t']
  by (intro agree_ops) (auto simp: ops_local_def list_all_iff dest: in_set_takeD)

section \<open>Replaying converges\<close>

lemma filter_notin_Diff:
  "filter (\<lambda>x. x \<notin> W) xs = filter (\<lambda>x. x \<notin> W) ys \<Longrightarrow>
   filter (\<lambda>x. x \<in> W \<longrightarrow> x = a) (removeAll a xs @ zs) = filter (\<lambda>x. x \<in> W \<longrightarrow> x = a) (removeAll a ys @ zs)"
proof -
  assume e: "filter (\<lambda>x. x \<notin> W) xs = filter (\<lambda>x. x \<notin> W) ys"
  have r: "filter (\<lambda>x. x \<in> W \<longrightarrow> x = a) (removeAll a us) = removeAll a (filter (\<lambda>x. x \<notin> W) us)" for us
    by (induction us) auto
  show ?thesis by (simp only: filter_append r e)
qed

lemma agree_node_step:
  "agree N D W R t t' \<Longrightarrow>
   agree (N - {n_id n}) (if n_action n = Delete then D - {n_id n} else D) W R
     (foldl store_op t (node_change_ops t n)) (foldl store_op t' (node_change_ops t' n))"
  by (auto simp: agree_def node_step_store)

lemma agree_way_step:
  assumes "sound t" "sound t'" "agree N D W R t t'"
  shows "agree N D (W - {w_id w}) R
     (foldl store_op t (way_change_ops t w)) (foldl store_op t' (way_change_ops t' w))"
  using assms(3) unfolding way_step_store [OF assms(1)] way_step_store [OF assms(2)] agree_def
  by (simp del: filter_append) (blast intro: filter_notin_Diff)

lemma agree_relation_step:
  assumes "sound t" "sound t'" "agree N D W R t t'"
  shows "agree N D W (R - {r_id r})
     (foldl store_op t (relation_change_ops t r)) (foldl store_op t' (relation_change_ops t' r))"
  using assms(3) unfolding relation_step_store [OF assms(1)] relation_step_store [OF assms(2)] agree_def
  by (simp del: filter_append) (blast intro: filter_notin_Diff)

lemma store_apply:
  "p_store (apply_node p n) = foldl store_op (p_store p) (node_change_ops (p_store p) n)"
  "p_store (apply_way p w) = foldl store_op (p_store p) (way_change_ops (p_store p) w)"
  "p_store (apply_relation p r) = foldl store_op (p_store p) (relation_change_ops (p_store p) r)"
  by (simp_all add: apply_node_def apply_way_def apply_relation_def do_ops_def Let_def)

lemma sound_apply:
  assumes "sound (p_store p)"
  shows "sound (p_store (apply_node p n))" "sound (p_store (apply_way p w))"
    "sound (p_store (apply_relation p r))"
  using assms
  by (simp_all add: store_apply ops_safe_all node_ops_safe way_ops_safe relation_ops_safe)

lemma sound_folds:
  "sound (p_store p) \<Longrightarrow> sound (p_store (foldl apply_node p ns))"
  "sound (p_store p) \<Longrightarrow> sound (p_store (foldl apply_way p ws))"
  by (induction ns arbitrary: p, auto intro: sound_apply, induction ws arbitrary: p, auto intro: sound_apply)

lemma agree_nodes:
  "agree N D W R (p_store p) (p_store p') \<Longrightarrow>
   agree (N - n_id ` set ns) (D - n_id ` {n \<in> set ns. n_action n = Delete}) W R
     (p_store (foldl apply_node p ns)) (p_store (foldl apply_node p' ns))"
proof (induction ns arbitrary: p p' N D)
  case (Cons n ns)
  have "agree (N - {n_id n}) (if n_action n = Delete then D - {n_id n} else D) W R
      (p_store (apply_node p n)) (p_store (apply_node p' n))"
    unfolding store_apply by (rule agree_node_step [OF Cons.prems])
  from Cons.IH [OF this]
  have "agree (N - {n_id n} - n_id ` set ns)
      ((if n_action n = Delete then D - {n_id n} else D) - n_id ` {n \<in> set ns. n_action n = Delete}) W R
      (p_store (foldl apply_node p (n # ns))) (p_store (foldl apply_node p' (n # ns)))" by simp
  moreover have "N - {n_id n} - n_id ` set ns = N - n_id ` set (n # ns)" by auto
  moreover have "(if n_action n = Delete then D - {n_id n} else D) - n_id ` {n \<in> set ns. n_action n = Delete}
      = D - n_id ` {m \<in> set (n # ns). n_action m = Delete}" by auto
  ultimately show ?case by simp
qed simp

lemma agree_ways:
  "sound (p_store p) \<Longrightarrow> sound (p_store p') \<Longrightarrow> agree N D W R (p_store p) (p_store p') \<Longrightarrow>
   agree N D (W - w_id ` set ws) R (p_store (foldl apply_way p ws)) (p_store (foldl apply_way p' ws))"
proof (induction ws arbitrary: p p' W)
  case (Cons w ws)
  have "agree N D (W - {w_id w}) R (p_store (apply_way p w)) (p_store (apply_way p' w))"
    unfolding store_apply by (rule agree_way_step [OF Cons.prems])
  from Cons.IH [OF _ _ this] Cons.prems
  have "agree N D (W - {w_id w} - w_id ` set ws) R
      (p_store (foldl apply_way p (w # ws))) (p_store (foldl apply_way p' (w # ws)))"
    by (simp add: sound_apply)
  moreover have "W - {w_id w} - w_id ` set ws = W - w_id ` set (w # ws)" by auto
  ultimately show ?case by simp
qed simp

lemma agree_relations:
  "sound (p_store p) \<Longrightarrow> sound (p_store p') \<Longrightarrow> agree N D W R (p_store p) (p_store p') \<Longrightarrow>
   agree N D W (R - r_id ` set rs) (p_store (foldl apply_relation p rs)) (p_store (foldl apply_relation p' rs))"
proof (induction rs arbitrary: p p' R)
  case (Cons r rs)
  have "agree N D W (R - {r_id r}) (p_store (apply_relation p r)) (p_store (apply_relation p' r))"
    unfolding store_apply by (rule agree_relation_step [OF Cons.prems])
  from Cons.IH [OF _ _ this] Cons.prems
  have "agree N D W (R - {r_id r} - r_id ` set rs)
      (p_store (foldl apply_relation p (r # rs))) (p_store (foldl apply_relation p' (r # rs)))"
    by (simp add: sound_apply)
  moreover have "R - {r_id r} - r_id ` set rs = R - r_id ` set (r # rs)" by auto
  ultimately show ?case by simp
qed simp

abbreviation start_phase :: "store \<Rightarrow> kv_phase" where
  "start_phase t \<equiv> \<lparr>p_store = t, p_ops = [], p_ways = [], p_rels = []\<rparr>"

definition after_nodes :: "osm_change \<Rightarrow> store \<Rightarrow> kv_phase" where
  "after_nodes c t = foldl apply_node (start_phase t) (nodes c)"

definition after_ways :: "osm_change \<Rightarrow> store \<Rightarrow> kv_phase" where
  "after_ways c t = foldl apply_way (after_nodes c t) (ways c)"

lemma kv_phases_after: "kv_phases c t = foldl apply_relation (after_ways c t) (relations c)"
  by (simp add: kv_phases_def after_ways_def after_nodes_def)

lemma agree_after:
  assumes "sound t" "sound t'" "agree_on c t t'"
  shows "agree {} {} (changed_ways c) (changed_relations c)
      (p_store (after_nodes c t)) (p_store (after_nodes c t'))"
    "agree {} {} {} (changed_relations c) (p_store (after_ways c t)) (p_store (after_ways c t'))"
    "p_store (kv_phases c t) = p_store (kv_phases c t')"
    "sound (p_store (after_nodes c t))" "sound (p_store (after_ways c t))"
proof -
  have n: "agree (changed_nodes c - changed_nodes c) (deleted_nodes c - deleted_nodes c) (changed_ways c)
      (changed_relations c) (p_store (after_nodes c t)) (p_store (after_nodes c t'))"
    using agree_nodes [of _ _ _ _ "start_phase t" "start_phase t'" "nodes c"] assms(3)
    by (simp only: after_nodes_def deleted_nodes_def kv_phase.simps)
  then show an: "agree {} {} (changed_ways c) (changed_relations c)
      (p_store (after_nodes c t)) (p_store (after_nodes c t'))" by simp
  have s: "sound (p_store (after_nodes c u))" if "sound u" for u
    using sound_folds(1) [of "start_phase u" "nodes c"] that by (simp add: after_nodes_def)
  then have s2: "sound (p_store (after_ways c u))" if "sound u" for u
    using sound_folds(2) [of "after_nodes c u" "ways c"] that by (simp add: after_ways_def)
  show "sound (p_store (after_nodes c t))" "sound (p_store (after_ways c t))"
    using s s2 assms by simp_all
  have "agree {} {} (changed_ways c - changed_ways c) (changed_relations c)
      (p_store (after_ways c t)) (p_store (after_ways c t'))"
    unfolding after_ways_def using an s assms by (intro agree_ways)
  then show aw: "agree {} {} {} (changed_relations c) (p_store (after_ways c t)) (p_store (after_ways c t'))"
    by simp
  have "agree {} {} {} (changed_relations c - changed_relations c)
      (p_store (kv_phases c t)) (p_store (kv_phases c t'))"
    unfolding kv_phases_after using aw s2 assms by (intro agree_relations)
  then show "p_store (kv_phases c t) = p_store (kv_phases c t')"
    by (intro agree_empty) simp
qed

section \<open>The affected objects\<close>

text \<open>No way that stays as it is refers to a deleted node: the referential integrity OSM keeps.\<close>

definition intact :: "osm_change \<Rightarrow> store \<Rightarrow> bool" where
  "intact c t \<longleftrightarrow> (\<forall>n\<in>deleted_nodes c. \<forall>w. w \<notin> changed_ways c \<longrightarrow>
     (\<forall>refs. s_ways t w = Some refs \<longrightarrow> n \<notin> set refs))"

lemma filter_eq_Diff: "filter (\<lambda>x. x \<notin> W) xs = filter (\<lambda>x. x \<notin> W) ys \<Longrightarrow> set xs - W = set ys - W"
  by (metis Diff_eq set_diff_eq set_filter)

lemma s_ways_nodes: "s_ways (p_store (foldl apply_node p ns)) = s_ways (p_store p)"
  by (induction ns arbitrary: p) (simp_all add: store_apply node_step_store)

lemma s_w2r_nodes: "s_w2r (p_store (foldl apply_node p ns)) = s_w2r (p_store p)"
  by (induction ns arbitrary: p) (simp_all add: store_apply node_step_store)

lemma s_w2r_ways:
  "sound (p_store p) \<Longrightarrow> s_w2r (p_store (foldl apply_way p ws)) = s_w2r (p_store p)"
  by (induction ws arbitrary: p) (simp_all add: sound_apply, simp add: store_apply way_step_store)

lemma p_ways_step:
  "p_ways (apply_node p n) = p_ways p @ s_n2w (p_store p) (n_id n)"
  "p_ways (apply_way p w) = p_ways p @ (if w_action w = Delete then [] else [w_id w])"
  "p_ways (apply_relation p r) = p_ways p"
  by (simp_all add: apply_node_def apply_way_def apply_relation_def do_ops_def Let_def)

lemma p_rels_step:
  "p_rels (apply_node p n) = p_rels p"
  "p_rels (apply_way p w) = p_rels p @ s_w2r (p_store (apply_way p w)) (w_id w)"
  "p_rels (apply_relation p r) = p_rels p @ (if r_action r = Delete then [] else [r_id r])"
  by (simp_all add: apply_node_def apply_way_def apply_relation_def do_ops_def Let_def)

lemma node_step_ways:
  assumes "sound t" "sound t'" "agree N D W R t t'"
    and "\<forall>n\<in>D. \<forall>w. w \<notin> W \<longrightarrow> (\<forall>refs. s_ways t w = Some refs \<longrightarrow> n \<notin> set refs)"
  shows "set (s_n2w t n) - W = set (s_n2w t' n) - W"
proof (cases "n \<in> D")
  case False
  then have "filter (\<lambda>w. w \<notin> W) (s_n2w t n) = filter (\<lambda>w. w \<notin> W) (s_n2w t' n)"
    using assms(3) by (simp add: agree_def)
  then show ?thesis by (rule filter_eq_Diff)
next
  case True
  have "s_ways t w = s_ways t' w" if "w \<notin> W" for w using assms(3) that by (simp add: agree_def)
  then have "w \<in> W" if "w \<in> set (s_n2w t n) \<or> w \<in> set (s_n2w t' n)" for w
    using that sound_n2w [OF assms(1)] sound_n2w [OF assms(2)] assms(4) True by metis
  then show ?thesis by blast
qed

lemma node_phase_ways:
  "sound (p_store p) \<Longrightarrow> sound (p_store p') \<Longrightarrow> agree N D W R (p_store p) (p_store p') \<Longrightarrow>
   \<forall>n\<in>D. \<forall>w. w \<notin> W \<longrightarrow> (\<forall>refs. s_ways (p_store p) w = Some refs \<longrightarrow> n \<notin> set refs) \<Longrightarrow>
   set (p_ways p) - W = set (p_ways p') - W \<Longrightarrow>
   set (p_ways (foldl apply_node p ns)) - W = set (p_ways (foldl apply_node p' ns)) - W"
proof (induction ns arbitrary: p p' N D)
  case (Cons n ns)
  let ?D = "if n_action n = Delete then D - {n_id n} else D"
  have "agree (N - {n_id n}) ?D W R (p_store (apply_node p n)) (p_store (apply_node p' n))"
    unfolding store_apply by (rule agree_node_step [OF Cons.prems(3)])
  moreover have "s_ways (p_store (apply_node p n)) = s_ways (p_store p)"
    by (simp add: store_apply node_step_store)
  moreover have "set (p_ways (apply_node p n)) - W = set (p_ways (apply_node p' n)) - W"
    using node_step_ways [OF Cons.prems(1-4)] Cons.prems(5) by (simp add: p_ways_step Un_Diff)
  ultimately show ?case
    using Cons.IH [of "apply_node p n" "apply_node p' n" "N - {n_id n}" ?D] Cons.prems sound_apply(1)
    by auto
qed simp

lemma p_ways_ways: "p_ways (foldl apply_way p ws) = p_ways p @ map w_id (filter (\<lambda>w. w_action w \<noteq> Delete) ws)"
  by (induction ws arbitrary: p) (simp_all add: p_ways_step)

lemma p_ways_relations: "p_ways (foldl apply_relation p rs) = p_ways p"
  by (induction rs arbitrary: p) (simp_all add: p_ways_step)

lemma p_rels_nodes: "p_rels (foldl apply_node p ns) = p_rels p"
  by (induction ns arbitrary: p) (simp_all add: p_rels_step)

lemma p_rels_ways:
  "sound (p_store p) \<Longrightarrow>
   p_rels (foldl apply_way p ws) = p_rels p @ concat (map (\<lambda>w. s_w2r (p_store p) (w_id w)) ws)"
proof (induction ws arbitrary: p)
  case (Cons w ws)
  have "s_w2r (p_store (apply_way p w)) = s_w2r (p_store p)"
    using Cons.prems by (simp add: store_apply way_step_store)
  then show ?case using Cons by (simp add: sound_apply p_rels_step)
qed simp

lemma p_rels_relations:
  "p_rels (foldl apply_relation p rs) = p_rels p @ map r_id (filter (\<lambda>r. r_action r \<noteq> Delete) rs)"
  by (induction rs arbitrary: p) (simp_all add: p_rels_step)

lemma way_stored_put:
  assumes "sound (p_store p)" "s_ways (p_store (foldl apply_way p ws)) i \<noteq> None" "i \<in> w_id ` set ws"
  shows "i \<in> w_id ` {w \<in> set ws. w_action w \<noteq> Delete}"
  using assms
proof (induction ws rule: rev_induct)
  case (snoc w ws)
  let ?q = "foldl apply_way p ws"
  have s: "sound (p_store ?q)" using snoc.prems(1) by (rule sound_folds)
  have v: "s_ways (p_store (foldl apply_way p (ws @ [w]))) = (s_ways (p_store ?q))(w_id w := way_value w)"
    by (simp add: store_apply way_step_store [OF s])
  show ?case
  proof (cases "i = w_id w")
    case True
    then show ?thesis using snoc.prems(2) v by (auto simp: way_value_def split: if_splits)
  next
    case False
    then have "i \<in> w_id ` {w \<in> set ws. w_action w \<noteq> Delete}"
      using snoc.prems v by (intro snoc.IH) auto
    then show ?thesis by auto
  qed
qed simp

lemma relation_stored_put:
  assumes "sound (p_store p)" "s_rels (p_store (foldl apply_relation p rs)) i \<noteq> None" "i \<in> r_id ` set rs"
  shows "i \<in> r_id ` {r \<in> set rs. r_action r \<noteq> Delete}"
  using assms
proof (induction rs rule: rev_induct)
  case (snoc r rs)
  let ?q = "foldl apply_relation p rs"
  have s: "sound (p_store ?q)"
    using snoc.prems(1) by (induction rs arbitrary: p) (auto intro: sound_apply)
  have v: "s_rels (p_store (foldl apply_relation p (rs @ [r]))) = (s_rels (p_store ?q))(r_id r := relation_value r)"
    by (simp add: store_apply relation_step_store [OF s])
  show ?case
  proof (cases "i = r_id r")
    case True
    then show ?thesis using snoc.prems(2) v by (auto simp: relation_value_def split: if_splits)
  next
    case False
    then have "i \<in> r_id ` {r \<in> set rs. r_action r \<noteq> Delete}"
      using snoc.prems v by (intro snoc.IH) auto
    then show ?thesis by auto
  qed
qed simp

lemma s_ways_relations:
  "sound (p_store p) \<Longrightarrow> s_ways (p_store (foldl apply_relation p rs)) = s_ways (p_store p)"
  by (induction rs arbitrary: p) (simp_all add: sound_apply, simp add: store_apply relation_step_store)


lemma sorted_ids_filter_cong:
  assumes "{x \<in> set xs. P x} = {x \<in> set ys. P x}"
  shows "filter P (sorted_ids xs) = filter P (sorted_ids ys)"
proof -
  have e: "filter P (sorted_ids zs) = sort_key sint (filter P (remdups zs))" for zs
    by (simp add: sorted_ids_def filter_sort)
  have inj: "inj (sint :: i64 \<Rightarrow> int)"
    by (rule inj_signed)
  have "map sint (filter P (sorted_ids xs)) = map sint (filter P (sorted_ids ys))"
  proof (rule sorted_distinct_set_unique)
    show "sorted (map sint (filter P (sorted_ids xs)))" "sorted (map sint (filter P (sorted_ids ys)))"
      by (simp_all add: e)
    show "distinct (map sint (filter P (sorted_ids xs)))" "distinct (map sint (filter P (sorted_ids ys)))"
      by (simp_all add: e distinct_map) (rule inj_on_subset [OF inj subset_UNIV])+
    have "set (filter P (sorted_ids zs)) = {x \<in> set zs. P x}" for zs
      by (auto simp: sorted_ids_def)
    then show "set (map sint (filter P (sorted_ids xs))) = set (map sint (filter P (sorted_ids ys)))"
      using assms by simp
  qed
  then show ?thesis using inj by (rule map_injective)
qed

lemma map_filter_present: "List.map_filter f xs = List.map_filter f (filter (\<lambda>x. f x \<noteq> None) xs)"
  by (induction xs) (auto simp: List.map_filter_def)

lemma affected_eq:
  assumes s: "sound t" "sound t'" and a: "agree_on c t t'" and i: "intact c t"
  defines "p \<equiv> kv_phases c t" and "p' \<equiv> kv_phases c t'"
  shows "{w \<in> set (p_ways p). s_ways (p_store p) w \<noteq> None} = {w \<in> set (p_ways p'). s_ways (p_store p) w \<noteq> None}"
    "{r \<in> set (cascaded p). s_rels (p_store p) r \<noteq> None} = {r \<in> set (cascaded p'). s_rels (p_store p) r \<noteq> None}"
proof -
  let ?W = "changed_ways c" and ?R = "changed_relations c"
  let ?put = "w_id ` {w \<in> set (ways c). w_action w \<noteq> Delete}"
  let ?rput = "r_id ` {r \<in> set (relations c). r_action r \<noteq> Delete}"
  have st: "p_store p = p_store p'" unfolding p_def p'_def by (rule agree_after(3) [OF s a])
  note sn = agree_after(4,5) [OF s a]
  have a': "agree_on c t' t" using a by (auto simp: agree_def)
  note sn' = agree_after(4,5) [OF s(2,1) a']
  have n: "set (p_ways (after_nodes c t)) - ?W = set (p_ways (after_nodes c t')) - ?W"
    unfolding after_nodes_def
    using node_phase_ways [of "start_phase t" "start_phase t'", OF _ _ _ _ _, of "changed_nodes c" "deleted_nodes c" ?W ?R "nodes c"]
      s a i by (simp add: intact_def)
  have pw: "set (p_ways (kv_phases c u)) = set (p_ways (after_nodes c u)) \<union> ?put" for u
    by (auto simp: kv_phases_after p_ways_relations after_ways_def p_ways_ways)
  have w2r: "s_w2r (p_store (after_nodes c u)) = s_w2r u" for u
    by (simp add: after_nodes_def s_w2r_nodes)
  have pr: "set (p_rels (kv_phases c u)) = (\<Union>w\<in>?W. set (s_w2r u w)) \<union> ?rput" if "sound u" for u
  proof -
    have "sound (p_store (after_nodes c u))"
      using sound_folds(1) [of "start_phase u" "nodes c"] that by (simp add: after_nodes_def)
    then show ?thesis
      by (auto simp: kv_phases_after p_rels_relations after_ways_def p_rels_ways w2r)
        (auto simp: after_nodes_def p_rels_nodes)
  qed
  have wput: "w \<in> ?put" if "s_ways (p_store p) w \<noteq> None" "w \<in> ?W" for w
  proof -
    have "s_ways (p_store p) = s_ways (p_store (after_ways c t))"
      using sn(2) by (simp add: p_def kv_phases_after s_ways_relations)
    then show ?thesis
      using that way_stored_put [OF sn(1), of "ways c"] by (simp add: after_ways_def)
  qed
  have rput: "r \<in> ?rput" if "s_rels (p_store p) r \<noteq> None" "r \<in> ?R" for r
    using that relation_stored_put [OF sn(2), of "relations c"] by (simp add: p_def kv_phases_after)
  have "w \<in> set (p_ways p) \<longleftrightarrow> w \<in> set (p_ways p')" if "s_ways (p_store p) w \<noteq> None" for w
    using n pw [of t] pw [of t'] wput [OF that] unfolding p_def p'_def by blast
  then show "{w \<in> set (p_ways p). s_ways (p_store p) w \<noteq> None} = {w \<in> set (p_ways p'). s_ways (p_store p) w \<noteq> None}"
    by blast
  have fin: "set (s_w2r (p_store p) w) - ?R = set (s_w2r u w) - ?R" if "u = t \<or> u = t'" for u w
  proof -
    have "agree_on c u (p_store (kv_phases c u))"
      using crash_agrees [OF agree_refl, of c u "length (p_ops (kv_phases c u))"] ran_kv_phases [of u c] s that
      by (auto simp: ran_def)
    then have "filter (\<lambda>r. r \<notin> ?R) (s_w2r u w) = filter (\<lambda>r. r \<notin> ?R) (s_w2r (p_store (kv_phases c u)) w)"
      by (simp add: agree_def)
    moreover have "p_store (kv_phases c u) = p_store p" using that st by (auto simp: p_def p'_def)
    ultimately show ?thesis using filter_eq_Diff by metis
  qed
  have casc: "r \<in> set (cascaded q) \<longleftrightarrow>
      r \<in> ?rput \<or> (\<exists>w \<in> ?W \<union> (set (p_ways (after_nodes c u)) - ?W). r \<in> set (s_w2r (p_store p) w))"
    if "s_rels (p_store p) r \<noteq> None" "q = kv_phases c u" "u = t \<or> u = t'" for r q u
  proof (cases "r \<in> ?R")
    case True
    then show ?thesis
      using rput [OF that(1) True] pr [of u] s that(2,3) by (auto simp: cascaded_def)
  next
    case False
    have m: "r \<in> set (s_w2r (p_store p) w) \<longleftrightarrow> r \<in> set (s_w2r u w)" for w
      using fin [OF that(3), of w] False by blast
    have "sound u" using s that(3) by blast
    note pr = pr [OF this]
    have "p_store q = p_store p" using that(2,3) st by (auto simp: p_def p'_def)
    then have "r \<in> set (cascaded q) \<longleftrightarrow> r \<in> set (p_rels q) \<or> (\<exists>w\<in>set (p_ways q). r \<in> set (s_w2r u w))"
      using m by (auto simp: cascaded_def)
    also have "\<dots> \<longleftrightarrow> r \<in> ?rput \<or> (\<exists>w \<in> ?W \<union> (set (p_ways (after_nodes c u)) - ?W). r \<in> set (s_w2r u w))"
      unfolding that(2) pr pw by blast
    finally show ?thesis using m by blast
  qed
  have "r \<in> set (cascaded p) \<longleftrightarrow> r \<in> set (cascaded p')" if "s_rels (p_store p) r \<noteq> None" for r
    using casc [OF that meta_eq_to_obj_eq [OF p_def]] casc [OF that meta_eq_to_obj_eq [OF p'_def]] n
    by (simp add: p_def p'_def)
  then show "{r \<in> set (cascaded p). s_rels (p_store p) r \<noteq> None} = {r \<in> set (cascaded p'). s_rels (p_store p) r \<noteq> None}"
    by blast
qed


section \<open>Retrying an interrupted batch\<close>

text \<open>The stores a batch can leave behind when it is interrupted: any number of attempts, each
  stopped after any of its writes. DuckDB's transaction is rolled back each time.\<close>

inductive interrupted :: "osm_change \<Rightarrow> store \<Rightarrow> store \<Rightarrow> bool" for c t where
  fresh: "interrupted c t t"
| crash: "interrupted c t u \<Longrightarrow> interrupted c t (foldl store_op u (take k (p_ops (kv_phases c u))))"

lemma interrupted_inv: "interrupted c t u \<Longrightarrow> sound t \<Longrightarrow> sound u \<and> agree_on c t u"
  by (induction rule: interrupted.induct) (auto simp: agree_refl intro: crash_sound crash_agrees)

lemma apply_sql_cong:
  assumes "p_store p = p_store p'"
    and "{w \<in> set (p_ways p). s_ways (p_store p) w \<noteq> None} = {w \<in> set (p_ways p'). s_ways (p_store p) w \<noteq> None}"
    and "{r \<in> set (cascaded p). s_rels (p_store p) r \<noteq> None} = {r \<in> set (cascaded p'). s_rels (p_store p) r \<noteq> None}"
  shows "apply_sql sp c p = apply_sql sp c p'"
proof -
  let ?f = "\<lambda>r. map_option (\<lambda>ms. (r, ms)) (s_rels (p_store p) r)"
  have "filter (\<lambda>w. s_ways (p_store p) w \<noteq> None) (sorted_ids (p_ways p)) =
      filter (\<lambda>w. s_ways (p_store p) w \<noteq> None) (sorted_ids (p_ways p'))"
    by (rule sorted_ids_filter_cong [OF assms(2)])
  moreover have "List.map_filter ?f (sorted_ids (cascaded p)) = List.map_filter ?f (sorted_ids (cascaded p'))"
    using sorted_ids_filter_cong [OF assms(3)]
    by (subst (1 2) map_filter_present) simp
  ultimately show ?thesis
    by (simp add: apply_sql_def rebuild_way_geometries_def rebuild_relation_geometries_def assms(1) fun_eq_iff)
qed

lemma replay_converges:
  assumes "sound t" "intact c t" "interrupted c t u"
  shows "apply_collapsed sp c (u, db) = apply_collapsed sp c (t, db)"
proof -
  have u: "sound u" "agree_on c t u" using interrupted_inv [OF assms(3,1)] by simp_all
  have p: "p_store (kv_phases c t) = p_store (kv_phases c u)"
    by (rule agree_after(3) [OF assms(1) u])
  have "apply_sql sp c (kv_phases c t) = apply_sql sp c (kv_phases c u)"
    by (rule apply_sql_cong [OF p affected_eq [OF assms(1) u assms(2)]])
  with p show ?thesis by (simp add: apply_collapsed_def Let_def)
qed

lemma replay_store_converges:
  assumes "sound t" "interrupted c t u"
  shows "fst (apply_collapsed sp c (u, db)) = fst (apply_collapsed sp c (t, db))"
proof -
  have u: "sound u" "agree_on c t u" using interrupted_inv [OF assms(2,1)] by simp_all
  show ?thesis
    using agree_after(3) [OF assms(1) u] by (simp add: apply_collapsed_def Let_def split_beta)
qed

end
