(* ===== verification/Osm_Rows.thy ===== *)
theory Osm_Rows
  imports Osm_Kv
begin

text \<open>
  What \<open>apply_sql\<close> leaves in the served tables: every helper is characterised by the rows one
  object has afterwards, so that the chunking of the statements disappears; and every row
  that enters or leaves a table has its cells recorded.
\<close>

section \<open>The rows of one object\<close>

definition rows_at :: "string \<Rightarrow> i64 \<Rightarrow> ('p, 'g) row list \<Rightarrow> ('p, 'g) row list" where
  "rows_at typ i rows = filter (is_row typ [i]) rows"

named_theorems rows_simps

lemma is_row_single: "is_row typ [i] r \<longleftrightarrow> row_type r = typ \<and> row_id r = i"
  by (simp add: is_row_def)

lemma rows_at_append [rows_simps]: "rows_at typ i (xs @ ys) = rows_at typ i xs @ rows_at typ i ys"
  by (simp add: rows_at_def)

lemma rows_at_delete [rows_simps]:
  "rows_at typ i (delete_rows typ' ids rows) = (if typ = typ' \<and> i \<in> set ids then [] else rows_at typ i rows)"
  by (auto simp: rows_at_def delete_rows_def is_row_def filter_empty_conv intro!: filter_cong)

lemma delete_rows_append: "delete_rows typ b (delete_rows typ a rows) = delete_rows typ (a @ b) rows"
  by (auto simp: delete_rows_def is_row_def intro!: filter_cong)

lemma delete_rows_foldl:
  "foldl (\<lambda>rows c. delete_rows typ c rows) rows cs = delete_rows typ (concat cs) rows"
proof (induction cs arbitrary: rows)
  case Nil
  then show ?case by (simp add: delete_rows_def)
next
  case (Cons c cs)
  then show ?case by (simp add: delete_rows_append)
qed

definition deleted_tables :: "string \<Rightarrow> i64 list \<Rightarrow> 'g tables \<Rightarrow> 'g tables" where
  "deleted_tables typ ids tabs =
     \<lparr>osm_buildings = delete_rows typ ids (osm_buildings tabs),
      osm_former_buildings = delete_rows typ ids (osm_former_buildings tabs),
      osm_addresses = delete_rows typ ids (osm_addresses tabs)\<rparr>"

lemma deleted_tables_append:
  "deleted_tables typ b (deleted_tables typ a tabs) = deleted_tables typ (a @ b) tabs"
  by (simp add: deleted_tables_def delete_rows_append)

lemma fst_remove_chunk: "fst (remove_chunk sp typ work c) = deleted_tables typ c (fst work)"
  by (simp add: remove_chunk_def deleted_tables_def split_beta Let_def)

lemma fst_remove_served_rows: "fst (remove_served_rows sp typ ids work) = deleted_tables typ ids (fst work)"
proof -
  have "fst (foldl (remove_chunk sp typ) work cs) = deleted_tables typ (concat cs) (fst work)" for cs
  proof (induction cs arbitrary: work)
    case Nil
    then show ?case by (simp add: deleted_tables_def delete_rows_def)
  next
    case (Cons c cs)
    then show ?case by (simp add: fst_remove_chunk deleted_tables_append)
  qed
  then show ?thesis by (simp add: remove_served_rows_def concat_chunks REBUILD_CHUNK_def)
qed

lemma rows_at_insert [rows_simps]:
  "rows_at typ' i (insert_rows typ geom payload vals) =
     (if typ' = typ then insert_rows typ geom payload (filter (\<lambda>(j, v). j = i) vals) else [])"
proof (induction vals)
  case (Cons x vals)
  then show ?case
    by (cases x) (auto simp: insert_rows_def rows_at_def is_row_single split: option.splits)
qed (simp add: insert_rows_def rows_at_def)

lemma insert_tables:
  "osm_buildings (fst (insert_all sp typ polygon centroid rows work)) =
     osm_buildings (fst work) @ insert_rows typ polygon Some (rr_buildings rows)"
  "osm_former_buildings (fst (insert_all sp typ polygon centroid rows work)) =
     osm_former_buildings (fst work) @ insert_rows typ polygon id (rr_former rows)"
  "osm_addresses (fst (insert_all sp typ polygon centroid rows work)) =
     osm_addresses (fst work) @ insert_rows typ centroid id (rr_addresses rows)"
  by (simp_all add: insert_all_def insert_buildings_def insert_former_def insert_addresses_def
      insert_rows_def split_beta Let_def)

section \<open>Values pushed for one object\<close>

definition pushed :: "i64 \<Rightarrow> rebuild_tags option \<Rightarrow> rebuild_rows" where
  "pushed i tags = (case tags of None \<Rightarrow> no_rows | Some ts \<Rightarrow> push_rows i ts no_rows)"

definition rows_for :: "i64 \<Rightarrow> rebuild_rows \<Rightarrow> rebuild_rows" where
  "rows_for i rows =
     \<lparr>rr_buildings = filter (\<lambda>(j, v). j = i) (rr_buildings rows),
      rr_former = filter (\<lambda>(j, v). j = i) (rr_former rows),
      rr_addresses = filter (\<lambda>(j, v). j = i) (rr_addresses rows)\<rparr>"

definition append_rows :: "rebuild_rows \<Rightarrow> rebuild_rows \<Rightarrow> rebuild_rows" where
  "append_rows a b = \<lparr>rr_buildings = rr_buildings a @ rr_buildings b, rr_former = rr_former a @ rr_former b,
     rr_addresses = rr_addresses a @ rr_addresses b\<rparr>"

lemma append_no_rows: "append_rows no_rows r = r" "append_rows r no_rows = r"
  by (simp_all add: append_rows_def no_rows_def)

lemma push_append: "push_rows i ts rows = append_rows rows (push_rows i ts no_rows)"
  by (simp add: push_rows_def append_rows_def no_rows_def)

lemma rows_for_append: "rows_for i (append_rows a b) = append_rows (rows_for i a) (rows_for i b)"
  by (simp add: rows_for_def append_rows_def)

lemma rows_for_push: "rows_for i (push_rows j ts no_rows) = (if i = j then push_rows j ts no_rows else no_rows)"
  by (simp add: rows_for_def push_rows_def no_rows_def split: option.splits)

lemma rows_for_none: "rows_for i no_rows = no_rows"
  by (simp add: rows_for_def no_rows_def)

text \<open>The tags a way asks for, once ways that cannot be resolved are ignored.\<close>

definition served_tags :: "store \<Rightarrow> i64 \<Rightarrow> rebuild_tags \<Rightarrow> rebuild_tags option" where
  "served_tags t i tags = (if wants_any tags \<and> unresolved_way_members t [i] \<noteq> [] then None else Some tags)"

declare unresolved_way_members.simps [simp del]

lemma way_rows_fold:
  "way_rows t targets = foldl (\<lambda>rows x. append_rows rows (pushed (fst x) (served_tags t (fst x) (snd x)))) no_rows targets"
proof -
  have "(\<lambda>rows (i, tags). if wants_any tags \<and> unresolved_way_members t [i] \<noteq> [] then rows
        else push_rows i tags rows)
      = (\<lambda>rows x. append_rows rows (pushed (fst x) (served_tags t (fst x) (snd x))))"
    by (intro ext) (simp add: split_beta pushed_def served_tags_def append_no_rows push_append [symmetric])
  then show ?thesis by (simp only: way_rows_def)
qed

lemma append_rows_assoc: "append_rows (append_rows a b) c = append_rows a (append_rows b c)"
  by (simp add: append_rows_def)

lemma append_rows_foldl:
  "foldl (\<lambda>rows x. append_rows rows (g x)) rows xs = append_rows rows (foldl (\<lambda>rows x. append_rows rows (g x)) no_rows xs)"
proof (induction xs arbitrary: rows)
  case (Cons x xs)
  show ?case
    using Cons [of "append_rows rows (g x)"] Cons [of "g x"]
    by (simp add: append_no_rows append_rows_assoc)
qed (simp add: append_no_rows)

lemma way_rows_Cons:
  "way_rows t ((i, tags) # targets) = append_rows (pushed i (served_tags t i tags)) (way_rows t targets)"
  unfolding way_rows_fold foldl_Cons by (subst append_rows_foldl) (simp add: append_no_rows)

lemma rows_for_pushed: "rows_for i (pushed j ts) = (if i = j then pushed j ts else no_rows)"
  by (cases ts) (simp_all add: pushed_def rows_for_none rows_for_push)

lemma rows_for_way_rows:
  "distinct (map fst targets) \<Longrightarrow>
   rows_for i (way_rows t targets) =
     (case map_of targets i of None \<Rightarrow> no_rows | Some tags \<Rightarrow> pushed i (served_tags t i tags))"
proof (induction targets)
  case Nil
  then show ?case by (simp add: way_rows_def rows_for_none)
next
  case (Cons x xs)
  obtain j tags where x: "x = (j, tags)" by (cases x)
  have "j \<notin> dom (map_of xs)" using Cons.prems x by (simp add: dom_map_of_conv_image_fst)
  then have "map_of xs j = None" by auto
  with Cons x show ?case
    by (simp add: way_rows_Cons rows_for_append rows_for_pushed append_no_rows)
qed


section \<open>One way after its rebuild\<close>

definition way_targets_one :: "'g tables \<Rightarrow> (i64 \<rightharpoonup> way_change) \<Rightarrow> i64 \<Rightarrow> rebuild_tags option" where
  "way_targets_one tabs way_changes i =
     (case way_changes i of Some wc \<Rightarrow> Some (change_rebuild_tags (w_tags wc))
      | None \<Rightarrow> stored_rebuild_tags tabs ''way'' [i] i)"

lemma stored_one: "i \<in> set ids \<Longrightarrow> stored_rebuild_tags tabs typ ids i = stored_rebuild_tags tabs typ [i] i"
  by (simp add: stored_rebuild_tags_def)

lemma map_filter_cong_set: "(\<And>x. x \<in> set xs \<Longrightarrow> f x = g x) \<Longrightarrow> List.map_filter f xs = List.map_filter g xs"
  by (induction xs) (auto simp: List.map_filter_def)

lemma way_targets_eq:
  "way_targets tabs wc chunk = List.map_filter (\<lambda>i. map_option (\<lambda>ts. (i, ts)) (way_targets_one tabs wc i)) chunk"
  unfolding way_targets_def Let_def
proof (rule map_filter_cong_set)
  fix i assume i: "i \<in> set chunk"
  show "(case wc i of None \<Rightarrow>
        map_option (\<lambda>tags. (i, tags)) (stored_rebuild_tags tabs ''way'' (filter (\<lambda>i. wc i = None) chunk) i)
      | Some wc \<Rightarrow> Some (i, change_rebuild_tags (w_tags wc)))
    = map_option (\<lambda>ts. (i, ts)) (way_targets_one tabs wc i)"
  proof (cases "wc i")
    case None
    then have "i \<in> set (filter (\<lambda>i. wc i = None) chunk)" using i by simp
    from stored_one [OF this, of tabs "''way''"] None show ?thesis by (simp only: way_targets_one_def option.case)
  next
    case (Some x)
    then show ?thesis by (simp add: way_targets_one_def)
  qed
qed

lemma map_of_map_filter:
  "map_of (List.map_filter (\<lambda>i. map_option (\<lambda>ts. (i, ts)) (f i)) xs) i = (if i \<in> set xs then f i else None)"
  by (induction xs) (auto simp: List.map_filter_def split: option.splits)

lemma fst_map_filter:
  "map fst (List.map_filter (\<lambda>i. map_option (\<lambda>ts. (i, ts)) (f i)) xs) = filter (\<lambda>i. f i \<noteq> None) xs"
  by (induction xs) (auto simp: List.map_filter_def split: option.splits)

lemma find_filter: "find P (filter P xs) = find P xs"
  by (induction xs) auto

lemma row_of_rows_at: "row_of typ i rows = row_of typ i (rows_at typ i rows)"
  by (simp add: row_of_def rows_at_def find_filter)

text \<open>The part of the tables that belongs to one object.\<close>

definition object_rows :: "string \<Rightarrow> i64 \<Rightarrow> 'g tables \<Rightarrow> 'g tables" where
  "object_rows typ i tabs =
     \<lparr>osm_buildings = rows_at typ i (osm_buildings tabs),
      osm_former_buildings = rows_at typ i (osm_former_buildings tabs),
      osm_addresses = rows_at typ i (osm_addresses tabs)\<rparr>"

lemma stored_object_rows:
  "stored_rebuild_tags tabs typ [i] i = stored_rebuild_tags (object_rows typ i tabs) typ [i] i"
  by (simp add: stored_rebuild_tags_def object_rows_def row_of_rows_at [symmetric])

lemma way_targets_one_cong:
  "object_rows ''way'' i tabs = object_rows ''way'' i tabs' \<Longrightarrow>
   way_targets_one tabs wc i = way_targets_one tabs' wc i"
  by (simp add: way_targets_one_def stored_object_rows [of tabs] stored_object_rows [of tabs'] split: option.splits)

definition result_rows ::
  "string \<Rightarrow> (i64 \<Rightarrow> 'g option option) \<Rightarrow> (i64 \<Rightarrow> 'g option option) \<Rightarrow> rebuild_rows \<Rightarrow> 'g tables" where
  "result_rows typ polygon centroid rows =
     \<lparr>osm_buildings = insert_rows typ polygon Some (rr_buildings rows),
      osm_former_buildings = insert_rows typ polygon id (rr_former rows),
      osm_addresses = insert_rows typ centroid id (rr_addresses rows)\<rparr>"

text \<open>The rows a way is served with once rebuilt from its tags, out of the final store.\<close>

definition way_result :: "'g spatial \<Rightarrow> store \<Rightarrow> i64 \<Rightarrow> rebuild_tags \<Rightarrow> 'g tables" where
  "way_result sp t i tags =
     result_rows ''way'' (\<lambda>i. map_option Some (way_ring sp t i))
       (\<lambda>i. map_option Some (way_centroid sp t i)) (pushed i (served_tags t i tags))"

lemma no_result: "result_rows typ polygon centroid no_rows = object_rows typ i (deleted_tables typ [i] tabs)"
  by (simp add: result_rows_def no_rows_def insert_rows_def object_rows_def deleted_tables_def rows_at_delete)

lemma way_chunk_object:
  assumes "distinct chunk"
  shows "object_rows ''way'' i (fst (rebuild_way_chunk sp t wc work chunk)) =
     (if i \<in> set chunk then
        (case way_targets_one (fst work) wc i of None \<Rightarrow> object_rows ''way'' i (fst work)
         | Some tags \<Rightarrow> way_result sp t i tags)
      else object_rows ''way'' i (fst work))"
proof -
  let ?tg = "way_targets (fst work) wc chunk"
  let ?one = "way_targets_one (fst work) wc"
  have ids: "map fst ?tg = filter (\<lambda>i. ?one i \<noteq> None) chunk"
    by (simp add: way_targets_eq fst_map_filter)
  then have d: "distinct (map fst ?tg)" using assms by simp
  have mo: "map_of ?tg i = (if i \<in> set chunk then ?one i else None)"
    by (simp add: way_targets_eq map_of_map_filter)
  note rf = rows_for_way_rows [OF d, of i t, unfolded mo]
  have rr: "filter (\<lambda>(j, v). j = i) (rr_buildings (way_rows t ?tg)) = rr_buildings (rows_for i (way_rows t ?tg))"
    "filter (\<lambda>(j, v). j = i) (rr_former (way_rows t ?tg)) = rr_former (rows_for i (way_rows t ?tg))"
    "filter (\<lambda>(j, v). j = i) (rr_addresses (way_rows t ?tg)) = rr_addresses (rows_for i (way_rows t ?tg))"
    by (simp_all add: rows_for_def)
  have del: "i \<in> set (map fst ?tg) \<longleftrightarrow> i \<in> set chunk \<and> ?one i \<noteq> None"
    using ids by auto
  show ?thesis
    unfolding rebuild_way_chunk_def Let_def object_rows_def insert_tables rows_at_append rows_at_insert
      fst_remove_served_rows deleted_tables_def tables.simps rows_at_delete rr rf del
    by (auto simp: way_result_def result_rows_def no_rows_def insert_rows_def split: option.splits)
qed

section \<open>A change set, object by object\<close>

lemma object_rows_other:
  "typ \<noteq> typ' \<Longrightarrow> object_rows typ i (deleted_tables typ' ids tabs) = object_rows typ i tabs"
  by (simp add: object_rows_def deleted_tables_def rows_at_delete)

lemma object_rows_deleted:
  "object_rows typ i (deleted_tables typ ids tabs) =
     (if i \<in> set ids then \<lparr>osm_buildings = [], osm_former_buildings = [], osm_addresses = []\<rparr>
      else object_rows typ i tabs)"
  by (simp add: object_rows_def deleted_tables_def rows_at_delete)

lemma object_rows_insert_other:
  "typ \<noteq> typ' \<Longrightarrow>
   object_rows typ i (fst (insert_all sp typ' polygon centroid rows work)) = object_rows typ i (fst work)"
  by (simp add: object_rows_def insert_tables rows_at_append rows_at_insert)

lemma foldl_object_rows:
  "(\<And>work c. object_rows typ i (fst (f work c)) = object_rows typ i (fst work)) \<Longrightarrow>
   object_rows typ i (fst (foldl f work cs)) = object_rows typ i (fst work)"
  by (induction cs arbitrary: work) simp_all

lemma node_sql_way_rows: "object_rows ''way'' i (fst (node_sql sp ns work)) = object_rows ''way'' i (fst work)"
proof -
  have "object_rows ''way'' i (fst (remove_node_rows sp w c)) = object_rows ''way'' i (fst w)" for w c
    by (simp add: remove_node_rows_def split_beta object_rows_def rows_at_delete)
  moreover have "object_rows ''way'' i (fst (insert_node_addresses sp w c)) = object_rows ''way'' i (fst w)" for w c
    by (simp add: insert_node_addresses_def split_beta object_rows_def rows_at_append rows_at_def node_rows_def
        is_row_def filter_empty_conv)
  ultimately show ?thesis unfolding node_sql_def by (simp add: foldl_object_rows)
qed

lemma relation_rebuild_way_rows:
  "object_rows ''way'' i (fst (rebuild_relation_geometries sp t rc ids work)) = object_rows ''way'' i (fst work)"
  unfolding rebuild_relation_geometries_def
  by (rule foldl_object_rows)
    (simp add: rebuild_relation_chunk_def Let_def split_beta object_rows_insert_other fst_remove_served_rows
      object_rows_other)

lemma way_chunks_object:
  "distinct (concat cs) \<Longrightarrow>
   object_rows ''way'' i (fst (foldl (rebuild_way_chunk sp t wc) work cs)) =
     (if i \<in> set (concat cs) then
        (case way_targets_one (fst work) wc i of None \<Rightarrow> object_rows ''way'' i (fst work)
         | Some tags \<Rightarrow> way_result sp t i tags)
      else object_rows ''way'' i (fst work))"
proof (induction cs arbitrary: work)
  case (Cons c cs)
  let ?work = "rebuild_way_chunk sp t wc work c"
  have d: "distinct c" "distinct (concat cs)" "i \<in> set c \<Longrightarrow> i \<notin> set (concat cs)"
    using Cons.prems by auto
  note step = way_chunk_object [OF d(1), of i sp t wc work]
  show ?case
  proof (cases "i \<in> set c")
    case True
    then show ?thesis using Cons.IH [OF d(2), of ?work] step d(3) by simp
  next
    case False
    then have o: "object_rows ''way'' i (fst ?work) = object_rows ''way'' i (fst work)" using step by simp
    from way_targets_one_cong [OF this, of wc] show ?thesis
      using Cons.IH [OF d(2), of ?work] False o by (simp split: option.split)
  qed
qed simp

lemma distinct_sorted_ids: "distinct (sorted_ids xs)"
  by (simp add: sorted_ids_def)

lemma set_sorted_ids [simp]: "set (sorted_ids xs) = set xs"
  by (simp add: sorted_ids_def)

lemma way_rebuild_object:
  "object_rows ''way'' i (fst (rebuild_way_geometries sp t wc (sorted_ids ws) work)) =
     (if i \<in> set ws \<and> s_ways t i \<noteq> None then
        (case way_targets_one (fst work) wc i of None \<Rightarrow> object_rows ''way'' i (fst work)
         | Some tags \<Rightarrow> way_result sp t i tags)
      else object_rows ''way'' i (fst work))"
proof -
  let ?present = "filter (\<lambda>w. s_ways t w \<noteq> None) (sorted_ids ws)"
  have c: "concat (chunks REBUILD_CHUNK ?present) = ?present"
    by (rule concat_chunks) (simp add: REBUILD_CHUNK_def)
  have "distinct (concat (chunks REBUILD_CHUNK ?present))"
    unfolding c using distinct_sorted_ids by (rule distinct_filter)
  from way_chunks_object [OF this, of i sp t wc work] show ?thesis
    unfolding rebuild_way_geometries_def c by auto
qed

lemma s_ways_put:
  assumes "sound (p_store p)" "distinct (map w_id ws)" "w \<in> set ws"
  shows "s_ways (p_store (foldl apply_way p ws)) (w_id w) = way_value w"
  using assms
proof (induction ws rule: rev_induct)
  case (snoc x ws)
  have s: "sound (p_store (foldl apply_way p ws))" using snoc.prems(1) by (rule sound_folds)
  have v: "s_ways (p_store (foldl apply_way p (ws @ [x]))) = (s_ways (p_store (foldl apply_way p ws)))(w_id x := way_value x)"
    by (simp add: store_apply way_step_store [OF s])
  show ?case
  proof (cases "w = x")
    case False
    then have w: "w \<in> set ws" using snoc.prems(3) by simp
    then have "w_id w \<in> w_id ` set ws" by (rule imageI)
    then have "w_id w \<noteq> w_id x" using snoc.prems(2) by auto
    then show ?thesis using v w snoc by simp
  next
    case True
    then show ?thesis using v by simp
  qed
qed simp

lemma final_way:
  assumes "sound t" "distinct (map w_id (ways c))" "w \<in> set (ways c)"
  shows "s_ways (p_store (kv_phases c t)) (w_id w) = way_value w"
proof -
  have n: "sound (p_store (after_nodes c t))" "sound (p_store (after_ways c t))"
    using agree_after(4,5) [OF assms(1,1) agree_refl] .
  then show ?thesis
    using s_ways_put [OF n(1) assms(2,3)]
    by (simp add: kv_phases_after s_ways_relations after_ways_def)
qed

lemma way_changes_of_in:
  assumes "distinct (map w_id (ways c))"
  shows "way_changes_of c i = Some w \<longleftrightarrow> w \<in> set (ways c) \<and> w_id w = i"
proof -
  have "map fst (rev (map (\<lambda>w. (w_id w, w)) (ways c))) = rev (map w_id (ways c))"
    by (simp add: rev_map comp_def)
  then have "distinct (map fst (rev (map (\<lambda>w. (w_id w, w)) (ways c))))" using assms by simp
  then show ?thesis
    unfolding way_changes_of_def by (auto simp: map_of_eq_Some_iff)
qed

lemma p_ways_final: "set (p_ways (kv_phases c t)) \<supseteq> w_id ` {w \<in> set (ways c). w_action w \<noteq> Delete}"
  by (auto simp: kv_phases_after p_ways_relations after_ways_def p_ways_ways)

definition no_tables :: "'g tables" where
  "no_tables = \<lparr>osm_buildings = [], osm_former_buildings = [], osm_addresses = []\<rparr>"

text \<open>What the rebuild reads of a way: nothing but its own rows, so phases before it that leave
  them alone do not matter.\<close>

lemma way_after_apply:
  assumes "sound t" "distinct (map w_id (ways c))"
  defines "p \<equiv> kv_phases c t"
  shows "object_rows ''way'' i (dk_tables (snd (apply_collapsed sp c (t, db)))) =
    (case way_changes_of c i of
       Some w \<Rightarrow> if w_action w = Delete then no_tables
                  else way_result sp (p_store p) i (change_rebuild_tags (w_tags w))
     | None \<Rightarrow>
         if i \<in> set (p_ways p) \<and> s_ways (p_store p) i \<noteq> None then
           (case stored_rebuild_tags (dk_tables db) ''way'' [i] i of
              None \<Rightarrow> object_rows ''way'' i (dk_tables db)
            | Some tags \<Rightarrow> way_result sp (p_store p) i tags)
         else object_rows ''way'' i (dk_tables db))"
proof -
  have p: "kv_phases c t = p" by (simp add: p_def)
  let ?w0 = "(dk_tables db, new_dirty)"
  let ?del = "map w_id (filter (\<lambda>w. w_action w = Delete) (ways c))"
  let ?w1 = "node_sql sp (nodes c) ?w0"
  let ?w3 = "remove_served_rows sp ''relation'' (map r_id (filter (\<lambda>r. r_action r = Delete) (relations c)))
      (remove_served_rows sp ''way'' ?del ?w1)"
  have o3: "object_rows ''way'' i (fst ?w3) =
      (if i \<in> set ?del then no_tables else object_rows ''way'' i (dk_tables db))"
    by (simp add: fst_remove_served_rows object_rows_other object_rows_deleted node_sql_way_rows no_tables_def)
  have fin: "object_rows ''way'' i (dk_tables (snd (apply_collapsed sp c (t, db)))) =
      (if i \<in> set (p_ways p) \<and> s_ways (p_store p) i \<noteq> None then
        (case way_targets_one (fst ?w3) (way_changes_of c) i of None \<Rightarrow> object_rows ''way'' i (fst ?w3)
         | Some tags \<Rightarrow> way_result sp (p_store p) i tags)
      else object_rows ''way'' i (fst ?w3))"
    by (simp add: apply_collapsed_def apply_sql_def Let_def split_beta p relation_rebuild_way_rows
        way_rebuild_object)
  show ?thesis
  proof (cases "way_changes_of c i")
    case None
    then have "i \<notin> set ?del" using way_changes_of_in [OF assms(2), of i] by auto
    then have e: "object_rows ''way'' i (fst ?w3) = object_rows ''way'' i (dk_tables db)" using o3 by simp
    have "way_targets_one (fst ?w3) (way_changes_of c) i = stored_rebuild_tags (dk_tables db) ''way'' [i] i"
      using way_targets_one_cong [OF e, of "way_changes_of c"] None by (simp add: way_targets_one_def)
    then show ?thesis using fin e None by (auto split: option.split)
  next
    case (Some w)
    then have w: "w \<in> set (ways c)" "w_id w = i" using way_changes_of_in [OF assms(2), of i] by auto
    have v: "s_ways (p_store p) i = way_value w"
      using final_way [OF assms(1,2) w(1)] w(2) by (simp add: p_def)
    show ?thesis
    proof (cases "w_action w = Delete")
      case True
      then have "i \<in> set ?del" using w by auto
      then show ?thesis using fin o3 v Some True by (simp add: way_value_def)
    next
      case False
      have "i \<in> set (p_ways p)" using p_ways_final [of c t] w False by (auto simp: p_def)
      then show ?thesis using fin v Some False by (simp add: way_value_def way_targets_one_def)
    qed
  qed
qed

end
