(* ===== verification/Osm_Dirty.thy ===== *)
theory Osm_Dirty
  imports Osm_Rows
begin

text \<open>
  Cell coverage of the apply path: whatever \<open>apply_collapsed\<close> changes in a served table, the
  cells the match rules must look at again end up in \<open>match_dirty_cells\<close>. One relation
  between two states of a transaction, reflexive and transitive, is kept by every statement.
\<close>

section \<open>Tracked changes\<close>

definition point_cells :: "'g spatial \<Rightarrow> layer \<Rightarrow> f64 \<Rightarrow> f64 \<Rightarrow> cell set" where
  "point_cells sp layer lon lat = cells_of layer (note_point (tile_of_point sp) layer lon lat new_dirty)"

text \<open>A row is noted when its bounding box is recorded, unless the box is implausibly large,
  or when it is the address point of one of the nodes \<open>ns\<close>, recorded at its coordinates.\<close>

definition noted :: "'g spatial \<Rightarrow> node_change set \<Rightarrow> layer \<Rightarrow> dirty_cells \<Rightarrow> ('p, 'g) row \<Rightarrow> bool" where
  "noted sp ns layer d r \<longleftrightarrow>
     (\<forall>g. row_geom r = Some g \<longrightarrow> plausible (geom_cells sp layer g) \<longrightarrow>
        box_cells (geom_cells sp layer g) \<subseteq> cells_of layer d) \<or>
     (layer = Addresses \<and>
        (\<exists>n\<in>ns. row_type r = ''node'' \<and> row_id r = n_id n \<and>
          row_geom r = Some (st_point sp (n_lon n) (n_lat n)) \<and>
          point_cells sp layer (n_lon n) (n_lat n) \<subseteq> cells_of layer d))"

definition diff_noted ::
  "'g spatial \<Rightarrow> node_change set \<Rightarrow> layer \<Rightarrow> dirty_cells \<Rightarrow> ('p, 'g) row list \<Rightarrow> ('p, 'g) row list \<Rightarrow> bool" where
  "diff_noted sp ns layer d rows rows' \<longleftrightarrow>
     (\<forall>r \<in> (set rows - set rows') \<union> (set rows' - set rows). noted sp ns layer d r)"

definition tracked :: "'g spatial \<Rightarrow> node_change set \<Rightarrow> 'g work \<Rightarrow> 'g work \<Rightarrow> bool" where
  "tracked sp ns w w' \<longleftrightarrow>
     (\<forall>l. cells_of l (snd w) \<subseteq> cells_of l (snd w')) \<and>
     (\<forall>l. finite (cells_of l (snd w)) \<longrightarrow> finite (cells_of l (snd w'))) \<and>
     diff_noted sp ns Buildings (snd w') (osm_buildings (fst w)) (osm_buildings (fst w')) \<and>
     diff_noted sp ns Buildings (snd w') (osm_former_buildings (fst w)) (osm_former_buildings (fst w')) \<and>
     diff_noted sp ns Addresses (snd w') (osm_addresses (fst w)) (osm_addresses (fst w'))"

lemma noted_mono: "noted sp ns l d r \<Longrightarrow> cells_of l d \<subseteq> cells_of l d' \<Longrightarrow> noted sp ns l d' r"
  unfolding noted_def by blast

lemma diff_noted_refl [simp]: "diff_noted sp ns l d rows rows"
  by (simp add: diff_noted_def)

lemma diff_noted_mono:
  "diff_noted sp ns l d rows rows' \<Longrightarrow> cells_of l d \<subseteq> cells_of l d' \<Longrightarrow> diff_noted sp ns l d' rows rows'"
  by (auto simp: diff_noted_def intro: noted_mono)

lemma diff_noted_trans:
  "diff_noted sp ns l d xs ys \<Longrightarrow> diff_noted sp ns l d ys zs \<Longrightarrow> diff_noted sp ns l d xs zs"
  unfolding diff_noted_def by blast

lemma tracked_refl: "tracked sp ns w w"
  by (simp add: tracked_def)

lemma tracked_trans [trans]:
  assumes "tracked sp ns w w'" "tracked sp ns w' w''"
  shows "tracked sp ns w w''"
  using assms unfolding tracked_def
  by (meson diff_noted_mono diff_noted_trans order_trans)

lemma tracked_foldl: "(\<And>w x. x \<in> set xs \<Longrightarrow> tracked sp ns w (f w x)) \<Longrightarrow> tracked sp ns w (foldl f w xs)"
proof (induction xs arbitrary: w)
  case (Cons x xs)
  have "tracked sp ns w (f w x)" by (rule Cons.prems) simp
  also have "tracked sp ns (f w x) (foldl f (f w x) xs)" using Cons.prems by (intro Cons.IH) simp
  finally show ?case by simp
qed (simp add: tracked_refl)

section \<open>Recording rows\<close>

lemma note_rows_mono: "cells_of l d \<subseteq> cells_of l (note_rows sp l' rows ids typ d)"
  using cells_note_existing_mono by (simp add: note_rows_def)

lemma note_rows_finite: "finite (cells_of l d) \<Longrightarrow> finite (cells_of l (note_rows sp l' rows ids typ d))"
  by (auto simp: note_rows_def cells_note_existing)

lemma note_rows_in: "x \<in> cells_of l d \<Longrightarrow> x \<in> cells_of l (note_rows sp l' rows ids typ d)"
  using note_rows_mono by blast

lemma note_point_finite: "finite (cells_of l d) \<Longrightarrow> finite (cells_of l (note_point tf l' lon lat d))"
  by (auto simp: note_point_def Let_def cells_of_add split: prod.splits)

lemma note_rows_noted:
  assumes "r \<in> set rows" "is_row typ ids r"
  shows "noted sp ns l (note_rows sp l rows ids typ d) r"
proof -
  have "ids \<noteq> []" using assms(2) by (auto simp: is_row_def)
  moreover have "geom_cells sp l g \<in> set (map (geom_cells sp l) (List.map_filter row_geom (filter (is_row typ ids) rows)))"
    if "row_geom r = Some g" for g
    using assms that by (force simp: List.map_filter_def)
  ultimately show ?thesis
    unfolding noted_def by (intro disjI1) (auto simp: note_rows_def cells_note_existing)
qed

lemma deleted_row: "r \<in> set rows \<Longrightarrow> r \<notin> set (delete_rows typ ids rows) \<Longrightarrow> is_row typ ids r"
  by (auto simp: delete_rows_def split: if_splits)

lemma not_added: "r \<in> set (delete_rows typ ids rows) \<Longrightarrow> r \<in> set rows"
  by (auto simp: delete_rows_def split: if_splits)

lemma delete_noted:
  assumes "\<And>l'. cells_of l' (note_rows sp l rows ids typ d) \<subseteq> cells_of l' d'"
  shows "diff_noted sp ns l d' rows (delete_rows typ ids rows)"
  unfolding diff_noted_def
proof
  fix r assume "r \<in> (set rows - set (delete_rows typ ids rows)) \<union> (set (delete_rows typ ids rows) - set rows)"
  then have "r \<in> set rows" "is_row typ ids r" using deleted_row not_added by blast+
  then show "noted sp ns l d' r" by (rule noted_mono [OF note_rows_noted assms])
qed

lemma insert_noted:
  assumes "\<And>r. r \<in> set new \<Longrightarrow> is_row typ ids r"
  shows "diff_noted sp ns l (note_rows sp l (rows @ new) ids typ d) rows (rows @ new)"
  using assms by (auto simp: diff_noted_def intro: note_rows_noted)

lemma insert_rows_is_row: "r \<in> set (insert_rows typ geom f vals) \<Longrightarrow> is_row typ (map fst vals) r"
  by (force simp: insert_rows_def is_row_def split: option.splits)

section \<open>Every statement is tracked\<close>

lemma tracked_remove_chunk: "tracked sp ns w (remove_chunk sp typ w chunk)"
proof -
  let ?d1 = "note_rows sp Buildings (osm_buildings (fst w)) chunk typ (snd w)"
  let ?d2 = "note_rows sp Addresses (osm_addresses (fst w)) chunk typ ?d1"
  let ?d3 = "note_rows sp Buildings (osm_former_buildings (fst w)) chunk typ ?d2"
  have r: "remove_chunk sp typ w chunk = (deleted_tables typ chunk (fst w), ?d3)"
    by (simp add: remove_chunk_def deleted_tables_def Let_def split_beta)
  have "diff_noted sp ns Buildings ?d3 (osm_buildings (fst w)) (delete_rows typ chunk (osm_buildings (fst w)))"
    by (rule delete_noted [where d = "snd w"]) (blast intro: note_rows_in)
  moreover have "diff_noted sp ns Addresses ?d3 (osm_addresses (fst w)) (delete_rows typ chunk (osm_addresses (fst w)))"
    by (rule delete_noted [where d = ?d1]) (blast intro: note_rows_in)
  moreover have "diff_noted sp ns Buildings ?d3 (osm_former_buildings (fst w))
      (delete_rows typ chunk (osm_former_buildings (fst w)))"
    by (rule delete_noted [where d = ?d2]) blast
  ultimately show ?thesis
    unfolding tracked_def r by (simp add: deleted_tables_def note_rows_finite) (blast intro: note_rows_in)
qed

lemma tracked_remove_served_rows: "tracked sp ns w (remove_served_rows sp typ ids w)"
  unfolding remove_served_rows_def by (intro tracked_foldl tracked_remove_chunk)

lemma tracked_remove_node_rows: "tracked sp ns w (remove_node_rows sp w chunk)"
  unfolding tracked_def remove_node_rows_def Let_def split_beta
  using delete_noted [where d = "snd w", OF subset_refl]
  by (auto simp: note_rows_finite intro: note_rows_in)

lemma tracked_inserts:
  "tracked sp ns w (insert_buildings sp typ geom vb w)"
  "tracked sp ns w (insert_former sp typ geom vf w)"
  "tracked sp ns w (insert_addresses sp typ geom va w)"
  unfolding tracked_def insert_buildings_def insert_former_def insert_addresses_def Let_def split_beta
  by (auto simp: note_rows_finite intro: note_rows_in intro!: insert_noted dest: insert_rows_is_row)

lemma tracked_insert_all: "tracked sp ns w (insert_all sp typ polygon centroid rows w)"
  unfolding insert_all_def by (meson tracked_inserts tracked_trans)

lemma cells_note_point: "cells_of l (note_point (tile_of_point sp) l lon lat d) = cells_of l d \<union> point_cells sp l lon lat"
  by (cases l) (auto simp: point_cells_def note_point_def Let_def new_dirty_def split: prod.splits)

lemma note_points_cells:
  "n \<in> set ns \<Longrightarrow> point_cells sp l (n_lon n) (n_lat n) \<subseteq>
     cells_of l (foldl (\<lambda>d n. note_point (tile_of_point sp) l (n_lon n) (n_lat n) d) d ns)"
  "cells_of l' d \<subseteq> cells_of l' (foldl (\<lambda>d n. note_point (tile_of_point sp) l (n_lon n) (n_lat n) d) d ns)"
  "finite (cells_of l' d) \<Longrightarrow> finite (cells_of l' (foldl (\<lambda>d n. note_point (tile_of_point sp) l (n_lon n) (n_lat n) d) d ns))"
proof -
  show mono: "cells_of l' d \<subseteq> cells_of l' (foldl (\<lambda>d n. note_point (tile_of_point sp) l (n_lon n) (n_lat n) d) d ns)" for l' d
  proof (induction ns arbitrary: d)
    case (Cons n ns)
    have "cells_of l' d \<subseteq> cells_of l' (note_point (tile_of_point sp) l (n_lon n) (n_lat n) d)"
      by (rule cells_note_point_mono)
    also note Cons.IH
    finally show ?case by simp
  qed simp
  show "finite (cells_of l' d) \<Longrightarrow> finite (cells_of l' (foldl (\<lambda>d n. note_point (tile_of_point sp) l (n_lon n) (n_lat n) d) d ns))"
    by (induction ns arbitrary: d) (simp_all add: note_point_finite)
  show "n \<in> set ns \<Longrightarrow> point_cells sp l (n_lon n) (n_lat n) \<subseteq>
     cells_of l (foldl (\<lambda>d n. note_point (tile_of_point sp) l (n_lon n) (n_lat n) d) d ns)"
  proof (induction ns arbitrary: d)
    case (Cons m ns)
    show ?case
    proof (cases "n \<in> set ns")
      case False
      then have "n = m" using Cons.prems by simp
      then have "point_cells sp l (n_lon n) (n_lat n) \<subseteq> cells_of l (note_point (tile_of_point sp) l (n_lon m) (n_lat m) d)"
        by (simp add: cells_note_point)
      also have "\<dots> \<subseteq> cells_of l (foldl (\<lambda>d n. note_point (tile_of_point sp) l (n_lon n) (n_lat n) d)
          (note_point (tile_of_point sp) l (n_lon m) (n_lat m) d) ns)"
        by (induction ns arbitrary: d m) (simp, metis (no_types, lifting) cells_note_point_mono dual_order.trans foldl_Cons)
      finally show ?thesis by simp
    qed (simp add: Cons.IH)
  qed simp
qed

lemma tracked_insert_node_addresses: "set chunk \<subseteq> ns \<Longrightarrow> tracked sp ns w (insert_node_addresses sp w chunk)"
proof -
  assume ns: "set chunk \<subseteq> ns"
  let ?d = "foldl (\<lambda>d n. note_point (tile_of_point sp) Addresses (n_lon n) (n_lat n) d) (snd w) chunk"
  have "noted sp ns Addresses ?d r" if "r \<in> set (node_rows sp chunk)" for r
    using that ns note_points_cells(1) [of _ chunk sp Addresses "snd w"]
    unfolding noted_def node_rows_def by (auto intro!: bexI)
  then show ?thesis
    unfolding tracked_def insert_node_addresses_def Let_def split_beta
    by (auto simp: diff_noted_def note_points_cells(3) intro: subsetD [OF note_points_cells(2)])
qed

lemma chunk_subset: "c \<in> set (chunks REBUILD_CHUNK xs) \<Longrightarrow> set c \<subseteq> set xs"
  using arg_cong [OF concat_chunks [of REBUILD_CHUNK xs], of set] by (auto simp: REBUILD_CHUNK_def)

lemma tracked_apply_sql: "tracked sp (set (address_nodes (nodes c))) w (apply_sql sp c p w)"
proof -
  have chunk: "tracked sp ns w (rebuild_way_chunk sp t wc w ids)" "tracked sp ns w (rebuild_relation_chunk sp t rc w rs)"
    for ns t wc ids rc rs w
    unfolding rebuild_way_chunk_def rebuild_relation_chunk_def Let_def split_beta
    by (rule tracked_trans [OF tracked_remove_served_rows tracked_insert_all])+
  have node: "tracked sp (set (address_nodes ms)) w (node_sql sp ms w)" for ms w
    unfolding node_sql_def
    by (rule tracked_trans [OF tracked_foldl [OF tracked_remove_node_rows]
      tracked_foldl [OF tracked_insert_node_addresses [OF chunk_subset]]])
  have geo: "tracked sp ns w (rebuild_way_geometries sp t wc ids w)" "tracked sp ns w (rebuild_relation_geometries sp t rc ids w)"
    for ns t wc ids rc w
    unfolding rebuild_way_geometries_def rebuild_relation_geometries_def
    by (rule tracked_foldl, rule chunk)+
  show ?thesis
    unfolding apply_sql_def Let_def
    by (rule tracked_trans [OF tracked_trans [OF tracked_trans [OF tracked_trans [OF node
      tracked_remove_served_rows] tracked_remove_served_rows] geo(1)] geo(2)])
qed

section \<open>Properties\<close>

text \<open>The rows that entered or left a table.\<close>

definition changed :: "('p, 'g) row list \<Rightarrow> ('p, 'g) row list \<Rightarrow> ('p, 'g) row set" where
  "changed rows rows' = (set rows - set rows') \<union> (set rows' - set rows)"

lemma apply_collapsed_queue:
  fixes sp :: "'g spatial"
  assumes "apply_collapsed sp c (t, db) = (t', db')"
  obtains d where "dk_queue db' = flush d (dk_queue db)" "finite (d_buildings d)" "finite (d_addresses d)"
    "diff_noted sp (set (address_nodes (nodes c))) Buildings d (osm_buildings (dk_tables db)) (osm_buildings (dk_tables db'))"
    "diff_noted sp (set (address_nodes (nodes c))) Buildings d (osm_former_buildings (dk_tables db)) (osm_former_buildings (dk_tables db'))"
    "diff_noted sp (set (address_nodes (nodes c))) Addresses d (osm_addresses (dk_tables db)) (osm_addresses (dk_tables db'))"
proof -
  define w where "w = apply_sql sp c (kv_phases c t) (dk_tables db, new_dirty)"
  have e: "dk_tables db' = fst w" "dk_queue db' = flush (snd w) (dk_queue db)"
    using assms by (auto simp: apply_collapsed_def w_def Let_def split_beta)
  have tr: "tracked sp (set (address_nodes (nodes c))) (dk_tables db, new_dirty) w" unfolding w_def by (rule tracked_apply_sql)
  have "finite (cells_of l (snd w))" for l
  proof -
    have "finite (cells_of l new_dirty)" by (cases l) (simp_all add: new_dirty_def)
    then show ?thesis using tr by (simp add: tracked_def)
  qed
  from this [of Buildings] this [of Addresses] have "finite (d_buildings (snd w))" "finite (d_addresses (snd w))"
    by simp_all
  then show thesis using that [of "snd w"] tr by (simp add: tracked_def e)
qed

text \<open>C4: no change of a served table escapes the match queue: for every building or former
  building row that an applied change set adds, removes or replaces, each cell of its
  bounding box is queued for both building sources, and for every address row each cell of
  its box, or of the buffered point of the node inserted, is queued for the address source; only
  boxes above the ceiling are left to the reconcile job, and nothing already queued is lost.\<close>

theorem changed_rows_are_queued:
  assumes "apply_collapsed sp c (t, db) = (t', db')"
  shows "(\<forall>r. (r \<in> changed (osm_buildings (dk_tables db)) (osm_buildings (dk_tables db')) \<longrightarrow>
           (\<forall>g. row_geom r = Some g \<and> plausible (geom_cells sp Buildings g) \<longrightarrow>
             (\<forall>cell \<in> box_cells (geom_cells sp Buildings g).
               (''bdot10k'', 14, cell) \<in> set (dk_queue db') \<and> (''egib'', 14, cell) \<in> set (dk_queue db'))))) \<and>
    (\<forall>r. (r \<in> changed (osm_former_buildings (dk_tables db)) (osm_former_buildings (dk_tables db')) \<longrightarrow>
           (\<forall>g. row_geom r = Some g \<and> plausible (geom_cells sp Buildings g) \<longrightarrow>
             (\<forall>cell \<in> box_cells (geom_cells sp Buildings g).
               (''bdot10k'', 14, cell) \<in> set (dk_queue db') \<and> (''egib'', 14, cell) \<in> set (dk_queue db'))))) \<and>
    (\<forall>r. (r \<in> changed (osm_addresses (dk_tables db)) (osm_addresses (dk_tables db')) \<longrightarrow>
           (\<forall>g. row_geom r = Some g \<and> plausible (geom_cells sp Addresses g) \<longrightarrow>
             (\<forall>cell \<in> box_cells (geom_cells sp Addresses g). (''prg'', 14, cell) \<in> set (dk_queue db')) \<or>
             (\<exists>n \<in> set (address_nodes (nodes c)). row_id r = n_id n \<and> g = st_point sp (n_lon n) (n_lat n) \<and>
               (\<forall>cell \<in> point_cells sp Addresses (n_lon n) (n_lat n). (''prg'', 14, cell) \<in> set (dk_queue db')))))) \<and>
    set (dk_queue db) \<subseteq> set (dk_queue db')"
proof -
  obtain d where q: "dk_queue db' = flush d (dk_queue db)" and f: "finite (d_buildings d)" "finite (d_addresses d)"
    and b: "diff_noted sp (set (address_nodes (nodes c))) Buildings d (osm_buildings (dk_tables db)) (osm_buildings (dk_tables db'))"
    and fb: "diff_noted sp (set (address_nodes (nodes c))) Buildings d (osm_former_buildings (dk_tables db)) (osm_former_buildings (dk_tables db'))"
    and a: "diff_noted sp (set (address_nodes (nodes c))) Addresses d (osm_addresses (dk_tables db)) (osm_addresses (dk_tables db'))"
    by (rule apply_collapsed_queue [OF assms])
  have s: "set (dk_queue db') = set (dk_queue db) \<union>
     (\<lambda>c. (''bdot10k'', 14, c)) ` d_buildings d \<union>
     (\<lambda>c. (''egib'', 14, c)) ` d_buildings d \<union>
     (\<lambda>c. (''prg'', 14, c)) ` d_addresses d"
    unfolding q set_flush [OF f] by (simp add: CHANGE_CELL_ZOOM_def)
  have nb: "cell \<in> d_buildings d" if "diff_noted sp (set (address_nodes (nodes c))) Buildings d rows rows'" "r \<in> changed rows rows'"
    "row_geom r = Some g" "plausible (geom_cells sp Buildings g)" "cell \<in> box_cells (geom_cells sp Buildings g)"
    for rows rows' :: "('x, 'a) row list" and r g cell
    using that by (auto simp: diff_noted_def changed_def noted_def)
  have na: "(\<forall>cell \<in> box_cells (geom_cells sp Addresses g). cell \<in> d_addresses d) \<or>
      (\<exists>n \<in> set (address_nodes (nodes c)). row_id r = n_id n \<and> g = st_point sp (n_lon n) (n_lat n) \<and>
        (\<forall>cell \<in> point_cells sp Addresses (n_lon n) (n_lat n). cell \<in> d_addresses d))"
    if "r \<in> changed (osm_addresses (dk_tables db)) (osm_addresses (dk_tables db'))"
    "row_geom r = Some g" "plausible (geom_cells sp Addresses g)" for r g
  proof -
    have "noted sp (set (address_nodes (nodes c))) Addresses d r" using a that(1) unfolding diff_noted_def changed_def by blast
    then show ?thesis using that(2,3) unfolding noted_def by (auto simp: subset_iff Ball_def)
  qed
  let ?queued = "\<lambda>src cell. (src, 14 :: nat, cell) \<in> set (dk_queue db')"
  have building: "cell \<in> d_buildings d \<Longrightarrow> ?queued ''bdot10k'' cell \<and> ?queued ''egib'' cell"
    and address: "cell \<in> d_addresses d \<Longrightarrow> ?queued ''prg'' cell" for cell
    unfolding s by simp_all
  have "set (dk_queue db) \<subseteq> set (dk_queue db')" unfolding s by blast
  moreover have "\<forall>r. (r \<in> changed (osm_buildings (dk_tables db)) (osm_buildings (dk_tables db')) \<longrightarrow>
           (\<forall>g. row_geom r = Some g \<and> plausible (geom_cells sp Buildings g) \<longrightarrow>
             (\<forall>cell \<in> box_cells (geom_cells sp Buildings g). ?queued ''bdot10k'' cell \<and> ?queued ''egib'' cell)))"
    using nb [OF b] building by blast
  moreover have "\<forall>r. (r \<in> changed (osm_former_buildings (dk_tables db)) (osm_former_buildings (dk_tables db')) \<longrightarrow>
           (\<forall>g. row_geom r = Some g \<and> plausible (geom_cells sp Buildings g) \<longrightarrow>
             (\<forall>cell \<in> box_cells (geom_cells sp Buildings g). ?queued ''bdot10k'' cell \<and> ?queued ''egib'' cell)))"
    using nb [OF fb] building by blast
  moreover have "\<forall>r. (r \<in> changed (osm_addresses (dk_tables db)) (osm_addresses (dk_tables db')) \<longrightarrow>
           (\<forall>g. row_geom r = Some g \<and> plausible (geom_cells sp Addresses g) \<longrightarrow>
             (\<forall>cell \<in> box_cells (geom_cells sp Addresses g). ?queued ''prg'' cell) \<or>
             (\<exists>n \<in> set (address_nodes (nodes c)). row_id r = n_id n \<and> g = st_point sp (n_lon n) (n_lat n) \<and>
               (\<forall>cell \<in> point_cells sp Addresses (n_lon n) (n_lat n). ?queued ''prg'' cell))))"
    using na address by meson
  ultimately show ?thesis by blast
qed

text \<open>An engine for concrete runs: every geometry lies in the cell (5, 7), every line closes.\<close>

definition one_cell_engine :: "unit spatial" where
  "one_cell_engine = \<lparr>st_npoints = (\<lambda>_. 4), st_is_closed = (\<lambda>_. True), st_make_polygon = (\<lambda>_. ()),
     st_union_agg = (\<lambda>_. ()), st_difference = (\<lambda>_ _. ()), st_centroid_line = (\<lambda>_. ()),
     st_centroid_collect = (\<lambda>_. ()), st_point = (\<lambda>_ _. ()), repaired_geom = (\<lambda>g. g),
     has_polygon = (\<lambda>_. True), geom_cells = (\<lambda>_ _. (5, 5, 7, 7)), tile_of_point = (\<lambda>_ _ _. (5, 7))\<rparr>"

lemma chunks_few: "xs \<noteq> [] \<Longrightarrow> length xs \<le> 1000 \<Longrightarrow> chunks REBUILD_CHUNK xs = [xs]"
  by (subst chunks.simps) (simp add: REBUILD_CHUNK_def)

definition node_gone :: osm_change where
  "node_gone = \<lparr>nodes = [\<lparr>n_action = Delete, n_id = 7, n_version = 2, n_lon = Fin 0, n_lat = Fin 0, n_tags = []\<rparr>],
     ways = [], relations = []\<rparr>"

definition address_row :: "(address, unit) row" where
  "address_row = \<lparr>row_id = 7, row_type = ''node'', row_data = (Some ''1'', None, None, None), row_geom = Some ()\<rparr>"

definition address_db :: "unit duck" where
  "address_db = \<lparr>dk_tables = \<lparr>osm_buildings = [], osm_former_buildings = [], osm_addresses = [address_row]\<rparr>,
     dk_queue = [], dk_meta = Map.empty\<rparr>"

lemma node_gone_run:
  "\<exists>t' db'. apply_collapsed one_cell_engine node_gone (empty_store, address_db) = (t', db') \<and>
     osm_addresses (dk_tables db') = []"
  by (simp add: apply_collapsed_def Let_def split_beta apply_sql_def node_sql_def node_gone_def address_db_def
      chunks_few remove_node_rows_def delete_rows_def is_row_def address_row_def address_nodes_def
      remove_served_rows_def rebuild_way_geometries_def rebuild_relation_geometries_def
      kv_phases_def apply_node_def do_ops_def node_change_ops_def empty_store_def sorted_ids_def cascaded_def
      List.map_filter_def)

theorem changed_rows_are_queued_witness:
  "(''prg'', 14, (5, 7)) \<in> set (dk_queue (snd (apply_collapsed one_cell_engine node_gone (empty_store, address_db))))"
proof -
  obtain t' db' where r: "apply_collapsed one_cell_engine node_gone (empty_store, address_db) = (t', db')"
    and e: "osm_addresses (dk_tables db') = []"
    using node_gone_run by blast
  have "address_row \<in> changed (osm_addresses (dk_tables address_db)) (osm_addresses (dk_tables db'))"
    by (simp add: changed_def e address_db_def)
  moreover have "row_geom address_row = Some ()" by (simp add: address_row_def)
  moreover have "plausible (geom_cells one_cell_engine Addresses ())"
    by (simp add: one_cell_engine_def plausible_def box_count_def MAX_ENQUEUE_CELLS_PER_ROW_def)
  moreover have "(5, 7) \<in> box_cells (geom_cells one_cell_engine Addresses ())"
    by (simp add: one_cell_engine_def)
  moreover have "address_nodes (nodes node_gone) = []" by (simp add: address_nodes_def node_gone_def)
  ultimately show ?thesis
    using changed_rows_are_queued [OF r] r by auto
qed

end
