(* ===== verification/Osm_Replay.thy ===== *)
theory Osm_Replay
  imports Osm_Dirty
begin

text \<open>
  What the documentation of \<open>apply_batch\<close> promises of retries, and of the reverse index.
\<close>

section \<open>A crash and a retry\<close>

text \<open>C2: a batch interrupted any number of times, each time after any of its RocksDB writes, and
  then applied, leaves exactly the store and the tables of one clean run, as long as no
  unchanged way refers to a node the batch deletes and every index entry names an object
  that has it.\<close>

theorem crash_replay_converges:
  assumes "sound t" "intact c t" "interrupted c t u"
  shows "apply_collapsed sp c (u, db) = apply_collapsed sp c (t, db)"
  by (rule replay_converges [OF assms])

text \<open>A node, a way through it and an address on the way; a diff that deletes the node only.\<close>

definition line_store :: store where
  "line_store = \<lparr>s_nodes = [1 \<mapsto> (10, 20), 2 \<mapsto> (30, 40)], s_ways = [5 \<mapsto> [1, 2]], s_rels = Map.empty,
     s_n2w = (\<lambda>n. if n = 1 \<or> n = 2 then [5] else []), s_w2r = (\<lambda>_. [])\<rparr>"

definition drop_node :: "i64 \<Rightarrow> node_change" where
  "drop_node i = \<lparr>n_action = Delete, n_id = i, n_version = 2, n_lon = Fin 0, n_lat = Fin 0, n_tags = []\<rparr>"

definition node_and_way_gone :: osm_change where
  "node_and_way_gone = \<lparr>nodes = [drop_node 1],
     ways = [\<lparr>w_action = Delete, w_id = 5, w_version = 2, w_refs = [], w_tags = []\<rparr>], relations = []\<rparr>"

definition only_node_gone :: osm_change where
  "only_node_gone = \<lparr>nodes = [drop_node 1], ways = [], relations = []\<rparr>"

definition way_row :: "(address, unit) row" where
  "way_row = \<lparr>row_id = 5, row_type = ''way'', row_data = (Some ''1'', None, None, None), row_geom = Some ()\<rparr>"

definition way_db :: "unit duck" where
  "way_db = \<lparr>dk_tables = \<lparr>osm_buildings = [], osm_former_buildings = [], osm_addresses = [way_row]\<rparr>,
     dk_queue = [], dk_meta = Map.empty\<rparr>"

definition after_first_write :: store where
  "after_first_write = line_store\<lparr>s_n2w := (s_n2w line_store)(1 := [])\<rparr>"

lemma line_store_sound: "sound line_store"
  by (auto simp: sound_def line_store_def split: if_splits)

lemma first_write:
  "interrupted only_node_gone line_store after_first_write"
  "interrupted node_and_way_gone line_store after_first_write"
proof -
  have "foldl store_op line_store (take 1 (p_ops (kv_phases only_node_gone line_store))) = after_first_write"
    by (simp add: kv_phases_def only_node_gone_def drop_node_def apply_node_def do_ops_def node_change_ops_def
        line_store_def after_first_write_def)
  then show "interrupted only_node_gone line_store after_first_write"
    using interrupted.crash [OF interrupted.fresh, of only_node_gone line_store 1] by simp
  have "foldl store_op line_store (take 1 (p_ops (kv_phases node_and_way_gone line_store))) = after_first_write"
    by (simp add: kv_phases_def node_and_way_gone_def drop_node_def apply_node_def apply_way_def do_ops_def
        node_change_ops_def way_change_ops_def drop_way_refs_def line_store_def after_first_write_def)
  then show "interrupted node_and_way_gone line_store after_first_write"
    using interrupted.crash [OF interrupted.fresh, of node_and_way_gone line_store 1] by simp
qed

theorem crash_replay_converges_witness:
  "after_first_write \<noteq> line_store \<and>
   apply_collapsed one_cell_engine node_and_way_gone (after_first_write, way_db) =
     apply_collapsed one_cell_engine node_and_way_gone (line_store, way_db)"
proof
  have "s_n2w after_first_write 1 \<noteq> s_n2w line_store 1" by (simp add: after_first_write_def line_store_def)
  then show "after_first_write \<noteq> line_store" by auto
  have "intact node_and_way_gone line_store"
    by (auto simp: intact_def node_and_way_gone_def line_store_def split: if_splits)
  then show "apply_collapsed one_cell_engine node_and_way_gone (after_first_write, way_db) =
     apply_collapsed one_cell_engine node_and_way_gone (line_store, way_db)"
    by (rule crash_replay_converges [OF line_store_sound _ first_write(2)])
qed

text \<open>Without the referential integrity the retry loses the way: the crashed attempt has already
  emptied the node's index entry, so the retry no longer finds the way to take down.\<close>

lemmas apply_eval = apply_collapsed_def Let_def split_beta apply_sql_def node_sql_def chunks_few
  remove_node_rows_def delete_rows_def is_row_def address_nodes_def remove_served_rows_def remove_chunk_def
  rebuild_way_geometries_def rebuild_relation_geometries_def rebuild_way_chunk_def way_targets_def
  stored_rebuild_tags_def row_of_def or_else_def way_rows_def wants_any_def unresolved_way_members.simps
  insert_all_def insert_buildings_def insert_former_def insert_addresses_def no_rows_def
  kv_phases_def apply_node_def do_ops_def node_change_ops_def sorted_ids_def cascaded_def List.map_filter_def
  way_changes_of_def

text \<open>The referential integrity is needed. A diff that deletes only a node of a stored way,
  run cleanly, takes the way's address row down; interrupted after its first write and
  retried, it leaves the stale row in place, because the interrupted attempt has already
  removed the way from the node's index entry.\<close>

theorem crash_replay_stale_without_integrity:
  "sound line_store \<and> interrupted only_node_gone line_store after_first_write \<and>
   osm_addresses (dk_tables (snd (apply_collapsed one_cell_engine only_node_gone (line_store, way_db)))) = [] \<and>
   osm_addresses (dk_tables (snd (apply_collapsed one_cell_engine only_node_gone (after_first_write, way_db)))) = [way_row]"
proof -
  have "osm_addresses (dk_tables (snd (apply_collapsed one_cell_engine only_node_gone (after_first_write, way_db)))) = [way_row]"
    by (simp add: apply_eval only_node_gone_def drop_node_def after_first_write_def line_store_def way_db_def way_row_def)
  moreover have "osm_addresses (dk_tables (snd (apply_collapsed one_cell_engine only_node_gone (line_store, way_db)))) = []"
    by (simp add: apply_eval only_node_gone_def drop_node_def line_store_def way_db_def way_row_def)
  ultimately show ?thesis using line_store_sound first_write(1) by simp
qed

section \<open>The reverse indexes\<close>

text \<open>The index entries an object must have, apart from the ways \<open>W\<close> and relations \<open>R\<close> whose
  change is still to come.\<close>

definition complete_but :: "i64 set \<Rightarrow> i64 set \<Rightarrow> store \<Rightarrow> bool" where
  "complete_but W R t \<longleftrightarrow>
     (\<forall>w refs. w \<notin> W \<longrightarrow> s_ways t w = Some refs \<longrightarrow> (\<forall>n\<in>set refs. w \<in> set (s_n2w t n))) \<and>
     (\<forall>r ms. r \<notin> R \<longrightarrow> s_rels t r = Some ms \<longrightarrow> (\<forall>w\<in>set (way_refs_of ms). r \<in> set (s_w2r t w)))"

text \<open>An exact reverse index: an entry for every reference of a stored way or relation, and no
  other.\<close>

definition exact_index :: "store \<Rightarrow> bool" where
  "exact_index t \<longleftrightarrow>
     (\<forall>n w. w \<in> set (s_n2w t n) \<longleftrightarrow> (\<exists>refs. s_ways t w = Some refs \<and> n \<in> set refs)) \<and>
     (\<forall>w r. r \<in> set (s_w2r t w) \<longleftrightarrow> (\<exists>ms. s_rels t r = Some ms \<and> w \<in> set (way_refs_of ms)))"

lemma exact_index_iff: "exact_index t \<longleftrightarrow> sound t \<and> complete_but {} {} t"
  unfolding exact_index_def sound_def complete_but_def by blast

lemma complete_node_step:
  assumes "complete_but W R (p_store p)"
    and "n_action n = Delete \<longrightarrow> (\<forall>w. w \<notin> W \<longrightarrow> (\<forall>refs. s_ways (p_store p) w = Some refs \<longrightarrow> n_id n \<notin> set refs))"
  shows "complete_but W R (p_store (apply_node p n))"
  using assms unfolding complete_but_def store_apply node_step_store by (auto split: if_splits)

lemma complete_nodes:
  "complete_but W R (p_store p) \<Longrightarrow>
   \<forall>n\<in>set ns. n_action n = Delete \<longrightarrow> (\<forall>w. w \<notin> W \<longrightarrow> (\<forall>refs. s_ways (p_store p) w = Some refs \<longrightarrow> n_id n \<notin> set refs)) \<Longrightarrow>
   complete_but W R (p_store (foldl apply_node p ns))"
proof (induction ns arbitrary: p)
  case (Cons n ns)
  have "complete_but W R (p_store (apply_node p n))"
    using Cons.prems by (intro complete_node_step) auto
  moreover have "s_ways (p_store (apply_node p n)) = s_ways (p_store p)"
    by (simp add: store_apply node_step_store)
  ultimately show ?case using Cons.prems(2) by (simp add: Cons.IH)
qed simp

lemma complete_ways:
  "sound (p_store p) \<Longrightarrow> complete_but W R (p_store p) \<Longrightarrow>
   complete_but (W - w_id ` set ws) R (p_store (foldl apply_way p ws))"
proof (induction ws arbitrary: p W)
  case (Cons w ws)
  have "complete_but (W - {w_id w}) R (p_store (apply_way p w))"
    using Cons.prems(2) unfolding complete_but_def store_apply way_step_store [OF Cons.prems(1)]
    by (auto simp: way_value_def way_adds_def split: if_splits)
  then have "complete_but (W - {w_id w} - w_id ` set ws) R (p_store (foldl apply_way (apply_way p w) ws))"
    using Cons.prems(1) by (intro Cons.IH) (simp_all add: sound_apply)
  moreover have "W - {w_id w} - w_id ` set ws = W - w_id ` set (w # ws)" by auto
  ultimately show ?case by simp
qed simp

lemma complete_relations:
  "sound (p_store p) \<Longrightarrow> complete_but W R (p_store p) \<Longrightarrow>
   complete_but W (R - r_id ` set rs) (p_store (foldl apply_relation p rs))"
proof (induction rs arbitrary: p R)
  case (Cons r rs)
  have "complete_but W (R - {r_id r}) (p_store (apply_relation p r))"
    using Cons.prems(2) unfolding complete_but_def store_apply relation_step_store [OF Cons.prems(1)]
    by (auto simp: relation_value_def relation_adds_def way_refs_encoded split: if_splits)
  then have "complete_but W (R - {r_id r} - r_id ` set rs) (p_store (foldl apply_relation (apply_relation p r) rs))"
    using Cons.prems(1) by (intro Cons.IH) (simp_all add: sound_apply)
  moreover have "R - {r_id r} - r_id ` set rs = R - r_id ` set (r # rs)" by auto
  ultimately show ?case by simp
qed simp

lemma exact_index_kv_phases:
  assumes "exact_index t" "intact c t"
  shows "exact_index (p_store (kv_phases c t))"
proof -
  let ?W = "w_id ` set (ways c)" and ?R = "r_id ` set (relations c)"
  have s: "sound t" and "complete_but {} {} t" using assms(1) by (simp_all add: exact_index_iff)
  then have "complete_but ?W ?R t" by (auto simp: complete_but_def)
  then have n: "complete_but ?W ?R (p_store (after_nodes c t))"
    unfolding after_nodes_def using assms(2)
    by (intro complete_nodes) (auto simp: intact_def deleted_nodes_def)
  have sn: "sound (p_store (after_nodes c t))" "sound (p_store (after_ways c t))"
    using agree_after(4,5) [OF s s agree_refl] by simp_all
  have "complete_but (?W - ?W) ?R (p_store (after_ways c t))"
    unfolding after_ways_def by (rule complete_ways [OF sn(1) n])
  then have "complete_but {} (?R - ?R) (p_store (kv_phases c t))"
    unfolding kv_phases_after by (intro complete_relations sn(2)) simp
  then show ?thesis using kv_phases_sound [OF s] by (simp add: exact_index_iff)
qed

text \<open>C14: at no moment, crashes included, does a reverse index name a way or relation that lacks
  the reference: every prefix of a batch's writes keeps that invariant. A whole batch that
  deletes no node still referenced by an unchanged way keeps the indexes exact: the entries
  are precisely the references of the stored ways and relations.\<close>

theorem reverse_indexes_kept:
  assumes "sound t"
  shows "sound (foldl store_op t (take k (p_ops (kv_phases c t)))) \<and>
    (exact_index t \<and> intact c t \<longrightarrow> exact_index (fst (apply_collapsed sp c (t, db))))"
  using crash_sound [OF assms] exact_index_kv_phases
  by (auto simp: apply_collapsed_def Let_def split_beta)

theorem reverse_indexes_kept_witness:
  "exact_index (fst (apply_collapsed one_cell_engine node_and_way_gone (line_store, way_db))) \<and>
   sound (foldl store_op line_store (take 2 (p_ops (kv_phases node_and_way_gone line_store))))"
proof -
  have "exact_index line_store" by (auto simp: exact_index_def line_store_def way_refs_of_def split: if_splits)
  moreover have "intact node_and_way_gone line_store"
    by (auto simp: intact_def node_and_way_gone_def line_store_def split: if_splits)
  ultimately show ?thesis using reverse_indexes_kept [OF line_store_sound] by blast
qed

section \<open>The rows of a way\<close>

text \<open>C15: the rows of a way after a batch, in one equation: a deleted way has none; a changed one
  has exactly the rows of its new tags, with the geometry the final store resolves and
  nothing at all when a node of it is missing; a way only touched through a moved node keeps
  the tags its rows had with its geometry rebuilt; every other way's rows are untouched.\<close>

theorem served_way_rows:
  assumes "sound t" "distinct (map w_id (ways c))"
  shows "object_rows ''way'' i (dk_tables (snd (apply_collapsed sp c (t, db)))) =
    (case way_changes_of c i of
       Some w \<Rightarrow> if w_action w = Delete then no_tables
                  else way_result sp (p_store (kv_phases c t)) i (change_rebuild_tags (w_tags w))
     | None \<Rightarrow>
         if i \<in> set (p_ways (kv_phases c t)) \<and> s_ways (p_store (kv_phases c t)) i \<noteq> None then
           (case stored_rebuild_tags (dk_tables db) ''way'' [i] i of
              None \<Rightarrow> object_rows ''way'' i (dk_tables db)
            | Some tags \<Rightarrow> way_result sp (p_store (kv_phases c t)) i tags)
         else object_rows ''way'' i (dk_tables db))"
  by (rule way_after_apply [OF assms])

theorem served_way_rows_witness:
  "object_rows ''way'' 5 (dk_tables (snd (apply_collapsed one_cell_engine node_and_way_gone (line_store, way_db)))) = no_tables"
  using served_way_rows [OF line_store_sound, of node_and_way_gone 5 one_cell_engine way_db]
  by (simp add: node_and_way_gone_def way_changes_of_def)

section \<open>Member roles\<close>

text \<open>How a stored member role is read back. A role the encoding does not know (\<open>outline\<close>, \<open>part\<close>,
  \<open>entrance\<close>) comes back as the empty one, which the update's statements take for \<open>outer\<close>.\<close>

theorem stored_roles_are_outer_or_inner:
  "outer_role (decode_member_role (encode_member_role r)) = (r \<noteq> ''inner'') \<and>
   inner_role (decode_member_role (encode_member_role r)) = (r = ''inner'') \<and>
   decode_member_role (encode_member_role ''outline'') = [] \<and> \<not> outer_role ''outline''"
  by (simp add: outer_role_def inner_role_def decode_member_role_def encode_member_role_def)

end
