(* ===== verification/Osm_Batch.thy ===== *)
theory Osm_Batch
  imports Osm_Replay
begin

text \<open>
  A batch of replication sequences: \<open>apply_batch\<close> of \<open>src/update/osm.rs\<close>, and the equivalence its
  collapse rests on: applying the sequences one by one and applying their collapse leave the
  same objects and the same reverse indexes.
\<close>

section \<open>Applying a batch\<close>

record fetched_sequence =
  f_seq :: nat
  f_changes :: osm_change

text \<open>\<open>fail = Some k\<close>: some statement of the transaction fails after \<open>k\<close> of the RocksDB writes
  were made. The transaction is rolled back; the writes stay.\<close>

definition stamp_sequence :: "nat \<Rightarrow> string \<Rightarrow> 'g duck \<Rightarrow> 'g duck" where
  "stamp_sequence last_seq timestamp db =
     db\<lparr>dk_meta := (dk_meta db)(''osm_replication_sequence'' \<mapsto> show_nat last_seq,
                               ''osm_replication_timestamp'' \<mapsto> timestamp)\<rparr>"

definition apply_batch ::
  "'g spatial \<Rightarrow> nat option \<Rightarrow> fetched_sequence list \<Rightarrow> string \<Rightarrow> store \<times> 'g duck \<Rightarrow>
     (string + unit) option \<times> (store \<times> 'g duck)" where
  "apply_batch sp fail batch timestamp w =
     (if batch = [] then (None, w) else
      let last_seq = f_seq (last batch); first_seq = f_seq (hd batch);
          changes = collapse (map f_changes batch)
      in case fail of
           Some k \<Rightarrow> (Some (Inl (''applying OSM sequences '' @ show_nat first_seq @ ''..='' @ show_nat last_seq)),
                      (foldl store_op (fst w) (take k (p_ops (kv_phases changes (fst w)))), snd w))
         | None \<Rightarrow> (case apply_collapsed sp changes w of
                     (t, db) \<Rightarrow> (Some (Inr ()), (t, stamp_sequence last_seq timestamp db))))"

section \<open>Sequences in version order\<close>

text \<open>Later changes of an object do not carry a lower version, as in the upstream diffs.\<close>

definition version_order :: "('a \<Rightarrow> int \<times> u64) \<Rightarrow> 'a list \<Rightarrow> bool" where
  "version_order key xs \<longleftrightarrow> sorted_wrt (\<lambda>a b. fst (key a) = fst (key b) \<longrightarrow> snd (key a) \<le> snd (key b)) xs"

definition in_version_order :: "osm_change list \<Rightarrow> bool" where
  "in_version_order parts \<longleftrightarrow>
     version_order node_key (concat (map nodes parts)) \<and>
     version_order way_key (concat (map ways parts)) \<and>
     version_order relation_key (concat (map relations parts))"

lemma version_order_snoc:
  "version_order key (xs @ [x]) \<longleftrightarrow> version_order key xs \<and>
     (\<forall>y\<in>set xs. fst (key y) = fst (key x) \<longrightarrow> snd (key y) \<le> snd (key x))"
  by (auto simp: version_order_def sorted_wrt_append)

text \<open>In version order the newest change of an id is its last one.\<close>

lemma newest_last:
  "version_order key xs \<Longrightarrow> newest key a xs = find (\<lambda>x. fst (key x) = a) (rev xs)"
proof (induction xs rule: rev_induct)
  case (snoc x xs)
  then have IH: "newest key a xs = find (\<lambda>x. fst (key x) = a) (rev xs)"
    by (simp add: version_order_snoc)
  show ?case
  proof (cases "fst (key x) = a")
    case True
    have "newest key a (xs @ [x]) = Some x"
      using snoc.prems True newest_key [of key a xs]
      by (auto simp: newest_append version_order_snoc newest_def [of key a "[x]"] split: option.splits)
    then show ?thesis using True by simp
  next
    case False
    then have "newest key a [x] = None" by (simp add: newest_def)
    then show ?thesis using False by (simp add: newest_append IH)
  qed
qed (simp add: newest_def)

lemma latest_version_order: "version_order key (latest_per_id key xs)"
  using latest_strict [of key xs] unfolding version_order_def
  by (rule sorted_wrt_mono_rel [rotated]) auto

text \<open>Writing a list of changes into a map: the last one of a key stays.\<close>

definition put_all :: "('a \<Rightarrow> 'k) \<Rightarrow> ('a \<Rightarrow> 'v option) \<Rightarrow> 'a list \<Rightarrow> ('k \<rightharpoonup> 'v) \<Rightarrow> ('k \<rightharpoonup> 'v)" where
  "put_all k v xs m = foldl (\<lambda>m x. m(k x := v x)) m xs"

lemma put_all_simps [simp]:
  "put_all k v [] m = m"
  "put_all k v (x # xs) m = put_all k v xs (m(k x := v x))"
  "put_all k v (xs @ ys) m = put_all k v ys (put_all k v xs m)"
  by (simp_all add: put_all_def)

lemma put_all_last:
  "put_all k v xs m i = (case find (\<lambda>x. k x = i) (rev xs) of None \<Rightarrow> m i | Some x \<Rightarrow> v x)"
  by (induction xs arbitrary: m rule: rev_induct) auto

lemma put_all_latest:
  assumes "version_order key xs" "\<And>x y. fst (key x) = fst (key y) \<longleftrightarrow> k x = k y"
  shows "put_all k v (latest_per_id key xs) m = put_all k v xs m"
proof
  fix i
  show "put_all k v (latest_per_id key xs) m i = put_all k v xs m i"
  proof (cases "\<exists>z. k z = i")
    case True
    then obtain z where "k z = i" by blast
    then have e: "(\<lambda>x. k x = i) = (\<lambda>x. fst (key x) = fst (key z))" using assms(2) by auto
    show ?thesis
      unfolding put_all_last e newest_last [OF assms(1), symmetric]
        newest_last [OF latest_version_order, symmetric] newest_of_latest by (rule refl)
  next
    case False
    then have "find (\<lambda>x. k x = i) ys = None" for ys by (simp add: find_None_iff)
    then show ?thesis by (simp add: put_all_last)
  qed
qed

section \<open>The objects a change set leaves\<close>

abbreviation after :: "osm_change \<Rightarrow> store \<Rightarrow> store" where
  "after c t \<equiv> p_store (kv_phases c t)"

lemma objects_nodes:
  "s_nodes (p_store (foldl apply_node p ns)) = put_all n_id node_value ns (s_nodes (p_store p))"
  "s_rels (p_store (foldl apply_node p ns)) = s_rels (p_store p)"
  by (induction ns arbitrary: p) (simp_all add: store_apply node_step_store)

lemma objects_ways:
  "sound (p_store p) \<Longrightarrow> s_nodes (p_store (foldl apply_way p ws)) = s_nodes (p_store p)"
  "sound (p_store p) \<Longrightarrow>
     s_ways (p_store (foldl apply_way p ws)) = put_all w_id way_value ws (s_ways (p_store p))"
  "sound (p_store p) \<Longrightarrow> s_rels (p_store (foldl apply_way p ws)) = s_rels (p_store p)"
  by (induction ws arbitrary: p) (simp_all add: sound_apply, simp_all add: store_apply way_step_store)

lemma objects_relations:
  "sound (p_store p) \<Longrightarrow> s_nodes (p_store (foldl apply_relation p rs)) = s_nodes (p_store p)"
  "sound (p_store p) \<Longrightarrow> s_rels (p_store (foldl apply_relation p rs)) =
     put_all r_id relation_value rs (s_rels (p_store p))"
  by (induction rs arbitrary: p) (simp_all add: sound_apply, simp_all add: store_apply relation_step_store)

lemma objects_after:
  assumes "sound t"
  shows "s_nodes (after c t) = put_all n_id node_value (nodes c) (s_nodes t)"
    "s_ways (after c t) = put_all w_id way_value (ways c) (s_ways t)"
    "s_rels (after c t) = put_all r_id relation_value (relations c) (s_rels t)"
proof -
  have s: "sound (p_store (after_nodes c t))" "sound (p_store (after_ways c t))"
    by (rule agree_after(4) [OF assms assms agree_refl], rule agree_after(5) [OF assms assms agree_refl])
  show "s_nodes (after c t) = put_all n_id node_value (nodes c) (s_nodes t)"
    using objects_ways(1) [OF s(1), of "ways c"] unfolding kv_phases_after objects_relations(1) [OF s(2)]
    by (simp add: after_ways_def) (simp add: after_nodes_def objects_nodes)
  have "s_ways (after c t) = s_ways (p_store (after_ways c t))"
    unfolding kv_phases_after by (rule s_ways_relations [OF s(2)])
  then show "s_ways (after c t) = put_all w_id way_value (ways c) (s_ways t)"
    using objects_ways(2) [OF s(1)] by (simp add: after_ways_def) (simp add: after_nodes_def s_ways_nodes)
  show "s_rels (after c t) = put_all r_id relation_value (relations c) (s_rels t)"
    using objects_ways(3) [OF s(1), of "ways c"] unfolding kv_phases_after objects_relations(2) [OF s(2)]
    by (simp add: after_ways_def) (simp add: after_nodes_def objects_nodes)
qed

text \<open>One by one.\<close>

definition one_by_one :: "osm_change list \<Rightarrow> store \<Rightarrow> store" where
  "one_by_one parts t = foldl (\<lambda>t c. after c t) t parts"

fun intact_each :: "osm_change list \<Rightarrow> store \<Rightarrow> bool" where
  "intact_each [] t \<longleftrightarrow> True"
| "intact_each (c # cs) t \<longleftrightarrow> intact c t \<and> intact_each cs (after c t)"

lemma one_by_one_Cons: "one_by_one (c # cs) t = one_by_one cs (after c t)"
  by (simp add: one_by_one_def)

lemma one_by_one_objects:
  assumes "sound t"
  shows "s_nodes (one_by_one parts t) =
     put_all n_id node_value (concat (map nodes parts)) (s_nodes t)"
    "s_ways (one_by_one parts t) =
     put_all w_id way_value (concat (map ways parts)) (s_ways t)"
    "s_rels (one_by_one parts t) =
     put_all r_id relation_value (concat (map relations parts)) (s_rels t)"
  using assms
proof (induction parts arbitrary: t)
  case Nil
  { case 1 show ?case by (simp add: one_by_one_def) }
  { case 2 show ?case by (simp add: one_by_one_def) }
  { case 3 show ?case by (simp add: one_by_one_def) }
next
  case (Cons c cs)
  { case 1 then show ?case by (simp add: one_by_one_Cons Cons.IH kv_phases_sound objects_after) }
  { case 2 then show ?case by (simp add: one_by_one_Cons Cons.IH kv_phases_sound objects_after) }
  { case 3 then show ?case by (simp add: one_by_one_Cons Cons.IH kv_phases_sound objects_after) }
qed

lemma one_by_one_exact:
  "exact_index t \<Longrightarrow> intact_each parts t \<Longrightarrow> exact_index (one_by_one parts t)"
proof (induction parts arbitrary: t)
  case (Cons c cs)
  note i = Cons.prems(2) [unfolded intact_each.simps]
  show ?case
    unfolding one_by_one_Cons
    by (rule Cons.IH [OF exact_index_kv_phases [OF Cons.prems(1) conjunct1 [OF i]] conjunct2 [OF i]])
qed (simp add: one_by_one_def)

lemma collapse_ids:
  "n_id ` set (nodes (collapse parts)) = n_id ` set (concat (map nodes parts))"
  "w_id ` set (ways (collapse parts)) = w_id ` set (concat (map ways parts))"
proof -
  have e: "f ` set (latest_per_id key xs) = f ` set xs" if "\<And>x. fst (key x) = sint (f x)"
    for f :: "'a \<Rightarrow> i64" and key xs
  proof -
    have "(\<lambda>x. sint (f x)) ` set (latest_per_id key xs) = (\<lambda>x. sint (f x)) ` set xs"
      using latest_ids [of key xs] by (simp only: image_image that)
    then have "sint ` (f ` set (latest_per_id key xs)) = sint ` (f ` set xs)" by (simp only: image_image)
    then show ?thesis by (simp only: inj_image_eq_iff [OF inj_signed])
  qed
  show "n_id ` set (nodes (collapse parts)) = n_id ` set (concat (map nodes parts))"
    unfolding collapse_def osm_change.simps by (rule e) (simp add: node_key_def)
  show "w_id ` set (ways (collapse parts)) = w_id ` set (concat (map ways parts))"
    unfolding collapse_def osm_change.simps by (rule e) (simp add: way_key_def)
qed

lemma collapse_in:
  "n \<in> set (nodes (collapse parts)) \<Longrightarrow> n \<in> set (concat (map nodes parts))"
  using latest_newest [of n node_key] newest_key by (fastforce simp: collapse_def)

lemma intact_collapse_gen:
  "sound t \<Longrightarrow> intact_each parts t \<Longrightarrow> n \<in> set (concat (map nodes parts)) \<Longrightarrow> n_action n = Delete \<Longrightarrow>
   w \<notin> w_id ` set (concat (map ways parts)) \<Longrightarrow> s_ways t w = Some refs \<Longrightarrow> n_id n \<notin> set refs"
proof (induction parts arbitrary: t)
  case (Cons c cs)
  show ?case
  proof (cases "n \<in> set (nodes c)")
    case True
    then have "n_id n \<in> deleted_nodes c" using Cons.prems(4) by (auto simp: deleted_nodes_def)
    moreover have "w \<notin> changed_ways c" using Cons.prems(5) by auto
    ultimately show ?thesis using Cons.prems(2,6) by (auto simp: intact_def)
  next
    case False
    have "find (\<lambda>x. w_id x = w) (rev (ways c)) = None" using Cons.prems(5) by (auto simp: find_None_iff)
    then have "s_ways (after c t) w = Some refs"
      using Cons.prems(6) by (simp add: objects_after [OF Cons.prems(1)] put_all_last)
    then show ?thesis
      using Cons.IH [OF kv_phases_sound [OF Cons.prems(1)], of c] Cons.prems False by auto
  qed
qed simp

lemma intact_collapse:
  assumes "sound t" "intact_each parts t"
  shows "intact (collapse parts) t"
  using intact_collapse_gen [OF assms] collapse_in [of _ parts]
  unfolding intact_def deleted_nodes_def collapse_ids by blast

definition same_objects :: "store \<Rightarrow> store \<Rightarrow> bool" where
  "same_objects t t' \<longleftrightarrow> s_nodes t = s_nodes t' \<and> s_ways t = s_ways t' \<and> s_rels t = s_rels t'"

lemma collapse_one_by_one:
  assumes "exact_index t" "in_version_order parts" "intact_each parts t"
  shows "same_objects (one_by_one parts t) (after (collapse parts) t)" "exact_index (after (collapse parts) t)"
proof -
  have s: "sound t" using assms(1) by (simp add: exact_index_iff)
  have inj: "sint a = sint b \<longleftrightarrow> a = b" for a b :: i64 by (rule inj_eq [OF inj_signed])
  note vo = assms(2) [unfolded in_version_order_def]
  have "s_nodes (one_by_one parts t) = s_nodes (after (collapse parts) t)"
    unfolding one_by_one_objects(1) [OF s] objects_after(1) [OF s] collapse_def osm_change.simps
    using vo by (intro put_all_latest [symmetric]) (simp_all add: node_key_def inj)
  moreover have "s_ways (one_by_one parts t) = s_ways (after (collapse parts) t)"
    unfolding one_by_one_objects(2) [OF s] objects_after(2) [OF s] collapse_def osm_change.simps
    using vo by (intro put_all_latest [symmetric]) (simp_all add: way_key_def inj)
  moreover have "s_rels (one_by_one parts t) = s_rels (after (collapse parts) t)"
    unfolding one_by_one_objects(3) [OF s] objects_after(3) [OF s] collapse_def osm_change.simps
    using vo by (intro put_all_latest [symmetric]) (simp_all add: relation_key_def inj)
  ultimately show "same_objects (one_by_one parts t) (after (collapse parts) t)" by (simp add: same_objects_def)
  show "exact_index (after (collapse parts) t)"
    by (rule exact_index_kv_phases [OF assms(1) intact_collapse [OF s assms(3)]])
qed

section \<open>Properties\<close>

text \<open>C13: one collapsed batch is the sequences applied one by one: when later changes carry later
  versions and no sequence deletes a node an unchanged way uses, both leave the same nodes,
  ways and relations, and reverse indexes with the same entries, so the batch size of a
  catch-up is invisible in the store.\<close>

theorem batch_equals_sequences:
  fixes sp :: "'g spatial" and db :: "'g duck"
  assumes "exact_index t" "in_version_order parts" "intact_each parts t"
  defines "u \<equiv> one_by_one parts t" and "v \<equiv> fst (apply_collapsed sp (collapse parts) (t, db))"
  shows "s_nodes u = s_nodes v \<and> s_ways u = s_ways v \<and> s_rels u = s_rels v \<and>
    (\<forall>n. set (s_n2w u n) = set (s_n2w v n)) \<and> (\<forall>w. set (s_w2r u w) = set (s_w2r v w))"
proof -
  have v: "v = after (collapse parts) t" by (simp add: v_def apply_collapsed_def Let_def split_beta)
  have "same_objects u v" "exact_index v"
    unfolding u_def v by (rule collapse_one_by_one [OF assms(1-3)])+
  moreover have "exact_index u" unfolding u_def by (rule one_by_one_exact [OF assms(1,3)])
  ultimately show ?thesis unfolding exact_index_def same_objects_def by (intro conjI allI set_eqI) simp_all
qed

definition one_node :: "change_action \<Rightarrow> u64 \<Rightarrow> osm_change" where
  "one_node a v = \<lparr>nodes = [\<lparr>n_action = a, n_id = 7, n_version = v, n_lon = Fin 20, n_lat = Fin 50, n_tags = []\<rparr>],
     ways = [], relations = []\<rparr>"

theorem batch_equals_sequences_witness:
  "s_nodes (fst (apply_collapsed one_cell_engine (collapse [one_node Create 1, one_node Delete 2]) (empty_store, address_db))) 7 = None"
proof -
  have "exact_index empty_store" by (simp add: exact_index_def empty_store_def)
  moreover have "in_version_order [one_node Create 1, one_node Delete 2]"
    by (simp add: in_version_order_def version_order_def one_node_def node_key_def)
  moreover have "intact_each [one_node Create 1, one_node Delete 2] empty_store"
    by (simp add: intact_def deleted_nodes_def one_node_def kv_phases_def apply_node_def do_ops_def
        node_change_ops_def empty_store_def)
  moreover have "s_nodes (one_by_one [one_node Create 1, one_node Delete 2] empty_store) 7 = None"
    by (simp add: one_by_one_def one_node_def kv_phases_def apply_node_def do_ops_def node_change_ops_def empty_store_def)
  ultimately show ?thesis
    using batch_equals_sequences [of empty_store "[one_node Create 1, one_node Delete 2]" one_cell_engine address_db]
    by simp
qed

end
