(* ===== verification/Osm_Update.thy ===== *)
theory Osm_Update
  imports Osm_Batch
begin

text \<open>
  The catch-up run of \<open>update\<close> in \<open>src/update/osm.rs\<close>: reading the stamp and the upstream head,
  cutting the pending sequences into batches, fetching a whole batch, applying it in one
  transaction and stamping it, until the head, a stop request or a failure. What is read from
  the network is a parameter, as are the moments a stop is requested and a statement fails.
\<close>

section \<open>Arithmetic of the batches\<close>

definition catch_up_chunk_size :: "nat \<Rightarrow> nat \<Rightarrow> nat \<Rightarrow> nat" where
  "catch_up_chunk_size pending batch_commit_threshold batch_size =
     (if pending > batch_commit_threshold then max batch_size 1 else 1)"

definition batch_end_for :: "nat \<Rightarrow> nat \<Rightarrow> nat \<Rightarrow> nat option" where
  "batch_end_for seq chunk_size latest_seq =
     map_option (\<lambda>s. min (s - 1) latest_seq) (add_u64 seq chunk_size)"

section \<open>What is fetched\<close>

text \<open>The replication server: each text or document, or \<open>None\<close> when the download or the
  decompression fails.\<close>

record server =
  sv_head :: "string option"
  sv_state :: "nat \<Rightarrow> string option"
  sv_diff :: "nat \<Rightarrow> xml_event list option"

datatype update_error =
    No_Stamp | Bad_Stamp string | Unreachable | Bad_State state_error | Wrong_State nat nat
  | Bad_Diff osc_error | Batch_Failed string

definition get_current_sequence :: "'g duck \<Rightarrow> update_error + nat" where
  "get_current_sequence db =
     (case dk_meta db ''osm_replication_sequence'' of
        None \<Rightarrow> Inl No_Stamp
      | Some val \<Rightarrow> (case parse_u64 val of None \<Rightarrow> Inl (Bad_Stamp val) | Some s \<Rightarrow> Inr s))"

definition read_state :: "string option \<Rightarrow> update_error + (nat \<times> string)" where
  "read_state text =
     (case text of None \<Rightarrow> Inl Unreachable
      | Some t \<Rightarrow> (case parse_state_txt t of Inl e \<Rightarrow> Inl (Bad_State e) | Inr st \<Rightarrow> Inr st))"

definition fetch_latest_sequence :: "server \<Rightarrow> update_error + (nat \<times> string)" where
  "fetch_latest_sequence sv = read_state (sv_head sv)"

definition fetch_sequence_timestamp :: "server \<Rightarrow> nat \<Rightarrow> update_error + string" where
  "fetch_sequence_timestamp sv seq =
     bindR (read_state (sv_state sv seq))
       (\<lambda>(state_seq, timestamp). if state_seq \<noteq> seq then Inl (Wrong_State seq state_seq) else Inr timestamp)"

definition fetch_and_parse_sequence :: "server \<Rightarrow> nat \<Rightarrow> update_error + fetched_sequence" where
  "fetch_and_parse_sequence sv seq =
     (case sv_diff sv seq of None \<Rightarrow> Inl Unreachable
      | Some events \<Rightarrow> (case parse_osc events of Inl e \<Rightarrow> Inl (Bad_Diff e)
          | Inr changes \<Rightarrow> Inr \<lparr>f_seq = seq, f_changes = changes\<rparr>))"

fun fetch_batch :: "server \<Rightarrow> nat list \<Rightarrow> update_error + fetched_sequence list" where
  "fetch_batch sv [] = Inr []"
| "fetch_batch sv (s # ss) =
     bindR (fetch_and_parse_sequence sv s) (\<lambda>f. bindR (fetch_batch sv ss) (\<lambda>fs. Inr (f # fs)))"

definition batch_timestamp :: "server \<Rightarrow> nat \<Rightarrow> nat \<Rightarrow> string \<Rightarrow> update_error + string" where
  "batch_timestamp sv batch_end latest_seq latest_timestamp =
     (if batch_end = latest_seq then Inr latest_timestamp else fetch_sequence_timestamp sv batch_end)"

section \<open>The run\<close>

text \<open>The settings of one run: the spatial engine, the server, the sequence before which a stop
  or cancellation is seen, and the statement failure of the batch starting at a sequence.\<close>

record 'g run_env =
  re_engine :: "'g spatial"
  re_server :: server
  re_stop :: "nat \<Rightarrow> bool"
  re_fault :: "nat \<Rightarrow> nat option"

text \<open>\<open>None\<close> as an outcome is a panic: an overflow of the \<open>u64\<close> arithmetic.\<close>

type_synonym 'g world = "store \<times> 'g duck"

function catch_up ::
  "'g run_env \<Rightarrow> nat \<Rightarrow> nat \<Rightarrow> string \<Rightarrow> nat \<Rightarrow> nat \<Rightarrow> 'g world \<Rightarrow> (update_error + nat) option \<times> 'g world" where
  "catch_up env chunk_size latest_seq latest_ts seq applied w =
     (if seq > latest_seq \<or> re_stop env seq then (Some (Inr applied), w)
      else case batch_end_for seq chunk_size latest_seq of
        None \<Rightarrow> (None, w)
      | Some batch_end \<Rightarrow>
          (case fetch_batch (re_server env) [seq..<Suc batch_end] of
             Inl e \<Rightarrow> (Some (Inl e), w)
           | Inr batch \<Rightarrow>
               (case batch_timestamp (re_server env) batch_end latest_seq latest_ts of
                  Inl e \<Rightarrow> (Some (Inl e), w)
                | Inr ts \<Rightarrow>
                    (case apply_batch (re_engine env) (re_fault env seq) batch ts w of
                       (None, w') \<Rightarrow> (None, w')
                     | (Some (Inl msg), w') \<Rightarrow> (Some (Inl (Batch_Failed msg)), w')
                     | (Some (Inr _), w') \<Rightarrow>
                         (case add_u64 batch_end 1 of None \<Rightarrow> (None, w')
                          | Some next \<Rightarrow>
                              catch_up env chunk_size latest_seq latest_ts next
                                (applied + length batch) w')))))"
  by pat_completeness auto
termination
proof (relation "measure (\<lambda>(env, cs, latest, ts, seq, ap, w). Suc latest - seq)", goal_cases)
  case (2 env cs latest ts seq ap w batch_end batch ts' r w' u v nx)
  have "seq \<le> batch_end"
  proof (rule ccontr)
    assume "\<not> seq \<le> batch_end"
    then have "batch = []" using 2 by simp
    then show False using 2 by (simp add: apply_batch_def)
  qed
  then show ?case using 2 by (auto simp: add_u64_def split: if_splits)
qed simp

declare catch_up.simps [simp del]

text \<open>The job log keeps one row per job: outcome and message.\<close>

type_synonym job_log = "string \<rightharpoonup> string \<times> string option"

definition record_job :: "string \<Rightarrow> string \<Rightarrow> string option \<Rightarrow> job_log \<Rightarrow> job_log" where
  "record_job job_name outcome message jobs = jobs(job_name \<mapsto> (outcome, message))"

definition OSM_UPDATE_JOB_LOG_KEY :: string where
  "OSM_UPDATE_JOB_LOG_KEY = ''update:osm''"

definition success_message :: "nat \<Rightarrow> nat \<Rightarrow> nat \<Rightarrow> nat \<Rightarrow> string" where
  "success_message applied pending current_seq latest_seq =
     (if applied < pending then
        ''applied '' @ show_nat applied @ '' of '' @ show_nat pending @
        '' pending sequences (stopped early), now at sequence '' @ show_nat (current_seq + applied)
      else ''applied '' @ show_nat applied @ '' sequences, now at sequence '' @ show_nat latest_seq)"

text \<open>\<open>err\<close> prints an error, as \<open>{e:#}\<close> does.\<close>

definition update ::
  "(update_error \<Rightarrow> string) \<Rightarrow> 'g run_env \<Rightarrow> nat \<Rightarrow> nat \<Rightarrow> 'g world \<times> job_log \<Rightarrow>
     (update_error + unit) option \<times> ('g world \<times> job_log)" where
  "update err env batch_commit_threshold batch_size wl =
     (let (w, jobs) = wl in
      case get_current_sequence (snd w) of Inl e \<Rightarrow> (Some (Inl e), (w, jobs))
      | Inr current_seq \<Rightarrow>
          (case fetch_latest_sequence (re_server env) of Inl e \<Rightarrow> (Some (Inl e), (w, jobs))
           | Inr (latest_seq, latest_ts) \<Rightarrow>
               if current_seq \<ge> latest_seq then
                 (Some (Inr ()), (w, record_job OSM_UPDATE_JOB_LOG_KEY ''Success''
                    (Some (''already up to date at sequence '' @ show_nat current_seq)) jobs))
               else
                 let pending = latest_seq - current_seq;
                     chunk_size = catch_up_chunk_size pending batch_commit_threshold batch_size
                 in case batch_end_for (current_seq + 1) chunk_size latest_seq of
                      None \<Rightarrow> (None, (w, jobs))
                    | Some _ \<Rightarrow>
                        (case catch_up env chunk_size latest_seq latest_ts (current_seq + 1) 0 w of
                           (None, w') \<Rightarrow> (None, (w', jobs))
                         | (Some (Inr applied), w') \<Rightarrow>
                             (Some (Inr ()), (w', record_job OSM_UPDATE_JOB_LOG_KEY ''Success''
                                (Some (success_message applied pending current_seq latest_seq)) jobs))
                         | (Some (Inl e), w') \<Rightarrow>
                             (Some (Inl e), (w', record_job OSM_UPDATE_JOB_LOG_KEY ''Error'' (Some (err e)) jobs)))))"

section \<open>Committed batches\<close>

text \<open>\<open>committed env cs latest ts seq w s u\<close>: starting before sequence \<open>seq\<close> in world \<open>w\<close>, whole
  batches up to but not including \<open>s\<close> were applied and stamped, leaving \<open>u\<close>.\<close>

inductive committed ::
  "'g run_env \<Rightarrow> nat \<Rightarrow> nat \<Rightarrow> string \<Rightarrow> nat \<Rightarrow> 'g world \<Rightarrow> nat \<Rightarrow> 'g world \<Rightarrow> bool"
  for env chunk_size latest_seq latest_ts seq w where
  none: "committed env chunk_size latest_seq latest_ts seq w seq w"
| batch: "committed env chunk_size latest_seq latest_ts seq w s u \<Longrightarrow> s \<le> latest_seq \<Longrightarrow> \<not> re_stop env s \<Longrightarrow>
    batch_end_for s chunk_size latest_seq = Some e \<Longrightarrow>
    fetch_batch (re_server env) [s..<Suc e] = Inr fs \<Longrightarrow>
    batch_timestamp (re_server env) e latest_seq latest_ts = Inr ts \<Longrightarrow>
    apply_batch (re_engine env) (re_fault env s) fs ts u = (Some (Inr ()), u') \<Longrightarrow>
    committed env chunk_size latest_seq latest_ts seq w (Suc e) u'"

inductive_cases committed_last: "committed env cs latest ts seq w s u"

lemma committed_front:
  assumes "committed env cs latest lts (Suc e) u' s v"
    and "seq \<le> latest" "\<not> re_stop env seq" "batch_end_for seq cs latest = Some e"
    "fetch_batch (re_server env) [seq..<Suc e] = Inr fs"
    "batch_timestamp (re_server env) e latest lts = Inr ts"
    "apply_batch (re_engine env) (re_fault env seq) fs ts w = (Some (Inr ()), u')"
  shows "committed env cs latest lts seq w s v"
  using assms(1)
proof (induction rule: committed.induct)
  case none
  show ?case using committed.batch [OF committed.none assms(2-7)] .
next
  case (batch s u e' fs' ts' u'')
  show ?case by (rule committed.batch [OF batch.IH batch.hyps(2-7)])
qed

lemma fetch_batch_seqs: "fetch_batch sv ss = Inr fs \<Longrightarrow> map f_seq fs = ss"
  by (induction ss arbitrary: fs)
    (auto simp: bindR_Inr_iff fetch_and_parse_sequence_def split: option.splits sum.splits)

lemma fetched_range: "fetch_batch sv [a..<b] = Inr fs \<Longrightarrow> length fs = b - a"
  using fetch_batch_seqs [of sv "[a..<b]" fs] length_map [of f_seq fs] by (metis length_upt)

lemma fetched_nonempty:
  assumes "fetch_batch sv [a..<Suc e] = Inr fs" "fs \<noteq> []"
  shows "a \<le> e" "length fs = Suc e - a" "f_seq (last fs) = e"
proof -
  have "0 < length fs" using assms(2) by simp
  then show a: "a \<le> e" and "length fs = Suc e - a" using fetched_range [OF assms(1)] by linarith+
  have "map f_seq fs = [a..<e] @ [e]" using fetch_batch_seqs [OF assms(1)] a by simp
  then have "last (map f_seq fs) = e" by simp
  then show "f_seq (last fs) = e" using last_map [OF assms(2), of f_seq] by simp
qed

text \<open>What a failure can leave behind: the tables and the stamp as they were, and some of the
  store's writes of the batch at \<open>s\<close>.\<close>

definition left_by_failure ::
  "'g run_env \<Rightarrow> nat \<Rightarrow> nat \<Rightarrow> nat \<Rightarrow> 'g world \<Rightarrow> 'g world \<Rightarrow> bool" where
  "left_by_failure env chunk_size latest_seq s u w' \<longleftrightarrow> w' = u \<or>
     (snd w' = snd u \<and> (\<exists>e fs k. batch_end_for s chunk_size latest_seq = Some e \<and>
        fetch_batch (re_server env) [s..<Suc e] = Inr fs \<and>
        fst w' = foldl store_op (fst u) (take k (p_ops (kv_phases (collapse (map f_changes fs)) (fst u))))))"

lemma apply_batch_cases:
  assumes "apply_batch sp fail fs ts u = (r, u')"
  obtains "r = None" "fs = []" "u' = u"
  | msg k where "r = Some (Inl msg)" "fail = Some k" "snd u' = snd u"
      "fst u' = foldl store_op (fst u) (take k (p_ops (kv_phases (collapse (map f_changes fs)) (fst u))))"
  | "r = Some (Inr ())" "fs \<noteq> []" "fail = None"
  using assms by (cases fail) (auto simp: apply_batch_def Let_def split: if_splits prod.splits)

lemma catch_up_step:
  assumes "catch_up env cs latest lts seq applied w = (r, w')" "\<not> (seq > latest \<or> re_stop env seq)"
  obtains (stop) "\<And>n. r \<noteq> Some (Inr n)" "left_by_failure env cs latest seq w w'"
  | (step) e fs ts u' nx where "batch_end_for seq cs latest = Some e"
      "fetch_batch (re_server env) [seq..<Suc e] = Inr fs"
      "batch_timestamp (re_server env) e latest lts = Inr ts"
      "apply_batch (re_engine env) (re_fault env seq) fs ts w = (Some (Inr ()), u')"
      "add_u64 e 1 = Some nx" "catch_up env cs latest lts nx (applied + length fs) u' = (r, w')"
  | (overflow) e fs ts where "batch_end_for seq cs latest = Some e"
      "fetch_batch (re_server env) [seq..<Suc e] = Inr fs"
      "batch_timestamp (re_server env) e latest lts = Inr ts"
      "apply_batch (re_engine env) (re_fault env seq) fs ts w = (Some (Inr ()), w')"
      "r = None" "seq \<le> e"
proof -
  note run = assms(1) [unfolded catch_up.simps [of env cs latest lts seq applied w]]
  have here: "left_by_failure env cs latest seq w w" by (simp add: left_by_failure_def)
  show thesis
  proof (cases "batch_end_for seq cs latest")
    case None
    then show thesis using run assms(2) here by (auto intro: stop)
  next
    case e: (Some e)
    show thesis
    proof (cases "fetch_batch (re_server env) [seq..<Suc e]")
      case (Inl x)
      then show thesis using run assms(2) e here by (auto intro: stop simp del: upt_Suc)
    next
      case fs: (Inr fs)
      show thesis
      proof (cases "batch_timestamp (re_server env) e latest lts")
        case (Inl x)
        then show thesis using run assms(2) e fs here by (auto intro: stop simp del: upt_Suc)
      next
        case ts: (Inr ts)
        obtain r' u' where ab: "apply_batch (re_engine env) (re_fault env seq) fs ts w = (r', u')" by (rule prod.exhaust)
        show thesis
        proof (rule apply_batch_cases [OF ab])
          assume "r' = None" "fs = []" "u' = w"
          then show thesis using run assms(2) e fs ts ab here by (auto intro: stop simp del: upt_Suc)
        next
          fix msg k
          assume f: "r' = Some (Inl msg)" "snd u' = snd w"
            "fst u' = foldl store_op (fst w) (take k (p_ops (kv_phases (collapse (map f_changes fs)) (fst w))))"
          then have "left_by_failure env cs latest seq w u'"
            unfolding left_by_failure_def using e fs by blast
          then show thesis using run assms(2) e fs ts ab f(1) by (auto intro: stop simp del: upt_Suc)
        next
          assume ok: "r' = Some (Inr ())" "fs \<noteq> []" "re_fault env seq = None"
          then have "seq \<le> e" using fetched_nonempty [OF fs] by blast
          show thesis
          proof (cases "add_u64 e 1")
            case None
            then show thesis using run assms(2) e fs ts ab overflow [OF e fs ts] ok \<open>seq \<le> e\<close> by (simp del: upt_Suc)
          next
            case (Some nx)
            then show thesis using run assms(2) e fs ts ab step [OF e fs ts] ok by (simp del: upt_Suc)
          qed
        qed
      qed
    qed
  qed
qed

lemma catch_up_commits:
  "catch_up env cs latest lts seq applied w = (r, w') \<Longrightarrow>
   \<exists>s u. committed env cs latest lts seq w s u \<and> left_by_failure env cs latest s u w' \<and> seq \<le> s \<and>
     (\<forall>n. r = Some (Inr n) \<longrightarrow> w' = u \<and> n = applied + (s - seq) \<and> (s > latest \<or> re_stop env s))"
proof (induction env cs latest lts seq applied w arbitrary: r w' rule: catch_up.induct)
  case (1 env cs latest lts seq applied w)
  note here = committed.none [of env cs latest lts seq w]
  show ?case
  proof (cases "seq > latest \<or> re_stop env seq")
    case True
    then have "r = Some (Inr applied)" "w' = w"
      using "1.prems" by (subst (asm) catch_up.simps, simp)+
    then show ?thesis using True here by (intro exI [of _ seq] exI [of _ w]) (auto simp: left_by_failure_def)
  next
    case go: False
    from "1.prems" go show ?thesis
    proof (cases rule: catch_up_step)
      case stop
      then show ?thesis using here by (intro exI [of _ seq] exI [of _ w]) auto
    next
      case (overflow e fs ts)
      have "committed env cs latest lts seq w (Suc e) w'"
        using committed.batch [OF here _ _ overflow(1-4)] go by simp
      then show ?thesis using overflow(5,6) by (intro exI [of _ "Suc e"] exI [of _ w']) (auto simp: left_by_failure_def)
    next
      case (step e fs ts u' nx)
      have "fs \<noteq> []" by (rule apply_batch_cases [OF step(4)]) auto
      then have len: "length fs = Suc e - seq" "seq \<le> e" using fetched_nonempty [OF step(2)] by blast+
      have nx: "nx = Suc e" using step(5) by (auto simp: add_u64_def split: if_splits)
      obtain s u where su: "committed env cs latest lts nx u' s u" "left_by_failure env cs latest s u w'" "nx \<le> s"
        "\<forall>n. r = Some (Inr n) \<longrightarrow> w' = u \<and> n = applied + length fs + (s - nx) \<and> (s > latest \<or> re_stop env s)"
        using "1.IH" [OF go step(1-3) step(4) [symmetric] refl refl step(5,6)] by blast
      have "committed env cs latest lts seq w s u"
        using committed_front [OF su(1) [unfolded nx] _ _ step(1-4)] go by simp
      then show ?thesis using su(2-4) len nx by (intro exI [of _ s] exI [of _ u]) auto
    qed
  qed
qed

section \<open>The plan of a run\<close>

lemma committed_stamp:
  "committed env cs latest lts seq w s u \<Longrightarrow>
   (s = seq \<and> u = w) \<or> (seq < s \<and> dk_meta (snd u) ''osm_replication_sequence'' = Some (show_nat (s - 1)))"
proof (induction rule: committed.induct)
  case (batch s u e fs ts u')
  have "fs \<noteq> []" by (rule apply_batch_cases [OF batch.hyps(7)]) auto
  then have "s \<le> e" "f_seq (last fs) = e" using fetched_nonempty [OF batch.hyps(5)] by blast+
  moreover have "dk_meta (snd u') ''osm_replication_sequence'' = Some (show_nat (f_seq (last fs)))"
    using batch.hyps(7) \<open>fs \<noteq> []\<close>
    by (auto simp: apply_batch_def Let_def stamp_sequence_def split: option.splits prod.splits)
  ultimately show ?case using batch.IH by auto
qed simp

lemma committed_bounds:
  "committed env cs latest lts seq w s u \<Longrightarrow> seq \<le> s \<and> (s \<le> Suc latest \<or> s = seq)"
proof (induction rule: committed.induct)
  case (batch s u e fs ts u')
  have "fs \<noteq> []" by (rule apply_batch_cases [OF batch.hyps(7)]) auto
  then have "s \<le> e" using fetched_nonempty [OF batch.hyps(5)] by blast
  moreover have "e \<le> latest" using batch.hyps(4) by (auto simp: batch_end_for_def)
  ultimately show ?case using batch.IH by auto
qed simp

text \<open>The stamp read back.\<close>

lemma current_after:
  assumes "committed env cs latest lts (Suc c) w s u" "get_current_sequence (snd w) = Inr c" "latest < 2 ^ 64" "c < 2 ^ 64"
  shows "get_current_sequence (snd u) = Inr (s - 1)"
proof -
  have "s - 1 < 2 ^ 64" using committed_bounds [OF assms(1)] assms(3,4) by auto
  then have "parse_u64 (show_nat (s - 1)) = Some (s - 1)"
    using parse_show_u64 [of "of_nat (s - 1) :: u64"] by (simp add: unsigned_of_nat take_bit_nat_eq_self)
  then show ?thesis
    using committed_stamp [OF assms(1)] assms(2) by (auto simp: get_current_sequence_def)
qed

section \<open>What the committed batches leave in the store\<close>

definition server_diffs :: "server \<Rightarrow> nat list \<Rightarrow> osm_change list" where
  "server_diffs sv ss = map (\<lambda>s. case fetch_and_parse_sequence sv s of Inr f \<Rightarrow> f_changes f | Inl _ \<Rightarrow> empty_change) ss"

lemma fetched_diffs: "fetch_batch sv ss = Inr fs \<Longrightarrow> map f_changes fs = server_diffs sv ss"
  by (induction ss arbitrary: fs) (auto simp: server_diffs_def bindR_Inr_iff)

lemma same_objects_trans: "same_objects t u \<Longrightarrow> same_objects u v \<Longrightarrow> same_objects t v"
  by (simp add: same_objects_def)

lemma one_by_one_same: "sound t \<Longrightarrow> sound t' \<Longrightarrow> same_objects t t' \<Longrightarrow> same_objects (one_by_one cs t) (one_by_one cs t')"
  by (simp add: same_objects_def one_by_one_objects)

lemma one_by_one_append: "one_by_one (xs @ ys) t = one_by_one ys (one_by_one xs t)"
  by (simp add: one_by_one_def)

lemma intact_each_append: "intact_each (xs @ ys) t \<longleftrightarrow> intact_each xs t \<and> intact_each ys (one_by_one xs t)"
  by (induction xs arbitrary: t) (simp_all add: one_by_one_Cons, simp add: one_by_one_def)

lemma intact_each_same:
  "sound t \<Longrightarrow> sound t' \<Longrightarrow> s_ways t = s_ways t' \<Longrightarrow> intact_each cs t \<longleftrightarrow> intact_each cs t'"
proof (induction cs arbitrary: t t')
  case (Cons c cs)
  have "s_ways (after c t) = s_ways (after c t')"
    using Cons.prems by (simp add: objects_after)
  then have "intact_each cs (after c t) \<longleftrightarrow> intact_each cs (after c t')"
    using Cons.prems by (intro Cons.IH kv_phases_sound) auto
  then show ?case using Cons.prems(3) by (simp add: intact_def)
qed simp

lemma in_version_order_append:
  "in_version_order (xs @ ys) \<Longrightarrow> in_version_order xs \<and> in_version_order ys"
  by (auto simp: in_version_order_def version_order_def sorted_wrt_append)

lemma apply_batch_store:
  "apply_batch sp fail fs ts u = (Some (Inr ()), u') \<Longrightarrow> fst u' = after (collapse (map f_changes fs)) (fst u)"
  by (auto simp: apply_batch_def apply_collapsed_def Let_def split_beta split: option.splits if_splits)

lemma committed_store:
  "committed env cs latest lts seq w s u \<Longrightarrow> exact_index (fst w) \<Longrightarrow>
   intact_each (server_diffs (re_server env) [seq..<s]) (fst w) \<Longrightarrow>
   in_version_order (server_diffs (re_server env) [seq..<s]) \<Longrightarrow>
   same_objects (fst u) (one_by_one (server_diffs (re_server env) [seq..<s]) (fst w)) \<and> exact_index (fst u)"
proof (induction rule: committed.induct)
  case none
  then show ?case by (simp add: same_objects_def server_diffs_def one_by_one_def)
next
  case (batch s u e fs ts u')
  let ?d = "server_diffs (re_server env)"
  have "fs \<noteq> []" by (rule apply_batch_cases [OF batch.hyps(7)]) auto
  then have "s \<le> e" using fetched_nonempty [OF batch.hyps(5)] by blast
  then have "[seq..<Suc e] = [seq..<s] @ [s..<Suc e]"
    using committed_bounds [OF batch.hyps(1)] upt_add_eq_append [of seq s "Suc e - s"] by simp
  then have split: "?d [seq..<Suc e] = ?d [seq..<s] @ ?d [s..<Suc e]" by (simp only: server_diffs_def map_append)
  note pre = batch.prems [unfolded split intact_each_append]
  have IH: "same_objects (fst u) (one_by_one (?d [seq..<s]) (fst w))" "exact_index (fst u)"
    using batch.IH pre in_version_order_append by blast+
  let ?v = "one_by_one (?d [seq..<s]) (fst w)"
  have v: "exact_index ?v" using one_by_one_exact pre by blast
  have sound: "sound (fst u)" "sound ?v" using IH(2) v by (simp_all add: exact_index_iff)
  have i: "intact_each (?d [s..<Suc e]) (fst u)"
    using pre(2) intact_each_same [OF sound] IH(1) by (simp add: same_objects_def)
  have u': "fst u' = after (collapse (?d [s..<Suc e])) (fst u)"
    using apply_batch_store [OF batch.hyps(7)] fetched_diffs [OF batch.hyps(5)] by simp
  note batch_eq = collapse_one_by_one [OF IH(2) _ i]
  have "same_objects (fst u') (one_by_one (?d [s..<Suc e]) (fst u))"
    using batch_eq(1) in_version_order_append [OF pre(3)] by (simp add: u' same_objects_def)
  moreover have "same_objects (one_by_one (?d [s..<Suc e]) (fst u)) (one_by_one (?d [s..<Suc e]) ?v)"
    by (rule one_by_one_same [OF sound IH(1)])
  moreover have "exact_index (fst u')"
    unfolding u' using batch_eq(2) in_version_order_append [OF pre(3)] by blast
  ultimately show ?case unfolding split one_by_one_append using same_objects_trans by blast
qed

lemma same_index:
  assumes "exact_index t" "exact_index t'" "same_objects t t'"
  shows "set (s_n2w t n) = set (s_n2w t' n)" "set (s_w2r t w) = set (s_w2r t' w)"
  using assms unfolding exact_index_def same_objects_def by (simp_all add: set_eq_iff)

section \<open>Retrying a failed batch\<close>

lemma apply_batch_retry:
  assumes "sound (fst u)" "intact (collapse (map f_changes fs)) (fst u)" "snd w' = snd u"
    "fst w' = foldl store_op (fst u) (take k (p_ops (kv_phases (collapse (map f_changes fs)) (fst u))))"
  shows "apply_batch sp None fs ts w' = (if fs = [] then (None, w') else apply_batch sp None fs ts u)"
proof -
  have "interrupted (collapse (map f_changes fs)) (fst u) (fst w')"
    unfolding assms(4) by (rule interrupted.crash [OF interrupted.fresh])
  then have "apply_collapsed sp (collapse (map f_changes fs)) (fst w', snd w') =
      apply_collapsed sp (collapse (map f_changes fs)) (fst u, snd u)"
    unfolding assms(3) by (rule replay_converges [OF assms(1,2)])
  then show ?thesis by (simp add: apply_batch_def Let_def)
qed

section \<open>A run without trouble\<close>

definition serves :: "server \<Rightarrow> nat \<Rightarrow> nat \<Rightarrow> bool" where
  "serves sv first latest \<longleftrightarrow>
     (\<forall>s\<in>{first..latest}. \<exists>f. fetch_and_parse_sequence sv s = Inr f) \<and>
     (\<forall>s\<in>{first..<latest}. \<exists>ts. fetch_sequence_timestamp sv s = Inr ts)"

lemma fetch_batch_total:
  "(\<forall>s\<in>set ss. \<exists>f. fetch_and_parse_sequence sv s = Inr f) \<Longrightarrow> \<exists>fs. fetch_batch sv ss = Inr fs"
  by (induction ss) (auto simp: bindR_Inr_iff)

lemma catch_up_total:
  "serves (re_server env) seq latest \<Longrightarrow> (\<And>s. \<not> re_stop env s) \<Longrightarrow> (\<And>s. re_fault env s = None) \<Longrightarrow>
   0 < cs \<Longrightarrow> latest + cs < 2 ^ 64 \<Longrightarrow> seq \<le> Suc latest \<Longrightarrow>
   \<exists>w'. catch_up env cs latest lts seq applied w = (Some (Inr (applied + (Suc latest - seq))), w')"
proof (induction env cs latest lts seq applied w rule: catch_up.induct)
  case (1 env cs latest lts seq applied w)
  show ?case
  proof (cases "seq > latest")
    case True
    then show ?thesis using "1.prems"(6) by (subst catch_up.simps) simp
  next
    case False
    then have go: "\<not> (seq > latest \<or> re_stop env seq)" using "1.prems"(2) by simp
    define e where "e = min (seq + cs - 1) latest"
    have e: "batch_end_for seq cs latest = Some e" "seq \<le> e" "e \<le> latest"
      using False "1.prems"(4,5) by (auto simp: batch_end_for_def add_u64_def e_def)
    obtain fs where fs: "fetch_batch (re_server env) [seq..<Suc e] = Inr fs"
      using fetch_batch_total [of "[seq..<Suc e]" "re_server env"] "1.prems"(1) e(3)
      by (auto simp: serves_def simp del: upt_Suc)
    then have ne: "fs \<noteq> []" "length fs = Suc e - seq" using fetched_range [OF fs] e(2) by auto
    obtain ts where ts: "batch_timestamp (re_server env) e latest lts = Inr ts"
    proof (cases "e = latest")
      case False
      then have "e \<in> {seq..<latest}" using e(2,3) by simp
      then obtain ts where "fetch_sequence_timestamp (re_server env) e = Inr ts"
        using "1.prems"(1) unfolding serves_def by blast
      then show thesis using False by (intro that) (simp add: batch_timestamp_def)
    qed (simp add: batch_timestamp_def that)
    obtain u' where ab: "apply_batch (re_engine env) (re_fault env seq) fs ts w = (Some (Inr ()), u')"
      using ne(1) "1.prems"(3)
      by (cases "apply_collapsed (re_engine env) (collapse (map f_changes fs)) w") (simp add: apply_batch_def Let_def)
    have nx: "add_u64 e 1 = Some (Suc e)" using e(3) "1.prems"(4,5) by (simp add: add_u64_def)
    have "serves (re_server env) (Suc e) latest" using "1.prems"(1) e(2) by (auto simp: serves_def)
    then obtain w' where "catch_up env cs latest lts (Suc e) (applied + length fs) u' =
        (Some (Inr (applied + length fs + (Suc latest - Suc e))), w')"
      using "1.IH" [OF go e(1) fs ts ab [symmetric] refl refl nx] "1.prems"(2-5) e(3) by auto
    then have "catch_up env cs latest lts seq applied w = (Some (Inr (applied + (Suc latest - seq))), w')"
      using go e fs ts ab nx ne(2) by (subst catch_up.simps) (simp del: upt_Suc)
    then show ?thesis by blast
  qed
qed

lemma update_success:
  assumes "get_current_sequence (snd w) = Inr c" "fetch_latest_sequence (re_server env) = Inr (latest, lts)"
    and "c < latest" "latest < 2 ^ 64" "update err env threshold batch_size (w, jobs) = (Some (Inr ()), (w', jobs'))"
  shows "\<exists>s cs. committed env cs latest lts (c + 1) w s w' \<and> get_current_sequence (snd w') = Inr (s - 1) \<and> c < s \<and>
    (s = latest + 1 \<or> re_stop env s)"
proof -
  let ?cs = "catch_up_chunk_size (latest - c) threshold batch_size"
  obtain q v where q: "catch_up env ?cs latest lts (c + 1) 0 w = (q, v)" by (rule prod.exhaust)
  then obtain n where n: "q = Some (Inr n)" "w' = v"
    using assms(1-3,5) by (auto simp: update_def Let_def split: option.splits sum.splits)
  obtain s where s: "committed env ?cs latest lts (c + 1) w s v" "s > latest \<or> re_stop env s"
    using catch_up_commits [OF q] n(1) by blast
  then show ?thesis
    using current_after [of env ?cs latest lts c w s v] committed_bounds [OF s(1)] s assms(1,3,4) n(2)
    by (intro exI [of _ s] exI [of _ ?cs]) auto
qed

section \<open>Properties\<close>

text \<open>C3: whatever happens during a run of \<open>update\<close> (a download or parse failure, a failing
  statement, a stop request, the head reached), what it leaves is a number of whole batches
  applied in order from the stamped sequence on, with the stamp naming the last sequence of
  the last of them, so the next run resumes exactly after it; on success nothing else has
  changed, and after a failure at most some writes of the next batch's own collapse were made
  to the store, never to a table or the stamp.\<close>

theorem update_commits_whole_batches:
  assumes "get_current_sequence (snd w) = Inr c" "fetch_latest_sequence (re_server env) = Inr (latest, lts)"
    and "c < latest" "latest < 2 ^ 64"
    and "update err env threshold batch_size (w, jobs) = (r, (w', jobs'))"
  shows "\<exists>s u. committed env (catch_up_chunk_size (latest - c) threshold batch_size) latest lts (c + 1) w s u \<and>
    get_current_sequence (snd w') = Inr (s - 1) \<and>
    left_by_failure env (catch_up_chunk_size (latest - c) threshold batch_size) latest s u w' \<and>
    (r = Some (Inr ()) \<longrightarrow> w' = u \<and> (s = latest + 1 \<or> re_stop env s))"
proof -
  let ?cs = "catch_up_chunk_size (latest - c) threshold batch_size"
  note run = assms(5) [unfolded update_def]
  show ?thesis
  proof (cases "batch_end_for (c + 1) ?cs latest")
    case None
    then have "r = None" "w' = w" using run assms(1-3) by simp_all
    then show ?thesis
      using assms(1) committed.none [of env ?cs latest lts "c + 1" w]
      by (intro exI [of _ "c + 1"] exI [of _ w]) (simp add: left_by_failure_def)
  next
    case (Some e)
    obtain q v where q: "catch_up env ?cs latest lts (c + 1) 0 w = (q, v)" by (rule prod.exhaust)
    then have v: "w' = v" "r = Some (Inr ()) \<Longrightarrow> \<exists>n. q = Some (Inr n)"
      using run assms(1-3) Some by (auto simp: Let_def split: option.splits sum.splits)
    obtain s u where su: "committed env ?cs latest lts (c + 1) w s u" "left_by_failure env ?cs latest s u v"
      "\<forall>n. q = Some (Inr n) \<longrightarrow> v = u \<and> (s > latest \<or> re_stop env s)"
      using catch_up_commits [OF q] by blast
    have "snd v = snd u" using su(2) by (auto simp: left_by_failure_def)
    moreover have "get_current_sequence (snd u) = Inr (s - 1)"
      using current_after [of env ?cs latest lts c w s u] su(1) assms(1,3,4) by simp
    ultimately show ?thesis
      using su v committed_bounds [OF su(1)] assms(3) by (intro exI [of _ s] exI [of _ u]) auto
  qed
qed

text \<open>C16: a run reaches the head. When the stamp and the server's head can be read, something is pending, the
  server serves every pending diff and state file, no stop is requested and no statement fails,
  \<open>update\<close> returns success with the stamp at the head and the job log saying that all pending sequences
  were applied: the loop ends, for any threshold and any batch size, zero included, up to the one bound
  that the head plus the batch size fits in 64 bits; beyond it the addition that ends a batch overflows.\<close>

theorem update_reaches_head:
  assumes "get_current_sequence (snd w) = Inr c" "fetch_latest_sequence (re_server env) = Inr (latest, lts)"
    and "c < latest" "latest + max batch_size 1 < 2 ^ 64"
    and "serves (re_server env) (c + 1) latest" "\<And>s. \<not> re_stop env s" "\<And>s. re_fault env s = None"
  shows "\<exists>w'. update err env threshold batch_size (w, jobs) = (Some (Inr ()), (w', jobs(OSM_UPDATE_JOB_LOG_KEY \<mapsto>
      (''Success'', Some (''applied '' @ show_nat (latest - c) @ '' sequences, now at sequence '' @ show_nat latest))))) \<and>
    get_current_sequence (snd w') = Inr latest"
proof -
  let ?cs = "catch_up_chunk_size (latest - c) threshold batch_size"
  have cs: "0 < ?cs" "latest + ?cs < 2 ^ 64" using assms(4) by (auto simp: catch_up_chunk_size_def)
  have "c + 1 \<le> Suc latest" using assms(3) by simp
  from catch_up_total [OF assms(5-7) cs this, of lts 0 w]
  obtain w' where run: "catch_up env ?cs latest lts (c + 1) 0 w = (Some (Inr (latest - c)), w')" by auto
  obtain e where e: "batch_end_for (c + 1) ?cs latest = Some e"
    using cs assms(3) by (auto simp: batch_end_for_def add_u64_def)
  obtain s u where su: "committed env ?cs latest lts (c + 1) w s u" "w' = u" "s > latest"
    using catch_up_commits [OF run] assms(6) by blast
  then have "s = Suc latest" using committed_bounds [OF su(1)] assms(3) by auto
  then have "get_current_sequence (snd w') = Inr latest"
    using current_after [of env ?cs latest lts c w s u] su assms(1,3,4) by simp
  then show ?thesis
    using assms(1-3) e run by (auto simp: update_def Let_def record_job_def success_message_def)
qed

text \<open>C37: the way a catch-up was cut into batches is invisible in the store. Two successful runs of \<open>update\<close>
  from the same stamped world against the same server, with any two thresholds and batch sizes, and with
  whatever stop requests, that end stamped at the same sequence hold the same nodes, ways and relations, those
  of the diffs applied one by one, and the same reverse-index entries. Required: a start where the reverse
  index is exact, which every batch keeps; diffs that carry an object's versions in order; and diffs
  that delete no node a stored way still uses.\<close>

theorem batch_size_invisible:
  assumes "get_current_sequence (snd w) = Inr c" "fetch_latest_sequence (re_server env) = Inr (latest, lts)"
    and "c < latest" "latest < 2 ^ 64" "re_server env' = re_server env"
    and "update err env threshold batch_size (w, jobs) = (Some (Inr ()), (u, jobs_u))"
    and "update err env' threshold' batch_size' (w, jobs) = (Some (Inr ()), (v, jobs_v))"
    and "get_current_sequence (snd u) = Inr d" "get_current_sequence (snd v) = Inr d"
    and "exact_index (fst w)" "intact_each (server_diffs (re_server env) [c + 1..<d + 1]) (fst w)"
    and "in_version_order (server_diffs (re_server env) [c + 1..<d + 1])"
  shows "same_objects (fst u) (one_by_one (server_diffs (re_server env) [c + 1..<d + 1]) (fst w)) \<and> same_objects (fst u) (fst v) \<and>
    (\<forall>n. set (s_n2w (fst u) n) = set (s_n2w (fst v) n)) \<and> (\<forall>i. set (s_w2r (fst u) i) = set (s_w2r (fst v) i))"
proof -
  obtain s cs where u: "committed env cs latest lts (c + 1) w s u" "s = d + 1"
    using update_success [OF assms(1-4,6)] assms(8) by fastforce
  obtain s' cs' where v: "committed env' cs' latest lts (c + 1) w s' v" "s' = d + 1"
    using update_success [OF assms(1) _ assms(3,4,7)] assms(2,5,9) by fastforce
  have "same_objects (fst u) (one_by_one (server_diffs (re_server env) [c + 1..<d + 1]) (fst w))" "exact_index (fst u)"
    using committed_store [OF u(1) assms(10)] assms(11,12) u(2) by simp_all
  moreover have "same_objects (fst v) (one_by_one (server_diffs (re_server env) [c + 1..<d + 1]) (fst w))" "exact_index (fst v)"
    using committed_store [OF v(1) assms(10)] assms(5,11,12) v(2) by simp_all
  moreover from calculation have "same_objects (fst u) (fst v)" by (simp add: same_objects_def)
  ultimately show ?thesis using same_index by blast
qed

text \<open>A batch that failed after any number of its writes and is applied again gives exactly
  the tables, the stamp and the store of a batch that never failed.\<close>

theorem failed_batch_then_retry:
  assumes "sound t" "intact (collapse (map f_changes fs)) t" "fs \<noteq> []"
    and "apply_batch sp (Some k) fs ts (t, db) = (r, w')"
  shows "(\<exists>msg. r = Some (Inl msg)) \<and> snd w' = db \<and> apply_batch sp None fs ts' w' = apply_batch sp None fs ts' (t, db)"
  using assms(3,4) apply_batch_retry [of "(t, db)" fs w' k sp ts'] assms(1,2)
  by (auto simp: apply_batch_def [of sp "Some k"] Let_def)

section \<open>A concrete run\<close>

text \<open>Stamped at 7, head at 9, empty diffs; nothing stops it, nothing fails.\<close>

definition state_text :: "nat \<Rightarrow> string" where
  "state_text s = concat (map (\<lambda>l. l @ [CHR 0x0A])
     [''#'' @ ''x'', ''sequenceNumber='' @ show_nat s, ''timestamp='' @ escape_colons ''T''])"

definition quiet_server :: server where
  "quiet_server = \<lparr>sv_head = Some (state_text 9), sv_state = (\<lambda>s. Some (state_text s)), sv_diff = (\<lambda>_. Some [])\<rparr>"

definition quiet_env :: "unit run_env" where
  "quiet_env = \<lparr>re_engine = one_cell_engine, re_server = quiet_server, re_stop = (\<lambda>_. False), re_fault = (\<lambda>_. None)\<rparr>"

definition stamped_world :: "unit world" where
  "stamped_world = (empty_store, address_db\<lparr>dk_meta := [''osm_replication_sequence'' \<mapsto> ''7'']\<rparr>)"

lemma quiet_state: "parse_state_txt (state_text 8) = Inr (8, ''T'')" "parse_state_txt (state_text 9) = Inr (9, ''T'')"
proof -
  have "list_all (\<lambda>c. \<not> is_ws c) ''T''" "list_all (\<lambda>c. \<not> is_ws c) ''x''" by code_simp+
  then show "parse_state_txt (state_text 8) = Inr (8, ''T'')" "parse_state_txt (state_text 9) = Inr (9, ''T'')"
    unfolding state_text_def by (intro state_text_parse; simp)+
qed

lemma quiet_stamp: "get_current_sequence (snd stamped_world) = Inr 7"
proof -
  have "show_nat 7 = ''7''" by code_simp
  then have "parse_u64 ''7'' = Some 7" using parse_u64_show [of 7] by simp
  then show ?thesis by (simp add: get_current_sequence_def stamped_world_def)
qed

lemma quiet_head: "fetch_latest_sequence (re_server quiet_env) = Inr (9, ''T'')"
  by (simp add: fetch_latest_sequence_def read_state_def quiet_env_def quiet_server_def quiet_state)

lemma quiet_diff: "fetch_and_parse_sequence (re_server quiet_env) s = Inr \<lparr>f_seq = s, f_changes = empty_change\<rparr>"
  by (simp add: fetch_and_parse_sequence_def quiet_env_def quiet_server_def parse_osc_def init_osc_def)

lemma quiet_serves: "serves (re_server quiet_env) 8 9"
proof -
  have "fetch_sequence_timestamp (re_server quiet_env) 8 = Inr ''T''"
    by (simp add: fetch_sequence_timestamp_def read_state_def quiet_env_def quiet_server_def quiet_state)
  moreover have "{8..<9} = {8 :: nat}" by auto
  ultimately show ?thesis by (auto simp: serves_def quiet_diff)
qed

lemma quiet_free: "\<not> re_stop quiet_env s" "re_fault quiet_env s = None"
  by (simp_all add: quiet_env_def)

theorem update_reaches_head_witness:
  "\<exists>w'. update (\<lambda>_. []) quiet_env 20 20 (stamped_world, Map.empty) =
     (Some (Inr ()), (w', [OSM_UPDATE_JOB_LOG_KEY \<mapsto> (''Success'', Some ''applied 2 sequences, now at sequence 9'')])) \<and>
   get_current_sequence (snd w') = Inr 9"
proof -
  have "show_nat 2 = ''2''" "show_nat 9 = ''9''" by code_simp+
  then show ?thesis
    using update_reaches_head [OF quiet_stamp quiet_head, of 20 "\<lambda>_. []" 20 Map.empty] quiet_serves quiet_free by simp
qed

lemma quiet_committed: "0 < cs \<Longrightarrow> cs < 100 \<Longrightarrow> \<exists>u. committed quiet_env cs 9 ''T'' 8 stamped_world 10 u"
proof -
  assume cs: "0 < cs" "cs < 100"
  obtain w' where "catch_up quiet_env cs 9 ''T'' 8 0 stamped_world = (Some (Inr 2), w')"
    using catch_up_total [OF quiet_serves quiet_free, of cs "''T''" 0 stamped_world] cs by auto
  from catch_up_commits [OF this] obtain s u where "committed quiet_env cs 9 ''T'' 8 stamped_world s u" "s > 9"
    using quiet_free by blast
  moreover from this have "s = 10" using committed_bounds by fastforce
  ultimately show ?thesis by blast
qed

theorem update_commits_whole_batches_witness:
  "\<exists>r w' jobs s u. update (\<lambda>_. []) quiet_env 1 2 (stamped_world, Map.empty) = (r, (w', jobs)) \<and>
     committed quiet_env 2 9 ''T'' 8 stamped_world s u \<and> get_current_sequence (snd w') = Inr (s - 1)"
proof -
  obtain r w' jobs where run: "update (\<lambda>_. []) quiet_env 1 2 (stamped_world, Map.empty) = (r, (w', jobs))"
    by (metis prod.exhaust)
  have "catch_up_chunk_size (9 - 7) 1 2 = 2" by (simp add: catch_up_chunk_size_def)
  then show ?thesis
    using update_commits_whole_batches [OF quiet_stamp quiet_head _ _ run] run by auto
qed

text \<open>A server whose diffs create a node and move it.\<close>

definition node_at :: "change_action \<Rightarrow> u64 \<Rightarrow> f64 \<Rightarrow> node_change" where
  "node_at a version p = \<lparr>n_action = a, n_id = 1, n_version = version, n_lon = p, n_lat = p, n_tags = []\<rparr>"

definition digit_shown :: "f64 \<Rightarrow> string" where
  "digit_shown p = (if p = Fin 1 then ''1'' else ''2'')"

definition moving_server :: server where
  "moving_server = quiet_server\<lparr>sv_diff := (\<lambda>s. Some (document_events digit_shown
     (if s = 8 then [(Create, [Node_Elem (node_at Create 1 (Fin 1))])] else [(Modify, [Node_Elem (node_at Modify 2 (Fin 2))])])))\<rparr>"

definition moving_env :: "unit run_env" where
  "moving_env = quiet_env\<lparr>re_server := moving_server\<rparr>"

lemma moving_diff:
  "fetch_and_parse_sequence (re_server moving_env) s = Inr \<lparr>f_seq = s, f_changes =
     \<lparr>nodes = [if s = 8 then node_at Create 1 (Fin 1) else node_at Modify 2 (Fin 2)], ways = [], relations = []\<rparr>\<rparr>"
proof -
  have "parse_number ''1'' = Some 1" "parse_number ''2'' = Some 2" by code_simp+
  moreover have "round53 1 = 1" "round53 2 = 2" using round53_int [of 1] round53_int [of 2] by simp_all
  ultimately have p: "parse_f64 ''1'' = Some (Fin 1)" "parse_f64 ''2'' = Some (Fin 2)"
    by (simp_all add: parse_f64_def split_sign_def eq_ignore_case_def f64_of_rat_def)
  have "parse_osc (document_events digit_shown [(Create, [Node_Elem (node_at Create 1 (Fin 1))])]) =
      Inr \<lparr>nodes = [node_at Create 1 (Fin 1)], ways = [], relations = []\<rparr>"
    using p by (subst document_parse) (simp_all add: node_at_def digit_shown_def push_node_def empty_change_def)
  moreover have "parse_osc (document_events digit_shown [(Modify, [Node_Elem (node_at Modify 2 (Fin 2))])]) =
      Inr \<lparr>nodes = [node_at Modify 2 (Fin 2)], ways = [], relations = []\<rparr>"
    using p by (subst document_parse) (simp_all add: node_at_def digit_shown_def push_node_def empty_change_def)
  ultimately show ?thesis by (simp add: fetch_and_parse_sequence_def moving_env_def moving_server_def)
qed

lemma moving_head: "fetch_latest_sequence (re_server moving_env) = Inr (9, ''T'')"
  using quiet_head by (simp add: fetch_latest_sequence_def moving_env_def moving_server_def quiet_env_def)

lemma moving_serves: "serves (re_server moving_env) 8 9"
proof -
  have "fetch_sequence_timestamp (re_server moving_env) s = fetch_sequence_timestamp (re_server quiet_env) s" for s
    by (simp add: fetch_sequence_timestamp_def moving_env_def moving_server_def quiet_env_def)
  then show ?thesis using quiet_serves moving_diff by (simp add: serves_def)
qed

lemma moving_run:
  assumes "0 < bs" "bs < 100"
  shows "\<exists>u jobs. update (\<lambda>_. []) moving_env 0 bs (stamped_world, Map.empty) = (Some (Inr ()), (u, jobs)) \<and>
    get_current_sequence (snd u) = Inr 9"
proof -
  have free: "\<not> re_stop moving_env s" "re_fault moving_env s = None" for s
    by (simp_all add: moving_env_def quiet_free)
  let ?cs = "catch_up_chunk_size (9 - 7) 0 bs"
  have cs: "?cs = bs" using assms by (simp add: catch_up_chunk_size_def)
  obtain u where "catch_up moving_env ?cs 9 ''T'' 8 0 stamped_world = (Some (Inr 2), u)"
    using catch_up_total [OF moving_serves free, of ?cs "''T''" 0 stamped_world] assms cs by auto
  moreover obtain e where "batch_end_for 8 ?cs 9 = Some e" using assms cs by (auto simp: batch_end_for_def add_u64_def)
  ultimately obtain jobs where run: "update (\<lambda>_. []) moving_env 0 bs (stamped_world, Map.empty) = (Some (Inr ()), (u, jobs))"
    using quiet_stamp moving_head by (auto simp: update_def Let_def)
  then show ?thesis using update_success [OF quiet_stamp moving_head _ _ run] free by auto
qed

theorem batch_size_invisible_witness:
  "\<exists>u v ju jv. update (\<lambda>_. []) moving_env 0 1 (stamped_world, Map.empty) = (Some (Inr ()), (u, ju)) \<and>
     update (\<lambda>_. []) moving_env 0 2 (stamped_world, Map.empty) = (Some (Inr ()), (v, jv)) \<and>
     same_objects (fst u) (fst v) \<and> s_nodes (fst u) 1 = node_value (node_at Modify 2 (Fin 2))"
proof -
  let ?c = "\<lambda>n. \<lparr>nodes = [n], ways = [], relations = []\<rparr>" and ?a = "node_at Create 1 (Fin 1)" and ?b = "node_at Modify 2 (Fin 2)"
  obtain u v ju jv where
    u: "update (\<lambda>_. []) moving_env 0 1 (stamped_world, Map.empty) = (Some (Inr ()), (u, ju))" "get_current_sequence (snd u) = Inr 9" and
    v: "update (\<lambda>_. []) moving_env 0 2 (stamped_world, Map.empty) = (Some (Inr ()), (v, jv))" "get_current_sequence (snd v) = Inr 9"
    using moving_run [of 1] moving_run [of 2] by auto
  have d: "server_diffs (re_server moving_env) [7 + 1..<9 + 1] = [?c ?a, ?c ?b]"
    by (simp add: server_diffs_def moving_diff upt_rec)
  have e: "exact_index (fst stamped_world)" by (simp add: exact_index_def stamped_world_def empty_store_def)
  then have t: "sound (fst stamped_world)" by (simp add: stamped_world_def sound_def empty_store_def)
  have i: "intact_each [?c ?a, ?c ?b] (fst stamped_world)"
    by (simp add: intact_def deleted_nodes_def node_at_def)
  have o: "in_version_order [?c ?a, ?c ?b]"
    by (simp add: in_version_order_def version_order_def node_key_def node_at_def)
  have same: "same_objects (fst u) (one_by_one [?c ?a, ?c ?b] (fst stamped_world))" "same_objects (fst u) (fst v)"
    using batch_size_invisible [OF quiet_stamp moving_head _ _ refl u(1) v(1) u(2) v(2) e, unfolded d, OF _ _ i o] by simp_all
  have "n_id ?a = 1" "n_id ?b = 1" by (simp_all add: node_at_def)
  then have "s_nodes (one_by_one [?c ?a, ?c ?b] (fst stamped_world)) 1 = node_value ?b"
    using one_by_one_objects(1) [OF t, of "[?c ?a, ?c ?b]"] by simp
  then have "s_nodes (fst u) 1 = node_value ?b" using same(1) by (simp add: same_objects_def)
  then show ?thesis using u(1) v(1) same(2) by blast
qed

theorem failed_batch_then_retry_witness:
  "apply_batch one_cell_engine None [\<lparr>f_seq = 8, f_changes = node_and_way_gone\<rparr>] ''T'' (after_first_write, way_db) =
   apply_batch one_cell_engine None [\<lparr>f_seq = 8, f_changes = node_and_way_gone\<rparr>] ''T'' (line_store, way_db)"
proof -
  let ?fs = "[\<lparr>f_seq = 8, f_changes = node_and_way_gone\<rparr>]"
  have c: "collapse [node_and_way_gone] = node_and_way_gone"
    by (simp add: collapse_def node_and_way_gone_def latest_per_id_def Let_def enumerate_eq_zip nth_opt_def)
  have "foldl store_op line_store (take 1 (p_ops (kv_phases node_and_way_gone line_store))) = after_first_write"
    by (simp add: kv_phases_def node_and_way_gone_def drop_node_def apply_node_def apply_way_def do_ops_def
        node_change_ops_def way_change_ops_def drop_way_refs_def line_store_def after_first_write_def)
  then have f: "apply_batch one_cell_engine (Some 1) ?fs ''T'' (line_store, way_db) =
      (Some (Inl (''applying OSM sequences '' @ show_nat 8 @ ''..='' @ show_nat 8)), (after_first_write, way_db))"
    by (simp add: apply_batch_def c)
  have "intact node_and_way_gone line_store"
    by (auto simp: intact_def node_and_way_gone_def line_store_def split: if_splits)
  then have "intact (collapse (map f_changes ?fs)) line_store" by (simp add: c)
  then show ?thesis using failed_batch_then_retry [OF line_store_sound _ _ f] by simp
qed

end
