(* ===== verification/Osm_Prefetch.thy ===== *)
theory Osm_Prefetch
  imports Main
begin

text \<open>
  The prefetch thread of \<open>src/update/osm.rs\<close> beside the apply loop: the shared frontier, the
  in-flight slot, the stop flag and the download directory, as a step relation that
  interleaves the two threads at every atomic access. Sequence numbers are natural numbers;
  a download either lands or fails.
\<close>

section \<open>States\<close>

text \<open>Where the prefetch thread is: at the loop head, about to load the frontier, holding the
  loaded value, about to claim, checking the directory, downloading, landed (with the
  outcome), waiting for the stop flag, removing what is left, done.\<close>

datatype ppc = P_Top | P_Load | P_Read nat | P_Claim | P_Exists | P_Net | P_Landed bool
  | P_Drain | P_Clean "nat list" | P_Done

text \<open>Where the apply loop is: at the loop head, then for a sequence of a claimed batch waiting
  for the slot, checking the directory, downloading, holding the file; applying; stopping;
  joining the thread; joined.\<close>

datatype apc = A_Top nat | A_Wait nat nat | A_Check nat nat | A_Net nat nat | A_Have nat nat
  | A_Apply nat | A_Stopping | A_Joining | A_Joined

record prefetch =
  frontier :: nat
  slot :: "nat option"
  stop_flag :: bool
  files :: "nat set"
  p_pc :: ppc
  p_next :: nat
  p_got :: "nat list"
  a_pc :: apc
  a_past :: nat
  net :: "nat list"

text \<open>\<open>a_past\<close> is the last sequence the apply loop stopped waiting for, \<open>net\<close> the downloads that
  landed, in order; both are history.\<close>

definition batch_end :: "nat \<Rightarrow> nat \<Rightarrow> nat \<Rightarrow> nat" where
  "batch_end s cs latest = min (s + cs - 1) latest"

definition start_prefetch :: "nat \<Rightarrow> nat \<Rightarrow> nat \<Rightarrow> nat set \<Rightarrow> prefetch" where
  "start_prefetch c cs latest fs =
     \<lparr>frontier = batch_end (c + 1) cs latest, slot = None, stop_flag = False, files = fs,
      p_pc = P_Top, p_next = c + 1, p_got = [], a_pc = A_Top (c + 1), a_past = c, net = []\<rparr>"

section \<open>The prefetch thread\<close>

inductive pstep :: "nat \<Rightarrow> nat \<Rightarrow> prefetch \<Rightarrow> prefetch \<Rightarrow> bool" for ahead latest where
  p_end: "p_pc s = P_Top \<Longrightarrow> p_next s > latest \<Longrightarrow> pstep ahead latest s (s\<lparr>p_pc := P_Drain\<rparr>)"
| p_stop: "p_pc s = P_Top \<Longrightarrow> p_next s \<le> latest \<Longrightarrow> stop_flag s \<Longrightarrow> pstep ahead latest s (s\<lparr>p_pc := P_Drain\<rparr>)"
| p_go: "p_pc s = P_Top \<Longrightarrow> p_next s \<le> latest \<Longrightarrow> \<not> stop_flag s \<Longrightarrow> pstep ahead latest s (s\<lparr>p_pc := P_Load\<rparr>)"
| p_load: "p_pc s = P_Load \<Longrightarrow> pstep ahead latest s (s\<lparr>p_pc := P_Read (frontier s)\<rparr>)"
| p_skip: "p_pc s = P_Read f \<Longrightarrow> p_next s \<le> f \<Longrightarrow>
    pstep ahead latest s (s\<lparr>p_pc := P_Top, p_next := f + 1\<rparr>)"
| p_full: "p_pc s = P_Read f \<Longrightarrow> p_next s > f + ahead \<Longrightarrow> pstep ahead latest s (s\<lparr>p_pc := P_Top\<rparr>)"
| p_room: "p_pc s = P_Read f \<Longrightarrow> f < p_next s \<Longrightarrow> p_next s \<le> f + ahead \<Longrightarrow>
    pstep ahead latest s (s\<lparr>p_pc := P_Claim\<rparr>)"
| p_refused: "p_pc s = P_Claim \<Longrightarrow> p_next s \<le> frontier s \<Longrightarrow> pstep ahead latest s (s\<lparr>p_pc := P_Top\<rparr>)"
| p_claim: "p_pc s = P_Claim \<Longrightarrow> p_next s > frontier s \<Longrightarrow>
    pstep ahead latest s (s\<lparr>p_pc := P_Exists, slot := Some (p_next s)\<rparr>)"
| p_hit: "p_pc s = P_Exists \<Longrightarrow> p_next s \<in> files s \<Longrightarrow> pstep ahead latest s (s\<lparr>p_pc := P_Landed True\<rparr>)"
| p_miss: "p_pc s = P_Exists \<Longrightarrow> p_next s \<notin> files s \<Longrightarrow> pstep ahead latest s (s\<lparr>p_pc := P_Net\<rparr>)"
| p_landed: "p_pc s = P_Net \<Longrightarrow>
    pstep ahead latest s (s\<lparr>p_pc := P_Landed True, files := insert (p_next s) (files s), net := net s @ [p_next s]\<rparr>)"
| p_failed: "p_pc s = P_Net \<Longrightarrow> pstep ahead latest s (s\<lparr>p_pc := P_Landed False\<rparr>)"
| p_drop: "p_pc s = P_Landed ok \<Longrightarrow>
    pstep ahead latest s (s\<lparr>p_pc := P_Top, slot := None, p_next := p_next s + 1,
      p_got := (if ok then p_got s @ [p_next s] else p_got s)\<rparr>)"
| p_drain: "p_pc s = P_Drain \<Longrightarrow> stop_flag s \<Longrightarrow> pstep ahead latest s (s\<lparr>p_pc := P_Clean (p_got s)\<rparr>)"
| p_remove: "p_pc s = P_Clean (n # ns) \<Longrightarrow>
    pstep ahead latest s (s\<lparr>p_pc := P_Clean ns, files := files s - {n}\<rparr>)"
| p_done: "p_pc s = P_Clean [] \<Longrightarrow> pstep ahead latest s (s\<lparr>p_pc := P_Done\<rparr>)"

section \<open>The apply loop\<close>

text \<open>The claim stores the frontier before anything of the batch is fetched; the wait returns when
  the slot holds another sequence; the decompressed file is removed whatever comes next.\<close>

inductive astep :: "nat \<Rightarrow> nat \<Rightarrow> prefetch \<Rightarrow> prefetch \<Rightarrow> bool" for cs latest where
  a_claim: "a_pc s = A_Top n \<Longrightarrow> n \<le> latest \<Longrightarrow>
    astep cs latest s (s\<lparr>a_pc := A_Wait n (batch_end n cs latest), frontier := batch_end n cs latest\<rparr>)"
| a_end: "a_pc s = A_Top n \<Longrightarrow> astep cs latest s (s\<lparr>a_pc := A_Stopping\<rparr>)"
| a_wait: "a_pc s = A_Wait n e \<Longrightarrow> slot s \<noteq> Some n \<Longrightarrow>
    astep cs latest s (s\<lparr>a_pc := A_Check n e, a_past := n\<rparr>)"
| a_hit: "a_pc s = A_Check n e \<Longrightarrow> n \<in> files s \<Longrightarrow> astep cs latest s (s\<lparr>a_pc := A_Have n e\<rparr>)"
| a_miss: "a_pc s = A_Check n e \<Longrightarrow> n \<notin> files s \<Longrightarrow> astep cs latest s (s\<lparr>a_pc := A_Net n e\<rparr>)"
| a_landed: "a_pc s = A_Net n e \<Longrightarrow>
    astep cs latest s (s\<lparr>a_pc := A_Have n e, files := insert n (files s), net := net s @ [n]\<rparr>)"
| a_failed: "a_pc s = A_Net n e \<Longrightarrow> astep cs latest s (s\<lparr>a_pc := A_Stopping\<rparr>)"
| a_consume: "a_pc s = A_Have n e \<Longrightarrow>
    astep cs latest s (s\<lparr>a_pc := (if n < e then A_Wait (n + 1) e else A_Apply e), files := files s - {n}\<rparr>)"
| a_bad: "a_pc s = A_Have n e \<Longrightarrow> astep cs latest s (s\<lparr>a_pc := A_Stopping, files := files s - {n}\<rparr>)"
| a_applied: "a_pc s = A_Apply e \<Longrightarrow> astep cs latest s (s\<lparr>a_pc := A_Top (e + 1)\<rparr>)"
| a_error: "a_pc s = A_Apply e \<Longrightarrow> astep cs latest s (s\<lparr>a_pc := A_Stopping\<rparr>)"
| a_stop: "a_pc s = A_Stopping \<Longrightarrow> astep cs latest s (s\<lparr>a_pc := A_Joining, stop_flag := True\<rparr>)"
| a_join: "a_pc s = A_Joining \<Longrightarrow> p_pc s = P_Done \<Longrightarrow> astep cs latest s (s\<lparr>a_pc := A_Joined\<rparr>)"

inductive pf_reachable :: "nat \<Rightarrow> nat \<Rightarrow> nat \<Rightarrow> nat \<Rightarrow> nat set \<Rightarrow> prefetch \<Rightarrow> bool" for c cs ahead latest fs where
  start: "pf_reachable c cs ahead latest fs (start_prefetch c cs latest fs)"
| prefetcher: "pf_reachable c cs ahead latest fs s \<Longrightarrow> pstep ahead latest s s' \<Longrightarrow> pf_reachable c cs ahead latest fs s'"
| applier: "pf_reachable c cs ahead latest fs s \<Longrightarrow> astep cs latest s s' \<Longrightarrow> pf_reachable c cs ahead latest fs s'"

inductive_cases pstepE: "pstep ahead latest s s'"
inductive_cases astepE: "astep cs latest s s'"

section \<open>The invariant\<close>

definition holding :: "ppc \<Rightarrow> bool" where
  "holding pc \<longleftrightarrow> pc = P_Exists \<or> pc = P_Net \<or> (\<exists>ok. pc = P_Landed ok)"

definition cleaning :: "ppc \<Rightarrow> bool" where
  "cleaning pc \<longleftrightarrow> pc = P_Done \<or> (\<exists>ns. pc = P_Clean ns)"

text \<open>What the apply loop's position says about the sequence it waited for last.\<close>

fun a_ok :: "nat \<Rightarrow> nat \<Rightarrow> prefetch \<Rightarrow> apc \<Rightarrow> bool" where
  "a_ok cs latest s (A_Top n) \<longleftrightarrow> n = Suc (a_past s) \<and> (frontier s = a_past s \<or> frontier s = batch_end n cs latest)"
| "a_ok cs latest s (A_Wait n e) \<longleftrightarrow> n = Suc (a_past s) \<and> n \<le> e \<and> e = frontier s"
| "a_ok cs latest s (A_Check n e) \<longleftrightarrow> a_past s = n \<and> n \<le> e \<and> e = frontier s \<and> 0 < n"
| "a_ok cs latest s (A_Net n e) \<longleftrightarrow> a_past s = n \<and> n \<le> e \<and> e = frontier s \<and> n \<notin> set (net s) \<and> 0 < n"
| "a_ok cs latest s (A_Have n e) \<longleftrightarrow> a_past s = n \<and> n \<le> e \<and> e = frontier s"
| "a_ok cs latest s (A_Apply e) \<longleftrightarrow> a_past s = e \<and> e = frontier s"
| "a_ok cs latest s _ \<longleftrightarrow> True"

fun p_ok :: "nat \<Rightarrow> prefetch \<Rightarrow> ppc \<Rightarrow> bool" where
  "p_ok ahead s (P_Read f) \<longleftrightarrow> f \<le> frontier s"
| "p_ok ahead s P_Claim \<longleftrightarrow> p_next s \<le> frontier s + ahead"
| "p_ok ahead s P_Exists \<longleftrightarrow> p_next s \<le> frontier s + ahead"
| "p_ok ahead s P_Net \<longleftrightarrow> p_next s \<le> frontier s + ahead"
| "p_ok ahead s (P_Landed b) \<longleftrightarrow> p_next s \<le> frontier s + ahead"
| "p_ok ahead s _ \<longleftrightarrow> True"

text \<open>Everything up to here has been consumed.\<close>

fun a_done :: "prefetch \<Rightarrow> apc \<Rightarrow> nat" where
  "a_done s (A_Check n e) = n - 1"
| "a_done s (A_Net n e) = n - 1"
| "a_done s _ = a_past s"

definition shared_inv :: "nat \<Rightarrow> nat \<Rightarrow> nat \<Rightarrow> prefetch \<Rightarrow> bool" where
  "shared_inv cs ahead latest s \<longleftrightarrow>
     slot s = (if holding (p_pc s) then Some (p_next s) else None) \<and>
     (holding (p_pc s) \<longrightarrow> a_past s < p_next s) \<and>
     a_past s \<le> frontier s \<and>
     a_ok cs latest s (a_pc s) \<and> p_ok ahead s (p_pc s) \<and>
     (\<forall>n\<in>set (p_got s). n \<le> frontier s + ahead) \<and>
     (cleaning (p_pc s) \<longrightarrow> stop_flag s) \<and>
     (stop_flag s \<longleftrightarrow> a_pc s = A_Joining \<or> a_pc s = A_Joined) \<and>
     (a_pc s = A_Joined \<longrightarrow> p_pc s = P_Done)"

definition net_inv :: "prefetch \<Rightarrow> bool" where
  "net_inv s \<longleftrightarrow> distinct (net s) \<and>
     (\<not> cleaning (p_pc s) \<longrightarrow> (\<forall>n\<in>set (net s). n \<le> a_done s (a_pc s) \<or>
        (n \<in> files s \<and> (n < p_next s \<or> (n = p_next s \<and> p_pc s = P_Landed True)))))"

fun files_ok :: "nat set \<Rightarrow> prefetch \<Rightarrow> ppc \<Rightarrow> bool" where
  "files_ok fs s (P_Clean ns) \<longleftrightarrow> (\<forall>n\<in>files s. (n \<in> fs \<and> n \<notin> set (p_got s)) \<or> n \<in> set ns)"
| "files_ok fs s P_Done \<longleftrightarrow> (\<forall>n\<in>files s. n \<in> fs \<and> n \<notin> set (p_got s))"
| "files_ok fs s pc \<longleftrightarrow> (\<forall>n\<in>files s. n \<in> fs \<or> n \<in> set (p_got s) \<or> (n = p_next s \<and> pc = P_Landed True) \<or>
     (\<exists>e. a_pc s = A_Have n e))"

lemmas inv_defs = shared_inv_def holding_def cleaning_def batch_end_def

lemma shared_pstep: "shared_inv cs ahead latest s \<Longrightarrow> pstep ahead latest s s' \<Longrightarrow> shared_inv cs ahead latest s'"
  by (erule pstepE) (cases "a_pc s"; force simp: inv_defs)+

lemma check_miss:
  "shared_inv cs ahead latest s \<Longrightarrow> net_inv s \<Longrightarrow> a_pc s = A_Check n e \<Longrightarrow> n \<notin> files s \<Longrightarrow> n \<notin> set (net s)"
  by (force simp: shared_inv_def net_inv_def)

lemma shared_astep:
  assumes "0 < cs" "shared_inv cs ahead latest s" "net_inv s" "astep cs latest s s'"
  shows "shared_inv cs ahead latest s'"
  using assms(4,1,2) check_miss [OF assms(2,3)]
  by (cases rule: astep.cases) (cases "p_pc s"; force simp: inv_defs)+

lemma net_pstep: "shared_inv cs ahead latest s \<Longrightarrow> net_inv s \<Longrightarrow> pstep ahead latest s s' \<Longrightarrow> net_inv s'"
  by (erule pstepE) (cases "a_pc s"; force simp: net_inv_def inv_defs)+

lemma net_astep: "shared_inv cs ahead latest s \<Longrightarrow> net_inv s \<Longrightarrow> astep cs latest s s' \<Longrightarrow> net_inv s'"
  by (erule astepE) (cases "p_pc s"; force simp: net_inv_def inv_defs)+

lemma files_pstep: "files_ok fs s (p_pc s) \<Longrightarrow> shared_inv cs ahead latest s \<Longrightarrow> pstep ahead latest s s' \<Longrightarrow> files_ok fs s' (p_pc s')"
  by (erule pstepE) (cases "a_pc s"; force simp: inv_defs)+

lemma files_astep: "files_ok fs s (p_pc s) \<Longrightarrow> shared_inv cs ahead latest s \<Longrightarrow> astep cs latest s s' \<Longrightarrow> files_ok fs s' (p_pc s')"
  by (erule astepE) (cases "p_pc s"; force simp: inv_defs)+

lemma pf_reachable_inv:
  assumes "pf_reachable c cs ahead latest fs s" "0 < cs" "c < latest"
  shows "shared_inv cs ahead latest s \<and> net_inv s \<and> files_ok fs s (p_pc s)"
  using assms(1)
proof (induction rule: pf_reachable.induct)
  case start
  show ?case using assms(2,3) by (simp add: start_prefetch_def inv_defs net_inv_def)
next
  case (prefetcher s s')
  then show ?case using shared_pstep net_pstep files_pstep by blast
next
  case (applier s s')
  then show ?case using shared_astep [OF assms(2)] net_astep files_astep by blast
qed

section \<open>Properties\<close>

text \<open>C20: the prefetch handshake excludes duplicate work: in every interleaving of the two
  threads no sequence is downloaded twice, the two are never busy with the same sequence, and
  no prefetched sequence lies further ahead of the claimed frontier than the window allows.\<close>

theorem prefetch_exclusion:
  assumes "pf_reachable c cs ahead latest fs s" "0 < cs" "c < latest"
  shows "distinct (net s) \<and>
    (\<forall>n e. (a_pc s = A_Check n e \<or> a_pc s = A_Net n e \<or> a_pc s = A_Have n e) \<longrightarrow> slot s \<noteq> Some n) \<and>
    (\<forall>n\<in>set (p_got s). n \<le> frontier s + ahead)"
  using pf_reachable_inv [OF assms] by (auto simp: shared_inv_def net_inv_def)

text \<open>Nothing is left behind: once \<open>update\<close> has joined the thread, every file in the download
  directory was there before the run, and no file the prefetcher obtained is among them, on
  every exit path of both threads.\<close>

theorem prefetch_leaves_nothing:
  assumes "pf_reachable c cs ahead latest fs s" "0 < cs" "c < latest" "a_pc s = A_Joined"
  shows "files s \<subseteq> fs - set (p_got s)"
  using pf_reachable_inv [OF assms(1-3)] assms(4) by (auto simp: shared_inv_def)

text \<open>The steps the thread can still take once the stop flag is set.\<close>

fun p_left :: "prefetch \<Rightarrow> ppc \<Rightarrow> nat" where
  "p_left s P_Done = 0"
| "p_left s (P_Clean ns) = length ns + 1"
| "p_left s P_Drain = length (p_got s) + 2"
| "p_left s P_Top = length (p_got s) + 3"
| "p_left s (P_Landed b) = length (p_got s) + 5"
| "p_left s P_Net = length (p_got s) + 6"
| "p_left s P_Exists = length (p_got s) + 7"
| "p_left s P_Claim = length (p_got s) + 8"
| "p_left s (P_Read f) = length (p_got s) + 9"
| "p_left s P_Load = length (p_got s) + 10"

lemma p_can_step:
  assumes "p_pc s \<noteq> P_Done" "p_pc s = P_Drain \<Longrightarrow> stop_flag s"
  shows "\<exists>s'. pstep ahead latest s s'"
proof (cases "p_pc s")
  case P_Top
  then show ?thesis using p_end p_stop p_go by (metis not_le)
next
  case (P_Read f)
  then show ?thesis using p_skip p_full p_room by (metis not_le)
next
  case P_Claim
  then show ?thesis using p_refused p_claim by (metis not_le)
next
  case (P_Clean ns)
  then show ?thesis using p_remove p_done by (metis neq_Nil_conv)
qed (use assms p_load p_hit p_miss p_landed p_drop p_drain in \<open>metis+\<close>)

lemma a_can_step:
  assumes "a_pc s \<noteq> A_Joined" "\<And>n e. a_pc s = A_Wait n e \<Longrightarrow> slot s \<noteq> Some n"
    "a_pc s = A_Joining \<Longrightarrow> p_pc s = P_Done"
  shows "\<exists>s'. astep cs latest s s'"
proof (cases "a_pc s")
  case (A_Check n e)
  then show ?thesis using a_hit a_miss by metis
qed (use assms a_end a_wait a_failed a_bad a_error a_stop a_join in \<open>metis+\<close>)

text \<open>The two threads cannot deadlock, and the join cannot hang: until the thread is joined some
  step is always possible, and once the stop flag is set every step of the thread brings it
  nearer to its end, which it reaches within the number of files it holds plus ten steps.\<close>

theorem prefetch_no_deadlock:
  assumes "pf_reachable c cs ahead latest fs s" "0 < cs" "c < latest"
  shows "(a_pc s = A_Joined \<or> (\<exists>s'. pstep ahead latest s s' \<or> astep cs latest s s')) \<and>
    (\<forall>s'. stop_flag s \<and> pstep ahead latest s s' \<longrightarrow> stop_flag s' \<and> p_left s' (p_pc s') < p_left s (p_pc s)) \<and>
    p_left s (p_pc s) \<le> length (p_got s) + 10 + (case p_pc s of P_Clean ns \<Rightarrow> length ns | _ \<Rightarrow> 0)"
proof (intro conjI)
  have i: "shared_inv cs ahead latest s" using pf_reachable_inv [OF assms] by blast
  show "a_pc s = A_Joined \<or> (\<exists>s'. pstep ahead latest s s' \<or> astep cs latest s s')"
  proof (cases "p_pc s = P_Done \<or> (p_pc s = P_Drain \<and> \<not> stop_flag s)")
    case True
    then have "slot s = None" "a_pc s = A_Joining \<Longrightarrow> p_pc s = P_Done"
      using i by (auto simp: shared_inv_def holding_def)
    then show ?thesis using a_can_step [of s] by fastforce
  next
    case False
    then show ?thesis using p_can_step [of s] by blast
  qed
  show "\<forall>s'. stop_flag s \<and> pstep ahead latest s s' \<longrightarrow> stop_flag s' \<and> p_left s' (p_pc s') < p_left s (p_pc s)"
    by (auto elim!: pstepE)
  show "p_left s (p_pc s) \<le> length (p_got s) + 10 + (case p_pc s of P_Clean ns \<Rightarrow> length ns | _ \<Rightarrow> 0)"
    by (cases "p_pc s") auto
qed

section \<open>A concrete interleaving\<close>

text \<open>A stop request before anything is fetched, with a file of another run in the directory.\<close>

lemma stopped_run: "\<exists>s. pf_reachable 0 1 2 3 {9} s \<and> a_pc s = A_Joined \<and> files s = {9}"
proof -
  let ?r = "pf_reachable 0 1 2 3 {9}"
  let ?s0 = "start_prefetch 0 1 3 {9}"
  let ?s1 = "?s0\<lparr>a_pc := A_Stopping\<rparr>"
  let ?s2 = "?s1\<lparr>a_pc := A_Joining, stop_flag := True\<rparr>"
  let ?s3 = "?s2\<lparr>p_pc := P_Drain\<rparr>"
  let ?s4 = "?s3\<lparr>p_pc := P_Clean (p_got ?s3)\<rparr>"
  let ?s5 = "?s4\<lparr>p_pc := P_Done\<rparr>"
  let ?s6 = "?s5\<lparr>a_pc := A_Joined\<rparr>"
  have "?r ?s1" by (rule pf_reachable.applier [OF pf_reachable.start a_end]) (simp add: start_prefetch_def)
  then have "?r ?s2" by (rule pf_reachable.applier [OF _ a_stop]) simp
  then have "?r ?s3" by (rule pf_reachable.prefetcher [OF _ p_stop]) (simp_all add: start_prefetch_def)
  then have "?r ?s4" by (rule pf_reachable.prefetcher [OF _ p_drain]) simp_all
  then have "?r ?s5" by (rule pf_reachable.prefetcher [OF _ p_done]) (simp add: start_prefetch_def)
  then have "?r ?s6" by (rule pf_reachable.applier [OF _ a_join]) simp_all
  moreover have "a_pc ?s6 = A_Joined" "files ?s6 = {9}" by (simp_all add: start_prefetch_def)
  ultimately show ?thesis by blast
qed

theorem prefetch_leaves_nothing_witness: "\<exists>s. pf_reachable 0 1 2 3 {9} s \<and> files s \<subseteq> {9} - set (p_got s) \<and> files s \<noteq> {}"
proof -
  obtain s where s: "pf_reachable 0 1 2 3 {9} s" "a_pc s = A_Joined" "files s = {9}" using stopped_run by blast
  then show ?thesis using prefetch_leaves_nothing [OF s(1) _ _ s(2)] by (intro exI [of _ s]) simp
qed

text \<open>The thread claims sequence 2 while the apply loop has claimed only sequence 1.\<close>

lemma racing_run: "\<exists>s. pf_reachable 0 1 2 3 {} s \<and> slot s = Some 2 \<and> a_pc s = A_Check 1 1"
proof -
  let ?r = "pf_reachable 0 1 2 3 {}"
  let ?s0 = "start_prefetch 0 1 3 {}"
  let ?s1 = "?s0\<lparr>a_pc := A_Wait 1 (batch_end 1 1 3), frontier := batch_end 1 1 3\<rparr>"
  let ?s2 = "?s1\<lparr>p_pc := P_Load\<rparr>"
  let ?s3 = "?s2\<lparr>p_pc := P_Read (frontier ?s2)\<rparr>"
  let ?s4 = "?s3\<lparr>p_pc := P_Top, p_next := 1 + 1\<rparr>"
  let ?s5 = "?s4\<lparr>p_pc := P_Load\<rparr>"
  let ?s6 = "?s5\<lparr>p_pc := P_Read (frontier ?s5)\<rparr>"
  let ?s7 = "?s6\<lparr>p_pc := P_Claim\<rparr>"
  let ?s8 = "?s7\<lparr>p_pc := P_Exists, slot := Some (p_next ?s7)\<rparr>"
  let ?s9 = "?s8\<lparr>a_pc := A_Check 1 1, a_past := 1\<rparr>"
  note d = start_prefetch_def batch_end_def
  have "?r ?s1" by (rule pf_reachable.applier [OF pf_reachable.start a_claim]) (simp_all add: d)
  then have "?r ?s2" by (rule pf_reachable.prefetcher [OF _ p_go]) (simp_all add: d)
  then have "?r ?s3" by (rule pf_reachable.prefetcher [OF _ p_load]) simp
  then have "?r ?s4" by (rule pf_reachable.prefetcher [OF _ p_skip]) (simp_all add: d)
  then have "?r ?s5" by (rule pf_reachable.prefetcher [OF _ p_go]) (simp_all add: d)
  then have "?r ?s6" by (rule pf_reachable.prefetcher [OF _ p_load]) simp
  then have "?r ?s7" by (rule pf_reachable.prefetcher [OF _ p_room [where f = 1]]) (simp_all add: d)
  then have "?r ?s8" by (rule pf_reachable.prefetcher [OF _ p_claim]) (simp_all add: d)
  then have "?r ?s9" by (rule pf_reachable.applier [OF _ a_wait]) (simp_all add: d)
  moreover have "slot ?s9 = Some 2" "a_pc ?s9 = A_Check 1 1" by simp_all
  ultimately show ?thesis by blast
qed

theorem prefetch_exclusion_witness:
  "\<exists>s. pf_reachable 0 1 2 3 {} s \<and> slot s = Some 2 \<and> a_pc s = A_Check 1 1 \<and> distinct (net s) \<and> slot s \<noteq> Some 1"
proof -
  obtain s where s: "pf_reachable 0 1 2 3 {} s" "slot s = Some 2" "a_pc s = A_Check 1 1" using racing_run by blast
  then show ?thesis using prefetch_exclusion [OF s(1)] by (intro exI [of _ s]) simp
qed

theorem prefetch_no_deadlock_witness:
  "\<exists>s s'. pf_reachable 0 1 2 3 {} s \<and> slot s = Some 2 \<and> (pstep 2 3 s s' \<or> astep 1 3 s s')"
proof -
  obtain s where s: "pf_reachable 0 1 2 3 {} s" "slot s = Some 2" "a_pc s = A_Check 1 1" using racing_run by blast
  then show ?thesis using prefetch_no_deadlock [OF s(1)] by auto
qed

end
