(* ===== verification/Tile_Store.thy ===== *)
theory Tile_Store
  imports Kvstore Texts
begin

text \<open>
  \<open>src/server/tile_store.rs\<close>: rendered tiles in the \<open>tiles\<close> column family. The key and value
  layouts, the content hash, single and batched writes, and reads that degrade to a miss on
  any malformed or foreign value. gzip and its inverse are parameters.
\<close>

section \<open>UTF-8\<close>

text \<open>\<open>str::from_utf8\<close>: the well-formed byte sequences of the Unicode standard.\<close>

definition cont :: "byte \<Rightarrow> bool" where
  "cont b \<longleftrightarrow> 0x80 \<le> b \<and> b \<le> 0xBF"

fun utf8_valid :: "byte list \<Rightarrow> bool" where
  "utf8_valid [] = True"
| "utf8_valid (a # bs) =
     (if a \<le> 0x7F then utf8_valid bs
      else if 0xC2 \<le> a \<and> a \<le> 0xDF then
        (case bs of b # cs \<Rightarrow> cont b \<and> utf8_valid cs | _ \<Rightarrow> False)
      else if 0xE0 \<le> a \<and> a \<le> 0xEF then
        (case bs of b # c # cs \<Rightarrow>
           (if a = 0xE0 then 0xA0 \<le> b \<and> b \<le> 0xBF else if a = 0xED then 0x80 \<le> b \<and> b \<le> 0x9F else cont b)
           \<and> cont c \<and> utf8_valid cs | _ \<Rightarrow> False)
      else if 0xF0 \<le> a \<and> a \<le> 0xF4 then
        (case bs of b # c # d # cs \<Rightarrow>
           (if a = 0xF0 then 0x90 \<le> b \<and> b \<le> 0xBF else if a = 0xF4 then 0x80 \<le> b \<and> b \<le> 0x8F else cont b)
           \<and> cont c \<and> cont d \<and> utf8_valid cs | _ \<Rightarrow> False)
      else False)"

lemma utf8_ascii: "list_all (\<lambda>b. b \<le> 0x7F) bs \<Longrightarrow> utf8_valid bs"
  by (induction bs) auto

section \<open>Bodies and hashes\<close>

record tile_body =
  orig_len :: u32
  gzip :: "byte list"

type_synonym stored_tile = "string \<times> tile_body"

definition body_size :: "tile_body \<Rightarrow> nat" where
  "body_size b = length (gzip b)"

definition fnv1a64 :: "byte list \<Rightarrow> u64" where
  "fnv1a64 bytes = foldl (\<lambda>hash b. (xor hash (ucast b)) * 0x100000001b3) 0xcbf29ce484222325 bytes"

definition hex_digit :: "nat \<Rightarrow> char" where
  "hex_digit d = (if d < 10 then char_of (48 + d) else char_of (87 + d))"

text \<open>\<open>{x:016x}\<close>: a \<open>u64\<close> has at most 16 hexadecimal digits, so the padding always fills.\<close>

definition hex16 :: "u64 \<Rightarrow> string" where
  "hex16 w = map (\<lambda>i. hex_digit (unat (drop_bit (4 * i) w) mod 16)) (rev [0..<16])"

definition content_etag :: "byte list \<Rightarrow> string" where
  "content_etag raw = hex16 (fnv1a64 raw)"

definition prepare :: "(byte list \<Rightarrow> byte list option) \<Rightarrow> byte list \<Rightarrow> stored_tile option" where
  "prepare gzip_compress raw =
     map_option (\<lambda>gz. (content_etag raw, \<lparr>orig_len = of_nat (length raw), gzip = gz\<rparr>)) (gzip_compress raw)"

section \<open>Keys and values\<close>

type_synonym tile_id = "u32 \<times> u32 \<times> u32"

definition encode_tile_key :: "tile_id \<Rightarrow> byte list" where
  "encode_tile_key k = (case k of (z, x, y) \<Rightarrow> (ucast z :: byte) # be_bytes 4 x @ be_bytes 4 y)"

definition TILE_VALUE_FORMAT :: byte where
  "TILE_VALUE_FORMAT = 1"

definition VALUE_HEADER_LEN :: nat where
  "VALUE_HEADER_LEN = 1 + 4 + 4 + 1"

definition bytes_of :: "string \<Rightarrow> byte list" where
  "bytes_of s = map of_char s"

definition text_of :: "byte list \<Rightarrow> string" where
  "text_of bs = map (\<lambda>b. char_of (unat b)) bs"

text \<open>\<open>etag.len() as u8\<close> truncates.\<close>

definition encode_value :: "u32 \<Rightarrow> string \<Rightarrow> tile_body \<Rightarrow> byte list" where
  "encode_value version etag body =
     [TILE_VALUE_FORMAT] @ le_bytes 4 version @ le_bytes 4 (orig_len body) @
     [of_nat (length etag)] @ bytes_of etag @ gzip body"

definition decode_value :: "byte list \<Rightarrow> u32 \<Rightarrow> stored_tile option" where
  "decode_value raw version =
     (if length raw < VALUE_HEADER_LEN \<or> raw ! 0 \<noteq> TILE_VALUE_FORMAT then None
      else if (of_le_bytes (take 4 (drop 1 raw)) :: u32) \<noteq> version then None
      else let len = of_le_bytes (take 4 (drop 5 raw)) :: u32;
               etag_end = VALUE_HEADER_LEN + unat (raw ! 9)
           in if length raw < etag_end then None
              else let etag = take (unat (raw ! 9)) (drop VALUE_HEADER_LEN raw)
                   in if \<not> utf8_valid etag then None
                      else Some (text_of etag, \<lparr>orig_len = len, gzip = drop etag_end raw\<rparr>))"

section \<open>The store\<close>

text \<open>\<open>ts_db = None\<close> when persistence is off. \<open>declined\<close>: RocksDB refuses the write under pressure.\<close>

record tile_store =
  ts_db :: "kv option"
  ts_version :: u32
  ts_hits :: nat
  ts_misses :: nat
  ts_skips :: nat

definition tile_store_new :: "kv \<Rightarrow> u32 \<Rightarrow> bool \<Rightarrow> tile_store" where
  "tile_store_new kv tile_format_version enabled =
     \<lparr>ts_db = (if enabled then Some kv else None), ts_version = tile_format_version,
      ts_hits = 0, ts_misses = 0, ts_skips = 0\<rparr>"

definition tile_get :: "tile_id \<Rightarrow> tile_store \<Rightarrow> stored_tile option \<times> tile_store" where
  "tile_get key s =
     (case ts_db s of None \<Rightarrow> (None, s)
      | Some db \<Rightarrow>
          (case cf_tiles db (encode_tile_key key) of
             None \<Rightarrow> (None, s\<lparr>ts_misses := ts_misses s + 1\<rparr>)
           | Some raw \<Rightarrow>
               (case decode_value raw (ts_version s) of
                  Some tile \<Rightarrow> (Some tile, s\<lparr>ts_hits := ts_hits s + 1\<rparr>)
                | None \<Rightarrow> (None, s\<lparr>ts_misses := ts_misses s + 1\<rparr>))))"

definition tile_put :: "bool \<Rightarrow> tile_id \<Rightarrow> string \<Rightarrow> tile_body \<Rightarrow> tile_store \<Rightarrow> tile_store" where
  "tile_put declined key etag body s =
     (case ts_db s of None \<Rightarrow> s
      | Some db \<Rightarrow>
          if declined then s\<lparr>ts_skips := ts_skips s + 1\<rparr>
          else s\<lparr>ts_db := Some (db\<lparr>cf_tiles := (cf_tiles db)(encode_tile_key key \<mapsto>
                 encode_value (ts_version s) etag body)\<rparr>)\<rparr>)"

definition tile_clear :: "tile_store \<Rightarrow> tile_store" where
  "tile_clear s = s\<lparr>ts_db := map_option clear_tiles (ts_db s)\<rparr>"

definition BATCH_FLUSH_BYTES :: nat where
  "BATCH_FLUSH_BYTES = 32 * 1024 * 1024"

datatype tile_write = TPut "byte list" "byte list" | TDel "byte list"

record tile_batch =
  tb_writes :: "tile_write list"
  tb_bytes :: nat

definition new_tile_batch :: tile_batch where
  "new_tile_batch = \<lparr>tb_writes = [], tb_bytes = 0\<rparr>"

definition tile_batch_put :: "tile_store \<Rightarrow> tile_id \<Rightarrow> string \<Rightarrow> tile_body \<Rightarrow> tile_batch \<Rightarrow> tile_batch" where
  "tile_batch_put s key etag body b =
     (case ts_db s of None \<Rightarrow> b
      | Some _ \<Rightarrow>
          let val = encode_value (ts_version s) etag body
          in \<lparr>tb_writes = tb_writes b @ [TPut (encode_tile_key key) val], tb_bytes = tb_bytes b + length val\<rparr>)"

definition tile_batch_delete :: "tile_store \<Rightarrow> tile_id \<Rightarrow> tile_batch \<Rightarrow> tile_batch" where
  "tile_batch_delete s key b =
     (case ts_db s of None \<Rightarrow> b
      | Some _ \<Rightarrow> b\<lparr>tb_writes := tb_writes b @ [TDel (encode_tile_key key)]\<rparr>)"

fun apply_tile_write :: "cfmap \<Rightarrow> tile_write \<Rightarrow> cfmap" where
  "apply_tile_write m (TPut k v) = m(k \<mapsto> v)"
| "apply_tile_write m (TDel k) = m(k := None)"

definition write_tile_batch :: "tile_batch \<Rightarrow> tile_store \<Rightarrow> tile_store" where
  "write_tile_batch b s =
     (case ts_db s of None \<Rightarrow> s
      | Some db \<Rightarrow> if tb_writes b = [] then s
          else s\<lparr>ts_db := Some (db\<lparr>cf_tiles := foldl apply_tile_write (cf_tiles db) (tb_writes b)\<rparr>)\<rparr>)"

definition flush_if_full :: "tile_batch \<Rightarrow> tile_store \<Rightarrow> tile_batch \<times> tile_store" where
  "flush_if_full b s =
     (if tb_bytes b < BATCH_FLUSH_BYTES then (b, s) else (new_tile_batch, write_tile_batch b s))"

section \<open>Lemmas\<close>

lemma be_bytes_inj: "be_bytes 4 a = be_bytes 4 b \<longleftrightarrow> a = b" for a b :: u32
proof -
  have "of_be_bytes (be_bytes 4 w) = w" for w :: u32 by (rule of_be_bytes_be_bytes) simp
  then show ?thesis by metis
qed

lemma encode_tile_key_inj:
  assumes "unat z < 256" "unat z' < 256"
  shows "encode_tile_key (z, x, y) = encode_tile_key (z', x', y') \<longleftrightarrow> (z, x, y) = (z', x', y')"
proof -
  have u: "unat (ucast a :: byte) = unat a" if "unat a < 256" for a :: u32
    using that by (simp add: unsigned_ucast_eq take_bit_nat_eq_self)
  have "(ucast z :: byte) = ucast z' \<longleftrightarrow> z = z'"
    using u [OF assms(1)] u [OF assms(2)] word_unat_eq_iff [of z z'] by metis
  moreover have "be_bytes 4 x @ be_bytes 4 y = be_bytes 4 x' @ be_bytes 4 y' \<longleftrightarrow> x = x' \<and> y = y'"
    by (simp add: append_eq_append_conv be_bytes_inj)
  ultimately show ?thesis by (simp add: encode_tile_key_def)
qed

lemma unat_of_char: "unat (of_char c :: byte) = of_char c"
proof -
  have "(of_char c :: byte) = of_nat (of_char c)" by (rule of_nat_of_char [symmetric])
  moreover have "(of_char c :: nat) < 256" using of_char_mod_256 [of c, where ?'a = nat] mod_less_divisor [of 256 "of_char c"] by simp
  ultimately show ?thesis by (simp add: unsigned_of_nat take_bit_nat_eq_self)
qed

lemma text_of_bytes_of [simp]: "text_of (bytes_of s) = s"
  by (simp add: text_of_def bytes_of_def comp_def unat_of_char)

definition ascii :: "string \<Rightarrow> bool" where
  "ascii s \<longleftrightarrow> list_all (\<lambda>c. (of_char c :: nat) < 128) s"

lemma ascii_utf8: "ascii s \<Longrightarrow> utf8_valid (bytes_of s)"
proof (rule utf8_ascii)
  assume a: "ascii s"
  have "(of_char c :: byte) \<le> 0x7F" if "(of_char c :: nat) < 128" for c
    using that by (simp add: word_le_nat_alt unat_of_char)
  then show "list_all (\<lambda>b. b \<le> 0x7F) (bytes_of s)"
    using a by (auto simp: ascii_def bytes_of_def list_all_iff)
qed

definition tile_fits :: "stored_tile \<Rightarrow> bool" where
  "tile_fits t \<longleftrightarrow> ascii (fst t) \<and> length (fst t) < 256"

lemma decode_encode_value:
  assumes "ascii etag" "length etag < 256"
  shows "decode_value (encode_value v etag body) v' = (if v = v' then Some (etag, body) else None)"
proof -
  let ?raw = "encode_value v etag body"
  have l: "length ?raw = 10 + length etag + length (gzip body)"
    by (simp add: encode_value_def bytes_of_def)
  have "length (le_bytes 4 v) = 4" "length (le_bytes 4 (orig_len body)) = 4" by simp_all
  then obtain a b c d where v4: "le_bytes 4 v = [a, b, c, d]" by (auto simp: numeral_eq_Suc length_Suc_conv)
  obtain a' b' c' d' where o4: "le_bytes 4 (orig_len body) = [a', b', c', d']"
    using \<open>length (le_bytes 4 (orig_len body)) = 4\<close> by (auto simp: numeral_eq_Suc length_Suc_conv)
  have r: "?raw = TILE_VALUE_FORMAT # a # b # c # d # a' # b' # c' # d' # of_nat (length etag) # bytes_of etag @ gzip body"
    by (simp add: encode_value_def v4 o4)
  have "of_le_bytes [a, b, c, d] = v" "of_le_bytes [a', b', c', d'] = orig_len body"
    using of_le_bytes_le_bytes [of 4 v] of_le_bytes_le_bytes [of 4 "orig_len body"] v4 o4 by simp_all
  moreover have "unat (of_nat (length etag) :: byte) = length etag"
    using assms(2) by (simp add: unsigned_of_nat take_bit_nat_eq_self)
  moreover have "length (bytes_of etag) = length etag" by (simp add: bytes_of_def)
  ultimately show ?thesis
    using ascii_utf8 [OF assms(1)] l
    by (simp add: decode_value_def r VALUE_HEADER_LEN_def Let_def numeral_eq_Suc)
qed

lemma bytes_of_text_of [simp]: "bytes_of (text_of bs) = bs"
proof -
  have "(of_char (char_of (unat b)) :: byte) = b" for b :: byte
  proof -
    have "unat b < 256" using unsigned_less [of b, where ?'a = nat] by simp
    then have "unat (of_char (char_of (unat b)) :: byte) = unat b"
      unfolding unat_of_char by (simp add: of_char_of)
    then show ?thesis by (simp add: word_unat_eq_iff)
  qed
  then show ?thesis by (simp add: bytes_of_def text_of_def comp_def)
qed

lemma take_Suc_nth: "n < length xs \<Longrightarrow> take (Suc n) xs = take n xs @ [xs ! n]"
  by (rule take_Suc_conv_app_nth)

text \<open>What decodes is exactly what encodes.\<close>

lemma decode_value_exact:
  assumes "decode_value raw v = Some (etag, body)"
  shows "raw = encode_value v etag body" "length etag < 256" "utf8_valid (bytes_of etag)"
proof -
  have l: "10 \<le> length raw" and f: "raw ! 0 = TILE_VALUE_FORMAT"
    and ver: "of_le_bytes (take 4 (drop 1 raw)) = v"
    and e: "text_of (take (unat (raw ! 9)) (drop 10 raw)) = etag" and u: "utf8_valid (take (unat (raw ! 9)) (drop 10 raw))"
    and len: "10 + unat (raw ! 9) \<le> length raw"
    and b: "body = \<lparr>orig_len = of_le_bytes (take 4 (drop 5 raw)), gzip = drop (10 + unat (raw ! 9)) raw\<rparr>"
    using assms by (auto simp: decode_value_def VALUE_HEADER_LEN_def Let_def not_less split: if_splits)
  let ?n = "unat (raw ! 9)"
  have n: "?n < 256" using unsigned_less [of "raw ! 9", where ?'a = nat] by simp
  have et: "bytes_of etag = take ?n (drop 10 raw)" "length etag = ?n"
  proof -
    show "bytes_of etag = take ?n (drop 10 raw)" unfolding e [symmetric] by simp
    show "length etag = ?n" unfolding e [symmetric] text_of_def using len by simp
  qed
  then show "length etag < 256" "utf8_valid (bytes_of etag)" using n u by simp_all
  have le: "le_bytes 4 (of_le_bytes (take 4 (drop i raw)) :: u32) = take 4 (drop i raw)" if "i + 4 \<le> length raw" for i
    using le_bytes_of_le_bytes [of "take 4 (drop i raw)", where ?'a = 32] that by simp
  have p1: "le_bytes 4 v = take 4 (drop 1 raw)" using le [of 1] l ver by simp
  have p2: "le_bytes 4 (orig_len body) = take 4 (drop 5 raw)" using le [of 5] l b by simp
  have "(of_nat (length etag) :: byte) = raw ! 9" using et(2) by simp
  then have "encode_value v etag body =
      raw ! 0 # take 4 (drop 1 raw) @ take 4 (drop 5 raw) @ raw ! 9 # take ?n (drop 10 raw) @ drop ?n (drop 10 raw)"
    unfolding encode_value_def p1 p2 et(1) using f b by (simp add: add.commute)
  also have "\<dots> = take 1 (drop 0 raw) @ take 4 (drop 1 raw) @ take 4 (drop 5 raw) @ take 1 (drop 9 raw) @ drop 10 raw"
  proof -
    have one: "take 1 (drop i raw) = [raw ! i]" if "i < length raw" for i
      using that by (simp add: Cons_nth_drop_Suc [symmetric])
    have "0 < length raw" "9 < length raw" using l by linarith+
    then have "take 1 (drop 0 raw) = [raw ! 0]" "take 1 (drop 9 raw) = [raw ! 9]" using one by blast+
    then show ?thesis by (simp only: append_take_drop_id append_Cons append_Nil)
  qed
  also have "\<dots> = raw"
  proof -
    have split: "take a (drop i raw) @ drop (a + i) raw = drop i raw" for a i
      by (metis append_take_drop_id drop_drop)
    show ?thesis using split [of 1 9] split [of 4 5] split [of 4 1] split [of 1 0] by simp
  qed
  finally show "raw = encode_value v etag body" by simp
qed

lemma hex16_text: "length (hex16 w) = 16" "ascii (hex16 w)"
proof -
  show "length (hex16 w) = 16" by (simp add: hex16_def)
  have "(of_char (hex_digit d) :: nat) < 128" if "d < 16" for d
    using that by (simp add: hex_digit_def of_char_of)
  then show "ascii (hex16 w)" by (auto simp: ascii_def hex16_def list_all_iff)
qed

lemma content_etag_fits: "tile_fits (content_etag raw, body)"
  using hex16_text by (simp add: tile_fits_def content_etag_def)

section \<open>The column interface\<close>

text \<open>The store over an open database, with keys whose zoom fits the key's byte.\<close>

definition open_store :: "u32 \<Rightarrow> kv \<Rightarrow> tile_store" where
  "open_store v db = tile_store_new db v True"

lemma tile_store_new_simps [simp]:
  "ts_db (tile_store_new db v e) = (if e then Some db else None)" "ts_version (tile_store_new db v e) = v"
  by (simp_all add: tile_store_new_def)

text \<open>A store with persistence off is a no-op: it neither finds nor keeps anything.\<close>

lemma disabled_store:
  "tile_get k (tile_store_new db v False) = (None, tile_store_new db v False)"
  "tile_put d k etag b (tile_store_new db v False) = tile_store_new db v False"
  "tile_batch_put (tile_store_new db v False) k etag b tb = tb"
  "write_tile_batch tb (tile_store_new db v False) = tile_store_new db v False"
  "tile_clear (tile_store_new db v False) = tile_store_new db v False"
  by (simp_all add: tile_get_def tile_put_def tile_batch_put_def write_tile_batch_def tile_clear_def)

definition wide :: "byte \<times> u32 \<times> u32 \<Rightarrow> tile_id" where
  "wide k = (case k of (z, x, y) \<Rightarrow> (ucast z, x, y))"

definition tiles_get :: "u32 \<Rightarrow> kv \<Rightarrow> byte \<times> u32 \<times> u32 \<Rightarrow> stored_tile option option" where
  "tiles_get v db k = Some (fst (tile_get (wide k) (open_store v db)))"

definition tiles_put :: "u32 \<Rightarrow> kv \<Rightarrow> byte \<times> u32 \<times> u32 \<Rightarrow> stored_tile \<Rightarrow> kv" where
  "tiles_put v db k t = the (ts_db (tile_put False (wide k) (fst t) (snd t) (open_store v db)))"

definition tiles_del :: "u32 \<Rightarrow> kv \<Rightarrow> byte \<times> u32 \<times> u32 \<Rightarrow> kv" where
  "tiles_del v db k = the (ts_db (write_tile_batch
     (tile_batch_delete (open_store v db) (wide k) new_tile_batch) (open_store v db)))"

lemma wide_key_inj: "encode_tile_key (wide k) = encode_tile_key (wide l) \<longleftrightarrow> k = l"
proof -
  have u: "unat (ucast z :: u32) = unat z" for z :: byte
  proof -
    have "unat z < 256" using unsigned_less [of z, where ?'a = nat] by simp
    then show ?thesis by (simp add: unsigned_ucast_eq take_bit_nat_eq_self)
  qed
  have b: "unat (ucast z :: u32) < 256" for z :: byte
    using unsigned_less [of z, where ?'a = nat] u by simp
  have "(ucast z :: u32) = ucast z' \<longleftrightarrow> z = z'" for z z' :: byte
    using u word_unat_eq_iff by metis
  then show ?thesis
    using encode_tile_key_inj b by (auto simp: wide_def split: prod.splits)
qed

interpretation tiles: column "tiles_get v" "tiles_put v" "tiles_del v" tile_fits
  by unfold_locales
    (auto simp: tiles_get_def tiles_put_def tiles_del_def tile_get_def tile_put_def open_store_def tile_fits_def
      write_tile_batch_def tile_batch_delete_def new_tile_batch_def decode_encode_value wide_key_inj
      split: option.splits)

lemma tiles_batch_put:
  assumes "ts_db s = Some db"
  shows "tb_writes (tile_batch_put s key etag body b) =
      tb_writes b @ [TPut (encode_tile_key key) (encode_value (ts_version s) etag body)]"
    "tb_bytes (tile_batch_put s key etag body b) = tb_bytes b + length (encode_value (ts_version s) etag body)"
  using assms by (simp_all add: tile_batch_put_def Let_def)

section \<open>Writing a set of tiles in batches\<close>

text \<open>The bulk path: every tile is put into the pending batch, which is flushed when full.\<close>

fun bulk_puts :: "(tile_id \<times> string \<times> tile_body) list \<Rightarrow> tile_batch \<times> tile_store \<Rightarrow> tile_store" where
  "bulk_puts [] (b, s) = write_tile_batch b s"
| "bulk_puts ((k, etag, body) # ts) (b, s) = bulk_puts ts (flush_if_full (tile_batch_put s k etag body b) s)"

definition with_writes :: "tile_batch \<Rightarrow> kv \<Rightarrow> cfmap" where
  "with_writes b db = foldl apply_tile_write (cf_tiles db) (tb_writes b)"

lemma write_with: "ts_db s = Some db \<Longrightarrow> ts_db (write_tile_batch b s) = Some (db\<lparr>cf_tiles := with_writes b db\<rparr>)"
  by (simp add: write_tile_batch_def with_writes_def)

lemma bulk_puts_writes:
  "ts_db s = Some db \<Longrightarrow> ts_db (bulk_puts ts (b, s)) = Some (db\<lparr>cf_tiles :=
     foldl (\<lambda>m (k, etag, body). m(encode_tile_key k \<mapsto> encode_value (ts_version s) etag body)) (with_writes b db) ts\<rparr>)"
proof (induction ts arbitrary: b s db)
  case Nil
  then show ?case by (simp add: write_with)
next
  case (Cons t ts)
  obtain k etag body where t: "t = (k, etag, body)" by (cases t) auto
  let ?b = "tile_batch_put s k etag body b"
  have w: "with_writes ?b db = (with_writes b db)(encode_tile_key k \<mapsto> encode_value (ts_version s) etag body)"
    using tiles_batch_put(1) [OF Cons.prems] by (simp add: with_writes_def)
  show ?case
  proof (cases "tb_bytes ?b < BATCH_FLUSH_BYTES")
    case True
    then show ?thesis using Cons.IH [OF Cons.prems, of ?b] w by (simp add: t flush_if_full_def)
  next
    case False
    let ?s = "write_tile_batch ?b s"
    have v: "ts_version ?s = ts_version s" using Cons.prems by (simp add: write_tile_batch_def)
    have "with_writes new_tile_batch (db\<lparr>cf_tiles := with_writes ?b db\<rparr>) = with_writes ?b db"
      by (simp add: with_writes_def new_tile_batch_def)
    then show ?thesis
      using Cons.IH [OF write_with [OF Cons.prems, of ?b], of new_tile_batch] False w v
      by (simp add: t flush_if_full_def)
  qed
qed

lemma bulk_version: "ts_version (bulk_puts ts (b, s)) = ts_version s"
proof (induction ts arbitrary: b s)
  case Nil
  then show ?case by (simp add: write_tile_batch_def split: option.splits)
next
  case (Cons t ts)
  then show ?case
    by (cases t) (auto simp: flush_if_full_def write_tile_batch_def split: option.splits)
qed

section \<open>Properties\<close>

text \<open>Nothing malformed is ever served: a stored value decodes exactly when it is the encoding
  of a tile under the current format version, with an ETag of at most 255 bytes of valid
  UTF-8, and then to that tile; every other byte string, of another version, truncated or
  corrupt, is a miss. Every ETag the renderer computes fits.\<close>

theorem tile_values_exact:
  "(decode_value raw v = Some (etag, body) \<longrightarrow>
      raw = encode_value v etag body \<and> length etag < 256 \<and> utf8_valid (bytes_of etag)) \<and>
   (ascii etag \<and> length etag < 256 \<longrightarrow>
      decode_value (encode_value v etag body) v' = (if v = v' then Some (etag, body) else None)) \<and>
   ascii (content_etag mvt) \<and> length (content_etag mvt) = 16"
  using decode_value_exact decode_encode_value hex16_text by (simp add: content_etag_def)

theorem tile_values_exact_witness:
  "decode_value (encode_value 3 (content_etag [7]) \<lparr>orig_len = 1, gzip = [9, 9]\<rparr>) 3 =
     Some (content_etag [7], \<lparr>orig_len = 1, gzip = [9, 9]\<rparr>) \<and>
   decode_value (encode_value 3 (content_etag [7]) \<lparr>orig_len = 1, gzip = [9, 9]\<rparr>) 4 = None"
proof -
  let ?e = "content_etag [7]" and ?b = "\<lparr>orig_len = 1, gzip = [9, 9]\<rparr>"
  note all = tile_values_exact [of "[]" 3 ?e ?b _ "[7]"]
  have "ascii ?e" "length ?e = 16" using all [THEN conjunct2, THEN conjunct2] by blast+
  then have "ascii ?e \<and> length ?e < 256" by (simp only:) simp
  then have "decode_value (encode_value 3 ?e ?b) w = (if 3 = w then Some (?e, ?b) else None)" for w
    using all [THEN conjunct2, THEN conjunct1] by blast
  from this [of 3] this [of 4] show ?thesis by (simp only:) simp
qed

text \<open>The bulk path is the one-by-one path: after writing tiles through byte-bounded batches,
  each tile reads as the last body put for it and every other one as before, whatever the
  sizes at which the batches were flushed.\<close>

theorem bulk_puts_read_back:
  assumes "\<And>k t. (k, t) \<in> set ts \<Longrightarrow> tile_fits t"
  shows "fst (tile_get (wide i) (bulk_puts (map (\<lambda>(k, t). (wide k, t)) ts) (new_tile_batch, open_store v db))) =
    (case map_of (rev ts) i of Some t \<Rightarrow> Some t | None \<Rightarrow> fst (tile_get (wide i) (open_store v db)))"
proof -
  let ?f = "\<lambda>m (k, etag, body). m(encode_tile_key k \<mapsto> encode_value v etag body)"
  have puts: "cf_tiles (foldl (\<lambda>s (k, t). tiles_put v s k t) db ts) =
      foldl ?f (cf_tiles db) (map (\<lambda>(k, t). (wide k, t)) ts)"
  proof (induction ts arbitrary: db)
    case (Cons p ts)
    obtain k e b where p: "p = (k, e, b)" by (cases p) auto
    have "cf_tiles (tiles_put v db k (e, b)) = (cf_tiles db)(encode_tile_key (wide k) \<mapsto> encode_value v e b)"
      by (simp add: tiles_put_def tile_put_def open_store_def)
    then show ?case using Cons [of "tiles_put v db k (e, b)"] by (simp add: p)
  qed simp
  have "ts_db (bulk_puts (map (\<lambda>(k, t). (wide k, t)) ts) (new_tile_batch, open_store v db)) =
      Some (db\<lparr>cf_tiles := cf_tiles (foldl (\<lambda>s (k, t). tiles_put v s k t) db ts)\<rparr>)"
    using bulk_puts_writes [of "open_store v db" db "map (\<lambda>(k, t). (wide k, t)) ts" new_tile_batch]
    by (simp add: puts open_store_def with_writes_def new_tile_batch_def)
  moreover have "ts_version (bulk_puts (map (\<lambda>(k, t). (wide k, t)) ts) (new_tile_batch, open_store v db)) = v"
    by (simp add: bulk_version open_store_def)
  ultimately have "Some (fst (tile_get (wide i) (bulk_puts (map (\<lambda>(k, t). (wide k, t)) ts) (new_tile_batch, open_store v db)))) =
      tiles_get v (foldl (\<lambda>s (k, t). tiles_put v s k t) db ts) i"
    by (simp add: tiles_get_def tile_get_def open_store_def split: option.split)
  also have "\<dots> = (case map_of (rev ts) i of Some t \<Rightarrow> Some (Some t) | None \<Rightarrow> tiles_get v db i)"
    by (rule tiles.get_puts) (rule assms)
  finally show ?thesis by (simp add: tiles_get_def split: option.splits)
qed

theorem bulk_puts_read_back_witness:
  "fst (tile_get (14, 3, 4) (bulk_puts [((14, 3, 4), ''a'', \<lparr>orig_len = 1, gzip = [1]\<rparr>),
      ((14, 3, 4), ''b'', \<lparr>orig_len = 2, gzip = [2]\<rparr>)] (new_tile_batch, open_store 1 empty_kv))) =
    Some (''b'', \<lparr>orig_len = 2, gzip = [2]\<rparr>)"
proof -
  have "tile_fits (''a'', b) \<and> tile_fits (''b'', b)" for b by (simp add: tile_fits_def ascii_def)
  then show ?thesis
    using bulk_puts_read_back [of "[((14, 3, 4), ''a'', \<lparr>orig_len = 1, gzip = [1]\<rparr>),
      ((14, 3, 4), ''b'', \<lparr>orig_len = 2, gzip = [2]\<rparr>)]" "(14, 3, 4)" 1 empty_kv]
    by (auto simp: wide_def)
qed

end
