(* ===== verification/Tile_Cache.thy ===== *)
theory Tile_Cache
  imports Tile_Store
begin

text \<open>
  \<open>src/server/tile_cache.rs\<close>: the byte-bounded, two-generation cache of the aggregate
  zooms. Time is the monotonic clock in nanoseconds; \<open>u64\<close> arithmetic that leaves its
  range panics (\<open>None\<close>). Every operation runs under the one lock, so a run of the cache is
  a sequence of operations.
\<close>

section \<open>State and operations\<close>

record entry =
  inserted :: nat
  body :: tile_body

definition entry_size :: "entry \<Rightarrow> nat" where
  "entry_size e = body_size (body e)"

type_synonym tile_map = "tile_id \<rightharpoonup> entry"

record generations =
  hot :: tile_map
  hot_bytes :: nat
  cold :: tile_map

record tile_cache =
  max_bytes :: nat
  ttl :: nat
  state :: generations
  hits :: nat
  misses :: nat

definition new_cache :: "nat \<Rightarrow> nat \<Rightarrow> tile_cache" where
  "new_cache limit t = \<lparr>max_bytes = limit, ttl = t,
     state = \<lparr>hot = Map.empty, hot_bytes = 0, cold = Map.empty\<rparr>, hits = 0, misses = 0\<rparr>"

definition size_at :: "tile_map \<Rightarrow> tile_id \<Rightarrow> nat" where
  "size_at m k = (case m k of Some e \<Rightarrow> entry_size e | None \<Rightarrow> 0)"

definition place_in_hot :: "generations \<Rightarrow> nat \<Rightarrow> tile_id \<Rightarrow> entry \<Rightarrow> generations option" where
  "place_in_hot st limit key e =
     (case sub_u64 (hot_bytes st) (size_at (hot st) key) of None \<Rightarrow> None
      | Some rest \<Rightarrow>
        (case add_u64 rest (entry_size e) of None \<Rightarrow> None
         | Some bytes_after \<Rightarrow>
           let st1 = (if limit div 2 < bytes_after
                      then \<lparr>hot = Map.empty, hot_bytes = 0, cold = hot st\<rparr> else st);
               st2 = st1\<lparr>cold := (cold st1)(key := None)\<rparr>
           in (case sub_u64 (hot_bytes st2) (size_at (hot st2) key) of None \<Rightarrow> None
               | Some rest' \<Rightarrow>
                 (case add_u64 rest' (entry_size e) of None \<Rightarrow> None
                  | Some bytes \<Rightarrow> Some (st2\<lparr>hot := (hot st2)(key \<mapsto> e), hot_bytes := bytes\<rparr>)))))"

text \<open>\<open>entry.inserted.elapsed() < self.ttl\<close>; \<open>elapsed\<close> saturates at zero, as subtraction of \<open>nat\<close> does.\<close>

definition fresh :: "nat \<Rightarrow> nat \<Rightarrow> entry \<Rightarrow> bool" where
  "fresh now t e \<longleftrightarrow> now - inserted e < t"

definition cache_get :: "nat \<Rightarrow> tile_id \<Rightarrow> tile_cache \<Rightarrow> (tile_body option \<times> tile_cache) option" where
  "cache_get now key c =
     (if max_bytes c = 0 then Some (None, c\<lparr>misses := misses c + 1\<rparr>)
      else case hot (state c) key of
        Some e \<Rightarrow> if fresh now (ttl c) e then Some (Some (body e), c\<lparr>hits := hits c + 1\<rparr>)
                  else (case cold (state c) key of
                    Some e' \<Rightarrow> if fresh now (ttl c) e' then
                        map_option (\<lambda>st. (Some (body e'), c\<lparr>hits := hits c + 1, state := st\<rparr>))
                          (place_in_hot ((state c)\<lparr>cold := (cold (state c))(key := None)\<rparr>) (max_bytes c) key e')
                      else Some (None, c\<lparr>misses := misses c + 1\<rparr>)
                  | None \<Rightarrow> Some (None, c\<lparr>misses := misses c + 1\<rparr>))
      | None \<Rightarrow> (case cold (state c) key of
                    Some e' \<Rightarrow> if fresh now (ttl c) e' then
                        map_option (\<lambda>st. (Some (body e'), c\<lparr>hits := hits c + 1, state := st\<rparr>))
                          (place_in_hot ((state c)\<lparr>cold := (cold (state c))(key := None)\<rparr>) (max_bytes c) key e')
                      else Some (None, c\<lparr>misses := misses c + 1\<rparr>)
                  | None \<Rightarrow> Some (None, c\<lparr>misses := misses c + 1\<rparr>)))"

definition accepts :: "nat \<Rightarrow> tile_body \<Rightarrow> bool" where
  "accepts limit b \<longleftrightarrow> limit \<noteq> 0 \<and> body_size b \<le> limit div 4"

definition cache_insert :: "nat \<Rightarrow> tile_id \<Rightarrow> tile_body \<Rightarrow> tile_cache \<Rightarrow> tile_cache option" where
  "cache_insert now key b c =
     (if max_bytes c = 0 then Some c
      else let e = \<lparr>inserted = now, body = b\<rparr>
           in if max_bytes c div 4 < entry_size e then Some c
              else map_option (\<lambda>st. c\<lparr>state := st\<rparr>) (place_in_hot (state c) (max_bytes c) key e))"

section \<open>The byte accounting\<close>

definition map_bytes :: "tile_map \<Rightarrow> nat" where
  "map_bytes m = (\<Sum>k\<in>dom m. size_at m k)"

definition small_in :: "nat \<Rightarrow> tile_map \<Rightarrow> bool" where
  "small_in limit m \<longleftrightarrow> (\<forall>e\<in>ran m. entry_size e \<le> limit div 4)"

definition gens_ok :: "nat \<Rightarrow> generations \<Rightarrow> bool" where
  "gens_ok limit st \<longleftrightarrow> limit < 2 ^ 64 \<and> finite (dom (hot st)) \<and> finite (dom (cold st)) \<and>
     hot_bytes st = map_bytes (hot st) \<and> map_bytes (hot st) \<le> limit div 2 \<and>
     map_bytes (cold st) \<le> limit div 2 \<and> dom (hot st) \<inter> dom (cold st) = {} \<and>
     small_in limit (hot st) \<and> small_in limit (cold st)"

definition cache_ok :: "tile_cache \<Rightarrow> bool" where
  "cache_ok c \<longleftrightarrow> gens_ok (max_bytes c) (state c)"

lemma map_bytes_drop:
  assumes "finite (dom m)"
  shows "map_bytes m = size_at m k + map_bytes (m(k := None))"
proof -
  have s: "(\<Sum>i\<in>dom m - {k}. size_at m i) = map_bytes (m(k := None))"
    unfolding map_bytes_def by (rule sum.cong) (auto simp: size_at_def)
  show ?thesis
  proof (cases "k \<in> dom m")
    case True
    then show ?thesis using sum.remove [OF assms True, of "size_at m"] s by (simp add: map_bytes_def)
  next
    case False
    then show ?thesis using s by (simp add: map_bytes_def size_at_def domIff)
  qed
qed

lemma map_bytes_put:
  assumes "finite (dom m)"
  shows "map_bytes (m(k \<mapsto> e)) = entry_size e + map_bytes (m(k := None))"
  using map_bytes_drop [of "m(k \<mapsto> e)" k] assms by (simp add: size_at_def)

lemma size_at_le: "finite (dom m) \<Longrightarrow> size_at m k \<le> map_bytes m"
  by (metis map_bytes_drop le_add1)

lemma map_bytes_empty [simp]: "map_bytes Map.empty = 0" "size_at Map.empty k = 0"
  by (simp_all add: map_bytes_def size_at_def)

lemma drop_le: "finite (dom m) \<Longrightarrow> map_bytes (m(k := None)) \<le> map_bytes m"
  using map_bytes_drop [of m k] by simp

lemma small_in_simps:
  "small_in limit Map.empty" "small_in limit m \<Longrightarrow> small_in limit (m(k := None))"
  "small_in limit m \<Longrightarrow> entry_size e \<le> limit div 4 \<Longrightarrow> small_in limit (m(k \<mapsto> e))"
  by (auto simp: small_in_def ran_def)

text \<open>What placing does to well-formed generations: it never panics, and it either adds to the
  hot map or starts a new one.\<close>

definition placed :: "generations \<Rightarrow> nat \<Rightarrow> tile_id \<Rightarrow> entry \<Rightarrow> generations" where
  "placed st limit key e =
     (if limit div 2 < entry_size e + map_bytes ((hot st)(key := None))
      then \<lparr>hot = [key \<mapsto> e], hot_bytes = entry_size e, cold = (hot st)(key := None)\<rparr>
      else st\<lparr>hot := (hot st)(key \<mapsto> e), hot_bytes := entry_size e + map_bytes ((hot st)(key := None)),
            cold := (cold st)(key := None)\<rparr>)"

lemma place_in_hot_placed:
  assumes "gens_ok limit st" "entry_size e \<le> limit div 4"
  shows "place_in_hot st limit key e = Some (placed st limit key e)"
proof -
  have h: "hot_bytes st = size_at (hot st) key + map_bytes ((hot st)(key := None))"
    using assms map_bytes_drop by (simp add: gens_ok_def)
  have b: "map_bytes ((hot st)(key := None)) + entry_size e < 2 ^ 64" "entry_size e < 2 ^ 64"
  proof -
    have "map_bytes ((hot st)(key := None)) \<le> limit div 2" "limit < 2 ^ 64"
      using assms drop_le [of "hot st" key] by (auto simp: gens_ok_def)
    then show "map_bytes ((hot st)(key := None)) + entry_size e < 2 ^ 64" "entry_size e < 2 ^ 64"
      using assms(2) by linarith+
  qed
  show ?thesis
    using b by (simp add: place_in_hot_def placed_def h sub_u64_def add_u64_def Let_def add.commute)
qed

lemma placed_ok:
  assumes "gens_ok limit st" "entry_size e \<le> limit div 4"
  shows "gens_ok limit (placed st limit key e)"
proof (cases "limit div 2 < entry_size e + map_bytes ((hot st)(key := None))")
  case True
  have "map_bytes ((hot st)(key := None)) \<le> limit div 2"
    using assms drop_le [of "hot st" key] by (auto simp: gens_ok_def)
  moreover have "map_bytes [key \<mapsto> e] = entry_size e"
    using map_bytes_put [of Map.empty key e] by simp
  ultimately show ?thesis
    using True assms small_in_simps by (auto simp: gens_ok_def placed_def)
next
  case False
  have "map_bytes ((cold st)(key := None)) \<le> limit div 2"
    using assms drop_le [of "cold st" key] by (auto simp: gens_ok_def)
  then show ?thesis
    using False assms small_in_simps map_bytes_put [of "hot st" key e]
    by (auto simp: gens_ok_def placed_def)
qed

lemma cold_drop_ok: "gens_ok limit st \<Longrightarrow> gens_ok limit (st\<lparr>cold := (cold st)(k := None)\<rparr>)"
  using drop_le [of "cold st" k] small_in_simps by (auto simp: gens_ok_def)

lemma new_cache_ok: "limit < 2 ^ 64 \<Longrightarrow> cache_ok (new_cache limit t)"
  using small_in_simps by (simp add: cache_ok_def gens_ok_def new_cache_def)

section \<open>Runs of the cache\<close>

datatype cache_op = Get nat tile_id | Insert nat tile_id tile_body

definition cache_step :: "cache_op \<Rightarrow> tile_cache \<Rightarrow> (tile_body option \<times> tile_cache) option" where
  "cache_step opr c = (case opr of
     Get now k \<Rightarrow> cache_get now k c
   | Insert now k b \<Rightarrow> map_option (Pair None) (cache_insert now k b c))"

fun cache_run :: "cache_op list \<Rightarrow> tile_cache \<Rightarrow> tile_cache option" where
  "cache_run [] c = Some c"
| "cache_run (opr # ops) c =
     (case cache_step opr c of None \<Rightarrow> None | Some (_, c') \<Rightarrow> cache_run ops c')"

text \<open>The abstract cache: per key, the last accepted insertion.\<close>

fun latest :: "nat \<Rightarrow> cache_op list \<Rightarrow> tile_map \<Rightarrow> tile_map" where
  "latest limit [] m = m"
| "latest limit (Get _ _ # ops) m = latest limit ops m"
| "latest limit (Insert now k b # ops) m =
     latest limit ops (if accepts limit b then m(k \<mapsto> \<lparr>inserted = now, body = b\<rparr>) else m)"

definition held_in :: "generations \<Rightarrow> tile_map \<Rightarrow> bool" where
  "held_in st m \<longleftrightarrow> map_le (hot st) m \<and> map_le (cold st) m"

lemma held_in_Some:
  "held_in st m \<Longrightarrow> hot st k = Some e \<or> cold st k = Some e \<Longrightarrow> m k = Some e"
  unfolding held_in_def map_le_def by (metis domI)

lemma placed_held:
  "held_in st m \<Longrightarrow> held_in (placed st limit k e) (m(k \<mapsto> e))"
  by (auto simp: held_in_def placed_def map_le_def)

lemma placed_hot: "hot (placed st limit k e) k = Some e"
  by (simp add: placed_def)

lemma placed_held_same: "held_in st m \<Longrightarrow> m k = Some e \<Longrightarrow> held_in (placed st limit k e) m"
  using placed_held [of st m limit k e] by (simp add: fun_upd_idem)

text \<open>A lookup in one place: what is found, and what is left.\<close>

definition found :: "nat \<Rightarrow> tile_id \<Rightarrow> tile_cache \<Rightarrow> (entry \<times> generations) option" where
  "found now k c =
     (if max_bytes c = 0 then None
      else case map_option (\<lambda>e. fresh now (ttl c) e) (hot (state c) k) of
        Some True \<Rightarrow> Some (the (hot (state c) k), state c)
      | _ \<Rightarrow> (case cold (state c) k of
          Some e \<Rightarrow> if fresh now (ttl c) e
            then Some (e, placed ((state c)\<lparr>cold := (cold (state c))(k := None)\<rparr>) (max_bytes c) k e) else None
        | None \<Rightarrow> None))"

lemma cold_small: "gens_ok limit st \<Longrightarrow> cold st k = Some e \<Longrightarrow> entry_size e \<le> limit div 4"
  unfolding gens_ok_def small_in_def by (metis ranI)

lemma cache_get_found:
  assumes "cache_ok c"
  shows "cache_get now k c = Some (case found now k c of
      Some (e, st) \<Rightarrow> (Some (body e), c\<lparr>hits := hits c + 1, state := st\<rparr>)
    | None \<Rightarrow> (None, c\<lparr>misses := misses c + 1\<rparr>))"
proof -
  have ok: "gens_ok (max_bytes c) (state c)" using assms by (simp add: cache_ok_def)
  have p: "place_in_hot ((state c)\<lparr>cold := (cold (state c))(k := None)\<rparr>) (max_bytes c) k e =
      Some (placed ((state c)\<lparr>cold := (cold (state c))(k := None)\<rparr>) (max_bytes c) k e)"
    if "cold (state c) k = Some e" for e
    by (rule place_in_hot_placed [OF cold_drop_ok [OF ok] cold_small [OF ok that]])
  have "c\<lparr>hits := hits c + 1\<rparr> = c\<lparr>hits := hits c + 1, state := state c\<rparr>" by simp
  then show ?thesis
    using p by (auto simp: cache_get_def found_def split: option.splits bool.splits)
qed

lemma found_ok:
  assumes "cache_ok c" "found now k c = Some (e, st)"
  shows "gens_ok (max_bytes c) st" "fresh now (ttl c) e"
    "hot (state c) k = Some e \<or> cold (state c) k = Some e" "hot st k = Some e"
    "held_in (state c) m \<Longrightarrow> held_in st m"
proof -
  have ok: "gens_ok (max_bytes c) (state c)" using assms by (simp add: cache_ok_def)
  from assms(2) consider (hot) "hot (state c) k = Some e" "st = state c" "fresh now (ttl c) e"
    | (cold) "cold (state c) k = Some e" "fresh now (ttl c) e"
        "st = placed ((state c)\<lparr>cold := (cold (state c))(k := None)\<rparr>) (max_bytes c) k e"
    by (auto simp: found_def split: if_splits option.splits bool.splits)
  then have "gens_ok (max_bytes c) st \<and> fresh now (ttl c) e \<and>
      (hot (state c) k = Some e \<or> cold (state c) k = Some e) \<and> hot st k = Some e \<and>
      (held_in (state c) m \<longrightarrow> held_in st m)"
  proof cases
    case cold
    have "held_in ((state c)\<lparr>cold := (cold (state c))(k := None)\<rparr>) m" if "held_in (state c) m"
      using that by (auto simp: held_in_def map_le_def)
    moreover have "m k = Some e" if "held_in (state c) m"
      using that cold(1) held_in_Some by blast
    ultimately have "held_in (state c) m \<longrightarrow> held_in st m"
      unfolding cold(3) using placed_held_same by blast
    moreover have "gens_ok (max_bytes c) st"
      unfolding cold(3) by (rule placed_ok [OF cold_drop_ok [OF ok] cold_small [OF ok cold(1)]])
    ultimately show ?thesis using cold(1,2) unfolding cold(3) by (simp add: placed_hot)
  qed (use ok in auto)
  then show "gens_ok (max_bytes c) st" "fresh now (ttl c) e"
    "hot (state c) k = Some e \<or> cold (state c) k = Some e" "hot st k = Some e"
    "held_in (state c) m \<Longrightarrow> held_in st m" by blast+
qed

lemma cache_insert_placed:
  assumes "cache_ok c"
  shows "cache_insert now k b c = Some (if accepts (max_bytes c) b
    then c\<lparr>state := placed (state c) (max_bytes c) k \<lparr>inserted = now, body = b\<rparr>\<rparr> else c)"
  using assms place_in_hot_placed
  by (simp add: cache_insert_def accepts_def entry_size_def cache_ok_def Let_def)

definition same_limits :: "tile_cache \<Rightarrow> tile_cache \<Rightarrow> bool" where
  "same_limits c d \<longleftrightarrow> max_bytes c = max_bytes d \<and> ttl c = ttl d"

lemma cache_step_ok:
  assumes "cache_ok c" "held_in (state c) m"
  shows "\<exists>r c'. cache_step opr c = Some (r, c') \<and> cache_ok c' \<and> same_limits c' c \<and>
    held_in (state c') (latest (max_bytes c) [opr] m)"
proof (cases opr)
  case (Get now k)
  show ?thesis
  proof (cases "found now k c")
    case None
    then show ?thesis
      using Get assms cache_get_found [OF assms(1), of now k]
      by (simp add: cache_step_def cache_ok_def same_limits_def)
  next
    case (Some r)
    obtain e st where r: "r = (e, st)" by (cases r)
    show ?thesis
      using Get Some assms cache_get_found [OF assms(1), of now k] found_ok(1) [OF assms(1)] found_ok(5) [OF assms(1)] r
      by (simp add: cache_step_def cache_ok_def same_limits_def)
  qed
next
  case (Insert now k b)
  let ?e = "\<lparr>inserted = now, body = b\<rparr>"
  have "gens_ok (max_bytes c) (placed (state c) (max_bytes c) k ?e)" if "accepts (max_bytes c) b"
    using placed_ok [of "max_bytes c" "state c" ?e k] assms(1) that
    by (simp add: cache_ok_def accepts_def entry_size_def)
  moreover have "held_in (placed (state c) (max_bytes c) k ?e) (m(k \<mapsto> ?e))"
    by (rule placed_held [OF assms(2)])
  ultimately show ?thesis
    using Insert assms cache_insert_placed [OF assms(1), of now k b]
    by (simp add: cache_step_def cache_ok_def same_limits_def)
qed

lemma latest_Cons: "latest limit (opr # ops) m = latest limit ops (latest limit [opr] m)"
  by (cases opr) simp_all

lemma cache_run_ok:
  "cache_ok c \<Longrightarrow> held_in (state c) m \<Longrightarrow>
    \<exists>c'. cache_run ops c = Some c' \<and> cache_ok c' \<and> same_limits c' c \<and> held_in (state c') (latest (max_bytes c) ops m)"
proof (induction ops arbitrary: c m)
  case Nil
  then show ?case by (simp add: same_limits_def)
next
  case (Cons opr ops)
  obtain r c1 where c1: "cache_step opr c = Some (r, c1)" "cache_ok c1" "same_limits c1 c"
      "held_in (state c1) (latest (max_bytes c) [opr] m)"
    using cache_step_ok [OF Cons.prems] by blast
  from Cons.IH [OF c1(2,4)] obtain c2 where c2: "cache_run ops c1 = Some c2" "cache_ok c2" "same_limits c2 c1"
      "held_in (state c2) (latest (max_bytes c1) ops (latest (max_bytes c) [opr] m))" by blast
  have "latest (max_bytes c1) ops (latest (max_bytes c) [opr] m) = latest (max_bytes c) (opr # ops) m"
    using c1(3) latest_Cons [of "max_bytes c" opr ops m] by (simp add: same_limits_def)
  moreover have "cache_run (opr # ops) c = Some c2" using c1(1) c2(1) by simp
  ultimately show ?case using c1(3) c2 by (auto simp: same_limits_def)
qed

lemma run_from_new:
  assumes "limit < 2 ^ 64"
  obtains c where "cache_run ops (new_cache limit t) = Some c" "cache_ok c" "max_bytes c = limit" "ttl c = t"
    "held_in (state c) (latest limit ops Map.empty)"
proof -
  have "held_in (state (new_cache limit t)) Map.empty" by (simp add: held_in_def new_cache_def)
  from cache_run_ok [OF new_cache_ok [OF assms] this, of ops] that show ?thesis
    by (auto simp: same_limits_def new_cache_def)
qed

section \<open>Residency\<close>

text \<open>Insertions of other keys, of less than half the budget in bytes, leave an accepted entry resident.\<close>

fun inserts :: "(nat \<times> tile_id \<times> tile_body) list \<Rightarrow> cache_op list" where
  "inserts [] = []"
| "inserts ((now, k, b) # is) = Insert now k b # inserts is"

definition resident :: "generations \<Rightarrow> tile_id \<Rightarrow> entry \<Rightarrow> nat \<Rightarrow> bool" where
  "resident st k e n \<longleftrightarrow> hot st k = Some e \<or> hot st k = None \<and> cold st k = Some e \<and> hot_bytes st \<le> n"

lemma placed_resident:
  assumes "gens_ok limit st" "resident st k e n" "i \<noteq> k" "n + entry_size f \<le> limit div 2"
  shows "resident (placed st limit i f) k e (n + entry_size f)"
  using assms drop_le [of "hot st" i] by (auto simp: resident_def placed_def gens_ok_def)

lemma inserts_resident:
  "cache_ok c \<Longrightarrow> resident (state c) k e n \<Longrightarrow> k \<notin> (\<lambda>(_, i, _). i) ` set is \<Longrightarrow>
   n + (\<Sum>(_, _, b) \<leftarrow> is. body_size b) \<le> max_bytes c div 2 \<Longrightarrow>
   \<exists>c' n'. cache_run (inserts is) c = Some c' \<and> cache_ok c' \<and> same_limits c' c \<and> resident (state c') k e n'"
proof (induction "is" arbitrary: c n)
  case Nil
  then show ?case by (auto simp: same_limits_def)
next
  case (Cons p "is")
  obtain now i b where p: "p = (now, i, b)" by (cases p) auto
  let ?f = "\<lparr>inserted = now, body = b\<rparr>"
  show ?case
  proof (cases "accepts (max_bytes c) b")
    case True
    let ?c = "c\<lparr>state := placed (state c) (max_bytes c) i ?f\<rparr>"
    have "i \<noteq> k" using Cons.prems(3) p by auto
    then have r: "resident (state ?c) k e (n + body_size b)"
      using placed_resident [of "max_bytes c" "state c" k e n i ?f] Cons.prems p
      by (simp add: cache_ok_def entry_size_def)
    have ok: "cache_ok ?c"
      using placed_ok [of "max_bytes c" "state c" ?f i] Cons.prems(1) True
      by (simp add: cache_ok_def accepts_def entry_size_def)
    have "\<exists>c' n'. cache_run (inserts is) ?c = Some c' \<and> cache_ok c' \<and> same_limits c' ?c \<and> resident (state c') k e n'"
      by (rule Cons.IH [OF ok r]) (use Cons.prems p in auto)
    then show ?thesis
      using cache_insert_placed [OF Cons.prems(1), of now i b] True
      by (simp add: p cache_step_def same_limits_def)
  next
    case False
    then show ?thesis
      using Cons.IH [OF Cons.prems(1,2)] Cons.prems cache_insert_placed [OF Cons.prems(1), of now i b]
      by (simp add: p cache_step_def)
  qed
qed

section \<open>Properties\<close>

text \<open>The cache never holds more than its budget and never panics: after any sequence of
  lookups and insertions, the two generations hold at most \<open>max_bytes\<close> bytes together, half of
  it each; no key is in both; and the running byte count is exactly the bytes held.\<close>

theorem cache_within_budget:
  assumes "limit < 2 ^ 64"
  shows "\<exists>c. cache_run ops (new_cache limit t) = Some c \<and>
    map_bytes (hot (state c)) + map_bytes (cold (state c)) \<le> limit \<and>
    hot_bytes (state c) = map_bytes (hot (state c)) \<and> hot_bytes (state c) \<le> limit div 2 \<and>
    dom (hot (state c)) \<inter> dom (cold (state c)) = {}"
proof -
  obtain c where c: "cache_run ops (new_cache limit t) = Some c" "gens_ok limit (state c)"
    using run_from_new [OF assms, of ops t] by (metis cache_ok_def)
  then have "map_bytes (hot (state c)) \<le> limit div 2" "map_bytes (cold (state c)) \<le> limit div 2"
    by (simp_all add: gens_ok_def)
  then have "map_bytes (hot (state c)) + map_bytes (cold (state c)) \<le> limit" by linarith
  with c show ?thesis by (auto simp: gens_ok_def)
qed

theorem cache_within_budget_witness:
  "\<exists>c. cache_run [Insert 0 (5, 1, 1) \<lparr>orig_len = 1, gzip = [1, 2]\<rparr>, Insert 0 (5, 1, 2) \<lparr>orig_len = 1, gzip = [3, 4]\<rparr>,
      Insert 1 (5, 1, 3) \<lparr>orig_len = 1, gzip = [5]\<rparr>, Get 2 (5, 1, 1)] (new_cache 8 100) = Some c \<and>
    map_bytes (hot (state c)) + map_bytes (cold (state c)) \<le> 8"
  using cache_within_budget [of 8 "[Insert 0 (5, 1, 1) \<lparr>orig_len = 1, gzip = [1, 2]\<rparr>,
      Insert 0 (5, 1, 2) \<lparr>orig_len = 1, gzip = [3, 4]\<rparr>, Insert 1 (5, 1, 3) \<lparr>orig_len = 1, gzip = [5]\<rparr>, Get 2 (5, 1, 1)]" 100]
  by auto

text \<open>C39: a hit is the truth, and no older than allowed: whatever was inserted, promoted or aged
  out before, a lookup that hits returns the body of the last accepted insertion under that
  key, made less than \<open>ttl\<close> before. A cache of size 0 never hits.\<close>

theorem cache_hit_is_latest:
  assumes "limit < 2 ^ 64" "cache_run ops (new_cache limit t) = Some c"
    and "cache_get now k c = Some (Some b, c')"
  shows "limit \<noteq> 0 \<and> (\<exists>t0. latest limit ops Map.empty k = Some \<lparr>inserted = t0, body = b\<rparr> \<and> now - t0 < t)"
proof -
  obtain d where d: "cache_run ops (new_cache limit t) = Some d" "cache_ok d" "max_bytes d = limit" "ttl d = t"
      "held_in (state d) (latest limit ops Map.empty)"
    using run_from_new [OF assms(1), of ops t] by metis
  then have dc: "d = c" using assms(2) by simp
  obtain e st where f: "found now k c = Some (e, st)" "b = body e"
    using assms(3) cache_get_found [of c now k] d(2) dc by (auto split: option.splits)
  then have "latest limit ops Map.empty k = Some e" "fresh now t e" "limit \<noteq> 0"
    using found_ok(2,3) [of c now k e st] held_in_Some [of "state c" "latest limit ops Map.empty" k e] d dc
    by (simp_all add: found_def split: if_splits)
  then show ?thesis using f(2) by (cases e) (auto simp: fresh_def)
qed

theorem cache_hit_is_latest_witness:
  "\<exists>c c'. cache_run [Insert 0 (5, 1, 1) \<lparr>orig_len = 1, gzip = [1]\<rparr>, Insert 7 (5, 1, 1) \<lparr>orig_len = 1, gzip = [2]\<rparr>]
      (new_cache 8 10) = Some c \<and> cache_get 12 (5, 1, 1) c = Some (Some \<lparr>orig_len = 1, gzip = [2]\<rparr>, c') \<and>
    (\<exists>t0. latest 8 [Insert 0 (5, 1, 1) \<lparr>orig_len = 1, gzip = [1]\<rparr>, Insert 7 (5, 1, 1) \<lparr>orig_len = 1, gzip = [2]\<rparr>]
      Map.empty (5, 1, 1) = Some \<lparr>inserted = t0, body = \<lparr>orig_len = 1, gzip = [2]\<rparr>\<rparr> \<and> 12 - t0 < 10)"
proof -
  let ?ops = "[Insert 0 (5, 1, 1) \<lparr>orig_len = 1, gzip = [1]\<rparr>, Insert 7 (5, 1, 1) \<lparr>orig_len = 1, gzip = [2]\<rparr>]"
  obtain c where c: "cache_run ?ops (new_cache 8 10) = Some c" and g: "hot (state c) (5, 1, 1) =
      Some \<lparr>inserted = 7, body = \<lparr>orig_len = 1, gzip = [2]\<rparr>\<rparr>" "max_bytes c = 8" "ttl c = 10"
    by (simp add: cache_step_def cache_insert_def new_cache_def entry_size_def body_size_def place_in_hot_def
      size_at_def sub_u64_def add_u64_def)
  then have "cache_get 12 (5, 1, 1) c = Some (Some \<lparr>orig_len = 1, gzip = [2]\<rparr>, c\<lparr>hits := hits c + 1\<rparr>)"
    by (simp add: cache_get_def fresh_def)
  with cache_hit_is_latest [OF _ c this] c show ?thesis by auto
qed

text \<open>What was just cached is found: an accepted insertion is a hit for the whole of its time to
  live, however often it is read, as long as the other tiles inserted since amount to at most
  half of the budget.\<close>

theorem cache_retains:
  assumes "limit < 2 ^ 64" "cache_run ops (new_cache limit t) = Some c0" "accepts limit b"
    and "k \<notin> (\<lambda>(_, i, _). i) ` set is" "(\<Sum>(_, _, b) \<leftarrow> is. body_size b) \<le> limit div 2" "now - t0 < t"
  shows "\<exists>c c'. cache_run (Insert t0 k b # inserts is) c0 = Some c \<and> cache_get now k c = Some (Some b, c')"
proof -
  let ?e = "\<lparr>inserted = t0, body = b\<rparr>"
  obtain d where "cache_run ops (new_cache limit t) = Some d" "cache_ok d" "max_bytes d = limit" "ttl d = t"
    using run_from_new [OF assms(1), of ops t] by metis
  then have c0: "cache_ok c0" "max_bytes c0 = limit" "ttl c0 = t" using assms(2) by simp_all
  let ?c = "c0\<lparr>state := placed (state c0) limit k ?e\<rparr>"
  have ok: "cache_ok ?c"
    using placed_ok [of limit "state c0" ?e k] c0 assms(3) by (simp add: cache_ok_def accepts_def entry_size_def)
  have res: "resident (state ?c) k ?e 0" by (simp add: resident_def placed_def)
  have "\<exists>c n. cache_run (inserts is) ?c = Some c \<and> cache_ok c \<and> same_limits c ?c \<and> resident (state c) k ?e n"
    by (rule inserts_resident [OF ok res assms(4)]) (use assms(5) c0(2) in simp)
  then obtain c n where c: "cache_run (inserts is) ?c = Some c" "cache_ok c" "same_limits c ?c" "resident (state c) k ?e n"
    by blast
  have "found now k c \<noteq> None" "\<And>e st. found now k c = Some (e, st) \<Longrightarrow> e = ?e"
    using c(2-4) c0 assms(3,6) by (auto simp: found_def resident_def fresh_def same_limits_def accepts_def split: option.splits)
  then obtain st where "found now k c = Some (?e, st)" by auto
  then show ?thesis
    using c(1) cache_get_found [OF c(2), of now k] cache_insert_placed [OF c0(1), of t0 k b] assms(3) c0(2)
    by (auto simp: cache_step_def)
qed

theorem cache_retains_witness:
  "\<exists>c c'. cache_run [Insert 3 (5, 1, 1) \<lparr>orig_len = 1, gzip = [1, 2]\<rparr>, Insert 4 (5, 1, 2) \<lparr>orig_len = 1, gzip = [3, 4]\<rparr>,
      Insert 5 (5, 1, 3) \<lparr>orig_len = 1, gzip = [5, 6]\<rparr>] (new_cache 8 10) = Some c \<and>
    cache_get 12 (5, 1, 1) c = Some (Some \<lparr>orig_len = 1, gzip = [1, 2]\<rparr>, c')"
  using cache_retains [of 8 "[]" 10 "new_cache 8 10" "\<lparr>orig_len = 1, gzip = [1, 2]\<rparr>" "(5, 1, 1)"
      "[(4, (5, 1, 2), \<lparr>orig_len = 1, gzip = [3, 4]\<rparr>), (5, (5, 1, 3), \<lparr>orig_len = 1, gzip = [5, 6]\<rparr>)]" 12 3]
  by (simp add: accepts_def body_size_def)

end
