(* ===== verification/Http_Cache.thy ===== *)
theory Http_Cache
  imports Tile_Store
begin

text \<open>
  \<open>src/server/http_cache.rs\<close>: the \<open>Cache-Control\<close> and \<open>ETag\<close> values, content negotiation and
  conditional requests. A header value is a string; \<open>None\<close> where building one panics.
\<close>

section \<open>Header values\<close>

text \<open>\<open>HeaderValue::from_str\<close> and \<open>HeaderValue::to_str\<close>: visible ASCII (and the tab).\<close>

definition visible :: "char \<Rightarrow> bool" where
  "visible c = (let n = of_char c :: nat in (32 \<le> n \<and> n < 127) \<or> n = 9)"

definition header_value :: "string \<Rightarrow> string option" where
  "header_value s = (if list_all visible s then Some s else None)"

definition to_str :: "string \<Rightarrow> string option" where
  "to_str v = (if list_all visible v then Some v else None)"

definition OUT_OF_RANGE_ZOOM_MAX_AGE_SECONDS :: nat where
  "OUT_OF_RANGE_ZOOM_MAX_AGE_SECONDS = 86400"

definition NO_CACHE :: string where
  "NO_CACHE = ''no-cache''"

definition VARY_ACCEPT_ENCODING :: string where
  "VARY_ACCEPT_ENCODING = ''accept-encoding''"

definition public_max_age :: "nat \<Rightarrow> string option" where
  "public_max_age seconds = header_value (''public, max-age='' @ show_nat seconds)"

definition public_max_age_immutable :: "nat \<Rightarrow> string option" where
  "public_max_age_immutable seconds = header_value (''public, max-age='' @ show_nat seconds @ '', immutable'')"

record cache_config =
  tile_max_age_seconds :: nat
  agg_tile_max_age_seconds :: nat
  updates_max_age_seconds :: nat
  stats_max_age_seconds :: nat
  static_max_age_seconds :: nat
  font_max_age_seconds :: nat

record cache_headers =
  ch_tile :: string
  ch_agg_tile :: string
  ch_out_of_range_zoom :: string
  ch_updates :: string
  ch_stats :: string
  ch_vendor :: string
  ch_font :: string

definition from_config :: "cache_config \<Rightarrow> cache_headers option" where
  "from_config cache =
     (case (public_max_age (tile_max_age_seconds cache), public_max_age (agg_tile_max_age_seconds cache),
            public_max_age OUT_OF_RANGE_ZOOM_MAX_AGE_SECONDS, public_max_age (updates_max_age_seconds cache),
            public_max_age (stats_max_age_seconds cache), public_max_age (static_max_age_seconds cache),
            public_max_age_immutable (font_max_age_seconds cache)) of
        (Some t, Some a, Some o', Some u, Some s, Some v, Some f) \<Rightarrow>
          Some \<lparr>ch_tile = t, ch_agg_tile = a, ch_out_of_range_zoom = o', ch_updates = u, ch_stats = s,
                ch_vendor = v, ch_font = f\<rparr>
      | _ \<Rightarrow> None)"

section \<open>Content negotiation\<close>

text \<open>\<open>str::parse::<f32>\<close> and the comparison with zero. The grammar of the standard library: a
  sign, then \<open>inf\<close>, \<open>infinity\<close> or \<open>nan\<close> in any case, or digits with at most one dot and an
  optional exponent. A value is at most zero when it is negative, zero, or so small that it
  rounds to zero (at most \<open>2 ^ -150\<close>, half the smallest positive \<open>f32\<close>, the tie going to even).\<close>

definition signed :: "string \<Rightarrow> bool \<times> string" where
  "signed s = (case s of c # cs \<Rightarrow> if c = CHR ''-'' then (True, cs) else if c = CHR ''+'' then (False, cs) else (False, s)
               | [] \<Rightarrow> (False, []))"

definition digit_in :: "char \<Rightarrow> bool" where
  "digit_in c \<longleftrightarrow> digit_val c \<noteq> None"

definition parse_exp :: "string \<Rightarrow> int option" where
  "parse_exp s =
     (case s of [] \<Rightarrow> Some 0
      | c # cs \<Rightarrow> if ascii_lower c = CHR ''e''
          then (let (neg, ds) = signed cs in map_option (\<lambda>n. if neg then - int n else int n) (parse_nat ds))
          else None)"

definition parse_decimal :: "string \<Rightarrow> (nat \<times> int) option" where
  "parse_decimal s =
     (let whole = takeWhile digit_in s; rest = dropWhile digit_in s;
          frac = (case rest of c # cs \<Rightarrow> if c = CHR ''.'' then takeWhile digit_in cs else [] | [] \<Rightarrow> []);
          tl = (case rest of c # cs \<Rightarrow> if c = CHR ''.'' then dropWhile digit_in cs else rest | [] \<Rightarrow> [])
      in case (digits_val 0 (whole @ frac), parse_exp tl) of
           (Some m, Some e) \<Rightarrow> if whole @ frac = [] then None else Some (m, e - int (length frac))
         | _ \<Rightarrow> None)"

definition tiny :: "nat \<Rightarrow> int \<Rightarrow> bool" where
  "tiny m e \<longleftrightarrow> int m * 10 ^ nat e * 2 ^ 150 \<le> 10 ^ nat (- e)"

definition parses_to_at_most_zero :: "string \<Rightarrow> bool" where
  "parses_to_at_most_zero s =
     (let (neg, body) = signed s
      in if map ascii_lower body \<in> {''inf'', ''infinity''} then neg
         else if map ascii_lower body = ''nan'' then False
         else case parse_decimal body of None \<Rightarrow> False | Some (m, e) \<Rightarrow> neg \<or> tiny m e)"

definition strip_q :: "string \<Rightarrow> string option" where
  "strip_q f = (case strip_prefix ''q='' f of Some q \<Rightarrow> Some q | None \<Rightarrow> strip_prefix ''Q='' f)"

definition accepts_member :: "string \<Rightarrow> bool" where
  "accepts_member part =
     (let fields = map trim (split_on (CHR '';'') part); coding = hd fields
      in if \<not> eq_ignore_case coding ''gzip'' \<and> coding \<noteq> ''*'' then False
         else \<not> list_ex (\<lambda>f. case strip_q f of Some q \<Rightarrow> parses_to_at_most_zero q | None \<Rightarrow> False) (tl fields))"

text \<open>The argument is the \<open>Accept-Encoding\<close> header, if the request has one.\<close>

definition accepts_gzip :: "string option \<Rightarrow> bool" where
  "accepts_gzip accept_encoding =
     (case Option.bind accept_encoding to_str of
        None \<Rightarrow> False
      | Some val \<Rightarrow> list_ex accepts_member (split_on (CHR '','') val))"

section \<open>Conditional requests\<close>

definition quoted :: "string \<Rightarrow> string" where
  "quoted s = [CHR 0x22] @ s @ [CHR 0x22]"

definition weak_etag :: "string \<Rightarrow> string option" where
  "weak_etag version = header_value (''W/'' @ quoted version)"

definition strip_weak :: "string \<Rightarrow> string" where
  "strip_weak s = (case strip_prefix ''W/'' s of Some r \<Rightarrow> r | None \<Rightarrow> s)"

definition if_none_match_matches :: "string option \<Rightarrow> string \<Rightarrow> bool" where
  "if_none_match_matches hv etag =
     (case hv of None \<Rightarrow> False
      | Some v \<Rightarrow>
        (case to_str v of None \<Rightarrow> False
         | Some header_str \<Rightarrow>
             list_ex (\<lambda>c. let candidate = trim c in candidate = ''*'' \<or> strip_weak candidate = quoted etag)
               (split_on (CHR '','') header_str)))"

record response =
  status :: nat
  headers :: "string \<rightharpoonup> string"
  resp_body :: "byte list"

definition not_modified :: "string \<Rightarrow> string \<Rightarrow> response" where
  "not_modified etag cache_header =
     \<lparr>status = 304,
      headers = Map.empty(''etag'' \<mapsto> etag, ''cache-control'' \<mapsto> cache_header, ''vary'' \<mapsto> VARY_ACCEPT_ENCODING),
      resp_body = []\<rparr>"

definition classify_static_response :: "cache_headers \<Rightarrow> string \<Rightarrow> nat \<Rightarrow> string option" where
  "classify_static_response hs path st =
     (if \<not> ((200 \<le> st \<and> st < 300) \<or> st = 304) then None
      else if starts_with ''/fonts/'' path then Some (ch_font hs)
      else if starts_with ''/vendor/'' path then Some (ch_vendor hs)
      else Some NO_CACHE)"

definition apply_static_cache_header :: "cache_headers \<Rightarrow> string \<Rightarrow> response \<Rightarrow> response" where
  "apply_static_cache_header hs path resp =
     (case classify_static_response hs path (status resp) of
        Some v \<Rightarrow> resp\<lparr>headers := (headers resp)(''cache-control'' \<mapsto> v)\<rparr>
      | None \<Rightarrow> resp)"

section \<open>Lemmas\<close>

lemma digit_chars_visible: "d < 10 \<Longrightarrow> visible (digit_char d)"
  by (simp add: visible_def of_char_digit_char)

lemma show_nat_visible: "list_all visible (show_nat n)"
  using show_nat_digits digit_chars_visible by (fastforce simp: list_all_iff)

lemma max_age_some: "public_max_age n = Some (''public, max-age='' @ show_nat n)"
  "public_max_age_immutable n = Some (''public, max-age='' @ show_nat n @ '', immutable'')"
  using show_nat_visible [of n] by (simp_all add: public_max_age_def public_max_age_immutable_def header_value_def visible_def)

text \<open>The configuration never makes an unusable header: building them does not panic.\<close>

lemma from_config_some: "from_config cache \<noteq> None"
  by (simp add: from_config_def max_age_some)

definition tag_safe :: "string \<Rightarrow> bool" where
  "tag_safe e \<longleftrightarrow> list_all visible e \<and> CHR '','' \<notin> set e"

lemma hex_digit_safe: "d < 16 \<Longrightarrow> visible (hex_digit d) \<and> hex_digit d \<noteq> CHR '',''"
proof -
  assume d: "d < 16"
  have n: "(of_char (hex_digit d) :: nat) = (if d < 10 then 48 + d else 87 + d)"
    using d by (simp add: hex_digit_def of_char_of)
  have "32 \<le> (of_char (hex_digit d) :: nat) \<and> (of_char (hex_digit d) :: nat) < 127" using d n by simp
  then have "visible (hex_digit d)" by (simp add: visible_def)
  moreover have "hex_digit d \<noteq> CHR '',''"
  proof
    assume "hex_digit d = CHR '',''"
    then have "(of_char (hex_digit d) :: nat) = 44" by simp
    then show False using n d by (simp split: if_splits)
  qed
  ultimately show ?thesis by simp
qed

lemma content_etag_safe: "tag_safe (content_etag raw)"
proof -
  have "visible c \<and> c \<noteq> CHR '',''" if "c \<in> set (content_etag raw)" for c
    using that hex_digit_safe by (auto simp: content_etag_def hex16_def)
  then show ?thesis by (auto simp: tag_safe_def list_all_iff)
qed

lemma trim_tag: "trim (''W/'' @ quoted s) = ''W/'' @ quoted s" "trim (quoted s) = quoted s"
  by (simp_all add: trim_def quoted_def is_ws_def)

lemma weak_etag_some: "tag_safe e \<Longrightarrow> weak_etag e = Some (''W/'' @ quoted e)"
  by (simp add: weak_etag_def header_value_def quoted_def tag_safe_def visible_def)

text \<open>A request that names one tag matches exactly that tag.\<close>

lemma one_tag_matches:
  assumes "tag_safe e"
  shows "if_none_match_matches (Some (''W/'' @ quoted e)) f \<longleftrightarrow> e = f"
    "if_none_match_matches (Some (quoted e)) f \<longleftrightarrow> e = f"
proof -
  have v: "to_str (''W/'' @ quoted e) = Some (''W/'' @ quoted e)" "to_str (quoted e) = Some (quoted e)"
    using assms by (simp_all add: to_str_def quoted_def tag_safe_def visible_def)
  have s: "split_on (CHR '','') (''W/'' @ quoted e) = [''W/'' @ quoted e]" "split_on (CHR '','') (quoted e) = [quoted e]"
  proof -
    have "CHR '','' \<notin> set (''W/'' @ quoted e)" "CHR '','' \<notin> set (quoted e)"
      using assms by (auto simp: quoted_def tag_safe_def)
    then show "split_on (CHR '','') (''W/'' @ quoted e) = [''W/'' @ quoted e]" "split_on (CHR '','') (quoted e) = [quoted e]"
      using split_on_free by blast+
  qed
  have q: "strip_weak (''W/'' @ quoted e) = quoted e" "strip_weak (quoted e) = quoted e"
    by (simp_all add: strip_weak_def quoted_def)
  have n: "''W/'' @ quoted e \<noteq> ''*''" "quoted e \<noteq> ''*''" by (simp_all add: quoted_def)
  have e: "quoted e = quoted f \<longleftrightarrow> e = f" by (simp add: quoted_def)
  show "if_none_match_matches (Some (''W/'' @ quoted e)) f \<longleftrightarrow> e = f"
    using v s q n e trim_tag by (simp add: if_none_match_matches_def Let_def)
  show "if_none_match_matches (Some (quoted e)) f \<longleftrightarrow> e = f"
    using v s q n e trim_tag by (simp add: if_none_match_matches_def Let_def)
qed

text \<open>More tags in the request: any of them may match.\<close>

lemma more_tags_match:
  assumes "tag_safe e" "list_all visible t"
  shows "if_none_match_matches (Some (''W/'' @ quoted e @ CHR '','' # t)) f \<longleftrightarrow> e = f \<or> if_none_match_matches (Some t) f"
proof -
  let ?w = "''W/'' @ quoted e"
  have "CHR '','' \<notin> set ?w" using assms by (auto simp: quoted_def tag_safe_def)
  then have "split_on (CHR '','') (?w @ CHR '','' # t) = ?w # split_on (CHR '','') t" by (rule split_on_append)
  moreover have "to_str (?w @ CHR '','' # t) = Some (?w @ CHR '','' # t)" "to_str t = Some t"
    using assms by (simp_all add: to_str_def quoted_def tag_safe_def visible_def)
  moreover have "strip_weak ?w = quoted e" "?w \<noteq> ''*''" "quoted e = quoted f \<longleftrightarrow> e = f"
    by (simp_all add: strip_weak_def quoted_def)
  ultimately show ?thesis
    using trim_tag(1) [of e] by (simp add: if_none_match_matches_def Let_def)
qed

text \<open>The printed hash is the hash.\<close>

lemma hex_digit_inj: "d < 16 \<Longrightarrow> e < 16 \<Longrightarrow> hex_digit d = hex_digit e \<longleftrightarrow> d = e"
proof -
  assume d: "d < 16" "e < 16"
  have n: "(of_char (hex_digit i) :: nat) = (if i < 10 then 48 + i else 87 + i)" if "i < 16" for i
    using that by (simp add: hex_digit_def of_char_of)
  show ?thesis
  proof
    assume "hex_digit d = hex_digit e"
    then have "(if d < 10 then 48 + d else 87 + d) = (if e < 10 then 48 + e else 87 + e)"
      using n [OF d(1)] n [OF d(2)] by simp
    then show "d = e" using d by (simp split: if_splits)
  qed simp
qed

lemma hex16_inj: "hex16 w = hex16 w' \<longleftrightarrow> w = w'"
proof
  assume "hex16 w = hex16 w'"
  then have n: "unat (drop_bit (4 * i) w) mod 16 = unat (drop_bit (4 * i) w') mod 16" if "i < 16" for i
    using that hex_digit_inj by (auto simp: hex16_def)
  show "w = w'"
  proof (rule bit_word_eqI)
    fix k assume k: "k < LENGTH(64)"
    have "bit v k = bit (take_bit 4 (unat (drop_bit (4 * (k div 4)) v))) (k mod 4)" for v :: u64
      using k by (simp add: bit_take_bit_iff bit_unsigned_iff bit_drop_bit_eq)
    then show "bit w k = bit w' k"
      using n [of "k div 4"] k by (simp add: take_bit_eq_mod)
  qed
qed simp

lemma content_etag_eq: "content_etag a = content_etag b \<longleftrightarrow> fnv1a64 a = fnv1a64 b"
  by (simp add: content_etag_def hex16_inj)

section \<open>Properties\<close>

text \<open>A conditional request is answered without a body exactly when the client holds the tile
  being served: the ETag sent with one tile's bytes is always a valid header, and sent back, with
  or without its weakness mark, alone or before other tags, it matches exactly the tiles with the
  same content hash. A request with no or an unreadable \<open>If-None-Match\<close> never matches.\<close>

theorem conditional_request_exact:
  "weak_etag (content_etag raw) = Some (''W/'' @ quoted (content_etag raw)) \<and>
   (if_none_match_matches (weak_etag (content_etag raw)) (content_etag raw') \<longleftrightarrow> fnv1a64 raw = fnv1a64 raw') \<and>
   (if_none_match_matches (Some (quoted (content_etag raw))) (content_etag raw') \<longleftrightarrow> fnv1a64 raw = fnv1a64 raw') \<and>
   (list_all visible t \<longrightarrow>
      (if_none_match_matches (Some (''W/'' @ quoted (content_etag raw) @ CHR '','' # t)) (content_etag raw') \<longleftrightarrow>
        fnv1a64 raw = fnv1a64 raw' \<or> if_none_match_matches (Some t) (content_etag raw'))) \<and>
   \<not> if_none_match_matches None etag \<and> (\<not> list_all visible v \<longrightarrow> \<not> if_none_match_matches (Some v) etag)"
proof -
  note safe = content_etag_safe [of raw]
  have "if_none_match_matches (weak_etag (content_etag raw)) (content_etag raw') \<longleftrightarrow> fnv1a64 raw = fnv1a64 raw'"
    unfolding weak_etag_some [OF safe] one_tag_matches(1) [OF safe] content_etag_eq ..
  moreover have "\<not> if_none_match_matches None etag" "\<not> list_all visible v \<Longrightarrow> \<not> if_none_match_matches (Some v) etag"
    by (simp_all add: if_none_match_matches_def to_str_def)
  ultimately show ?thesis
    using weak_etag_some [OF safe] one_tag_matches(2) [OF safe] more_tags_match [OF safe] content_etag_eq by blast
qed

theorem conditional_request_exact_witness:
  "if_none_match_matches (Some (''W/'' @ quoted (content_etag [1, 2]) @ CHR '','' # '' *'')) (content_etag [3]) \<and>
   \<not> if_none_match_matches (Some [CHR 0x0A]) ''x''"
proof -
  have "list_all visible '' *''" "\<not> list_all visible [CHR 0x0A]" by (simp_all add: visible_def)
  moreover have "if_none_match_matches (Some '' *'') (content_etag [3])"
    by (simp add: if_none_match_matches_def to_str_def visible_def trim_def is_ws_def)
  ultimately show ?thesis
    using conditional_request_exact [of "[1, 2]" "[3]" "'' *''" "''x''" "[CHR 0x0A]"] by blast
qed

text \<open>An explicit refusal of gzip does not always win: \<open>gzip;q=0\<close> alone is a refusal, but followed
  by \<open>*\<close>, which by RFC 9110 stands for the codings not named, the request is served gzip.\<close>

theorem gzip_refusal_overridden:
  "\<not> accepts_gzip (Some ''gzip;q=0'') \<and> \<not> accepts_gzip (Some ''gzip ; q=0.000 , br'') \<and>
   accepts_gzip (Some ''gzip;q=0, *'') \<and> accepts_gzip (Some ''br, GZIP;q=0.5'') \<and> \<not> accepts_gzip None"
  by code_simp

end
