(* ===== verification/Jobs.thy ===== *)
theory Jobs
  imports Civil Texts
begin

text \<open>
  \<open>src/server/jobs/mod.rs\<close>: the job registry, the start of the scheduler and what a supervisor
  does with each run of its job: the outcome, the failure streak, the journal lines and the
  status that \<open>/status\<close> shows; and \<open>src/shutdown.rs\<close>: stopping on an invalidated database.

  Wall-clock times and durations are nanoseconds, from the Unix epoch for the former. The run
  and failure counters are unbounded: their \<open>u64\<close> would take \<open>2 ^ 64\<close> runs to overflow.
\<close>

section \<open>The registry\<close>

datatype job_outcome = Success | Error string | TimedOut

datatype job_state = Idle | Running | Disabled

record job_status =
  js_name :: string
  js_enabled :: bool
  js_interval_seconds :: nat
  js_timeout_seconds :: nat
  js_state :: job_state
  js_last_started_at :: "string option"
  js_last_finished_at :: "string option"
  js_last_duration_ms :: "nat option"
  js_last_outcome :: "job_outcome option"
  js_next_run_at :: "string option"
  js_run_count :: nat
  js_consecutive_failures :: nat
  js_failing_since :: "string option"
  js_last_success_at :: "string option"
  js_log_keys :: "string list"

record registry =
  reg_order :: "string list"
  reg_entries :: "string \<rightharpoonup> job_status"

definition new_registry :: registry where
  "new_registry = \<lparr>reg_order = [], reg_entries = Map.empty\<rparr>"

definition registry_insert :: "job_status \<Rightarrow> registry \<Rightarrow> registry" where
  "registry_insert s r = \<lparr>reg_order = reg_order r @ [js_name s], reg_entries = (reg_entries r)(js_name s \<mapsto> s)\<rparr>"

definition snapshot :: "registry \<Rightarrow> job_status list" where
  "snapshot r = List.map_filter (reg_entries r) (reg_order r)"

definition registry_update :: "string \<Rightarrow> (job_status \<Rightarrow> job_status) \<Rightarrow> registry \<Rightarrow> registry" where
  "registry_update name f r =
     (case reg_entries r name of None \<Rightarrow> r
      | Some s \<Rightarrow> r\<lparr>reg_entries := (reg_entries r)(name \<mapsto> f s)\<rparr>)"

record job_config =
  cfg_enabled :: bool
  cfg_interval :: nat
  cfg_timeout :: nat
  cfg_run_on_start :: bool

definition ns :: nat where
  "ns = 10 ^ 9"

definition rfc3339 :: "nat \<Rightarrow> string" where
  "rfc3339 t = format_rfc3339 (of_nat (t div ns))"

text \<open>A job is its name and its log keys. The second component of the result is the supervisors
  that are spawned.\<close>

definition initial_status :: "nat \<Rightarrow> (string \<times> string list) \<times> job_config \<Rightarrow> job_status" where
  "initial_status now j =
     (case j of ((name, keys), cfg) \<Rightarrow>
       \<lparr>js_name = name, js_enabled = cfg_enabled cfg, js_interval_seconds = cfg_interval cfg div ns,
        js_timeout_seconds = cfg_timeout cfg div ns,
        js_state = (if cfg_enabled cfg then Idle else Disabled),
        js_last_started_at = None, js_last_finished_at = None, js_last_duration_ms = None,
        js_last_outcome = None,
        js_next_run_at = (if cfg_enabled cfg \<and> \<not> cfg_run_on_start cfg
          then Some (rfc3339 (now + cfg_interval cfg)) else None),
        js_run_count = 0, js_consecutive_failures = 0, js_failing_since = None,
        js_last_success_at = None, js_log_keys = keys\<rparr>)"

definition scheduler_start ::
  "nat \<Rightarrow> ((string \<times> string list) \<times> job_config) list \<Rightarrow> registry \<times> (string \<times> job_config) list" where
  "scheduler_start now jobs =
     (foldl (\<lambda>r j. registry_insert (initial_status now j) r) new_registry jobs,
      map (\<lambda>((name, _), cfg). (name, cfg)) (filter (\<lambda>(_, cfg). cfg_enabled cfg) jobs))"

section \<open>Failure streaks\<close>

definition FAILURE_STREAK_WARN_AT :: nat where
  "FAILURE_STREAK_WARN_AT = 3"

definition FAILURE_STREAK_REMIND :: nat where
  "FAILURE_STREAK_REMIND = 3600 * ns"

datatype streak_verdict = Quiet | Failing | Recovered

definition streak_log :: "nat \<Rightarrow> nat \<Rightarrow> nat option \<Rightarrow> streak_verdict" where
  "streak_log previous streak since_last_warning =
     (if streak = 0 then (if FAILURE_STREAK_WARN_AT \<le> previous then Recovered else Quiet)
      else if streak < FAILURE_STREAK_WARN_AT then Quiet
      else case since_last_warning of
        Some elapsed \<Rightarrow> if elapsed < FAILURE_STREAK_REMIND then Quiet else Failing
      | None \<Rightarrow> Failing)"

section \<open>One run\<close>

text \<open>How the blocking task ended, whether its timeout passed first, and the clock readings the
  supervisor takes: the wall clock and the monotonic clock around the run, the monotonic clock
  when the streak is examined and when a warning is stamped.\<close>

datatype run_end = ReturnedOk | ReturnedErr string | Panicked string

record run =
  timed_out :: bool
  ended :: run_end
  started_sys :: nat
  started_inst :: nat
  finished_sys :: nat
  finished_inst :: nat
  examined_inst :: nat
  stamped_inst :: nat

definition run_outcome :: "run \<Rightarrow> job_outcome \<times> string option" where
  "run_outcome r =
     (if timed_out r
      then (TimedOut, case ended r of
              ReturnedOk \<Rightarrow> None
            | ReturnedErr e \<Rightarrow> Some e
            | Panicked e \<Rightarrow> Some (''task panicked after timeout: '' @ e))
      else (case ended r of
              ReturnedOk \<Rightarrow> (Success, None)
            | ReturnedErr e \<Rightarrow> (Error e, Some e)
            | Panicked e \<Rightarrow> let message = ''task panicked: '' @ e in (Error message, Some message)))"

datatype journal_line =
    Job_failed string | Job_panicked string | Timed_out_draining | Completed_after_timeout
  | Failed_after_timeout string | Panicked_after_timeout string
  | Database_invalidated string
  | Keeps_failing nat string string string
  | Job_recovered nat string

definition run_lines :: "run \<Rightarrow> journal_line list" where
  "run_lines r =
     (if timed_out r
      then Timed_out_draining # [case ended r of
              ReturnedOk \<Rightarrow> Completed_after_timeout
            | ReturnedErr e \<Rightarrow> Failed_after_timeout e
            | Panicked e \<Rightarrow> Panicked_after_timeout e]
      else (case ended r of
              ReturnedOk \<Rightarrow> []
            | ReturnedErr e \<Rightarrow> [Job_failed e]
            | Panicked e \<Rightarrow> [Job_panicked e]))"

subsection \<open>An invalidated database\<close>

definition DATABASE_INVALIDATED_MARKER :: string where
  "DATABASE_INVALIDATED_MARKER = ''database has been invalidated''"

fun contains :: "string \<Rightarrow> string \<Rightarrow> bool" where
  "contains p [] = (p = [])"
| "contains p (c # cs) = (starts_with p (c # cs) \<or> contains p cs)"

definition is_database_invalidated :: "string \<Rightarrow> bool" where
  "is_database_invalidated e = contains DATABASE_INVALIDATED_MARKER e"

record flags =
  shutdown_requested :: bool
  database_invalidated :: bool

definition stop_if_database_invalidated :: "string \<Rightarrow> flags \<Rightarrow> bool \<times> flags \<times> journal_line list" where
  "stop_if_database_invalidated e fl =
     (if \<not> is_database_invalidated e then (False, fl, [])
      else if database_invalidated fl then (True, fl, [])
      else (True, \<lparr>shutdown_requested = True, database_invalidated = True\<rparr>, [Database_invalidated e]))"

subsection \<open>The supervisor's bookkeeping\<close>

record supervisor =
  consecutive_failures :: nat
  failing_since :: "nat option"
  last_success_at :: "nat option"
  streak_warned_at :: "nat option"

definition new_supervisor :: supervisor where
  "new_supervisor = \<lparr>consecutive_failures = 0, failing_since = None, last_success_at = None, streak_warned_at = None\<rparr>"

definition or_text :: "string \<Rightarrow> nat option \<Rightarrow> string" where
  "or_text d t = (case t of Some x \<Rightarrow> rfc3339 x | None \<Rightarrow> d)"

definition count_failure :: "run \<Rightarrow> supervisor \<Rightarrow> supervisor" where
  "count_failure r s =
     (if snd (run_outcome r) = None then s\<lparr>consecutive_failures := 0\<rparr>
      else s\<lparr>consecutive_failures := consecutive_failures s + 1,
             failing_since := Some (case failing_since s of Some t \<Rightarrow> t | None \<Rightarrow> finished_sys r)\<rparr>)"

definition verdict :: "run \<Rightarrow> supervisor \<Rightarrow> streak_verdict" where
  "verdict r s = streak_log (consecutive_failures s) (consecutive_failures (count_failure r s))
     (map_option (\<lambda>t. examined_inst r - t) (streak_warned_at s))"

definition verdict_lines :: "run \<Rightarrow> supervisor \<Rightarrow> journal_line list" where
  "verdict_lines r s =
     (let s' = count_failure r s
      in case verdict r s of
           Failing \<Rightarrow> [Keeps_failing (consecutive_failures s') (or_text ''?'' (failing_since s'))
             (or_text ''never since start'' (last_success_at s')) (case snd (run_outcome r) of Some e \<Rightarrow> e | None \<Rightarrow> '''')]
         | Recovered \<Rightarrow> [Job_recovered (consecutive_failures s) (or_text ''?'' (failing_since s'))]
         | Quiet \<Rightarrow> [])"

definition after_run :: "run \<Rightarrow> supervisor \<Rightarrow> supervisor" where
  "after_run r s =
     (let s1 = count_failure r s;
          s2 = (if verdict r s = Failing then s1\<lparr>streak_warned_at := Some (stamped_inst r)\<rparr> else s1)
      in if consecutive_failures s2 = 0
         then s2\<lparr>failing_since := None, streak_warned_at := None, last_success_at := Some (finished_sys r)\<rparr>
         else s2)"

definition started_status :: "run \<Rightarrow> job_status \<Rightarrow> job_status" where
  "started_status r st = st\<lparr>js_state := Running, js_last_started_at := Some (rfc3339 (started_sys r)), js_next_run_at := None\<rparr>"

definition finished_status :: "job_config \<Rightarrow> run \<Rightarrow> supervisor \<Rightarrow> job_status \<Rightarrow> job_status" where
  "finished_status cfg r s st = st\<lparr>
     js_state := Idle,
     js_last_finished_at := Some (rfc3339 (finished_sys r)),
     js_last_duration_ms := Some ((finished_inst r - started_inst r) div 10 ^ 6),
     js_last_outcome := Some (fst (run_outcome r)),
     js_next_run_at := Some (rfc3339 (finished_sys r + cfg_interval cfg)),
     js_run_count := js_run_count st + 1,
     js_consecutive_failures := consecutive_failures s,
     js_failing_since := map_option rfc3339 (failing_since s),
     js_last_success_at := map_option rfc3339 (last_success_at s)\<rparr>"

record job_world =
  jw_registry :: registry
  jw_flags :: flags
  jw_journal :: "journal_line list"

definition supervise_run :: "string \<Rightarrow> job_config \<Rightarrow> run \<Rightarrow> supervisor \<times> job_world \<Rightarrow> supervisor \<times> job_world" where
  "supervise_run name cfg r sw =
     (case sw of (s, w) \<Rightarrow>
       let reg = registry_update name (started_status r) (jw_registry w);
           (_, fl, inv) = (case snd (run_outcome r) of
                Some message \<Rightarrow> stop_if_database_invalidated message (jw_flags w)
              | None \<Rightarrow> (False, jw_flags w, []));
           s' = after_run r s
       in (s', \<lparr>jw_registry = registry_update name (finished_status cfg r s') reg,
               jw_flags = fl,
               jw_journal = jw_journal w @ run_lines r @ inv @ verdict_lines r s\<rparr>))"

definition supervise_runs :: "string \<Rightarrow> job_config \<Rightarrow> run list \<Rightarrow> job_world \<Rightarrow> supervisor \<times> job_world" where
  "supervise_runs name cfg runs w = foldl (\<lambda>sw r. supervise_run name cfg r sw) (new_supervisor, w) runs"

section \<open>The history of a job\<close>

definition failed :: "run \<Rightarrow> bool" where
  "failed r \<longleftrightarrow> ended r \<noteq> ReturnedOk"

definition streak :: "run list \<Rightarrow> nat" where
  "streak rs = length (takeWhile failed (rev rs))"

definition streak_began :: "run list \<Rightarrow> nat option" where
  "streak_began rs = (if streak rs = 0 then None else Some (finished_sys (rs ! (length rs - streak rs))))"

definition last_success :: "run list \<Rightarrow> nat option" where
  "last_success rs = map_option finished_sys (find (\<lambda>r. \<not> failed r) (rev rs))"

definition history :: "run list \<Rightarrow> supervisor" where
  "history rs = foldl (\<lambda>s r. after_run r s) new_supervisor rs"

definition verdict_at :: "run list \<Rightarrow> nat \<Rightarrow> streak_verdict" where
  "verdict_at rs i = verdict (rs ! i) (history (take i rs))"

definition announced :: "run list \<Rightarrow> nat list" where
  "announced rs = filter (\<lambda>j. verdict_at rs j = Failing) [length rs - streak rs..<length rs]"

lemma failed_outcome: "snd (run_outcome r) = None \<longleftrightarrow> \<not> failed r"
  by (simp add: run_outcome_def failed_def Let_def split: run_end.splits)

lemma streak_simps [simp]: "streak [] = 0" "streak (rs @ [r]) = (if failed r then streak rs + 1 else 0)"
  by (simp_all add: streak_def)

lemma streak_le: "streak rs \<le> length rs"
  unfolding streak_def by (metis length_rev length_takeWhile_le)

lemma history_simps: "history [] = new_supervisor" "history (rs @ [r]) = after_run r (history rs)"
  by (simp_all add: history_def)

lemma verdict_at_append: "i < length rs \<Longrightarrow> verdict_at (rs @ qs) i = verdict_at rs i"
  by (simp add: verdict_at_def nth_append)

lemma verdict_at_last: "verdict_at (rs @ [r]) (length rs) = verdict r (history rs)"
  by (simp add: verdict_at_def)

lemma streak_pos: "0 < streak rs \<Longrightarrow> rs \<noteq> []"
  by auto

lemma streak_began_snoc:
  "streak_began (rs @ [r]) = (if failed r
     then Some (case streak_began rs of Some t \<Rightarrow> t | None \<Rightarrow> finished_sys r) else None)"
  using streak_le [of rs] by (auto simp: streak_began_def nth_append)

lemma verdict_ok: "\<not> failed r \<Longrightarrow> verdict r s = (if 3 \<le> consecutive_failures s then Recovered else Quiet)"
  using failed_outcome by (simp add: verdict_def count_failure_def streak_log_def FAILURE_STREAK_WARN_AT_def)

lemma verdict_failed:
  "failed r \<Longrightarrow> verdict r s = (if consecutive_failures s < 2 then Quiet
     else case streak_warned_at s of
       Some t \<Rightarrow> if examined_inst r - t < FAILURE_STREAK_REMIND then Quiet else Failing | None \<Rightarrow> Failing)"
  using failed_outcome [of r]
  by (auto simp: verdict_def count_failure_def streak_log_def FAILURE_STREAK_WARN_AT_def split: option.splits)

lemma after_run_ok: "\<not> failed r \<Longrightarrow> after_run r s =
    s\<lparr>consecutive_failures := 0, failing_since := None, streak_warned_at := None, last_success_at := Some (finished_sys r)\<rparr>"
  using failed_outcome [of r] by (simp add: after_run_def count_failure_def Let_def)

lemma after_run_failed: "failed r \<Longrightarrow> after_run r s =
    s\<lparr>consecutive_failures := consecutive_failures s + 1,
      failing_since := Some (case failing_since s of Some t \<Rightarrow> t | None \<Rightarrow> finished_sys r),
      streak_warned_at := (if verdict r s = Failing then Some (stamped_inst r) else streak_warned_at s)\<rparr>"
  using failed_outcome [of r] by (auto simp: after_run_def count_failure_def Let_def)

lemma announced_snoc: "announced (rs @ [r]) = (if failed r
    then announced rs @ (if verdict r (history rs) = Failing then [length rs] else []) else [])"
proof -
  have "filter (\<lambda>j. verdict_at (rs @ [r]) j = Failing) [length rs - streak rs..<length rs] = announced rs"
    unfolding announced_def by (rule filter_cong) (auto simp: verdict_at_append)
  then show ?thesis
    using streak_le [of rs] by (simp add: announced_def verdict_at_last)
qed

text \<open>The supervisor's four variables are functions of the history.\<close>

lemma history_exact:
  "consecutive_failures (history rs) = streak rs \<and> failing_since (history rs) = streak_began rs \<and>
   last_success_at (history rs) = last_success rs \<and>
   streak_warned_at (history rs) = (if announced rs = [] then None else Some (stamped_inst (rs ! last (announced rs))))"
proof (induction rs rule: rev_induct)
  case Nil
  then show ?case
    by (simp add: history_simps new_supervisor_def streak_began_def last_success_def announced_def)
next
  case (snoc r rs)
  have "last (announced rs) < length rs" if "announced rs \<noteq> []"
    using last_in_set [OF that] by (simp add: announced_def)
  then show ?case
    using snoc
    by (cases "failed r")
      (auto simp: history_simps after_run_ok after_run_failed streak_began_snoc announced_snoc last_success_def nth_append
        split: option.splits)
qed

lemma supervise_runs_history: "fst (supervise_runs name cfg rs w) = history rs"
proof (induction rs rule: rev_induct)
  case (snoc r rs)
  have "fst (supervise_run name cfg r sw) = after_run r (fst sw)" for sw
    by (simp add: supervise_run_def Let_def split: prod.splits)
  then show ?case using snoc by (simp add: supervise_runs_def history_simps)
qed (simp add: supervise_runs_def history_simps)

lemma supervise_runs_snoc:
  "supervise_runs name cfg (rs @ [r]) w = supervise_run name cfg r (history rs, snd (supervise_runs name cfg rs w))"
  using supervise_runs_history [of name cfg rs w]
  by (metis foldl.simps foldl_append prod.collapse supervise_runs_def)

subsection \<open>The status entry\<close>

definition entry_of :: "string \<Rightarrow> job_world \<Rightarrow> job_status option" where
  "entry_of n w = reg_entries (jw_registry w) n"

lemma supervise_run_entry:
  "entry_of n (snd (supervise_run name cfg r (s, w))) = (if n = name
     then map_option (\<lambda>st. finished_status cfg r (after_run r s) (started_status r st)) (entry_of n w) else entry_of n w)"
  by (simp add: supervise_run_def Let_def entry_of_def registry_update_def split: option.split prod.split)

lemma reg_order_kept: "reg_order (jw_registry (snd (supervise_run name cfg r sw))) = reg_order (jw_registry (snd sw))"
  by (simp add: supervise_run_def Let_def registry_update_def split: option.split prod.split)

text \<open>What the entry of a job says after a history.\<close>

definition history_status :: "job_config \<Rightarrow> run list \<Rightarrow> job_status \<Rightarrow> job_status" where
  "history_status cfg rs st0 = (if rs = [] then st0 else st0\<lparr>
     js_state := Idle,
     js_last_started_at := Some (rfc3339 (started_sys (last rs))),
     js_last_finished_at := Some (rfc3339 (finished_sys (last rs))),
     js_last_duration_ms := Some ((finished_inst (last rs) - started_inst (last rs)) div 10 ^ 6),
     js_last_outcome := Some (fst (run_outcome (last rs))),
     js_next_run_at := Some (rfc3339 (finished_sys (last rs) + cfg_interval cfg)),
     js_run_count := js_run_count st0 + length rs,
     js_consecutive_failures := streak rs,
     js_failing_since := map_option rfc3339 (streak_began rs),
     js_last_success_at := map_option rfc3339 (last_success rs)\<rparr>)"

lemma history_entry:
  "entry_of n (snd (supervise_runs name cfg rs w)) =
    (if n = name then map_option (history_status cfg rs) (entry_of n w) else entry_of n w)"
proof (induction rs rule: rev_induct)
  case Nil
  have "history_status cfg [] = (\<lambda>st. st)" by (rule ext) (simp add: history_status_def)
  then show ?case by (simp add: supervise_runs_def option.map_ident)
next
  case (snoc r rs)
  have "finished_status cfg r (after_run r (history rs)) (started_status r (history_status cfg rs st)) =
      history_status cfg (rs @ [r]) st" for st
    using history_exact [of "rs @ [r]"]
    by (simp add: history_simps finished_status_def started_status_def history_status_def)
  then have "map_option (\<lambda>st. finished_status cfg r (after_run r (history rs)) (started_status r st))
      (map_option (history_status cfg rs) e) = map_option (history_status cfg (rs @ [r])) e" for e
    by (simp only: option.map_comp comp_def)
  then show ?case
    using snoc by (cases "n = name") (simp_all add: supervise_runs_snoc supervise_run_entry)
qed

subsection \<open>Announcements\<close>

lemma verdict_at_cases:
  assumes "i < length rs"
  shows "verdict_at rs i = (if failed (rs ! i)
      then (if streak (take i rs) < 2 then Quiet
        else if announced (take i rs) = [] then Failing
        else if examined_inst (rs ! i) - stamped_inst (rs ! last (announced (take i rs))) < FAILURE_STREAK_REMIND
        then Quiet else Failing)
      else if 3 \<le> streak (take i rs) then Recovered else Quiet)"
proof -
  have "last (announced (take i rs)) < i" if "announced (take i rs) \<noteq> []"
    using last_in_set [OF that] assms by (simp add: announced_def)
  then show ?thesis
    using history_exact [of "take i rs"]
    by (simp add: verdict_at_def verdict_ok verdict_failed)
qed

lemma announced_iff:
  "i \<le> length rs \<Longrightarrow> j \<in> set (announced (take i rs)) \<longleftrightarrow>
     i - streak (take i rs) \<le> j \<and> j < i \<and> verdict_at rs j = Failing"
  using verdict_at_append [of j "take i rs" "drop i rs"] by (auto simp: announced_def)

lemma sorted_announced: "sorted (announced rs)"
  by (simp add: announced_def sorted_wrt_filter)

lemma sorted_le_last: "sorted xs \<Longrightarrow> x \<in> set xs \<Longrightarrow> x \<le> last xs"
  for xs :: "nat list"
  by (induction xs) (auto split: if_splits)

lemma failing_iff:
  assumes mono: "sorted (map stamped_inst rs)" and i: "i < length rs"
  shows "verdict_at rs i = Failing \<longleftrightarrow> failed (rs ! i) \<and> 2 \<le> streak (take i rs) \<and>
    (\<forall>j. i - streak (take i rs) \<le> j \<and> j < i \<and> verdict_at rs j = Failing \<longrightarrow>
      FAILURE_STREAK_REMIND \<le> examined_inst (rs ! i) - stamped_inst (rs ! j))"
proof -
  let ?a = "announced (take i rs)"
  have mem: "j \<in> set ?a \<longleftrightarrow> i - streak (take i rs) \<le> j \<and> j < i \<and> verdict_at rs j = Failing" for j
    using announced_iff i by simp
  have "(\<forall>j\<in>set ?a. FAILURE_STREAK_REMIND \<le> examined_inst (rs ! i) - stamped_inst (rs ! j)) \<longleftrightarrow>
      FAILURE_STREAK_REMIND \<le> examined_inst (rs ! i) - stamped_inst (rs ! last ?a)" if ne: "?a \<noteq> []"
  proof
    assume far: "FAILURE_STREAK_REMIND \<le> examined_inst (rs ! i) - stamped_inst (rs ! last ?a)"
    show "\<forall>j\<in>set ?a. FAILURE_STREAK_REMIND \<le> examined_inst (rs ! i) - stamped_inst (rs ! j)"
    proof
      fix j assume "j \<in> set ?a"
      then have "j \<le> last ?a" using sorted_le_last sorted_announced by blast
      moreover have "last ?a < i" using last_in_set [OF ne] mem by blast
      ultimately have "stamped_inst (rs ! j) \<le> stamped_inst (rs ! last ?a)"
        using sorted_nth_mono [OF mono, of j "last ?a"] i by simp
      then show "FAILURE_STREAK_REMIND \<le> examined_inst (rs ! i) - stamped_inst (rs ! j)" using far by linarith
    qed
  qed (use last_in_set [OF ne] in blast)
  then have far: "?a = [] \<or> FAILURE_STREAK_REMIND \<le> examined_inst (rs ! i) - stamped_inst (rs ! last ?a) \<longleftrightarrow>
      (\<forall>j\<in>set ?a. FAILURE_STREAK_REMIND \<le> examined_inst (rs ! i) - stamped_inst (rs ! j))"
    by (cases "?a = []") simp_all
  have "verdict_at rs i = Failing \<longleftrightarrow> failed (rs ! i) \<and> 2 \<le> streak (take i rs) \<and>
      (?a = [] \<or> FAILURE_STREAK_REMIND \<le> examined_inst (rs ! i) - stamped_inst (rs ! last ?a))"
    unfolding verdict_at_cases [OF i] by (simp add: not_less)
  then show ?thesis unfolding far by (simp only: Ball_def mem imp_conjL)
qed

lemma streak_take_Suc:
  "m < length rs \<Longrightarrow> streak (take (Suc m) rs) = (if failed (rs ! m) then streak (take m rs) + 1 else 0)"
  by (simp add: take_Suc_conv_app_nth)

lemma streak_take_back:
  "k \<le> streak (take i rs) \<Longrightarrow> i \<le> length rs \<Longrightarrow> streak (take (i - k) rs) = streak (take i rs) - k"
proof (induction k)
  case (Suc k)
  have "Suc k \<le> i" using Suc.prems streak_le [of "take i rs"] by simp
  then obtain m where m: "i - k = Suc m" "i - Suc k = m" "m < length rs"
    using Suc.prems(2) by (cases "i - k") auto
  have "streak (take (Suc m) rs) = streak (take i rs) - k" using Suc m(1) by simp
  then show ?case using streak_take_Suc [OF m(3)] m Suc.prems(1) by (simp split: if_splits)
qed simp

lemma third_failure_announced:
  assumes "i < length rs" "failed (rs ! i)" "streak (take i rs) = 2"
  shows "verdict_at rs i = Failing"
proof -
  have "j \<notin> set (announced (take i rs))" for j
  proof
    assume "j \<in> set (announced (take i rs))"
    then have j: "i - 2 \<le> j" "j < i" "verdict_at rs j = Failing"
      using announced_iff [of i rs j] assms(1,3) by auto
    have "2 \<le> streak (take j rs)" using verdict_at_cases [of j rs] j assms(1) by (simp split: if_splits)
    moreover have "streak (take (i - (i - j)) rs) = 2 - (i - j)"
      using streak_take_back [of "i - j" i rs] j assms(1,3) by simp
    ultimately show False using j by simp
  qed
  then have "announced (take i rs) = []" by (cases "announced (take i rs)") auto
  then show ?thesis using verdict_at_cases [OF assms(1)] assms by simp
qed

lemma streak_third:
  assumes "3 \<le> streak (take i rs)" "i < length rs"
  shows "failed (rs ! (i - streak (take i rs) + 2))" "streak (take (i - streak (take i rs) + 2) rs) = 2"
    "i - streak (take i rs) + 2 < i"
proof -
  have n: "streak (take i rs) \<le> i" using streak_le [of "take i rs"] assms(2) by simp
  let ?j = "i - streak (take i rs) + 2"
  have "i - (streak (take i rs) - 2) = ?j" "i - (streak (take i rs) - 3) = Suc ?j" using n assms by linarith+
  then have "streak (take ?j rs) = 2" "streak (take (Suc ?j) rs) = 3"
    using streak_take_back [of "streak (take i rs) - 2" i rs] streak_take_back [of "streak (take i rs) - 3" i rs] assms
    by simp_all
  moreover show "?j < i" using n assms by linarith
  ultimately show "failed (rs ! ?j)" "streak (take ?j rs) = 2"
    using streak_take_Suc [of ?j rs] assms(2) by (simp_all split: if_splits)
qed

subsection \<open>A trailing streak\<close>

definition ends_well :: "run list \<Rightarrow> bool" where
  "ends_well rs \<longleftrightarrow> rs = [] \<or> \<not> failed (last rs)"

lemma streak_split:
  assumes "ends_well good" "list_all failed fails"
  shows "streak (good @ fails) = length fails"
    "streak_began (good @ fails) = (if fails = [] then None else Some (finished_sys (hd fails)))"
    "last_success (good @ fails) = (if good = [] then None else Some (finished_sys (last good)))"
proof -
  have rg: "takeWhile failed (rev good) = []"
    using assms(1) by (cases good rule: rev_cases) (auto simp: ends_well_def)
  have rf: "takeWhile failed (rev fails @ ys) = rev fails @ takeWhile failed ys" for ys
    using assms(2) by (intro takeWhile_append2) (simp add: list_all_iff)
  show n: "streak (good @ fails) = length fails" by (simp add: streak_def rf rg)
  show "streak_began (good @ fails) = (if fails = [] then None else Some (finished_sys (hd fails)))"
    by (simp add: streak_began_def n nth_append hd_conv_nth)
  have "find (\<lambda>r. \<not> failed r) (rev fails @ ys) = find (\<lambda>r. \<not> failed r) ys" for ys
    using assms(2) by (induction fails arbitrary: ys rule: rev_induct) auto
  note this [of "rev good"] this [of "[]"]
  then show "last_success (good @ fails) = (if good = [] then None else Some (finished_sys (last good)))"
    using assms(1) by (cases good rule: rev_cases) (auto simp: last_success_def ends_well_def)
qed

section \<open>An invalidated database\<close>

definition reports_invalidation :: "run \<Rightarrow> bool" where
  "reports_invalidation r \<longleftrightarrow> (case snd (run_outcome r) of Some e \<Rightarrow> is_database_invalidated e | None \<Rightarrow> False)"

definition is_invalidated_line :: "journal_line \<Rightarrow> bool" where
  "is_invalidated_line l \<longleftrightarrow> (case l of Database_invalidated _ \<Rightarrow> True | _ \<Rightarrow> False)"

lemma contains_iff: "contains p s \<longleftrightarrow> (\<exists>a b. s = a @ p @ b)"
proof (induction s)
  case (Cons c cs)
  have "(\<exists>a b. c # cs = a @ p @ b) \<longleftrightarrow> (\<exists>b. c # cs = p @ b) \<or> (\<exists>a b. cs = a @ p @ b)"
    by (metis append_Cons append_Nil neq_Nil_conv list.inject)
  then show ?case using Cons starts_with_iff by simp
qed simp

definition flags_after :: "run list \<Rightarrow> flags \<Rightarrow> flags" where
  "flags_after rs fl = (if list_ex reports_invalidation rs \<and> \<not> database_invalidated fl
     then \<lparr>shutdown_requested = True, database_invalidated = True\<rparr> else fl)"

lemma no_invalidated_lines [simp]:
  "filter is_invalidated_line (run_lines r) = []" "filter is_invalidated_line (verdict_lines r s) = []"
  by (simp_all add: run_lines_def verdict_lines_def is_invalidated_line_def Let_def split: run_end.split streak_verdict.split)

lemma supervise_runs_flags:
  "jw_flags (snd (supervise_runs name cfg rs w)) = flags_after rs (jw_flags w) \<and>
   length (filter is_invalidated_line (jw_journal (snd (supervise_runs name cfg rs w)))) =
     length (filter is_invalidated_line (jw_journal w)) +
     (if list_ex reports_invalidation rs \<and> \<not> database_invalidated (jw_flags w) then 1 else 0)"
proof (induction rs rule: rev_induct)
  case Nil
  then show ?case by (simp add: supervise_runs_def flags_after_def)
next
  case (snoc r rs)
  let ?w = "snd (supervise_runs name cfg rs w)"
  have "jw_flags (snd (supervise_run name cfg r (s, v))) = flags_after [r] (jw_flags v)"
    "length (filter is_invalidated_line (jw_journal (snd (supervise_run name cfg r (s, v))))) =
      length (filter is_invalidated_line (jw_journal v)) +
      (if reports_invalidation r \<and> \<not> database_invalidated (jw_flags v) then 1 else 0)" for s v
    by (auto simp: supervise_run_def Let_def flags_after_def reports_invalidation_def stop_if_database_invalidated_def
      is_invalidated_line_def split: option.split)
  note step = this
  show ?case
    using snoc unfolding supervise_runs_snoc step
    by (cases "reports_invalidation r"; cases "list_ex reports_invalidation rs"; cases "database_invalidated (jw_flags w)")
      (simp_all add: flags_after_def)
qed

section \<open>Properties\<close>

text \<open>The status of a job is its history: after any runs, split into a part that does not end in a
  failure and the failures since, its entry in the registry counts every run, shows the last
  outcome, counts exactly the trailing failures, dates the streak from its first failure and the
  last success from the last run without an error. Timeouts alone are not failures. No other
  job's entry moves.\<close>

theorem job_status_exact:
  assumes "entry_of name w = Some st0" "ends_well good" "list_all failed fails" "good @ fails \<noteq> []"
  shows "\<exists>st. entry_of name (snd (supervise_runs name cfg (good @ fails) w)) = Some st \<and>
    js_state st = Idle \<and> js_run_count st = js_run_count st0 + length good + length fails \<and>
    js_last_outcome st = Some (fst (run_outcome (last (good @ fails)))) \<and>
    js_consecutive_failures st = length fails \<and>
    js_failing_since st = (if fails = [] then None else Some (rfc3339 (finished_sys (hd fails)))) \<and>
    js_last_success_at st = (if good = [] then None else Some (rfc3339 (finished_sys (last good)))) \<and>
    (\<forall>other. entry_of other (snd (supervise_runs name cfg (good @ fails) w)) =
       (if other = name then Some st else entry_of other w))"
proof -
  let ?rs = "good @ fails"
  let ?st = "history_status cfg ?rs st0"
  note n = streak_split [OF assms(2,3)]
  have e: "entry_of other (snd (supervise_runs name cfg ?rs w)) = (if other = name then Some ?st else entry_of other w)" for other
    using assms(1) by (simp add: history_entry)
  have st: "js_state ?st = Idle" "js_run_count ?st = js_run_count st0 + length ?rs"
    "js_last_outcome ?st = Some (fst (run_outcome (last ?rs)))" "js_consecutive_failures ?st = streak ?rs"
    "js_failing_since ?st = map_option rfc3339 (streak_began ?rs)"
    "js_last_success_at ?st = map_option rfc3339 (last_success ?rs)"
    unfolding history_status_def if_not_P [OF assms(4)] by simp_all
  show ?thesis
    by (rule exI [of _ ?st]) (use e st n in \<open>simp split: if_splits\<close>)
qed

theorem job_status_exact_witness:
  "\<exists>st. entry_of ''j'' (snd (supervise_runs ''j'' \<lparr>cfg_enabled = True, cfg_interval = ns, cfg_timeout = ns, cfg_run_on_start = True\<rparr>
      ([\<lparr>timed_out = True, ended = ReturnedOk, started_sys = 0, started_inst = 0, finished_sys = 9 * ns,
         finished_inst = 9 * ns, examined_inst = 9 * ns, stamped_inst = 9 * ns\<rparr>] @
       [\<lparr>timed_out = False, ended = ReturnedErr ''x'', started_sys = 10 * ns, started_inst = 10 * ns, finished_sys = 11 * ns,
         finished_inst = 11 * ns, examined_inst = 11 * ns, stamped_inst = 11 * ns\<rparr>])
      \<lparr>jw_registry = fst (scheduler_start 0 [((''j'', []), \<lparr>cfg_enabled = True, cfg_interval = ns, cfg_timeout = ns,
         cfg_run_on_start = True\<rparr>)]), jw_flags = \<lparr>shutdown_requested = False, database_invalidated = False\<rparr>, jw_journal = []\<rparr>)) = Some st \<and>
    js_run_count st = 2 \<and> js_consecutive_failures st = 1 \<and> js_last_outcome st = Some (Error ''x'') \<and>
    js_failing_since st = Some (rfc3339 (11 * ns))"
proof -
  let ?cfg = "\<lparr>cfg_enabled = True, cfg_interval = ns, cfg_timeout = ns, cfg_run_on_start = True\<rparr>"
  let ?w = "\<lparr>jw_registry = fst (scheduler_start 0 [((''j'', []), ?cfg)]),
    jw_flags = \<lparr>shutdown_requested = False, database_invalidated = False\<rparr>, jw_journal = []\<rparr>"
  let ?good = "[\<lparr>timed_out = True, ended = ReturnedOk, started_sys = 0, started_inst = 0, finished_sys = 9 * ns,
         finished_inst = 9 * ns, examined_inst = 9 * ns, stamped_inst = 9 * ns\<rparr>]"
  let ?fails = "[\<lparr>timed_out = False, ended = ReturnedErr ''x'', started_sys = 10 * ns, started_inst = 10 * ns, finished_sys = 11 * ns,
         finished_inst = 11 * ns, examined_inst = 11 * ns, stamped_inst = 11 * ns\<rparr>]"
  have e: "entry_of ''j'' ?w = Some (initial_status 0 ((''j'', []), ?cfg))"
    by (simp add: entry_of_def scheduler_start_def registry_insert_def new_registry_def initial_status_def)
  have g: "ends_well ?good" "list_all failed ?fails" "?good @ ?fails \<noteq> []"
    by (simp_all add: ends_well_def failed_def)
  obtain st where "entry_of ''j'' (snd (supervise_runs ''j'' ?cfg (?good @ ?fails) ?w)) = Some st"
      "js_run_count st = js_run_count (initial_status 0 ((''j'', []), ?cfg)) + length ?good + length ?fails"
      "js_last_outcome st = Some (fst (run_outcome (last (?good @ ?fails))))" "js_consecutive_failures st = length ?fails"
      "js_failing_since st = (if ?fails = [] then None else Some (rfc3339 (finished_sys (hd ?fails))))"
    using job_status_exact [OF e g, of ?cfg] by blast
  then show ?thesis by (intro exI [of _ st]) (simp add: initial_status_def run_outcome_def)
qed

text \<open>A failing job is heard, and not more than hourly: a run is announced as failing exactly when it
  fails, at least two runs before it failed in a row, and no announcement of this streak is less
  than an hour old; the third failure in a row is always announced. A recovery is announced exactly when
  a run without an error ends a streak of three or more, which had then been announced.\<close>

theorem failing_job_announcements:
  assumes "sorted (map stamped_inst rs)" "i < length rs"
  shows "(verdict_at rs i = Failing \<longleftrightarrow> failed (rs ! i) \<and> 2 \<le> streak (take i rs) \<and>
      (\<forall>j. i - streak (take i rs) \<le> j \<and> j < i \<and> verdict_at rs j = Failing \<longrightarrow>
        3600 * ns \<le> examined_inst (rs ! i) - stamped_inst (rs ! j))) \<and>
    (failed (rs ! i) \<and> streak (take i rs) = 2 \<longrightarrow> verdict_at rs i = Failing) \<and>
    (verdict_at rs i = Recovered \<longleftrightarrow> \<not> failed (rs ! i) \<and> 3 \<le> streak (take i rs)) \<and>
    (verdict_at rs i = Recovered \<longrightarrow> (\<exists>j. i - streak (take i rs) \<le> j \<and> j < i \<and> verdict_at rs j = Failing))"
proof (intro conjI)
  show "verdict_at rs i = Failing \<longleftrightarrow> failed (rs ! i) \<and> 2 \<le> streak (take i rs) \<and>
      (\<forall>j. i - streak (take i rs) \<le> j \<and> j < i \<and> verdict_at rs j = Failing \<longrightarrow>
        3600 * ns \<le> examined_inst (rs ! i) - stamped_inst (rs ! j))"
    using failing_iff [OF assms] by (simp only: FAILURE_STREAK_REMIND_def)
  show "failed (rs ! i) \<and> streak (take i rs) = 2 \<longrightarrow> verdict_at rs i = Failing"
    using third_failure_announced assms(2) by blast
  show rec: "verdict_at rs i = Recovered \<longleftrightarrow> \<not> failed (rs ! i) \<and> 3 \<le> streak (take i rs)"
    using verdict_at_cases [OF assms(2)] by simp
  show "verdict_at rs i = Recovered \<longrightarrow> (\<exists>j. i - streak (take i rs) \<le> j \<and> j < i \<and> verdict_at rs j = Failing)"
  proof
    assume "verdict_at rs i = Recovered"
    then have n: "3 \<le> streak (take i rs)" using rec by simp
    let ?j = "i - streak (take i rs) + 2"
    have "verdict_at rs ?j = Failing" "?j < i"
      using streak_third [OF n assms(2)] assms(2) third_failure_announced [of ?j rs] by simp_all
    then show "\<exists>j. i - streak (take i rs) \<le> j \<and> j < i \<and> verdict_at rs j = Failing" by (intro exI [of _ ?j]) simp
  qed
qed

theorem failing_job_announcements_witness:
  "verdict_at (replicate 4 \<lparr>timed_out = False, ended = Panicked ''x'', started_sys = 0, started_inst = 0, finished_sys = 0,
      finished_inst = 0, examined_inst = 0, stamped_inst = 0\<rparr>) 2 = Failing \<and>
   verdict_at (replicate 4 \<lparr>timed_out = False, ended = Panicked ''x'', started_sys = 0, started_inst = 0, finished_sys = 0,
      finished_inst = 0, examined_inst = 0, stamped_inst = 0\<rparr>) 3 \<noteq> Failing"
proof -
  let ?rs = "replicate 4 \<lparr>timed_out = False, ended = Panicked ''x'', started_sys = 0, started_inst = 0, finished_sys = 0,
      finished_inst = 0, examined_inst = 0, stamped_inst = 0\<rparr>"
  have s: "sorted (map stamped_inst ?rs)" "2 < length ?rs" "3 < length ?rs" by simp_all
  have f: "failed (?rs ! i) \<and> streak (take i ?rs) = i \<and> examined_inst (?rs ! i) = 0" if "i < 4" for i
    using that by (simp add: failed_def streak_def)
  have two: "verdict_at ?rs 2 = Failing"
    using failing_job_announcements [OF s(1,2)] f [of 2] by simp
  moreover have "verdict_at ?rs 3 \<noteq> Failing"
  proof
    assume "verdict_at ?rs 3 = Failing"
    then have "\<forall>j. 3 - streak (take 3 ?rs) \<le> j \<and> j < 3 \<and> verdict_at ?rs j = Failing \<longrightarrow>
        3600 * ns \<le> examined_inst (?rs ! 3) - stamped_inst (?rs ! j)"
      using failing_job_announcements [OF s(1,3), THEN conjunct1] by blast
    from this [rule_format, of 2] have "3600 * ns \<le> examined_inst (?rs ! 3) - stamped_inst (?rs ! 2)"
      using f [of 3] two by fastforce
    then show False using f [of 3] by (simp add: ns_def)
  qed
  ultimately show ?thesis by simp
qed

text \<open>An invalidated database stops the process: the supervisor requests the shutdown exactly when a
  run's error carries DuckDB's message, timed out or not, and logs it once however many runs
  and jobs report it.\<close>

theorem invalidated_database_stops:
  assumes "jw_flags w = \<lparr>shutdown_requested = False, database_invalidated = False\<rparr>"
  shows "(shutdown_requested (jw_flags (snd (supervise_runs name cfg rs w))) \<longleftrightarrow>
      (\<exists>r\<in>set rs. \<exists>a b. snd (run_outcome r) = Some (a @ DATABASE_INVALIDATED_MARKER @ b))) \<and>
    database_invalidated (jw_flags (snd (supervise_runs name cfg rs w))) =
      shutdown_requested (jw_flags (snd (supervise_runs name cfg rs w))) \<and>
    length (filter is_invalidated_line (jw_journal (snd (supervise_runs name cfg rs w)))) \<le>
      length (filter is_invalidated_line (jw_journal w)) + 1"
proof -
  have "reports_invalidation r \<longleftrightarrow> (\<exists>a b. snd (run_outcome r) = Some (a @ DATABASE_INVALIDATED_MARKER @ b))" for r
    by (auto simp: reports_invalidation_def is_database_invalidated_def contains_iff split: option.split)
  then have ex: "list_ex reports_invalidation rs \<longleftrightarrow>
      (\<exists>r\<in>set rs. \<exists>a b. snd (run_outcome r) = Some (a @ DATABASE_INVALIDATED_MARKER @ b))"
    by (simp add: list_ex_iff)
  show ?thesis
    using supervise_runs_flags [of name cfg rs w] unfolding ex [symmetric]
    by (cases "list_ex reports_invalidation rs") (simp_all add: assms flags_after_def)
qed

theorem invalidated_database_stops_witness:
  "shutdown_requested (jw_flags (snd (supervise_runs ''j'' \<lparr>cfg_enabled = True, cfg_interval = ns, cfg_timeout = ns,
      cfg_run_on_start = True\<rparr> [\<lparr>timed_out = True, ended = ReturnedErr (''FATAL: '' @ DATABASE_INVALIDATED_MARKER @ ''.''),
        started_sys = 0, started_inst = 0, finished_sys = ns, finished_inst = ns, examined_inst = ns, stamped_inst = ns\<rparr>]
      \<lparr>jw_registry = new_registry, jw_flags = \<lparr>shutdown_requested = False, database_invalidated = False\<rparr>, jw_journal = []\<rparr>)))"
proof -
  let ?w = "\<lparr>jw_registry = new_registry, jw_flags = \<lparr>shutdown_requested = False, database_invalidated = False\<rparr>, jw_journal = []\<rparr>"
  let ?r = "\<lparr>timed_out = True, ended = ReturnedErr (''FATAL: '' @ DATABASE_INVALIDATED_MARKER @ ''.''),
        started_sys = 0, started_inst = 0, finished_sys = ns, finished_inst = ns, examined_inst = ns, stamped_inst = ns\<rparr>"
  have "snd (run_outcome ?r) = Some (''FATAL: '' @ DATABASE_INVALIDATED_MARKER @ ''.'')" by (simp add: run_outcome_def)
  then have "\<exists>r\<in>set [?r]. \<exists>a b. snd (run_outcome r) = Some (a @ DATABASE_INVALIDATED_MARKER @ b)"
    by (metis list.set_intros(1))
  then show ?thesis
    using invalidated_database_stops [of ?w "''j''" "\<lparr>cfg_enabled = True, cfg_interval = ns, cfg_timeout = ns,
      cfg_run_on_start = True\<rparr>" "[?r]"] by (simp only: job_world.simps)
qed

end
