(* ===== verification/Job_Handshake.thy ===== *)
theory Job_Handshake
  imports Main
begin

text \<open>
  The stop handshake between \<open>Scheduler::shutdown\<close> and one \<open>supervise\<close> task of
  \<open>src/server/jobs/mod.rs\<close>, as interleaved atomic steps over the \<open>stop\<close> and \<open>cancel\<close> flags and
  the \<open>Notify\<close>. \<open>notify_waiters\<close> wakes exactly the futures registered when it runs and is not
  remembered. The ticker may fire at any time; a run may time out and may end at any time.
\<close>

section \<open>Steps\<close>

datatype sup_pc = Top | Enabled | Selecting | Ticked | Resetting | Working | Exited

datatype shut_pc = Serving | Stop_stored | Cancel_stored | Notified

record handshake =
  pc :: sup_pc
  stop :: bool
  cancel :: bool
  registered :: bool
  woken :: bool
  shut :: shut_pc

definition start_handshake :: handshake where
  "start_handshake = \<lparr>pc = Top, stop = False, cancel = False, registered = False, woken = False, shut = Serving\<rparr>"

text \<open>The supervisor's steps that need no timer: registering the waiter, the two reads of \<open>stop\<close>,
  the wake-up, the reset of \<open>cancel\<close> and the timeout and the end of a run.\<close>

inductive prompt_step :: "handshake \<Rightarrow> handshake \<Rightarrow> bool" where
  enable: "pc s = Top \<Longrightarrow> prompt_step s (s\<lparr>pc := Enabled, registered := True, woken := False\<rparr>)"
| leave: "pc s = Enabled \<Longrightarrow> stop s \<Longrightarrow> prompt_step s (s\<lparr>pc := Exited\<rparr>)"
| await: "pc s = Enabled \<Longrightarrow> \<not> stop s \<Longrightarrow> prompt_step s (s\<lparr>pc := Selecting\<rparr>)"
| wake: "pc s = Selecting \<Longrightarrow> woken s \<Longrightarrow> prompt_step s (s\<lparr>pc := Top, registered := False\<rparr>)"
| leave_ticked: "pc s = Ticked \<Longrightarrow> stop s \<Longrightarrow> prompt_step s (s\<lparr>pc := Exited\<rparr>)"
| enter: "pc s = Ticked \<Longrightarrow> \<not> stop s \<Longrightarrow> prompt_step s (s\<lparr>pc := Resetting\<rparr>)"
| reset: "pc s = Resetting \<Longrightarrow> prompt_step s (s\<lparr>pc := Working, cancel := False\<rparr>)"
| timeout: "pc s = Working \<Longrightarrow> prompt_step s (s\<lparr>cancel := True\<rparr>)"
| finish: "pc s = Working \<Longrightarrow> prompt_step s (s\<lparr>pc := Top, registered := False\<rparr>)"

inductive supervisor_step :: "handshake \<Rightarrow> handshake \<Rightarrow> bool" where
  prompt: "prompt_step s s' \<Longrightarrow> supervisor_step s s'"
| tick: "pc s = Selecting \<Longrightarrow> supervisor_step s (s\<lparr>pc := Ticked\<rparr>)"

inductive shutdown_step :: "handshake \<Rightarrow> handshake \<Rightarrow> bool" where
  store_stop: "shut s = Serving \<Longrightarrow> shutdown_step s (s\<lparr>shut := Stop_stored, stop := True\<rparr>)"
| store_cancel: "shut s = Stop_stored \<Longrightarrow> shutdown_step s (s\<lparr>shut := Cancel_stored, cancel := True\<rparr>)"
| notify: "shut s = Cancel_stored \<Longrightarrow> shutdown_step s (s\<lparr>shut := Notified, woken := woken s \<or> registered s\<rparr>)"

inductive hs_reachable :: "handshake \<Rightarrow> bool" where
  start: "hs_reachable start_handshake"
| supervisor: "hs_reachable s \<Longrightarrow> supervisor_step s s' \<Longrightarrow> hs_reachable s'"
| shutdown: "hs_reachable s \<Longrightarrow> shutdown_step s s' \<Longrightarrow> hs_reachable s'"

inductive_cases prompt_stepE: "prompt_step s s'"
inductive_cases supervisor_stepE: "supervisor_step s s'"
inductive_cases shutdown_stepE: "shutdown_step s s'"

section \<open>The invariant\<close>

definition hs_inv :: "handshake \<Rightarrow> bool" where
  "hs_inv s \<longleftrightarrow> (shut s \<noteq> Serving \<longrightarrow> stop s) \<and> (pc s \<in> {Enabled, Selecting} \<longrightarrow> registered s) \<and>
     (pc s = Selecting \<and> shut s = Notified \<longrightarrow> woken s)"

lemma prompt_inv: "prompt_step s s' \<Longrightarrow> hs_inv s \<Longrightarrow> hs_inv s'"
  by (erule prompt_stepE) (auto simp: hs_inv_def)

lemma supervisor_inv: "supervisor_step s s' \<Longrightarrow> hs_inv s \<Longrightarrow> hs_inv s'"
  by (erule supervisor_stepE) (auto intro: prompt_inv, auto simp: hs_inv_def)

lemma shutdown_inv: "shutdown_step s s' \<Longrightarrow> hs_inv s \<Longrightarrow> hs_inv s'"
  by (erule shutdown_stepE) (auto simp: hs_inv_def)

lemma reachable_inv: "hs_reachable s \<Longrightarrow> hs_inv s"
proof (induction rule: hs_reachable.induct)
  case start
  then show ?case by (simp add: hs_inv_def start_handshake_def)
qed (auto intro: supervisor_inv shutdown_inv)

section \<open>After the notification\<close>

definition winding_down :: "handshake \<Rightarrow> bool" where
  "winding_down s \<longleftrightarrow> hs_inv s \<and> shut s = Notified \<and> pc s \<notin> {Resetting, Working}"

fun rank :: "sup_pc \<Rightarrow> nat" where
  "rank Selecting = 4"
| "rank Top = 3"
| "rank Enabled = 2"
| "rank Ticked = 1"
| "rank _ = 0"

lemma winding_down_step:
  assumes "winding_down s" "supervisor_step s s'"
  shows "winding_down s' \<and> rank (pc s') < rank (pc s)"
  using assms(2)
proof (cases rule: supervisor_step.cases)
  case prompt
  then show ?thesis
    using assms(1) prompt_inv by (cases rule: prompt_step.cases) (auto simp: winding_down_def hs_inv_def)
next
  case tick
  then show ?thesis using assms(1) by (auto simp: winding_down_def hs_inv_def)
qed

lemma winding_down_enabled:
  assumes "winding_down s" "pc s \<noteq> Exited"
  shows "\<exists>s'. prompt_step s s'"
proof (cases "pc s")
  case Top
  then show ?thesis using enable by blast
next
  case Enabled
  then show ?thesis using leave await by blast
next
  case Selecting
  then have "woken s" using assms(1) by (simp add: winding_down_def hs_inv_def)
  then show ?thesis using wake [OF Selecting] by blast
next
  case Ticked
  then show ?thesis using leave_ticked enter by blast
qed (use assms in \<open>simp_all add: winding_down_def\<close>)

lemma winding_down_exits: "winding_down s \<Longrightarrow> \<exists>t. prompt_step\<^sup>*\<^sup>* s t \<and> pc t = Exited"
proof (induction "rank (pc s)" arbitrary: s rule: less_induct)
  case less
  show ?case
  proof (cases "pc s = Exited")
    case False
    then obtain s' where s': "prompt_step s s'" using winding_down_enabled less.prems by blast
    then have "winding_down s' \<and> rank (pc s') < rank (pc s)"
      using winding_down_step [OF less.prems] supervisor_step.prompt by blast
    then obtain t where "prompt_step\<^sup>*\<^sup>* s' t" "pc t = Exited" using less.hyps by blast
    then show ?thesis using s' by (meson converse_rtranclp_into_rtranclp)
  qed blast
qed

lemma winding_down_steps:
  "(supervisor_step ^^ n) s t \<Longrightarrow> winding_down s \<Longrightarrow> winding_down t \<and> rank (pc t) + n \<le> rank (pc s)"
proof (induction n arbitrary: t)
  case (Suc n)
  then obtain u where u: "(supervisor_step ^^ n) s u" "supervisor_step u t" by auto
  then show ?case using Suc winding_down_step [of u t] by fastforce
qed simp

lemma reachable_winding_down:
  "hs_reachable s \<Longrightarrow> shut s = Notified \<Longrightarrow> pc s \<notin> {Resetting, Working} \<Longrightarrow> winding_down s"
  using reachable_inv by (simp add: winding_down_def)

section \<open>Properties\<close>

lemma notified_stays: "supervisor_step s s' \<Longrightarrow> shut s' = shut s"
  by (erule supervisor_stepE) (auto elim: prompt_stepE)

lemma notified_enters_no_run: "hs_inv s \<Longrightarrow> shut s = Notified \<Longrightarrow> supervisor_step s s' \<Longrightarrow> pc s' \<noteq> Resetting"
  by (erule supervisor_stepE) (auto elim!: prompt_stepE simp: hs_inv_def)

lemma notified_later:
  "supervisor_step\<^sup>*\<^sup>* s t \<Longrightarrow> hs_reachable s \<Longrightarrow> shut s = Notified \<Longrightarrow> hs_reachable t \<and> shut t = Notified"
  by (induction rule: rtranclp_induct) (auto intro: hs_reachable.supervisor simp: notified_stays)

lemma notified_exits:
  assumes "hs_reachable s" "shut s = Notified"
  shows "\<exists>t. prompt_step\<^sup>*\<^sup>* s t \<and> pc t = Exited"
proof -
  have end_run: "\<exists>t. prompt_step\<^sup>*\<^sup>* s t \<and> pc t = Exited" if "hs_reachable s" "shut s = Notified" "pc s = Working" for s
  proof -
    note step = finish [OF that(3)]
    have "winding_down (s\<lparr>pc := Top, registered := False\<rparr>)"
      using reachable_winding_down [OF hs_reachable.supervisor [OF that(1) prompt [OF step]]] that by simp
    then show ?thesis using winding_down_exits step by (meson converse_rtranclp_into_rtranclp)
  qed
  show ?thesis
  proof (cases "pc s = Resetting")
    case True
    note step = reset [OF True]
    have "\<exists>t. prompt_step\<^sup>*\<^sup>* (s\<lparr>pc := Working, cancel := False\<rparr>) t \<and> pc t = Exited"
      using end_run [OF hs_reachable.supervisor [OF assms(1) prompt [OF step]]] assms by simp
    then show ?thesis using step by (meson converse_rtranclp_into_rtranclp)
  next
    case False
    then show ?thesis using end_run assms winding_down_exits reachable_winding_down by (cases "pc s = Working") auto
  qed
qed

lemma notified_not_blocked:
  assumes "hs_reachable s" "shut s = Notified"
  shows "pc s = Exited \<or> (\<exists>u. prompt_step s u)"
  using notified_exits [OF assms] by (metis converse_rtranclpE)

text \<open>C38: a shutdown is never slept through. Once \<open>Scheduler::shutdown\<close> has notified, and wherever the
  supervisor then stands: it is never blocked on its ticker, whose period may be a day, and it exits
  as soon as the run it may have ends; unless it is in a run, or past its last read of \<open>stop\<close> and
  about to reset \<open>cancel\<close> for one (\<open>Resetting\<close>), it exits within four of its steps with no run; and the
  only run that can still start is that one, of a supervisor that was in \<open>Resetting\<close> at the notification.
  However the stores, the notification and the supervisor's reads interleaved.\<close>

theorem shutdown_wakes_supervisor:
  assumes "hs_reachable s" "shut s = Notified"
  shows "(\<exists>t. prompt_step\<^sup>*\<^sup>* s t \<and> pc t = Exited) \<and>
    (\<forall>t. supervisor_step\<^sup>*\<^sup>* s t \<longrightarrow> pc t = Exited \<or> (\<exists>u. prompt_step t u)) \<and>
    (\<forall>n t. pc s \<notin> {Resetting, Working} \<and> (supervisor_step ^^ n) s t \<longrightarrow> n \<le> 4 \<and> pc t \<notin> {Resetting, Working}) \<and>
    (\<forall>t u. supervisor_step\<^sup>*\<^sup>* s t \<and> supervisor_step t u \<and> pc t \<noteq> Working \<and> pc u = Working \<longrightarrow> t = s \<and> pc s = Resetting)"
proof (intro conjI allI impI)
  show "\<exists>t. prompt_step\<^sup>*\<^sup>* s t \<and> pc t = Exited" by (rule notified_exits [OF assms])
next
  fix t assume "supervisor_step\<^sup>*\<^sup>* s t"
  then show "pc t = Exited \<or> (\<exists>u. prompt_step t u)" using notified_later notified_not_blocked assms by blast
next
  fix n t assume a: "pc s \<notin> {Resetting, Working} \<and> (supervisor_step ^^ n) s t"
  have "rank (pc s) \<le> 4" by (cases "pc s") simp_all
  then show "n \<le> 4" "pc t \<notin> {Resetting, Working}"
    using a winding_down_steps [of n s t] reachable_winding_down [OF assms] by (auto simp: winding_down_def)
next
  fix t u assume a: "supervisor_step\<^sup>*\<^sup>* s t \<and> supervisor_step t u \<and> pc t \<noteq> Working \<and> pc u = Working"
  then have "pc t = Resetting" by (auto elim!: supervisor_stepE prompt_stepE)
  then show "t = s" using a
    by (metis assms notified_later notified_enters_no_run reachable_inv rtranclp.cases)
  then show "pc s = Resetting" using \<open>pc t = Resetting\<close> by simp
qed

lemma idle_notified_reachable:
  "hs_reachable \<lparr>pc = Selecting, stop = True, cancel = True, registered = True, woken = True, shut = Notified\<rparr>"
proof -
  have "hs_reachable \<lparr>pc = Enabled, stop = False, cancel = False, registered = True, woken = False, shut = Serving\<rparr>"
    using supervisor [OF start prompt [OF enable]] by (simp add: start_handshake_def)
  from supervisor [OF this prompt [OF await]]
  have "hs_reachable \<lparr>pc = Selecting, stop = False, cancel = False, registered = True, woken = False, shut = Serving\<rparr>" by simp
  from shutdown [OF this store_stop]
  have "hs_reachable \<lparr>pc = Selecting, stop = True, cancel = False, registered = True, woken = False, shut = Stop_stored\<rparr>" by simp
  from shutdown [OF this store_cancel]
  have "hs_reachable \<lparr>pc = Selecting, stop = True, cancel = True, registered = True, woken = False, shut = Cancel_stored\<rparr>" by simp
  from shutdown [OF this notify] show ?thesis by simp
qed

lemma late_notified_reachable:
  "hs_reachable \<lparr>pc = Resetting, stop = True, cancel = True, registered = True, woken = True, shut = Notified\<rparr>"
proof -
  have "hs_reachable \<lparr>pc = Enabled, stop = False, cancel = False, registered = True, woken = False, shut = Serving\<rparr>"
    using supervisor [OF start prompt [OF enable]] by (simp add: start_handshake_def)
  from supervisor [OF this prompt [OF await]]
  have "hs_reachable \<lparr>pc = Selecting, stop = False, cancel = False, registered = True, woken = False, shut = Serving\<rparr>" by simp
  from supervisor [OF this tick]
  have "hs_reachable \<lparr>pc = Ticked, stop = False, cancel = False, registered = True, woken = False, shut = Serving\<rparr>" by simp
  from supervisor [OF this prompt [OF enter]]
  have "hs_reachable \<lparr>pc = Resetting, stop = False, cancel = False, registered = True, woken = False, shut = Serving\<rparr>" by simp
  from shutdown [OF this store_stop]
  have "hs_reachable \<lparr>pc = Resetting, stop = True, cancel = False, registered = True, woken = False, shut = Stop_stored\<rparr>" by simp
  from shutdown [OF this store_cancel]
  have "hs_reachable \<lparr>pc = Resetting, stop = True, cancel = True, registered = True, woken = False, shut = Cancel_stored\<rparr>" by simp
  from shutdown [OF this notify] show ?thesis by simp
qed

text \<open>From the ticker's wait no run starts; from \<open>Resetting\<close> the one run starts and can still end.\<close>

theorem shutdown_wakes_supervisor_witness:
  "(\<nexists>n t. (supervisor_step ^^ n) \<lparr>pc = Selecting, stop = True, cancel = True, registered = True, woken = True, shut = Notified\<rparr> t \<and>
      (n > 4 \<or> pc t = Working)) \<and>
    (\<exists>t. prompt_step\<^sup>*\<^sup>* \<lparr>pc = Resetting, stop = True, cancel = True, registered = True, woken = True, shut = Notified\<rparr> t \<and> pc t = Exited)"
proof -
  let ?s = "\<lparr>pc = Selecting, stop = True, cancel = True, registered = True, woken = True, shut = Notified\<rparr>"
  have "n \<le> 4 \<and> pc t \<noteq> Working" if "(supervisor_step ^^ n) ?s t" for n t
    using shutdown_wakes_supervisor [OF idle_notified_reachable] that by simp
  then have "\<nexists>n t. (supervisor_step ^^ n) ?s t \<and> (n > 4 \<or> pc t = Working)" by (meson linorder_not_le)
  then show ?thesis using shutdown_wakes_supervisor [OF late_notified_reachable] by simp
qed

text \<open>The shutdown's cancellation can be lost: between the supervisor's second read of \<open>stop\<close> and its
  reset of \<open>cancel\<close> there is room for the whole of \<open>Scheduler::shutdown\<close>, whose \<open>cancel\<close> the reset
  then undoes: the run that starts sees no cancellation, though the shutdown has completed.\<close>

theorem shutdown_cancel_lost:
  "\<exists>s. hs_reachable s \<and> shut s = Notified \<and> stop s \<and> pc s = Working \<and> \<not> cancel s"
proof -
  from supervisor [OF late_notified_reachable prompt [OF reset]]
  have "hs_reachable \<lparr>pc = Working, stop = True, cancel = False, registered = True, woken = True, shut = Notified\<rparr>" by simp
  then show ?thesis by (metis handshake.select_convs)
qed

end
