(* ===== verification/Match_Rule.thy ===== *)
theory Match_Rule
  imports Float64
begin

text \<open>
  \<open>src/compare/rule.rs\<close>: which government building is offered for import. The Rust code
  composes SQL; modelled here is the set of rows each composed statement selects, clause by clause.
  DuckDB's spatial functions are parameters: \<open>ST_Intersects\<close>, the quotient
  \<open>ST_Area(ST_Intersection(o, b)) / ST_Area(b)\<close> (\<open>None\<close> for SQL's NULL), \<open>ST_MakeEnvelope\<close>,
  the coordinates and extent of a geometry, the tile projection of \<open>src/tile_math.rs\<close> in its
  SQL spelling (\<open>cell_x_sql\<close>, \<open>cell_y_sql\<close>) and its inverse \<open>tile_to_bbox\<close>.
\<close>

type_synonym bounds = "rat \<times> rat \<times> rat \<times> rat"

record 'g sql_spatial =
  sp_intersects :: "'g \<Rightarrow> 'g \<Rightarrow> bool"
  sp_covered :: "'g \<Rightarrow> 'g \<Rightarrow> rat option"
  sp_envelope :: "bounds \<Rightarrow> 'g"
  sp_x :: "'g \<Rightarrow> rat"
  sp_y :: "'g \<Rightarrow> rat"
  sp_extent :: "'g list \<Rightarrow> (f64 \<times> f64 \<times> f64 \<times> f64) option"
  sp_cell :: "'g \<Rightarrow> cell"
  sp_tile_to_bbox :: "cell \<Rightarrow> bounds"
  sp_distance :: "'g \<Rightarrow> 'g \<Rightarrow> rat"

section \<open>Rows\<close>

record 'g building =
  b_key :: "string list"
  b_geom :: 'g
  b_centroid :: 'g
  b_category :: "string option"

record report =
  r_status :: string
  r_source :: string
  r_record_key :: "string list"

text \<open>What the rule reads beside the source table: the geometries of \<open>osm_buildings\<close> and
  \<open>osm_former_buildings\<close>, and \<open>object_reports\<close>.\<close>

record 'g rule_tables =
  osm_buildings :: "'g list"
  osm_former_buildings :: "'g list"
  object_reports :: "report list"

section \<open>The clauses\<close>

definition REPORT_ACTIVE :: string where
  "REPORT_ACTIVE = ''active''"

definition MIN_OVERLAP_FRACTION :: rat where
  "MIN_OVERLAP_FRACTION = round53 (1 / 10)"

definition FORMER_BUILDING_MIN_OVERLAP_FRACTION :: rat where
  "FORMER_BUILDING_MIN_OVERLAP_FRACTION = round53 (1 / 10)"

definition BDOT10K_EKSPLOATOWANY_FILTER :: "'g building \<Rightarrow> bool" where
  "BDOT10K_EKSPLOATOWANY_FILTER b \<longleftrightarrow> b_category b = Some ''eksploatowany''"

text \<open>A comparison with NULL is not true.\<close>

definition at_least :: "rat option \<Rightarrow> rat \<Rightarrow> bool" where
  "at_least q t = (case q of Some v \<Rightarrow> t \<le> v | None \<Rightarrow> False)"

definition osm_building_covers :: "'g sql_spatial \<Rightarrow> 'g rule_tables \<Rightarrow> 'g \<Rightarrow> 'g building \<Rightarrow> bool" where
  "osm_building_covers sp t envelope b =
     list_ex (\<lambda>osm. sp_intersects sp osm envelope \<and> sp_intersects sp osm (b_geom b) \<and>
       at_least (sp_covered sp osm (b_geom b)) MIN_OVERLAP_FRACTION) (osm_buildings t)"

definition former_building_covers :: "'g sql_spatial \<Rightarrow> 'g rule_tables \<Rightarrow> 'g \<Rightarrow> 'g building \<Rightarrow> bool" where
  "former_building_covers sp t envelope b =
     list_ex (\<lambda>f. sp_intersects sp f envelope \<and> sp_intersects sp f (b_geom b) \<and>
       at_least (sp_covered sp f (b_geom b)) FORMER_BUILDING_MIN_OVERLAP_FRACTION) (osm_former_buildings t)"

definition reported :: "'g rule_tables \<Rightarrow> string \<Rightarrow> string list \<Rightarrow> bool" where
  "reported t source key =
     list_ex (\<lambda>r. r_status r = REPORT_ACTIVE \<and> r_source r = source \<and> r_record_key r = key) (object_reports t)"

text \<open>\<open>extra\<close> is the optional filter, \<open>\<lambda>_. True\<close> when there is none.\<close>

definition unmatched_buildings ::
  "'g sql_spatial \<Rightarrow> 'g rule_tables \<Rightarrow> string \<Rightarrow> bounds \<Rightarrow> ('g building \<Rightarrow> bool) \<Rightarrow> 'g building list \<Rightarrow> 'g building list" where
  "unmatched_buildings sp t source area extra rows =
     (let envelope = sp_envelope sp area
      in filter (\<lambda>b. sp_intersects sp (b_centroid b) envelope \<and> extra b \<and>
           \<not> osm_building_covers sp t envelope b \<and> \<not> former_building_covers sp t envelope b \<and>
           \<not> reported t source (b_key b)) rows)"

definition suppressed_buildings ::
  "'g sql_spatial \<Rightarrow> 'g rule_tables \<Rightarrow> bounds \<Rightarrow> ('g building \<Rightarrow> bool) \<Rightarrow> 'g building list \<Rightarrow> 'g building list" where
  "suppressed_buildings sp t area extra rows =
     (let envelope = sp_envelope sp area;
          candidates = filter (\<lambda>b. sp_intersects sp (b_centroid b) envelope \<and> extra b \<and>
            former_building_covers sp t envelope b) rows
      in filter (\<lambda>b. \<not> osm_building_covers sp t envelope b) candidates)"

definition reported_buildings ::
  "'g sql_spatial \<Rightarrow> 'g rule_tables \<Rightarrow> string \<Rightarrow> bounds \<Rightarrow> ('g building \<Rightarrow> bool) \<Rightarrow> 'g building list \<Rightarrow> 'g building list" where
  "reported_buildings sp t source area extra rows =
     (let envelope = sp_envelope sp area;
          candidates = filter (\<lambda>b. sp_intersects sp (b_centroid b) envelope \<and> extra b \<and>
            reported t source (b_key b)) rows
      in filter (\<lambda>b. \<not> osm_building_covers sp t envelope b \<and> \<not> former_building_covers sp t envelope b) candidates)"

section \<open>The four categories of one area\<close>

definition in_scope :: "'g sql_spatial \<Rightarrow> bounds \<Rightarrow> ('g building \<Rightarrow> bool) \<Rightarrow> 'g building \<Rightarrow> bool" where
  "in_scope sp area extra b \<longleftrightarrow> sp_intersects sp (b_centroid b) (sp_envelope sp area) \<and> extra b"

definition matched_buildings ::
  "'g sql_spatial \<Rightarrow> 'g rule_tables \<Rightarrow> bounds \<Rightarrow> ('g building \<Rightarrow> bool) \<Rightarrow> 'g building list \<Rightarrow> 'g building list" where
  "matched_buildings sp t area extra rows =
     filter (\<lambda>b. in_scope sp area extra b \<and> osm_building_covers sp t (sp_envelope sp area) b) rows"

lemma category_lengths:
  "length (filter (in_scope sp area extra) rows) =
     length (matched_buildings sp t area extra rows) + length (suppressed_buildings sp t area extra rows) +
     length (reported_buildings sp t source area extra rows) + length (unmatched_buildings sp t source area extra rows)"
  by (induction rows)
    (auto simp: matched_buildings_def suppressed_buildings_def reported_buildings_def unmatched_buildings_def
      in_scope_def Let_def)

text \<open>Disjointness in the precedence matched, suppressed, reported, unmatched.\<close>

lemma categories_disjoint:
  "set (matched_buildings sp t area extra rows) \<inter> set (suppressed_buildings sp t area extra rows) = {}"
  "set (matched_buildings sp t area extra rows) \<inter> set (reported_buildings sp t source area extra rows) = {}"
  "set (matched_buildings sp t area extra rows) \<inter> set (unmatched_buildings sp t source area extra rows) = {}"
  "set (suppressed_buildings sp t area extra rows) \<inter> set (reported_buildings sp t source area extra rows) = {}"
  "set (suppressed_buildings sp t area extra rows) \<inter> set (unmatched_buildings sp t source area extra rows) = {}"
  "set (reported_buildings sp t source area extra rows) \<inter> set (unmatched_buildings sp t source area extra rows) = {}"
  by (auto simp: matched_buildings_def suppressed_buildings_def reported_buildings_def unmatched_buildings_def Let_def)

text \<open>The vetoes read existence only: a second report on an object, or a second polygon, changes nothing.\<close>

lemma reported_dup: "r \<in> set (object_reports t) \<Longrightarrow>
  reported (t\<lparr>object_reports := r # object_reports t\<rparr>) source key = reported t source key"
  by (auto simp: reported_def list_ex_iff)

end
