(* ===== verification/Compare_Buildings.thy ===== *)
theory Compare_Buildings
  imports Match_Rule "HOL-Library.Multiset"
begin

text \<open>
  \<open>src/compare/buildings.rs\<close>, \<open>src/compare/incremental.rs\<close> and \<open>src/compare/totals.rs\<close> for one
  building source, with \<open>in_transaction\<close> of \<open>src/compare/mod.rs\<close>: the full comparison over a grid,
  the recomputation of one z14 cell and the per-cell denominators. Grid coordinates are
  multiples of \<open>GRID_STEP\<close> and exact in \<open>f64\<close>.
\<close>

section \<open>State\<close>

text \<open>The live table, the tables the rule reads, \<open><source>_unmatched\<close> with the cell of each row, and
  the source's part of \<open>cell_totals\<close>.\<close>

record 'g compare_state =
  cs_rows :: "'g building list"
  cs_tables :: "'g rule_tables"
  cs_unmatched :: "('g building \<times> cell) list"
  cs_totals :: "cell \<rightharpoonup> nat"

record 'g building_source =
  bs_name :: string
  bs_extra :: "'g building \<Rightarrow> bool"

definition bdot10k_source :: "'g building_source" where
  "bdot10k_source = \<lparr>bs_name = ''bdot10k'', bs_extra = BDOT10K_EKSPLOATOWANY_FILTER\<rparr>"

definition egib_source :: "'g building_source" where
  "egib_source = \<lparr>bs_name = ''egib'', bs_extra = (\<lambda>_. True)\<rparr>"

definition tagged :: "'g sql_spatial \<Rightarrow> 'g building \<Rightarrow> 'g building \<times> cell" where
  "tagged sp b = (b, sp_cell sp (b_centroid b))"

section \<open>Transactions\<close>

definition in_transaction :: "bool \<Rightarrow> bool \<Rightarrow> ('s \<Rightarrow> (string + 'a) \<times> 's) \<Rightarrow> 's \<Rightarrow> (string + 'a) \<times> 's" where
  "in_transaction begins commits f s =
     (if \<not> begins then (Inl ''failed to begin transaction'', s)
      else (case f s of
          (Inr v, s') \<Rightarrow> if commits then (Inr v, s') else (Inl ''failed to commit'', s)
        | (Inl e, _) \<Rightarrow> (Inl e, s)))"

section \<open>The denominators\<close>

definition positive :: "nat \<Rightarrow> nat option" where
  "positive n = (if 0 < n then Some n else None)"

definition rebuild_all_totals :: "'g sql_spatial \<Rightarrow> 'g building_source \<Rightarrow> 'g compare_state \<Rightarrow> 'g compare_state" where
  "rebuild_all_totals sp src s =
     s\<lparr>cs_totals := (\<lambda>c. positive (length (filter (\<lambda>b. bs_extra src b \<and> sp_cell sp (b_centroid b) = c) (cs_rows s))))\<rparr>"

definition recompute_cell_total :: "'g sql_spatial \<Rightarrow> 'g building_source \<Rightarrow> cell \<Rightarrow> 'g compare_state \<Rightarrow> 'g compare_state" where
  "recompute_cell_total sp src c s =
     (let envelope = sp_envelope sp (sp_tile_to_bbox sp c);
          candidates = filter (\<lambda>b. sp_intersects sp (b_centroid b) envelope \<and> bs_extra src b) (cs_rows s)
      in s\<lparr>cs_totals := (cs_totals s)(c := positive (length (filter (\<lambda>b. sp_intersects sp (b_centroid b) envelope \<and>
           bs_extra src b \<and> sp_cell sp (b_centroid b) = c) candidates)))\<rparr>)"

section \<open>One cell\<close>

definition recompute_cell :: "'g sql_spatial \<Rightarrow> 'g building_source \<Rightarrow> cell \<Rightarrow> 'g compare_state \<Rightarrow> 'g compare_state" where
  "recompute_cell sp src c s =
     (let area = sp_tile_to_bbox sp c;
          candidates = filter (\<lambda>b. sp_intersects sp (b_centroid b) (sp_envelope sp area) \<and> bs_extra src b) (cs_rows s);
          inner = filter (\<lambda>b. sp_cell sp (b_centroid b) = c)
            (unmatched_buildings sp (cs_tables s) (bs_name src) area (bs_extra src) candidates)
      in recompute_cell_total sp src c
           (s\<lparr>cs_unmatched := filter (\<lambda>(_, c'). c' \<noteq> c) (cs_unmatched s) @ map (tagged sp) inner\<rparr>))"

section \<open>The grid\<close>

definition GRID_STEP :: rat where
  "GRID_STEP = 2"

definition snap :: "rat \<Rightarrow> rat" where
  "snap x = of_int \<lfloor>x / GRID_STEP\<rfloor> * GRID_STEP"

definition FALLBACK_EXTENT :: bounds where
  "FALLBACK_EXTENT = (14, 49, 25, 55)"

definition max_grid_cells :: rat where
  "max_grid_cells = (case FALLBACK_EXTENT of (x1, y1, x2, y2) \<Rightarrow>
     8 * of_int \<lceil>(x2 - x1) / GRID_STEP\<rceil> * of_int \<lceil>(y2 - y1) / GRID_STEP\<rceil>)"

definition source_grid_extent :: "'g sql_spatial \<Rightarrow> 'g building list \<Rightarrow> string + bounds" where
  "source_grid_extent sp rows =
     (case sp_extent sp (map b_geom rows) of
        None \<Rightarrow> Inr FALLBACK_EXTENT
      | Some (Fin x1, Fin y1, Fin x2, Fin y2) \<Rightarrow>
          (let lo_x = snap x1; lo_y = snap y1; hi_x = snap x2 + GRID_STEP; hi_y = snap y2 + GRID_STEP
           in if max_grid_cells < ((hi_x - lo_x) / GRID_STEP) * ((hi_y - lo_y) / GRID_STEP)
              then Inl ''over the cell cap'' else Inr (lo_x, lo_y, hi_x, hi_y))
      | _ \<Rightarrow> Inl ''extent is not finite'')"

function grid_axis :: "rat \<Rightarrow> rat \<Rightarrow> rat list" where
  "grid_axis x hi = (if x < hi then x # grid_axis (x + GRID_STEP) hi else [])"
  by pat_completeness auto
termination
proof (relation "measure (\<lambda>(x, hi). nat \<lceil>hi - x\<rceil>)")
  fix x hi :: rat assume "x < hi"
  then have "0 < \<lceil>hi - x\<rceil>" by simp
  moreover have "hi - (x + GRID_STEP) = (hi - x) - of_int 2" by (simp add: GRID_STEP_def)
  then have "\<lceil>hi - (x + GRID_STEP)\<rceil> = \<lceil>hi - x\<rceil> - 2" by (simp only: ceiling_diff_of_int)
  ultimately show "((x + GRID_STEP, hi), x, hi) \<in> measure (\<lambda>(x, hi). nat \<lceil>hi - x\<rceil>)" by simp
qed simp

declare grid_axis.simps [simp del]

definition grid_cells :: "bounds \<Rightarrow> bounds list" where
  "grid_cells ext = (case ext of (min_x, min_y, max_x, max_y) \<Rightarrow>
     concat (map (\<lambda>y. map (\<lambda>x. (x, y, x + GRID_STEP, y + GRID_STEP)) (grid_axis min_x max_x)) (grid_axis min_y max_y)))"

definition owned :: "'g sql_spatial \<Rightarrow> bounds \<Rightarrow> 'g building \<Rightarrow> bool" where
  "owned sp area b = (case area of (x, y, x_hi, y_hi) \<Rightarrow>
     x \<le> sp_x sp (b_centroid b) \<and> sp_x sp (b_centroid b) < x_hi \<and>
     y \<le> sp_y sp (b_centroid b) \<and> sp_y sp (b_centroid b) < y_hi)"

definition compare_cell :: "'g sql_spatial \<Rightarrow> 'g building_source \<Rightarrow> 'g compare_state \<Rightarrow> bounds \<Rightarrow> ('g building \<times> cell) list" where
  "compare_cell sp src s area = map (tagged sp) (filter (owned sp area)
     (unmatched_buildings sp (cs_tables s) (bs_name src) area (bs_extra src) (cs_rows s)))"

definition SHUTDOWN_BAIL_MESSAGE :: string where
  "SHUTDOWN_BAIL_MESSAGE = ''Shutdown requested''"

text \<open>\<open>cancelled n\<close>: the answer of the \<open>n\<close>-th poll; \<open>fails n\<close>: whether the \<open>n\<close>-th statement fails. In the
  transaction the first is the \<open>DELETE\<close>, the second the extent, the last the totals.\<close>

fun compare_grid :: "'g sql_spatial \<Rightarrow> 'g building_source \<Rightarrow> (nat \<Rightarrow> bool) \<Rightarrow> (nat \<Rightarrow> bool) \<Rightarrow> nat \<Rightarrow> bounds list \<Rightarrow>
    'g compare_state \<Rightarrow> (string + unit) \<times> 'g compare_state" where
  "compare_grid sp src cancelled fails n [] s = (Inr (), s)"
| "compare_grid sp src cancelled fails n (area # areas) s =
     (if cancelled n then (Inl SHUTDOWN_BAIL_MESSAGE, s)
      else if fails n then (Inl ''Failed comparing in cell'', s)
      else compare_grid sp src cancelled fails (Suc n) areas
        (s\<lparr>cs_unmatched := cs_unmatched s @ compare_cell sp src s area\<rparr>))"

definition compare_buildings_in_txn :: "'g sql_spatial \<Rightarrow> 'g building_source \<Rightarrow> (nat \<Rightarrow> bool) \<Rightarrow> (nat \<Rightarrow> bool) \<Rightarrow>
    'g compare_state \<Rightarrow> (string + bounds) \<times> 'g compare_state" where
  "compare_buildings_in_txn sp src cancelled fails s =
     (let s0 = s\<lparr>cs_unmatched := []\<rparr>
      in if fails 0 then (Inl ''Failed to clear'', s)
         else if fails 1 then (Inl ''Failed to compute source extent'', s0)
         else case source_grid_extent sp (cs_rows s0) of
           Inl e \<Rightarrow> (Inl e, s0)
         | Inr extent \<Rightarrow>
             (case compare_grid sp src cancelled (\<lambda>n. fails (2 + n)) 0 (grid_cells extent) s0 of
                (Inl e, s1) \<Rightarrow> (Inl e, s1)
              | (Inr _, s1) \<Rightarrow>
                  if fails (2 + length (grid_cells extent)) then (Inl ''Failed to rebuild cell totals'', s1)
                  else (Inr extent, rebuild_all_totals sp src s1)))"

text \<open>The transaction of a comparison.\<close>

definition compare_buildings :: "'g sql_spatial \<Rightarrow> 'g building_source \<Rightarrow> bool \<Rightarrow> bool \<Rightarrow> (nat \<Rightarrow> bool) \<Rightarrow> (nat \<Rightarrow> bool) \<Rightarrow>
    'g compare_state \<Rightarrow> (string + bounds) \<times> 'g compare_state" where
  "compare_buildings sp src begins commits cancelled fails s =
     in_transaction begins commits (compare_buildings_in_txn sp src cancelled fails) s"

text \<open>The logged counts: \<open>matched\<close>, \<open>unmatched\<close>, \<open>suppressed\<close>, \<open>reported\<close>.\<close>

definition log_counts :: "'g sql_spatial \<Rightarrow> 'g building_source \<Rightarrow> bounds \<Rightarrow> 'g compare_state \<Rightarrow> int \<times> int \<times> int \<times> int" where
  "log_counts sp src extent s =
     (let total = int (length (filter (bs_extra src) (cs_rows s)));
          unmatched = int (length (cs_unmatched s));
          suppressed = (if osm_former_buildings (cs_tables s) \<noteq> []
            then int (length (suppressed_buildings sp (cs_tables s) extent (bs_extra src) (cs_rows s))) else 0);
          reports = filter (\<lambda>r. r_source r = bs_name src \<and> r_status r = REPORT_ACTIVE) (object_reports (cs_tables s));
          reported = (if reports \<noteq> []
            then int (length (reported_buildings sp (cs_tables s) (bs_name src) extent (bs_extra src) (cs_rows s))) else 0)
      in (total - unmatched - suppressed - reported, unmatched, suppressed, reported))"

text \<open>The queries behind them run after the commit and may fail (\<open>log_fails\<close>): the totals, the number of
  former buildings, the suppressed rows, the number of active reports, the reported rows.\<close>

definition count_for_log :: "'g sql_spatial \<Rightarrow> 'g building_source \<Rightarrow> (nat \<Rightarrow> bool) \<Rightarrow> bounds \<Rightarrow> 'g compare_state \<Rightarrow>
    string + int \<times> int \<times> int \<times> int" where
  "count_for_log sp src log_fails extent s =
     (if log_fails 0 then Inl ''query failed''
      else if log_fails 1 then Inl ''Failed to count osm_former_buildings''
      else if osm_former_buildings (cs_tables s) \<noteq> [] \<and> log_fails 2 then Inl ''Failed to count suppressed rows''
      else if log_fails 3 then Inl ''Failed to count active object_reports''
      else if filter (\<lambda>r. r_source r = bs_name src \<and> r_status r = REPORT_ACTIVE) (object_reports (cs_tables s)) \<noteq> [] \<and> log_fails 4
        then Inl ''Failed to count reported rows''
      else Inr (log_counts sp src extent s))"

definition compare_buildings_with_cancel :: "'g sql_spatial \<Rightarrow> 'g building_source \<Rightarrow> bool \<Rightarrow> bool \<Rightarrow> (nat \<Rightarrow> bool) \<Rightarrow>
    (nat \<Rightarrow> bool) \<Rightarrow> (nat \<Rightarrow> bool) \<Rightarrow> 'g compare_state \<Rightarrow> (string + int \<times> int \<times> int \<times> int) \<times> 'g compare_state" where
  "compare_buildings_with_cancel sp src begins commits cancelled fails log_fails s =
     (case compare_buildings sp src begins commits cancelled fails s of
        (Inl e, s') \<Rightarrow> (Inl e, s')
      | (Inr extent, s') \<Rightarrow> (count_for_log sp src log_fails extent s', s'))"

section \<open>The grid partitions its extent\<close>

definition offered :: "'g sql_spatial \<Rightarrow> 'g building_source \<Rightarrow> 'g rule_tables \<Rightarrow> bounds \<Rightarrow> 'g building \<Rightarrow> bool" where
  "offered sp src t area b \<longleftrightarrow> in_scope sp area (bs_extra src) b \<and>
     \<not> osm_building_covers sp t (sp_envelope sp area) b \<and> \<not> former_building_covers sp t (sp_envelope sp area) b \<and>
     \<not> reported t (bs_name src) (b_key b)"

lemma unmatched_offered:
  "unmatched_buildings sp t (bs_name src) area (bs_extra src) rows = filter (offered sp src t area) rows"
  unfolding unmatched_buildings_def Let_def
  by (rule filter_cong) (auto simp: offered_def in_scope_def)

definition home_axis :: "rat \<Rightarrow> rat \<Rightarrow> rat" where
  "home_axis lo x = lo + of_int \<lfloor>(x - lo) / GRID_STEP\<rfloor> * GRID_STEP"

text \<open>The grid cell that owns a building, on the grid that starts at the extent's corner.\<close>

definition home :: "'g sql_spatial \<Rightarrow> bounds \<Rightarrow> 'g building \<Rightarrow> bounds" where
  "home sp ext b = (case ext of (min_x, min_y, _, _) \<Rightarrow>
     let x = home_axis min_x (sp_x sp (b_centroid b)); y = home_axis min_y (sp_y sp (b_centroid b))
     in (x, y, x + GRID_STEP, y + GRID_STEP))"

lemma GRID_STEP_pos [simp]: "0 < GRID_STEP"
  by (simp add: GRID_STEP_def)

lemma steps_nonneg [simp]: "0 \<le> of_nat k * GRID_STEP"
  by (simp add: GRID_STEP_def)

lemma grid_axis_iff: "x \<in> set (grid_axis lo hi) \<longleftrightarrow> (\<exists>k::nat. x = lo + of_nat k * GRID_STEP \<and> x < hi)"
proof (induction lo hi rule: grid_axis.induct)
  case (1 lo hi)
  show ?case
  proof (cases "lo < hi")
    case True
    then have "x \<in> set (grid_axis lo hi) \<longleftrightarrow> x = lo \<or> (\<exists>k::nat. x = lo + GRID_STEP + of_nat k * GRID_STEP \<and> x < hi)"
      using 1 by (subst grid_axis.simps) simp
    also have "\<dots> \<longleftrightarrow> (\<exists>k::nat. x = lo + of_nat k * GRID_STEP \<and> x < hi)"
    proof
      assume "x = lo \<or> (\<exists>k::nat. x = lo + GRID_STEP + of_nat k * GRID_STEP \<and> x < hi)"
      then show "\<exists>k::nat. x = lo + of_nat k * GRID_STEP \<and> x < hi"
      proof
        assume "x = lo"
        then show ?thesis using True by (intro exI [of _ 0]) simp
      next
        assume "\<exists>k::nat. x = lo + GRID_STEP + of_nat k * GRID_STEP \<and> x < hi"
        then obtain k :: nat where "x = lo + GRID_STEP + of_nat k * GRID_STEP" "x < hi" by blast
        then show ?thesis by (intro exI [of _ "Suc k"]) (simp add: algebra_simps)
      qed
    next
      assume "\<exists>k::nat. x = lo + of_nat k * GRID_STEP \<and> x < hi"
      then obtain k :: nat where k: "x = lo + of_nat k * GRID_STEP" "x < hi" by blast
      then show "x = lo \<or> (\<exists>k::nat. x = lo + GRID_STEP + of_nat k * GRID_STEP \<and> x < hi)"
        by (cases k) (auto simp: algebra_simps)
    qed
    finally show ?thesis .
  next
    case False
    then have "\<not> lo + of_nat k * GRID_STEP < hi" for k :: nat using steps_nonneg [of k] by linarith
    then show ?thesis using False by (subst grid_axis.simps) auto
  qed
qed

lemma grid_axis_distinct: "distinct (grid_axis lo hi)"
proof (induction lo hi rule: grid_axis.induct)
  case (1 lo hi)
  have "lo \<notin> set (grid_axis (lo + GRID_STEP) hi)"
  proof
    assume "lo \<in> set (grid_axis (lo + GRID_STEP) hi)"
    then obtain k :: nat where "lo = lo + GRID_STEP + of_nat k * GRID_STEP" using grid_axis_iff by blast
    then show False using GRID_STEP_pos steps_nonneg [of k] by linarith
  qed
  then show ?case using 1 by (subst grid_axis.simps) simp
qed

lemma home_axis_bounds: "home_axis lo x \<le> x" "x < home_axis lo x + GRID_STEP"
proof -
  have "of_int \<lfloor>(x - lo) / GRID_STEP\<rfloor> \<le> (x - lo) / GRID_STEP" "(x - lo) / GRID_STEP < of_int \<lfloor>(x - lo) / GRID_STEP\<rfloor> + 1"
    by linarith+
  then show "home_axis lo x \<le> x" "x < home_axis lo x + GRID_STEP"
    by (simp_all add: home_axis_def GRID_STEP_def)
qed

lemma home_axis_unique:
  assumes "lo + of_nat k * GRID_STEP \<le> x" "x < lo + of_nat k * GRID_STEP + GRID_STEP"
  shows "home_axis lo x = lo + of_nat k * GRID_STEP"
proof -
  have "of_int (int k) \<le> (x - lo) / GRID_STEP" "(x - lo) / GRID_STEP < of_int (int k) + 1"
    using assms by (simp_all add: GRID_STEP_def)
  then have "\<lfloor>(x - lo) / GRID_STEP\<rfloor> = int k" by (rule floor_unique)
  then show ?thesis by (simp add: home_axis_def)
qed

lemma home_axis_member:
  assumes "lo \<le> x" "x < hi"
  shows "home_axis lo x \<in> set (grid_axis lo hi)"
proof -
  have n: "0 \<le> \<lfloor>(x - lo) / GRID_STEP\<rfloor>" using assms(1) by (simp add: GRID_STEP_def)
  then have "home_axis lo x = lo + of_nat (nat \<lfloor>(x - lo) / GRID_STEP\<rfloor>) * GRID_STEP"
    by (simp add: home_axis_def)
  moreover have "home_axis lo x < hi" using home_axis_bounds(1) [of lo x] assms(2) by linarith
  ultimately show ?thesis unfolding grid_axis_iff by metis
qed

lemma owned_home:
  assumes "area \<in> set (grid_cells ext)"
  shows "owned sp area b \<longleftrightarrow> area = home sp ext b"
proof -
  obtain x1 y1 x2 y2 where ext: "ext = (x1, y1, x2, y2)" by (metis prod_cases4)
  obtain x y where a: "area = (x, y, x + GRID_STEP, y + GRID_STEP)" "x \<in> set (grid_axis x1 x2)" "y \<in> set (grid_axis y1 y2)"
    using assms by (auto simp: grid_cells_def ext)
  obtain i j :: nat where ij: "x = x1 + of_nat i * GRID_STEP" "y = y1 + of_nat j * GRID_STEP"
    using a(2,3) grid_axis_iff by metis
  show ?thesis
  proof
    assume "owned sp area b"
    then have "x \<le> sp_x sp (b_centroid b)" "sp_x sp (b_centroid b) < x + GRID_STEP"
      "y \<le> sp_y sp (b_centroid b)" "sp_y sp (b_centroid b) < y + GRID_STEP"
      by (simp_all add: owned_def a)
    then have "home_axis x1 (sp_x sp (b_centroid b)) = x" "home_axis y1 (sp_y sp (b_centroid b)) = y"
      unfolding ij by (simp_all only: home_axis_unique)
    then show "area = home sp ext b" by (simp add: home_def ext a)
  next
    assume "area = home sp ext b"
    then show "owned sp area b"
      using home_axis_bounds by (simp add: home_def ext owned_def Let_def)
  qed
qed

lemma grid_cells_distinct: "distinct (grid_cells ext)"
proof -
  obtain x1 y1 x2 y2 where ext: "ext = (x1, y1, x2, y2)" by (metis prod_cases4)
  let ?f = "\<lambda>y. map (\<lambda>x. (x, y, x + GRID_STEP, y + GRID_STEP)) (grid_axis x1 x2)"
  have "distinct (concat (map ?f ys))" if "distinct ys" for ys
    using that grid_axis_distinct [of x1 x2]
    by (induction ys) (auto simp: distinct_map inj_on_def)
  then show ?thesis using grid_axis_distinct by (simp add: grid_cells_def ext)
qed

lemma home_in_grid:
  assumes "x1 \<le> sp_x sp (b_centroid b)" "sp_x sp (b_centroid b) < x2"
    "y1 \<le> sp_y sp (b_centroid b)" "sp_y sp (b_centroid b) < y2"
  shows "home sp (x1, y1, x2, y2) b \<in> set (grid_cells (x1, y1, x2, y2))"
  using home_axis_member [OF assms(1,2)] home_axis_member [OF assms(3,4)]
  by (auto simp: home_def grid_cells_def Let_def)

lemma mset_by_home:
  assumes "distinct areas"
  shows "mset (concat (map (\<lambda>a. filter (\<lambda>b. h b = a \<and> P a b) rows) areas)) =
    mset (filter (\<lambda>b. h b \<in> set areas \<and> P (h b) b) rows)"
  using assms
proof (induction areas)
  case (Cons a areas)
  have "mset (filter (\<lambda>b. h b \<in> set (a # areas) \<and> P (h b) b) rows) =
      mset (filter (\<lambda>b. h b = a \<and> P a b) rows) + mset (filter (\<lambda>b. h b \<in> set areas \<and> P (h b) b) rows)"
    using Cons.prems by (induction rows) auto
  then show ?case using Cons by simp
qed simp

section \<open>The full comparison\<close>

lemma compare_cell_unmatched [simp]:
  "compare_cell sp src (s\<lparr>cs_unmatched := u\<rparr>) = compare_cell sp src s"
  by (rule ext) (simp add: compare_cell_def)

lemma compare_grid_Inr:
  "compare_grid sp src cancelled fails n areas s = (Inr v, s') \<Longrightarrow>
    s' = s\<lparr>cs_unmatched := cs_unmatched s @ concat (map (compare_cell sp src s) areas)\<rparr>"
proof (induction areas arbitrary: n s)
  case (Cons area areas)
  let ?s = "s\<lparr>cs_unmatched := cs_unmatched s @ compare_cell sp src s area\<rparr>"
  have "compare_grid sp src cancelled fails (Suc n) areas ?s = (Inr v, s')"
    using Cons.prems by (simp split: if_splits)
  from Cons.IH [OF this] show ?case by simp
qed simp

lemma compare_grid_ok:
  "(\<And>i. \<not> cancelled i) \<Longrightarrow> (\<And>i. \<not> fails i) \<Longrightarrow> fst (compare_grid sp src cancelled fails n areas s) = Inr ()"
  by (induction areas arbitrary: n s) auto

lemma mset_compare_cells:
  "mset (concat (map (compare_cell sp src s) (grid_cells ext))) =
   mset (map (tagged sp) (filter (\<lambda>b. home sp ext b \<in> set (grid_cells ext) \<and>
     offered sp src (cs_tables s) (home sp ext b) b) (cs_rows s)))"
proof -
  have "concat (map (compare_cell sp src s) (grid_cells ext)) =
      map (tagged sp) (concat (map (\<lambda>a. filter (\<lambda>b. home sp ext b = a \<and> offered sp src (cs_tables s) a b) (cs_rows s)) (grid_cells ext)))"
  proof -
    have "compare_cell sp src s a = map (tagged sp) (filter (\<lambda>b. home sp ext b = a \<and> offered sp src (cs_tables s) a b) (cs_rows s))"
      if "a \<in> set (grid_cells ext)" for a
      using owned_home [OF that, of sp] by (simp add: compare_cell_def unmatched_offered conj_commute eq_commute)
    then show ?thesis by (simp add: map_concat comp_def cong: map_cong)
  qed
  then show ?thesis
    using mset_by_home [OF grid_cells_distinct, of "home sp ext" "\<lambda>a. offered sp src (cs_tables s) a" "cs_rows s" ext] by simp
qed

lemma compare_buildings_cases:
  obtains (failed) e where "compare_buildings sp src begins commits cancelled fails s = (Inl e, s)"
  | (finished) ext where "compare_buildings sp src begins commits cancelled fails s =
      (Inr ext, rebuild_all_totals sp src (s\<lparr>cs_unmatched := concat (map (compare_cell sp src s) (grid_cells ext))\<rparr>))"
      "source_grid_extent sp (cs_rows s) = Inr ext"
proof -
  let ?s0 = "s\<lparr>cs_unmatched := []\<rparr>"
  show ?thesis
  proof (cases "fst (compare_buildings sp src begins commits cancelled fails s)")
    case (Inl e)
    then show ?thesis
      using failed
      by (auto simp: compare_buildings_def in_transaction_def split: if_splits sum.splits prod.splits)
  next
    case (Inr ext)
    then obtain s' where t: "compare_buildings_in_txn sp src cancelled fails s = (Inr ext, s')"
      and r: "compare_buildings sp src begins commits cancelled fails s = (Inr ext, s')"
      by (auto simp: compare_buildings_def in_transaction_def split: if_splits sum.splits prod.splits)
    from t obtain u s1 where e: "source_grid_extent sp (cs_rows s) = Inr ext"
      and g: "compare_grid sp src cancelled (\<lambda>n. fails (2 + n)) 0 (grid_cells ext) ?s0 = (Inr u, s1)" and s': "s' = rebuild_all_totals sp src s1"
      by (auto simp: compare_buildings_in_txn_def Let_def split: if_splits sum.splits prod.splits)
    from compare_grid_Inr [OF g] have "s1 = s\<lparr>cs_unmatched := concat (map (compare_cell sp src s) (grid_cells ext))\<rparr>"
      by simp
    then show ?thesis using finished [of ext] r e s' by simp
  qed
qed

section \<open>Recomputing cells\<close>

definition cell_slice :: "'g sql_spatial \<Rightarrow> 'g building_source \<Rightarrow> 'g compare_state \<Rightarrow> cell \<Rightarrow> 'g building list" where
  "cell_slice sp src s c = filter (\<lambda>b. sp_cell sp (b_centroid b) = c \<and>
     offered sp src (cs_tables s) (sp_tile_to_bbox sp c) b) (cs_rows s)"

lemma recompute_cell_slice:
  "cs_unmatched (recompute_cell sp src c s) = filter (\<lambda>(_, c'). c' \<noteq> c) (cs_unmatched s) @ map (tagged sp) (cell_slice sp src s c)"
  "cs_rows (recompute_cell sp src c s) = cs_rows s" "cs_tables (recompute_cell sp src c s) = cs_tables s"
  "cs_totals (recompute_cell sp src c s) = (cs_totals s)(c := positive (length (filter (\<lambda>b.
      in_scope sp (sp_tile_to_bbox sp c) (bs_extra src) b \<and> sp_cell sp (b_centroid b) = c) (cs_rows s))))"
proof -
  have i: "filter (\<lambda>b. sp_cell sp (b_centroid b) = c) (unmatched_buildings sp t (bs_name src) (sp_tile_to_bbox sp c)
      (bs_extra src) (filter (\<lambda>b. sp_intersects sp (b_centroid b) (sp_envelope sp (sp_tile_to_bbox sp c)) \<and> bs_extra src b) (cs_rows s)))
      = filter (\<lambda>b. sp_cell sp (b_centroid b) = c \<and> offered sp src t (sp_tile_to_bbox sp c) b) (cs_rows s)" for t
    by (auto simp: unmatched_offered offered_def in_scope_def intro!: filter_cong)
  show "cs_unmatched (recompute_cell sp src c s) = filter (\<lambda>(_, c'). c' \<noteq> c) (cs_unmatched s) @ map (tagged sp) (cell_slice sp src s c)"
    by (simp add: recompute_cell_def recompute_cell_total_def Let_def i cell_slice_def)
  show "cs_rows (recompute_cell sp src c s) = cs_rows s" "cs_tables (recompute_cell sp src c s) = cs_tables s"
    by (simp_all add: recompute_cell_def recompute_cell_total_def Let_def)
  show "cs_totals (recompute_cell sp src c s) = (cs_totals s)(c := positive (length (filter (\<lambda>b.
      in_scope sp (sp_tile_to_bbox sp c) (bs_extra src) b \<and> sp_cell sp (b_centroid b) = c) (cs_rows s))))"
    unfolding recompute_cell_def recompute_cell_total_def Let_def in_scope_def by (simp add: conj_ac)
qed

lemma cell_slice_recompute [simp]: "cell_slice sp src (recompute_cell sp src c s) = cell_slice sp src s"
  by (rule ext) (simp add: cell_slice_def recompute_cell_slice)

text \<open>Recomputing a set of cells, in any order and any number of times, replaces their slices.\<close>

lemma recompute_cells:
  "mset (cs_unmatched (fold (recompute_cell sp src) cs s)) =
     mset (filter (\<lambda>(_, c). c \<notin> set cs) (cs_unmatched s)) +
     mset (map (tagged sp) (filter (\<lambda>b. sp_cell sp (b_centroid b) \<in> set cs \<and>
       offered sp src (cs_tables s) (sp_tile_to_bbox sp (sp_cell sp (b_centroid b))) b) (cs_rows s))) \<and>
   cs_rows (fold (recompute_cell sp src) cs s) = cs_rows s \<and> cs_tables (fold (recompute_cell sp src) cs s) = cs_tables s"
proof (induction cs rule: rev_induct)
  case Nil
  then show ?case by simp
next
  case (snoc c cs)
  let ?s = "fold (recompute_cell sp src) cs s"
  let ?off = "\<lambda>b. offered sp src (cs_tables s) (sp_tile_to_bbox sp (sp_cell sp (b_centroid b))) b"
  have sl: "cell_slice sp src ?s c = filter (\<lambda>b. sp_cell sp (b_centroid b) = c \<and> ?off b) (cs_rows s)"
    using snoc by (auto simp: cell_slice_def intro!: filter_cong)
  have "mset (filter (\<lambda>(_, c'). c' \<noteq> c) (cs_unmatched ?s)) =
      mset (filter (\<lambda>(_, c'). c' \<notin> set (cs @ [c])) (cs_unmatched s)) +
      mset (map (tagged sp) (filter (\<lambda>b. sp_cell sp (b_centroid b) \<in> set cs - {c} \<and> ?off b) (cs_rows s)))"
  proof -
    have "mset (filter (\<lambda>(_, c'). c' \<noteq> c) (cs_unmatched ?s)) = filter_mset (\<lambda>(_, c'). c' \<noteq> c) (mset (cs_unmatched ?s))" by simp
    also have "\<dots> = mset (filter (\<lambda>(_, c'). c' \<noteq> c) (filter (\<lambda>(_, c). c \<notin> set cs) (cs_unmatched s))) +
        mset (filter (\<lambda>(_, c'). c' \<noteq> c) (map (tagged sp) (filter (\<lambda>b. sp_cell sp (b_centroid b) \<in> set cs \<and> ?off b) (cs_rows s))))"
      using snoc by (simp only: mset_filter filter_union_mset)
    also have "filter (\<lambda>(_, c'). c' \<noteq> c) (map (tagged sp) (filter (\<lambda>b. sp_cell sp (b_centroid b) \<in> set cs \<and> ?off b) (cs_rows s))) =
        map (tagged sp) (filter (\<lambda>b. sp_cell sp (b_centroid b) \<in> set cs - {c} \<and> ?off b) (cs_rows s))"
      by (induction "cs_rows s") (auto simp: filter_map comp_def tagged_def intro!: arg_cong [of _ _ "map _"] filter_cong)
    also have "filter (\<lambda>(_, c'). c' \<noteq> c) (filter (\<lambda>(_, c). c \<notin> set cs) (cs_unmatched s)) =
        filter (\<lambda>(_, c'). c' \<notin> set (cs @ [c])) (cs_unmatched s)"
      by (auto intro!: filter_cong)
    finally show ?thesis .
  qed
  moreover have "mset (filter (\<lambda>b. sp_cell sp (b_centroid b) \<in> set (cs @ [c]) \<and> ?off b) rows) =
      mset (filter (\<lambda>b. sp_cell sp (b_centroid b) \<in> set cs - {c} \<and> ?off b) rows) +
      mset (filter (\<lambda>b. sp_cell sp (b_centroid b) = c \<and> ?off b) rows)" for rows
    by (induction rows) auto
  ultimately show ?case using snoc by (simp add: recompute_cell_slice sl)
qed

section \<open>Numerator and denominator\<close>

definition cell_unmatched :: "'g compare_state \<Rightarrow> cell \<Rightarrow> nat" where
  "cell_unmatched s c = length (filter (\<lambda>r. snd r = c) (cs_unmatched s))"

definition cell_total :: "'g compare_state \<Rightarrow> cell \<Rightarrow> nat" where
  "cell_total s c = (case cs_totals s c of Some n \<Rightarrow> n | None \<Rightarrow> 0)"

definition ratio_ok :: "'g compare_state \<Rightarrow> bool" where
  "ratio_ok s \<longleftrightarrow> (\<forall>c. cell_unmatched s c \<le> cell_total s c \<and> cs_totals s c \<noteq> Some 0)"

lemma positive_total: "(case positive n of Some m \<Rightarrow> m | None \<Rightarrow> 0) = n" "positive n \<noteq> Some 0"
  by (simp_all add: positive_def)

lemma length_filter_mono: "(\<And>x. P x \<Longrightarrow> Q x) \<Longrightarrow> length (filter P xs) \<le> length (filter Q xs)"
  by (induction xs) auto

lemma size_filter_mset_list: "size (filter_mset P (mset xs)) = length (filter P xs)"
  by (metis mset_filter size_mset)

lemma cell_unmatched_mset: "cell_unmatched s c = size (filter_mset (\<lambda>r. snd r = c) (mset (cs_unmatched s)))"
  by (simp add: cell_unmatched_def flip: mset_filter)

lemma compare_buildings_ratio:
  assumes "ratio_ok s"
  shows "ratio_ok (snd (compare_buildings sp src begins commits cancelled fails s))"
proof (cases rule: compare_buildings_cases [of sp src begins commits cancelled fails s])
  case (finished ext)
  let ?u = "concat (map (compare_cell sp src s) (grid_cells ext))"
  have "size (filter_mset (\<lambda>r. snd r = c) (mset ?u)) \<le>
      length (filter (\<lambda>b. bs_extra src b \<and> sp_cell sp (b_centroid b) = c) (cs_rows s))" for c
  proof -
    have "size (filter_mset (\<lambda>r. snd r = c) (mset ?u)) =
        length (filter (\<lambda>r. snd r = c) (map (tagged sp) (filter (\<lambda>b. home sp ext b \<in> set (grid_cells ext) \<and>
          offered sp src (cs_tables s) (home sp ext b) b) (cs_rows s))))"
      unfolding mset_compare_cells by (rule size_filter_mset_list)
    also have "\<dots> \<le> length (filter (\<lambda>b. bs_extra src b \<and> sp_cell sp (b_centroid b) = c) (cs_rows s))"
      by (simp add: filter_map comp_def tagged_def conj_commute)
        (rule length_filter_mono, simp add: offered_def in_scope_def)
    finally show ?thesis .
  qed
  then show ?thesis
    unfolding finished(1) ratio_ok_def
    by (simp add: cell_unmatched_mset cell_total_def rebuild_all_totals_def positive_total)
qed (use assms in simp)

lemma recompute_cell_ratio:
  assumes "ratio_ok s"
  shows "ratio_ok (recompute_cell sp src c s)"
proof -
  have "cell_unmatched (recompute_cell sp src c s) c' \<le> cell_total (recompute_cell sp src c s) c'" for c'
  proof (cases "c' = c")
    case True
    have "cell_unmatched (recompute_cell sp src c s) c = length (cell_slice sp src s c)"
    proof -
      have "filter (\<lambda>r. snd r = c) (filter (\<lambda>(_, c'). c' \<noteq> c) xs) = []" for xs :: "('a building \<times> cell) list"
        by (induction xs) auto
      moreover have "filter (\<lambda>r. snd r = c) (map (tagged sp) (cell_slice sp src s c)) = map (tagged sp) (cell_slice sp src s c)"
        by (simp add: filter_map comp_def tagged_def cell_slice_def conj_ac)
      ultimately show ?thesis by (simp add: cell_unmatched_def recompute_cell_slice)
    qed
    also have "\<dots> \<le> cell_total (recompute_cell sp src c s) c"
      by (simp add: cell_total_def recompute_cell_slice positive_total cell_slice_def)
        (rule length_filter_mono, simp add: offered_def)
    finally show ?thesis using True by simp
  next
    case False
    have "filter (\<lambda>r. snd r = c') (map (tagged sp) (cell_slice sp src s c)) = []"
      using False by (auto simp: filter_map comp_def tagged_def cell_slice_def filter_empty_conv)
    moreover have "filter (\<lambda>r. snd r = c') (filter (\<lambda>(_, c'). c' \<noteq> c) xs) = filter (\<lambda>r. snd r = c') xs" for xs :: "('a building \<times> cell) list"
      using False by (induction xs) auto
    moreover have "cell_unmatched s c' \<le> cell_total s c'" using assms by (simp only: ratio_ok_def)
    ultimately show ?thesis using False by (simp add: cell_unmatched_def cell_total_def recompute_cell_slice)
  qed
  then show ?thesis using assms by (simp add: ratio_ok_def recompute_cell_slice positive_total)
qed

section \<open>Full and per-cell results\<close>

text \<open>The grid covers the extent of the data: every row whose centroid lies in it has its home.\<close>

definition extent_holds :: "'g sql_spatial \<Rightarrow> 'g building list \<Rightarrow> bool" where
  "extent_holds sp rows \<longleftrightarrow> (\<exists>x1 y1 x2 y2. sp_extent sp (map b_geom rows) = Some (Fin x1, Fin y1, Fin x2, Fin y2) \<and>
     (\<forall>b\<in>set rows. x1 \<le> sp_x sp (b_centroid b) \<and> sp_x sp (b_centroid b) \<le> x2 \<and>
        y1 \<le> sp_y sp (b_centroid b) \<and> sp_y sp (b_centroid b) \<le> y2))"

lemma snap_bounds: "snap x \<le> x" "x < snap x + GRID_STEP"
  using home_axis_bounds(1) [of 0 x] home_axis_bounds(2) [of x 0] unfolding home_axis_def snap_def by simp_all

lemma extent_home:
  assumes "extent_holds sp rows" "source_grid_extent sp rows = Inr ext" "b \<in> set rows"
  shows "home sp ext b \<in> set (grid_cells ext)"
proof -
  obtain x1 y1 x2 y2 where e: "sp_extent sp (map b_geom rows) = Some (Fin x1, Fin y1, Fin x2, Fin y2)"
    and b: "x1 \<le> sp_x sp (b_centroid b)" "sp_x sp (b_centroid b) \<le> x2" "y1 \<le> sp_y sp (b_centroid b)" "sp_y sp (b_centroid b) \<le> y2"
    using assms(1,3) by (auto simp: extent_holds_def)
  have "ext = (snap x1, snap y1, snap x2 + GRID_STEP, snap y2 + GRID_STEP)"
    using assms(2) e by (simp add: source_grid_extent_def Let_def split: if_splits)
  moreover have "snap x1 \<le> sp_x sp (b_centroid b)" "sp_x sp (b_centroid b) < snap x2 + GRID_STEP"
    "snap y1 \<le> sp_y sp (b_centroid b)" "sp_y sp (b_centroid b) < snap y2 + GRID_STEP"
    using b snap_bounds by (meson order_trans le_less_trans)+
  ultimately show ?thesis using home_in_grid by simp
qed

text \<open>What \<open>ST_Extent_Agg\<close> answers, in every case: nothing at all, when no row has a place; a box holding
  the centroid of every row that has one; or bounds that are not finite. A row without a place (its
  geometry is empty) has a centroid that intersects no area.\<close>

definition placeless :: "'g sql_spatial \<Rightarrow> 'g building \<Rightarrow> bool" where
  "placeless sp b \<longleftrightarrow> (\<forall>area. \<not> sp_intersects sp (b_centroid b) (sp_envelope sp area))"

definition extent_law :: "'g sql_spatial \<Rightarrow> 'g building list \<Rightarrow> bool" where
  "extent_law sp rows \<longleftrightarrow> (case sp_extent sp (map b_geom rows) of
     None \<Rightarrow> \<forall>b\<in>set rows. placeless sp b
   | Some (Fin x1, Fin y1, Fin x2, Fin y2) \<Rightarrow> \<forall>b\<in>set rows. placeless sp b \<or>
       x1 \<le> sp_x sp (b_centroid b) \<and> sp_x sp (b_centroid b) \<le> x2 \<and> y1 \<le> sp_y sp (b_centroid b) \<and> sp_y sp (b_centroid b) \<le> y2
   | _ \<Rightarrow> True)"

lemma extent_law_home:
  assumes "extent_law sp rows" "source_grid_extent sp rows = Inr ext" "b \<in> set rows" "\<not> placeless sp b"
  shows "home sp ext b \<in> set (grid_cells ext)"
proof -
  obtain x1 y1 x2 y2 where e: "sp_extent sp (map b_geom rows) = Some (Fin x1, Fin y1, Fin x2, Fin y2)"
    and b: "x1 \<le> sp_x sp (b_centroid b)" "sp_x sp (b_centroid b) \<le> x2" "y1 \<le> sp_y sp (b_centroid b)" "sp_y sp (b_centroid b) \<le> y2"
    using assms by (auto simp: extent_law_def source_grid_extent_def split: option.splits prod.splits f64.splits)
  have "ext = (snap x1, snap y1, snap x2 + GRID_STEP, snap y2 + GRID_STEP)"
    using assms(2) e by (simp add: source_grid_extent_def Let_def split: if_splits)
  moreover have "snap x1 \<le> sp_x sp (b_centroid b)" "sp_x sp (b_centroid b) < snap x2 + GRID_STEP"
    "snap y1 \<le> sp_y sp (b_centroid b)" "sp_y sp (b_centroid b) < snap y2 + GRID_STEP"
    using b snap_bounds by (meson order_trans le_less_trans)+
  ultimately show ?thesis using home_in_grid by simp
qed

lemma offered_not_placeless: "offered sp src t area b \<Longrightarrow> \<not> placeless sp b"
  unfolding offered_def in_scope_def placeless_def by blast

text \<open>What a finished comparison on \<open>ext\<close> has made of the state \<open>s\<close>: each comparable row is offered as
  often as the table holds it, judged in the one grid cell that owns its centroid.\<close>

definition compared_rows :: "'g sql_spatial \<Rightarrow> 'g building_source \<Rightarrow> bounds \<Rightarrow> 'g compare_state \<Rightarrow> 'g compare_state \<Rightarrow> bool" where
  "compared_rows sp src ext s s' \<longleftrightarrow> source_grid_extent sp (cs_rows s) = Inr ext \<and> cs_rows s' = cs_rows s \<and> cs_tables s' = cs_tables s \<and>
     mset (cs_unmatched s') = mset (map (tagged sp) (filter (\<lambda>b. offered sp src (cs_tables s) (home sp ext b) b) (cs_rows s))) \<and>
     (\<forall>b\<in>set (cs_rows s). \<not> placeless sp b \<longrightarrow> owned sp (home sp ext b) b) \<and>
     (\<forall>c. cell_total s' c = length (filter (\<lambda>b. bs_extra src b \<and> sp_cell sp (b_centroid b) = c) (cs_rows s)))"

lemma compare_buildings_compared:
  assumes "compare_buildings sp src begins commits cancelled fails s = (Inr ext, s')" "extent_law sp (cs_rows s)"
  shows "compared_rows sp src ext s s'"
proof -
  have s': "s' = rebuild_all_totals sp src (s\<lparr>cs_unmatched := concat (map (compare_cell sp src s) (grid_cells ext))\<rparr>)"
    and ext: "source_grid_extent sp (cs_rows s) = Inr ext"
    using assms(1) by (cases rule: compare_buildings_cases [of sp src begins commits cancelled fails s]; simp)+
  have home: "\<not> placeless sp b \<Longrightarrow> home sp ext b \<in> set (grid_cells ext)" if "b \<in> set (cs_rows s)" for b
    using extent_law_home [OF assms(2) ext that] .
  then have "filter (\<lambda>b. home sp ext b \<in> set (grid_cells ext) \<and> offered sp src (cs_tables s) (home sp ext b) b) (cs_rows s) =
      filter (\<lambda>b. offered sp src (cs_tables s) (home sp ext b) b) (cs_rows s)"
    using offered_not_placeless by (intro filter_cong) blast+
  moreover have "\<not> placeless sp b \<Longrightarrow> owned sp (home sp ext b) b" if "b \<in> set (cs_rows s)" for b
    using owned_home [OF home [OF that], of sp b] by simp
  ultimately show ?thesis
    using ext mset_compare_cells [of sp src s ext] unfolding compared_rows_def s'
    by (simp add: rebuild_all_totals_def cell_total_def positive_total)
qed

lemma compare_buildings_finishes:
  assumes "begins" "commits" "\<And>n. \<not> cancelled n" "\<And>n. \<not> fails n" "source_grid_extent sp (cs_rows s) = Inr ext"
  shows "\<exists>s'. compare_buildings sp src begins commits cancelled fails s = (Inr ext, s')"
proof -
  let ?g = "compare_grid sp src cancelled (\<lambda>n. fails (2 + n)) 0 (grid_cells ext) (s\<lparr>cs_unmatched := []\<rparr>)"
  have "fst ?g = Inr ()" by (rule compare_grid_ok) (simp_all add: assms)
  then obtain t where "?g = (Inr (), t)" by (metis prod.collapse)
  then show ?thesis by (simp add: compare_buildings_def in_transaction_def compare_buildings_in_txn_def Let_def assms)
qed

lemma compare_buildings_rows:
  assumes "compare_buildings sp src begins commits cancelled fails s = (Inr ext, s')" "extent_holds sp (cs_rows s)"
  shows "mset (cs_unmatched s') = mset (map (tagged sp) (filter (\<lambda>b. offered sp src (cs_tables s) (home sp ext b) b) (cs_rows s)))"
    "cs_rows s' = cs_rows s" "cs_tables s' = cs_tables s"
    "cell_total s' c = length (filter (\<lambda>b. bs_extra src b \<and> sp_cell sp (b_centroid b) = c) (cs_rows s))"
proof -
  have "s' = rebuild_all_totals sp src (s\<lparr>cs_unmatched := concat (map (compare_cell sp src s) (grid_cells ext))\<rparr>)"
    and ext: "source_grid_extent sp (cs_rows s) = Inr ext"
    using assms(1) by (cases rule: compare_buildings_cases [of sp src begins commits cancelled fails s]; simp)+
  moreover have "filter (\<lambda>b. home sp ext b \<in> set (grid_cells ext) \<and> offered sp src (cs_tables s) (home sp ext b) b) (cs_rows s) =
      filter (\<lambda>b. offered sp src (cs_tables s) (home sp ext b) b) (cs_rows s)"
    using extent_home [OF assms(2) ext] by (auto intro!: filter_cong)
  ultimately show "mset (cs_unmatched s') = mset (map (tagged sp) (filter (\<lambda>b. offered sp src (cs_tables s) (home sp ext b) b) (cs_rows s)))"
    "cs_rows s' = cs_rows s" "cs_tables s' = cs_tables s"
    "cell_total s' c = length (filter (\<lambda>b. bs_extra src b \<and> sp_cell sp (b_centroid b) = c) (cs_rows s))"
    using mset_compare_cells [of sp src s ext] by (simp_all add: rebuild_all_totals_def cell_total_def positive_total)
qed

text \<open>Geometry is local when what covers a building also meets the areas it is compared in, and
  those areas contain its centroid. \<open>fraction\<close> is the smaller of the two overlap thresholds.\<close>

definition sees :: "'g sql_spatial \<Rightarrow> 'g rule_tables \<Rightarrow> bounds \<Rightarrow> 'g building \<Rightarrow> bool" where
  "sees sp t area b \<longleftrightarrow> sp_intersects sp (b_centroid b) (sp_envelope sp area) \<and>
     (\<forall>g\<in>set (osm_buildings t @ osm_former_buildings t). sp_intersects sp g (b_geom b) \<longrightarrow>
       sp_intersects sp g (sp_envelope sp area))"

lemma offered_seen:
  assumes "sees sp t area b" "sees sp t area' b"
  shows "offered sp src t area b \<longleftrightarrow> offered sp src t area' b"
proof -
  have "osm_building_covers sp t (sp_envelope sp area) b = osm_building_covers sp t (sp_envelope sp area') b"
    "former_building_covers sp t (sp_envelope sp area) b = former_building_covers sp t (sp_envelope sp area') b"
    using assms by (auto simp: osm_building_covers_def former_building_covers_def list_ex_iff sees_def)
  then show ?thesis using assms by (simp add: offered_def in_scope_def sees_def)
qed

text \<open>The writers of the two tables, and what changes the data they read: OSM updates, refreshes, reports.\<close>

datatype 'g compare_op = Full bool bool "nat \<Rightarrow> bool" "nat \<Rightarrow> bool" | Recompute cell | New_data "'g building list" "'g rule_tables"

fun compare_op_run :: "'g sql_spatial \<Rightarrow> 'g building_source \<Rightarrow> 'g compare_op \<Rightarrow> 'g compare_state \<Rightarrow> 'g compare_state" where
  "compare_op_run sp src (Full begins commits cancelled fails) s = snd (compare_buildings sp src begins commits cancelled fails s)"
| "compare_op_run sp src (Recompute c) s = recompute_cell sp src c s"
| "compare_op_run sp src (New_data rows t) s = s\<lparr>cs_rows := rows, cs_tables := t\<rparr>"

section \<open>A concrete geometry\<close>

text \<open>Closed boxes, unit z14 cells: an instance on which the parameters can be evaluated.\<close>

definition box_overlap :: "rat \<times> rat \<times> rat \<times> rat \<Rightarrow> rat \<times> rat \<times> rat \<times> rat \<Rightarrow> rat" where
  "box_overlap a b = (case (a, b) of ((x1, y1, x2, y2), (u1, v1, u2, v2)) \<Rightarrow>
     max 0 (min x2 u2 - max x1 u1) * max 0 (min y2 v2 - max y1 v1))"

definition boxes :: "bounds sql_spatial" where
  "boxes = \<lparr>
     sp_intersects = (\<lambda>(x1, y1, x2, y2) (u1, v1, u2, v2). x1 \<le> u2 \<and> u1 \<le> x2 \<and> y1 \<le> v2 \<and> v1 \<le> y2),
     sp_covered = (\<lambda>a b. if box_overlap b b = 0 then None else Some (box_overlap a b / box_overlap b b)),
     sp_envelope = (\<lambda>b. b), sp_x = fst, sp_y = (\<lambda>(_, y, _). y),
     sp_extent = (\<lambda>gs. if gs = [] then None else
       Some (Fin (Min (fst ` set gs)), Fin (Min ((\<lambda>(_, y, _). y) ` set gs)),
             Fin (Max ((\<lambda>(_, _, x, _). x) ` set gs)), Fin (Max ((\<lambda>(_, _, _, y). y) ` set gs)))),
     sp_cell = (\<lambda>(x, y, _). (\<lfloor>x\<rfloor>, \<lfloor>y\<rfloor>)), sp_tile_to_bbox = (\<lambda>(i, j). (of_int i, of_int j, of_int i + 1, of_int j + 1)),
     sp_distance = (\<lambda>_ _. 0)\<rparr>"

definition box_building :: "string \<Rightarrow> bounds \<Rightarrow> bounds building" where
  "box_building k g = (case g of (x1, y1, x2, y2) \<Rightarrow> \<lparr>b_key = [k], b_geom = g,
     b_centroid = ((x1 + x2) / 2, (y1 + y2) / 2, (x1 + x2) / 2, (y1 + y2) / 2), b_category = Some ''eksploatowany''\<rparr>)"

definition two_boxes :: "bounds compare_state" where
  "two_boxes = \<lparr>cs_rows = [box_building ''a'' (1/4, 1/4, 3/4, 3/4), box_building ''b'' (5/4, 1/4, 7/4, 3/4)],
     cs_tables = \<lparr>osm_buildings = [(1/4, 1/4, 3/4, 1/2)], osm_former_buildings = [], object_reports = []\<rparr>,
     cs_unmatched = [], cs_totals = Map.empty\<rparr>"

definition straddling :: "bounds compare_state" where
  "straddling = \<lparr>cs_rows = [box_building ''a'' (1, 1/4, 14/5, 3/4)],
     cs_tables = \<lparr>osm_buildings = [], osm_former_buildings = [(11/5, 0, 3, 1)], object_reports = []\<rparr>,
     cs_unmatched = [], cs_totals = Map.empty\<rparr>"

definition no_faults :: "nat \<Rightarrow> bool" where
  "no_faults _ = False"

lemma two_boxes_extent: "extent_holds boxes (cs_rows two_boxes)" "source_grid_extent boxes (cs_rows two_boxes) = Inr (0, 0, 2, 2)"
proof -
  have "sp_extent boxes (map b_geom (cs_rows two_boxes)) = Some (Fin (1/4), Fin (1/4), Fin (7/4), Fin (3/4))"
    by code_simp
  moreover have "list_all (\<lambda>b. 1/4 \<le> sp_x boxes (b_centroid b) \<and> sp_x boxes (b_centroid b) \<le> 7/4 \<and>
      1/4 \<le> sp_y boxes (b_centroid b) \<and> sp_y boxes (b_centroid b) \<le> 3/4) (cs_rows two_boxes)" by code_simp
  ultimately show "extent_holds boxes (cs_rows two_boxes)"
    unfolding extent_holds_def list_all_iff by blast
  show "source_grid_extent boxes (cs_rows two_boxes) = Inr (0, 0, 2, 2)" by code_simp
qed

lemma two_boxes_law: "extent_law boxes (cs_rows two_boxes)"
  using two_boxes_extent(1) by (auto simp: extent_law_def extent_holds_def)

lemma two_boxes_compared:
  "fst (compare_buildings boxes egib_source True True no_faults no_faults two_boxes) = Inr (0, 0, 2, 2)"
  by code_simp

section \<open>Properties\<close>

text \<open>C17: what a full comparison leaves, on every path. A cancellation, a failed statement, an extent that is
  not finite or too large, or a failed commit leaves the previous comparison untouched. Otherwise the
  new one is in place: each government building offered exactly as often as the table holds it, judged in
  the one grid cell that owns its centroid, tagged with its z14 cell, and every comparable row counted in
  its cell's total. The logged counts are read after the commit, so an error may also be theirs: then the
  new comparison stays, whole. With no fault and a usable extent the comparison succeeds. The one fact
  assumed is what the spatial extent aggregate answers (\<open>extent_law\<close>), in each of its cases.\<close>

theorem compare_buildings_exact:
  assumes "compare_buildings_with_cancel sp src begins commits cancelled fails log_fails s = (r, s')"
    and "extent_law sp (cs_rows s)"
  shows "(case r of
      Inl _ \<Rightarrow> s' = s \<or> (\<exists>ext n. compared_rows sp src ext s s' \<and> log_fails n)
    | Inr counts \<Rightarrow> \<exists>ext. compared_rows sp src ext s s' \<and> counts = log_counts sp src ext s') \<and>
   (begins \<and> commits \<and> (\<forall>n. \<not> cancelled n \<and> \<not> fails n \<and> \<not> log_fails n) \<and>
     (\<exists>ext. source_grid_extent sp (cs_rows s) = Inr ext) \<longrightarrow> (\<exists>counts. r = Inr counts))"
proof (cases "compare_buildings sp src begins commits cancelled fails s")
  case (Pair q t)
  note finishes = compare_buildings_finishes [of begins commits cancelled fails sp s _ src]
  show ?thesis
  proof (cases q)
    case (Inl e)
    then have "s' = s" using Pair assms(1) compare_buildings_cases [of sp src begins commits cancelled fails s]
      by (auto simp: compare_buildings_with_cancel_def)
    then show ?thesis using Inl Pair assms(1) finishes by (auto simp: compare_buildings_with_cancel_def)
  next
    case (Inr ext)
    then have t: "r = count_for_log sp src log_fails ext s'" "compared_rows sp src ext s s'"
      using Pair assms(1) compare_buildings_compared [OF _ assms(2)] by (auto simp: compare_buildings_with_cancel_def)
    show ?thesis
    proof (cases r)
      case (Inl e)
      then have "\<exists>n. log_fails n" using t(1) by (auto simp: count_for_log_def split: if_splits)
      then show ?thesis using Inl t(2) by (simp del: split_paired_Ex) blast
    next
      case (Inr counts)
      then have "counts = log_counts sp src ext s'" using t(1) by (simp add: count_for_log_def split: if_splits)
      then show ?thesis using Inr t(2) by (simp del: split_paired_Ex) blast
    qed
  qed
qed

text \<open>A clean run, and one whose first log query fails after the commit.\<close>

theorem compare_buildings_exact_witness:
  "\<exists>s1 s2. compare_buildings_with_cancel boxes egib_source True True no_faults no_faults no_faults two_boxes = (Inr (1, 1, 0, 0), s1) \<and>
     map fst (cs_unmatched s1) = [box_building ''b'' (5/4, 1/4, 7/4, 3/4)] \<and>
     compare_buildings_with_cancel boxes egib_source True True no_faults no_faults (\<lambda>n. n = 0) two_boxes = (Inl ''query failed'', s2) \<and>
     compared_rows boxes egib_source (0, 0, 2, 2) two_boxes s2"
proof -
  obtain s1 where s1: "compare_buildings_with_cancel boxes egib_source True True no_faults no_faults no_faults two_boxes = (Inr (1, 1, 0, 0), s1)"
  proof -
    have "fst (compare_buildings_with_cancel boxes egib_source True True no_faults no_faults no_faults two_boxes) = Inr (1, 1, 0, 0)"
      by code_simp
    then show ?thesis using that by (metis prod.collapse)
  qed
  obtain s2 where s2: "compare_buildings_with_cancel boxes egib_source True True no_faults no_faults (\<lambda>n. n = 0) two_boxes = (Inl ''query failed'', s2)"
  proof -
    have "fst (compare_buildings_with_cancel boxes egib_source True True no_faults no_faults (\<lambda>n. n = 0) two_boxes) = Inl ''query failed''"
      by code_simp
    then show ?thesis using that by (metis prod.collapse)
  qed
  have "snd (compare_buildings_with_cancel boxes egib_source True True no_faults no_faults (\<lambda>n. n = 0) two_boxes) \<noteq> two_boxes"
  proof -
    have "cs_unmatched (snd (compare_buildings_with_cancel boxes egib_source True True no_faults no_faults (\<lambda>n. n = 0) two_boxes)) \<noteq> []"
      by code_simp
    then show ?thesis by (auto simp: two_boxes_def)
  qed
  then have "\<exists>ext. compared_rows boxes egib_source ext two_boxes s2"
    using compare_buildings_exact [OF s2 two_boxes_law] s2 by auto
  then have c2: "compared_rows boxes egib_source (0, 0, 2, 2) two_boxes s2"
    using two_boxes_extent(2) by (auto simp: compared_rows_def)
  have c1: "compared_rows boxes egib_source (0, 0, 2, 2) two_boxes s1"
    using compare_buildings_exact [OF s1 two_boxes_law] two_boxes_extent(2) by (auto simp: compared_rows_def)
  have "map (tagged boxes) (filter (\<lambda>b. offered boxes egib_source (cs_tables two_boxes)
      (home boxes (0, 0, 2, 2) b) b) (cs_rows two_boxes)) = [(box_building ''b'' (5/4, 1/4, 7/4, 3/4), (1, 0))]"
    by code_simp
  then have "map fst (cs_unmatched s1) = [box_building ''b'' (5/4, 1/4, 7/4, 3/4)]"
    using c1 by (simp add: compared_rows_def)
  then show ?thesis using s1 s2 c2 by (intro exI conjI)
qed

text \<open>C40: the completeness ratio never passes one. Starting from empty serving tables, through any sequence
  of full comparisons, finished or cut short, and of cell recomputations, with the live rows, the OSM
  polygons and the reports replaced at will in between, a cell's unmatched rows never outnumber its total,
  and no total is zero.\<close>

theorem unmatched_within_totals:
  assumes "cs_unmatched s = []" "cs_totals s = Map.empty"
  shows "cell_unmatched (fold (compare_op_run sp src) ops s) c \<le> cell_total (fold (compare_op_run sp src) ops s) c \<and>
    cs_totals (fold (compare_op_run sp src) ops s) c \<noteq> Some 0"
proof -
  have "ratio_ok s" using assms by (simp add: ratio_ok_def cell_unmatched_def)
  then have "ratio_ok (fold (compare_op_run sp src) ops s)"
  proof (induction ops arbitrary: s)
    case (Cons opr ops)
    then have "ratio_ok (compare_op_run sp src opr s)"
      using compare_buildings_ratio recompute_cell_ratio
      by (cases opr) (simp_all add: ratio_ok_def cell_unmatched_def cell_total_def)
    then show ?case using Cons.IH by simp
  qed simp
  then show ?thesis unfolding ratio_ok_def by blast
qed

theorem unmatched_within_totals_witness:
  "cell_unmatched (fold (compare_op_run boxes egib_source)
      [Full True True no_faults no_faults, New_data [] (cs_tables two_boxes), Recompute (1, 0), Full True False no_faults no_faults] two_boxes) (1, 0) \<le>
   cell_total (fold (compare_op_run boxes egib_source)
      [Full True True no_faults no_faults, New_data [] (cs_tables two_boxes), Recompute (1, 0), Full True False no_faults no_faults] two_boxes) (1, 0)"
  using unmatched_within_totals [of two_boxes boxes egib_source
      "[Full True True no_faults no_faults, New_data [] (cs_tables two_boxes), Recompute (1, 0), Full True False no_faults no_faults]" "(1, 0)"]
  by (simp add: two_boxes_def)

text \<open>C5: the incremental path and the full comparison agree: recomputing every cell that holds a row or an
  old result, in any order, gives the rows of a full comparison, provided every polygon that
  meets a building also meets its z14 cell and its grid cell.\<close>

theorem recompute_equals_full:
  assumes "compare_buildings sp src begins commits cancelled fails s = (Inr ext, full)" "extent_holds sp (cs_rows s)"
    and "\<And>b. b \<in> set (cs_rows s) \<Longrightarrow> sees sp (cs_tables s) (home sp ext b) b"
    and "\<And>b. b \<in> set (cs_rows s) \<Longrightarrow> sees sp (cs_tables s) (sp_tile_to_bbox sp (sp_cell sp (b_centroid b))) b"
    and "\<And>b. b \<in> set (cs_rows s) \<Longrightarrow> sp_cell sp (b_centroid b) \<in> set cells" "snd ` set (cs_unmatched s) \<subseteq> set cells"
  shows "mset (cs_unmatched (fold (recompute_cell sp src) cells s)) = mset (cs_unmatched full)"
proof -
  have "filter (\<lambda>(_, c). c \<notin> set cells) (cs_unmatched s) = []"
    using assms(6) by (auto simp: filter_empty_conv)
  moreover have "filter (\<lambda>b. sp_cell sp (b_centroid b) \<in> set cells \<and>
        offered sp src (cs_tables s) (sp_tile_to_bbox sp (sp_cell sp (b_centroid b))) b) (cs_rows s) =
      filter (\<lambda>b. offered sp src (cs_tables s) (home sp ext b) b) (cs_rows s)"
    using assms(3-5) offered_seen by (intro filter_cong) blast+
  ultimately show ?thesis
    using recompute_cells [of sp src cells s] compare_buildings_rows(1) [OF assms(1,2)] by simp
qed

theorem recompute_equals_full_witness:
  "mset (cs_unmatched (fold (recompute_cell boxes egib_source) [(1, 0), (0, 0), (5, 5)] two_boxes)) =
   mset (cs_unmatched (snd (compare_buildings boxes egib_source True True no_faults no_faults two_boxes)))"
proof -
  let ?s' = "snd (compare_buildings boxes egib_source True True no_faults no_faults two_boxes)"
  let ?t = "cs_tables two_boxes"
  have c: "compare_buildings boxes egib_source True True no_faults no_faults two_boxes = (Inr (0, 0, 2, 2), ?s')"
    using two_boxes_compared by (metis prod.collapse)
  have sees: "sees boxes ?t area b = (sp_intersects boxes (b_centroid b) (sp_envelope boxes area) \<and>
      list_all (\<lambda>g. sp_intersects boxes g (b_geom b) \<longrightarrow> sp_intersects boxes g (sp_envelope boxes area))
        (osm_buildings ?t @ osm_former_buildings ?t))" for area b
    by (simp only: sees_def list_all_iff)
  have "list_all (\<lambda>b. sees boxes ?t (home boxes (0, 0, 2, 2) b) b \<and>
      sees boxes ?t (sp_tile_to_bbox boxes (sp_cell boxes (b_centroid b))) b \<and>
      sp_cell boxes (b_centroid b) \<in> set [(1, 0), (0, 0), (5, 5)]) (cs_rows two_boxes)"
    unfolding sees by code_simp
  then have all: "\<And>b. b \<in> set (cs_rows two_boxes) \<Longrightarrow> sees boxes ?t (home boxes (0, 0, 2, 2) b) b \<and>
      sees boxes ?t (sp_tile_to_bbox boxes (sp_cell boxes (b_centroid b))) b \<and>
      sp_cell boxes (b_centroid b) \<in> set [(1, 0), (0, 0), (5, 5)]"
    by (simp only: list_all_iff)
  show ?thesis
    by (rule recompute_equals_full [OF c two_boxes_extent(1)])
      (use all in blast, use all in blast, use all in blast, simp add: two_boxes_def)
qed

text \<open>The logged categories do not always add up: a building whose only covering former polygon lies
  in the neighbouring grid cell is written as unmatched, the veto being read through the grid cell's
  envelope, and counted as suppressed as well, that count being read through the whole extent; the
  logged number of matched buildings, computed as the rest, is then minus one.\<close>

theorem logged_matched_negative:
  "compare_buildings boxes egib_source True True no_faults no_faults straddling =
     (Inr (0, 0, 4, 2), snd (compare_buildings boxes egib_source True True no_faults no_faults straddling)) \<and>
   log_counts boxes egib_source (0, 0, 4, 2) (snd (compare_buildings boxes egib_source True True no_faults no_faults straddling)) =
     (- 1, 1, 1, 0)"
proof
  have "fst (compare_buildings boxes egib_source True True no_faults no_faults straddling) = Inr (0, 0, 4, 2)" by code_simp
  then show "compare_buildings boxes egib_source True True no_faults no_faults straddling =
     (Inr (0, 0, 4, 2), snd (compare_buildings boxes egib_source True True no_faults no_faults straddling))"
    by (metis prod.collapse)
  show "log_counts boxes egib_source (0, 0, 4, 2) (snd (compare_buildings boxes egib_source True True no_faults no_faults straddling)) =
     (- 1, 1, 1, 0)" by code_simp
qed

end
