(* ===== verification/Match_Address.thy ===== *)
theory Match_Address
  imports Match_Rule Texts "HOL-Library.Multiset"
begin

text \<open>
  The address half of \<open>src/compare/rule.rs\<close>, the street-name mapping of
  \<open>src/mappings/street_names.rs\<close> that it reads, and the full comparison of
  \<open>src/compare/addresses.rs\<close>, which restates the rule over grid keys. SQL's NULL is \<open>None\<close>; an
  equality with NULL is not true. DuckDB's \<open>lower\<close> and \<open>upper\<close> are parameters. Address rows have
  a geometry.
\<close>

section \<open>Rows\<close>

record sql_text =
  tx_lower :: "string \<Rightarrow> string"
  tx_upper :: "string \<Rightarrow> string"

record 'g prg_address =
  a_geom :: 'g
  a_id :: string
  a_housenumber :: "string option"
  a_street :: "string option"
  a_place :: "string option"
  a_simc :: "string option"

record 'g osm_address =
  oa_geom :: 'g
  oa_housenumber :: "string option"
  oa_street :: "string option"
  oa_city :: "string option"

text \<open>A row of \<open>street_name_mappings\<close>: settlement (none for a global row), PRG name, OSM name.\<close>

record mapping_row =
  mr_simc :: "string option"
  mr_prg :: string
  mr_osm :: string

section \<open>Normal forms\<close>

text \<open>SQL's \<open>trim\<close> removes spaces.\<close>

definition sql_trim :: "string \<Rightarrow> string" where
  "sql_trim s = rev (dropWhile (\<lambda>c. c = CHR '' '') (rev (dropWhile (\<lambda>c. c = CHR '' '') s)))"

definition sql_eq :: "'a option \<Rightarrow> 'a option \<Rightarrow> bool" where
  "sql_eq x y \<longleftrightarrow> x \<noteq> None \<and> x = y"

definition normalized_name :: "sql_text \<Rightarrow> string option \<Rightarrow> string option" where
  "normalized_name tx e = (case e of None \<Rightarrow> None
     | Some s \<Rightarrow> let n = tx_lower tx (sql_trim s) in if n = '''' then None else Some n)"

definition sql_digit :: "char \<Rightarrow> bool" where
  "sql_digit c \<longleftrightarrow> digit_val c \<noteq> None"

definition sql_letter :: "char \<Rightarrow> bool" where
  "sql_letter c = (let n = of_char c :: nat in (65 \<le> n \<and> n \<le> 90) \<or> (97 \<le> n \<and> n \<le> 122))"

text \<open>The regular expression of one or two digits, a space and a letter, on the whole text.\<close>

fun collapse_suffix :: "string \<Rightarrow> string" where
  "collapse_suffix [d, s, l] = (if sql_digit d \<and> s = CHR '' '' \<and> sql_letter l then [d, l] else [d, s, l])"
| "collapse_suffix [d, e, s, l] =
     (if sql_digit d \<and> sql_digit e \<and> s = CHR '' '' \<and> sql_letter l then [d, e, l] else [d, e, s, l])"
| "collapse_suffix s = s"

definition slashes :: "string \<Rightarrow> string" where
  "slashes s = map (\<lambda>c. if c = CHR ''-'' then CHR ''/'' else c) (map (\<lambda>c. if c = CHR 0x5C then CHR ''/'' else c) s)"

definition normalized_housenumber :: "sql_text \<Rightarrow> string option \<Rightarrow> string option" where
  "normalized_housenumber tx e = map_option (\<lambda>s. collapse_suffix (tx_upper tx (sql_trim (slashes s)))) e"

section \<open>Resolving a street through the mapping\<close>

definition name_key :: "sql_text \<Rightarrow> string \<Rightarrow> string" where
  "name_key tx s = tx_lower tx (sql_trim s)"

text \<open>The two left joins: every pair of a settlement row and a global row, each absent when none matches.\<close>

definition left_join :: "('b \<Rightarrow> bool) \<Rightarrow> 'b list \<Rightarrow> 'b option list" where
  "left_join p rows = (case filter p rows of [] \<Rightarrow> [None] | rs \<Rightarrow> map Some rs)"

definition loc_row :: "sql_text \<Rightarrow> 'g prg_address \<Rightarrow> mapping_row \<Rightarrow> bool" where
  "loc_row tx a m \<longleftrightarrow> sql_eq (Some (name_key tx (mr_prg m))) (map_option (name_key tx) (a_street a)) \<and> sql_eq (mr_simc m) (a_simc a)"

definition gl_row :: "sql_text \<Rightarrow> 'g prg_address \<Rightarrow> mapping_row \<Rightarrow> bool" where
  "gl_row tx a m \<longleftrightarrow> sql_eq (Some (name_key tx (mr_prg m))) (map_option (name_key tx) (a_street a)) \<and> mr_simc m = None"

definition resolved_street_expr :: "'g prg_address \<Rightarrow> mapping_row option \<Rightarrow> mapping_row option \<Rightarrow> string option" where
  "resolved_street_expr a loc gl =
     (case loc of Some m \<Rightarrow> Some (mr_osm m) | None \<Rightarrow> (case gl of Some m \<Rightarrow> Some (mr_osm m) | None \<Rightarrow> a_street a))"

definition resolved_streets :: "sql_text \<Rightarrow> mapping_row list \<Rightarrow> 'g prg_address \<Rightarrow> string option list" where
  "resolved_streets tx ms a =
     concat (map (\<lambda>loc. map (\<lambda>gl. resolved_street_expr a loc gl) (left_join (gl_row tx a) ms)) (left_join (loc_row tx a) ms))"

section \<open>The rule\<close>

definition MATCH_DISTANCE_METERS :: rat where
  "MATCH_DISTANCE_METERS = 50"

definition NAME_MATCH_DISTANCE_METERS :: rat where
  "NAME_MATCH_DISTANCE_METERS = 150"

definition names_agree :: "sql_text \<Rightarrow> string option \<Rightarrow> 'g prg_address \<Rightarrow> 'g osm_address \<Rightarrow> bool" where
  "names_agree tx street a o' \<longleftrightarrow>
     sql_eq (normalized_name tx street) (normalized_name tx (oa_street o')) \<or>
     (normalized_name tx street = None \<and> normalized_name tx (oa_street o') = None \<and>
      sql_eq (normalized_name tx (a_place a)) (normalized_name tx (oa_city o')))"

definition address_matches :: "'g sql_spatial \<Rightarrow> sql_text \<Rightarrow> string option \<Rightarrow> 'g prg_address \<Rightarrow> 'g osm_address \<Rightarrow> bool" where
  "address_matches sp tx street a o' \<longleftrightarrow>
     sql_eq (normalized_housenumber tx (oa_housenumber o')) (normalized_housenumber tx (a_housenumber a)) \<and>
     (sp_distance sp (oa_geom o') (a_geom a) \<le> MATCH_DISTANCE_METERS \<or>
      (sp_distance sp (oa_geom o') (a_geom a) \<le> NAME_MATCH_DISTANCE_METERS \<and> names_agree tx street a o'))"

record 'g address_tables =
  at_osm :: "'g osm_address list"
  at_mappings :: "mapping_row list"
  at_reports :: "report list"

definition address_reported :: "'g address_tables \<Rightarrow> 'g prg_address \<Rightarrow> bool" where
  "address_reported t a = list_ex (\<lambda>r. r_status r = REPORT_ACTIVE \<and> r_source r = ''prg'' \<and> r_record_key r = [a_id a]) (at_reports t)"

definition unmatched_addresses_in_cell ::
  "'g sql_spatial \<Rightarrow> sql_text \<Rightarrow> 'g address_tables \<Rightarrow> bounds \<Rightarrow> bounds \<Rightarrow> 'g prg_address list \<Rightarrow> 'g prg_address list" where
  "unmatched_addresses_in_cell sp tx t write read rows =
     (let candidates = filter (\<lambda>a. sp_intersects sp (a_geom a) (sp_envelope sp write)) rows;
          resolved = concat (map (\<lambda>c. map (Pair c) (resolved_streets tx (at_mappings t) c)) candidates)
      in map fst (filter (\<lambda>(a, street). sp_intersects sp (a_geom a) (sp_envelope sp write) \<and> \<not> address_reported t a \<and>
           \<not> list_ex (\<lambda>o'. sp_intersects sp (oa_geom o') (sp_envelope sp read) \<and> address_matches sp tx street a o') (at_osm t)) resolved))"

section \<open>The full comparison\<close>

definition GRID_KEY_DEG :: rat where
  "GRID_KEY_DEG = round53 (5 / 1000)"

definition grid_key :: "'g sql_spatial \<Rightarrow> 'g \<Rightarrow> int \<times> int" where
  "grid_key sp g = (\<lfloor>round53 (sp_x sp g / GRID_KEY_DEG)\<rfloor>, \<lfloor>round53 (sp_y sp g / GRID_KEY_DEG)\<rfloor>)"

definition neighbor_offsets :: "(int \<times> int) list" where
  "neighbor_offsets = [(-1, -1), (-1, 0), (-1, 1), (0, -1), (0, 0), (0, 1), (1, -1), (1, 0), (1, 1)]"

definition matched_ids :: "'g sql_spatial \<Rightarrow> sql_text \<Rightarrow> 'g address_tables \<Rightarrow> 'g prg_address list \<Rightarrow> string list" where
  "matched_ids sp tx t rows =
     (let src_norm = concat (map (\<lambda>a. map (Pair a) (resolved_streets tx (at_mappings t) a)) rows);
          src_expanded = concat (map (\<lambda>(a, street). map (\<lambda>(dx, dy). (a, street, fst (grid_key sp (a_geom a)) + dx,
            snd (grid_key sp (a_geom a)) + dy)) neighbor_offsets) src_norm)
      in remdups (map (\<lambda>(a, _). a_id a) (filter (\<lambda>(a, street, gx, gy).
           list_ex (\<lambda>o'. (gx, gy) = grid_key sp (oa_geom o') \<and> address_matches sp tx street a o') (at_osm t)) src_expanded)))"

definition compare_addresses_rows :: "'g sql_spatial \<Rightarrow> sql_text \<Rightarrow> 'g address_tables \<Rightarrow> 'g prg_address list \<Rightarrow> ('g prg_address \<times> cell) list" where
  "compare_addresses_rows sp tx t rows =
     map (\<lambda>a. (a, sp_cell sp (a_geom a)))
       (filter (\<lambda>a. a_id a \<notin> set (matched_ids sp tx t rows) \<and> \<not> address_reported t a) rows)"

definition recompute_address_rows ::
  "'g sql_spatial \<Rightarrow> sql_text \<Rightarrow> 'g address_tables \<Rightarrow> bounds \<Rightarrow> bounds \<Rightarrow> cell \<Rightarrow> 'g prg_address list \<Rightarrow> ('g prg_address \<times> cell) list" where
  "recompute_address_rows sp tx t write read c rows =
     map (\<lambda>a. (a, sp_cell sp (a_geom a)))
       (filter (\<lambda>a. sp_cell sp (a_geom a) = c) (unmatched_addresses_in_cell sp tx t write read rows))"

section \<open>Loading the mapping\<close>

text \<open>A row as \<open>read_csv\<close> returns it, and as it is staged.\<close>

record csv_row =
  cr_simc :: "string option"
  cr_prg :: "string option"
  cr_osm :: "string option"

definition staged :: "csv_row \<Rightarrow> csv_row" where
  "staged r = \<lparr>cr_simc = (case cr_simc r of None \<Rightarrow> None | Some s \<Rightarrow> if sql_trim s = [] then None else Some (sql_trim s)),
     cr_prg = map_option sql_trim (cr_prg r), cr_osm = map_option sql_trim (cr_osm r)\<rparr>"

definition empty_name :: "csv_row \<Rightarrow> bool" where
  "empty_name r \<longleftrightarrow> cr_prg r = None \<or> cr_prg r = Some [] \<or> cr_osm r = None \<or> cr_osm r = Some []"

definition row_of_staged :: "csv_row \<Rightarrow> mapping_row" where
  "row_of_staged r = \<lparr>mr_simc = cr_simc r, mr_prg = the (cr_prg r), mr_osm = the (cr_osm r)\<rparr>"

definition mapping_key :: "sql_text \<Rightarrow> mapping_row \<Rightarrow> string \<times> string option" where
  "mapping_key tx m = (tx_lower tx (mr_prg m), mr_simc m)"

definition triple :: "sql_text \<Rightarrow> mapping_row \<Rightarrow> string option \<times> string \<times> string" where
  "triple tx m = (mr_simc m, tx_lower tx (mr_prg m), mr_osm m)"

definition changed_names :: "sql_text \<Rightarrow> mapping_row list \<Rightarrow> mapping_row list \<Rightarrow> string list" where
  "changed_names tx live new =
     (let l = map (triple tx) live; n = map (triple tx) new
      in map (\<lambda>(_, name, _). name) (filter (\<lambda>t. t \<notin> set n) l @ filter (\<lambda>t. t \<notin> set l) n))"

text \<open>\<open>md_prg\<close> is \<open>None\<close> before the first PRG import; the queues hold the cells added for \<open>prg\<close>.\<close>

record 'g mapping_db =
  md_mappings :: "mapping_row list"
  md_prg :: "'g prg_address list option"
  md_match_queue :: "cell list"
  md_tile_queue :: "cell list"

definition delta_cells :: "'g sql_spatial \<Rightarrow> sql_text \<Rightarrow> mapping_row list \<Rightarrow> mapping_row list \<Rightarrow> 'g prg_address list \<Rightarrow> cell list" where
  "delta_cells sp tx live new prg =
     remdups (map (\<lambda>p. sp_cell sp (a_geom p))
       (filter (\<lambda>p. case a_street p of None \<Rightarrow> False | Some u \<Rightarrow> name_key tx u \<in> set (changed_names tx live new)) prg))"

definition enqueue_mapping_delta_cells :: "'g sql_spatial \<Rightarrow> sql_text \<Rightarrow> mapping_row list \<Rightarrow> 'g mapping_db \<Rightarrow> 'g mapping_db" where
  "enqueue_mapping_delta_cells sp tx new db =
     (case md_prg db of None \<Rightarrow> db
      | Some prg \<Rightarrow> let cells = delta_cells sp tx (md_mappings db) new prg
          in db\<lparr>md_match_queue := md_match_queue db @ cells, md_tile_queue := md_tile_queue db @ cells\<rparr>)"

text \<open>\<open>commits\<close>: whether the transaction of the swap succeeds.\<close>

definition load_mappings :: "'g sql_spatial \<Rightarrow> sql_text \<Rightarrow> bool \<Rightarrow> csv_row list \<Rightarrow> 'g mapping_db \<Rightarrow> (string + nat) \<times> 'g mapping_db" where
  "load_mappings sp tx commits csv db =
     (let staging = map staged csv
      in if list_ex empty_name staging then (Inl ''row(s) have an empty street name; refusing to load'', db)
         else let new = map row_of_staged staging
              in if \<not> distinct (map (mapping_key tx) new)
                 then (Inl ''duplicate (street name, settlement) key(s); refusing to load'', db)
                 else if \<not> commits then (Inl ''Failed to replace mapping table contents'', db)
                 else (Inr (length new), (enqueue_mapping_delta_cells sp tx new db)\<lparr>md_mappings := new\<rparr>))"

section \<open>The mapping cannot fan out\<close>

definition mapping_ok :: "sql_text \<Rightarrow> mapping_row list \<Rightarrow> bool" where
  "mapping_ok tx ms \<longleftrightarrow> (\<forall>m\<in>set ms. sql_trim (mr_prg m) = mr_prg m) \<and> distinct (map (mapping_key tx) ms)"

lemma dropWhile_last: "dropWhile P xs \<noteq> [] \<Longrightarrow> last (dropWhile P xs) = last xs"
  by (induction xs) (auto split: if_splits)

lemma sql_trim_idem [simp]: "sql_trim (sql_trim s) = sql_trim s"
proof -
  let ?P = "\<lambda>c. c = CHR '' ''"
  let ?u = "dropWhile ?P s"
  let ?t = "dropWhile ?P (rev ?u)"
  have "dropWhile ?P (rev ?t) = rev ?t"
  proof (cases "?t = []")
    case False
    have "hd (rev ?t) = last ?t" using False by (simp add: hd_rev)
    also have "\<dots> = last (rev ?u)" using False by (rule dropWhile_last)
    also have "\<dots> = hd ?u" using False by (cases "?u = []") (simp_all add: last_rev)
    finally have "\<not> ?P (hd (rev ?t))" using False hd_dropWhile [of ?P s] by (cases "?u = []") simp_all
    then show ?thesis using dropWhile_eq_self_iff by blast
  next
    case True
    show ?thesis unfolding True by (simp only: rev.simps dropWhile.simps)
  qed
  moreover have "dropWhile ?P ?t = ?t" by (rule dropWhile_idem)
  ultimately show ?thesis by (simp add: sql_trim_def)
qed

lemma load_mappings_ok:
  assumes "load_mappings sp tx commits csv db = (Inr n, db')"
  shows "mapping_ok tx (md_mappings db')" "n = length csv" "md_prg db' = md_prg db"
    "md_mappings db' = map row_of_staged (map staged csv)"
    "db' = (enqueue_mapping_delta_cells sp tx (md_mappings db') db)\<lparr>md_mappings := md_mappings db'\<rparr>"
proof -
  let ?new = "map row_of_staged (map staged csv)"
  have ne: "\<not> list_ex empty_name (map staged csv)" and d: "distinct (map (mapping_key tx) ?new)"
    and db': "db' = (enqueue_mapping_delta_cells sp tx ?new db)\<lparr>md_mappings := ?new\<rparr>" "n = length ?new"
    using assms unfolding load_mappings_def Let_def by (simp_all split: if_splits)
  have "sql_trim (mr_prg m) = mr_prg m" if "m \<in> set ?new" for m
  proof -
    from that obtain r where r: "r \<in> set csv" "m = row_of_staged (staged r)" by auto
    then have "\<not> empty_name (staged r)" using ne by (auto simp: list_ex_iff)
    then obtain p where "cr_prg r = Some p" by (auto simp: empty_name_def staged_def)
    then show ?thesis by (simp add: r(2) row_of_staged_def staged_def)
  qed
  then show "mapping_ok tx (md_mappings db')" using d by (simp add: db' mapping_ok_def)
  show "n = length csv" "md_prg db' = md_prg db" "md_mappings db' = ?new"
    by (simp_all add: db' enqueue_mapping_delta_cells_def Let_def split: option.split)
  then show "db' = (enqueue_mapping_delta_cells sp tx (md_mappings db') db)\<lparr>md_mappings := md_mappings db'\<rparr>"
    using db' by simp
qed

text \<open>At most one row matches a key, so a filter for it has at most one element.\<close>

lemma filter_unique:
  assumes "distinct (map f ms)" "\<And>m. m \<in> set ms \<Longrightarrow> p m \<Longrightarrow> f m = k"
  shows "filter p ms = (case find p ms of None \<Rightarrow> [] | Some m \<Rightarrow> [m])"
  using assms
proof (induction ms)
  case (Cons m ms)
  show ?case
  proof (cases "p m")
    case True
    then have "f m = k" using Cons.prems by simp
    then have "\<not> p m'" if "m' \<in> set ms" for m'
      using Cons.prems that by (metis distinct.simps(2) image_eqI list.set_intros(2) list.set_map list.simps(9))
    then show ?thesis using True by (simp add: filter_empty_conv)
  qed (use Cons in simp)
qed simp

lemma left_join_unique:
  assumes "distinct (map f ms)" "\<And>m. m \<in> set ms \<Longrightarrow> p m \<Longrightarrow> f m = k"
  shows "left_join p ms = [find p ms]"
  using filter_unique [of f ms p k] assms by (simp add: left_join_def split: option.splits)

lemma row_keys:
  assumes "mapping_ok tx ms" "m \<in> set ms"
  shows "loc_row tx a m \<Longrightarrow> mapping_key tx m = (name_key tx (the (a_street a)), a_simc a)"
    "gl_row tx a m \<Longrightarrow> mapping_key tx m = (name_key tx (the (a_street a)), None)"
  using assms by (cases "a_street a"; auto simp: loc_row_def gl_row_def mapping_key_def sql_eq_def mapping_ok_def name_key_def)+

definition resolved_street :: "sql_text \<Rightarrow> mapping_row list \<Rightarrow> 'g prg_address \<Rightarrow> string option" where
  "resolved_street tx ms a = resolved_street_expr a (find (loc_row tx a) ms) (find (gl_row tx a) ms)"

lemma resolved_streets_single:
  assumes "mapping_ok tx ms"
  shows "resolved_streets tx ms a = [resolved_street tx ms a]"
proof -
  have d: "distinct (map (mapping_key tx) ms)" using assms by (simp add: mapping_ok_def)
  have "left_join (loc_row tx a) ms = [find (loc_row tx a) ms]" "left_join (gl_row tx a) ms = [find (gl_row tx a) ms]"
    using left_join_unique [OF d] row_keys [OF assms, of _ a] by blast+
  then show ?thesis by (simp add: resolved_streets_def resolved_street_def)
qed

section \<open>Edits reach the queues\<close>

lemma unchanged_triples:
  assumes "n \<notin> set (changed_names tx live new)"
  shows "(k, n, v) \<in> triple tx ` set live \<longleftrightarrow> (k, n, v) \<in> triple tx ` set new"
proof (rule ccontr)
  let ?d = "filter (\<lambda>t. t \<notin> set (map (triple tx) new)) (map (triple tx) live) @
    filter (\<lambda>t. t \<notin> set (map (triple tx) live)) (map (triple tx) new)"
  assume "\<not> ?thesis"
  then have "(k, n, v) \<in> set ?d" by auto
  then have "(\<lambda>(_, name, _). name) (k, n, v) \<in> (\<lambda>(_, name, _). name) ` set ?d" by (rule imageI)
  then have "n \<in> set (changed_names tx live new)"
    unfolding changed_names_def Let_def by (simp only: set_map prod.case)
  then show False using assms by simp
qed

text \<open>The OSM name a settlement row or a global row gives depends only on the triples of the name.\<close>

lemma found_osm:
  assumes ok: "mapping_ok tx ms"
    and p: "\<And>m. m \<in> set ms \<Longrightarrow> p m \<longleftrightarrow> mapping_key tx m = (n, k)"
  shows "map_option mr_osm (find p ms) = Some v \<longleftrightarrow> (k, n, v) \<in> triple tx ` set ms"
proof -
  have d: "distinct (map (mapping_key tx) ms)" using ok by (simp add: mapping_ok_def)
  have uniq: "m = m'" if "m \<in> set ms" "m' \<in> set ms" "mapping_key tx m = mapping_key tx m'" for m m'
    using d that by (auto simp: distinct_map inj_on_def)
  show ?thesis
  proof
    assume "map_option mr_osm (find p ms) = Some v"
    then obtain m where m: "find p ms = Some m" "mr_osm m = v" by auto
    then have "m \<in> set ms" "p m" by (auto simp: find_Some_iff)
    then have "triple tx m = (k, n, v)" using p m(2) by (simp add: triple_def mapping_key_def)
    then show "(k, n, v) \<in> triple tx ` set ms" using \<open>m \<in> set ms\<close> by (metis image_eqI)
  next
    assume "(k, n, v) \<in> triple tx ` set ms"
    then obtain m where m: "m \<in> set ms" "triple tx m = (k, n, v)" by auto
    then have "p m" using p by (simp add: triple_def mapping_key_def)
    then have "find p ms \<noteq> None" using m(1) by (auto simp: find_None_iff)
    then obtain m' where m': "find p ms = Some m'" by auto
    then have "m' \<in> set ms" "p m'" by (auto simp: find_Some_iff)
    then have "m' = m" using uniq p m(1) \<open>p m\<close> by simp
    then show "map_option mr_osm (find p ms) = Some v" using m' m(2) by (simp add: triple_def)
  qed
qed

lemma resolved_street_triples:
  assumes "mapping_ok tx live" "mapping_ok tx new" "a_street a = Some u" "name_key tx u \<notin> set (changed_names tx live new)"
  shows "resolved_street tx live a = resolved_street tx new a"
proof -
  let ?n = "name_key tx u"
  have tr: "(k, ?n, v) \<in> triple tx ` set live \<longleftrightarrow> (k, ?n, v) \<in> triple tx ` set new" for k v
    by (rule unchanged_triples [OF assms(4)])
  have loc: "map_option mr_osm (find (loc_row tx a) ms) = Some v \<longleftrightarrow> a_simc a \<noteq> None \<and> (a_simc a, ?n, v) \<in> triple tx ` set ms"
    if "mapping_ok tx ms" for ms v
  proof (cases "a_simc a")
    case None
    have "find (loc_row tx a) ms = None" using None by (auto simp: find_None_iff loc_row_def sql_eq_def)
    then show ?thesis using None by simp
  next
    case (Some k)
    have "loc_row tx a m \<longleftrightarrow> mapping_key tx m = (?n, Some k)" if "m \<in> set ms" for m
      using \<open>mapping_ok tx ms\<close> that Some assms(3)
      by (auto simp: loc_row_def sql_eq_def mapping_key_def mapping_ok_def name_key_def)
    then show ?thesis using found_osm [OF that] Some by simp
  qed
  have gl: "map_option mr_osm (find (gl_row tx a) ms) = Some v \<longleftrightarrow> (None, ?n, v) \<in> triple tx ` set ms"
    if "mapping_ok tx ms" for ms v
  proof -
    have "gl_row tx a m \<longleftrightarrow> mapping_key tx m = (?n, None)" if "m \<in> set ms" for m
      using \<open>mapping_ok tx ms\<close> that assms(3)
      by (auto simp: gl_row_def sql_eq_def mapping_key_def mapping_ok_def name_key_def)
    then show ?thesis using found_osm [OF that] by simp
  qed
  have eq: "map_option mr_osm x = map_option mr_osm y" if "\<And>v. map_option mr_osm x = Some v \<longleftrightarrow> map_option mr_osm y = Some v"
    for x y :: "mapping_row option"
    using that by (metis not_None_eq)
  have "map_option mr_osm (find (loc_row tx a) live) = map_option mr_osm (find (loc_row tx a) new)"
    "map_option mr_osm (find (gl_row tx a) live) = map_option mr_osm (find (gl_row tx a) new)"
    by (rule eq, simp only: loc [OF assms(1)] loc [OF assms(2)] gl [OF assms(1)] gl [OF assms(2)] tr)+
  moreover have "resolved_street_expr a l g = (case map_option mr_osm l of Some v \<Rightarrow> Some v
      | None \<Rightarrow> (case map_option mr_osm g of Some v \<Rightarrow> Some v | None \<Rightarrow> a_street a))" for l g
    by (simp add: resolved_street_expr_def split: option.split)
  ultimately show ?thesis by (simp only: resolved_street_def)
qed

lemma resolved_street_none: "a_street a = None \<Longrightarrow> resolved_street tx ms a = None"
proof -
  assume n: "a_street a = None"
  have "find (loc_row tx a) ms = None" "find (gl_row tx a) ms = None"
    using n by (auto simp: find_None_iff loc_row_def gl_row_def sql_eq_def)
  then show ?thesis using n by (simp add: resolved_street_def resolved_street_expr_def)
qed

section \<open>The grid-key join is the rule\<close>

lemma neighbor_offsets_iff: "(dx, dy) \<in> set neighbor_offsets \<longleftrightarrow> \<bar>dx\<bar> \<le> 1 \<and> \<bar>dy\<bar> \<le> 1"
proof -
  have "set neighbor_offsets = {-1, 0, 1} \<times> {-1, 0, 1}" by (auto simp: neighbor_offsets_def)
  moreover have "dx \<in> {-1, 0, 1} \<longleftrightarrow> \<bar>dx\<bar> \<le> 1" "dy \<in> {-1, 0, 1} \<longleftrightarrow> \<bar>dy\<bar> \<le> 1" by auto
  ultimately show ?thesis by auto
qed

definition adjacent_keys :: "'g sql_spatial \<Rightarrow> 'g \<Rightarrow> 'g \<Rightarrow> bool" where
  "adjacent_keys sp g h \<longleftrightarrow> \<bar>fst (grid_key sp g) - fst (grid_key sp h)\<bar> \<le> 1 \<and> \<bar>snd (grid_key sp g) - snd (grid_key sp h)\<bar> \<le> 1"

definition matched_by_rule :: "'g sql_spatial \<Rightarrow> sql_text \<Rightarrow> 'g address_tables \<Rightarrow> 'g prg_address \<Rightarrow> bool" where
  "matched_by_rule sp tx t a = list_ex (address_matches sp tx (resolved_street tx (at_mappings t) a) a) (at_osm t)"

lemma address_matches_near: "address_matches sp tx street a o' \<Longrightarrow> sp_distance sp (oa_geom o') (a_geom a) \<le> NAME_MATCH_DISTANCE_METERS"
  by (auto simp: address_matches_def MATCH_DISTANCE_METERS_def NAME_MATCH_DISTANCE_METERS_def)

lemma matched_ids_iff:
  assumes "mapping_ok tx (at_mappings t)"
    and near: "\<And>a o'. a \<in> set rows \<Longrightarrow> o' \<in> set (at_osm t) \<Longrightarrow>
      sp_distance sp (oa_geom o') (a_geom a) \<le> NAME_MATCH_DISTANCE_METERS \<Longrightarrow> adjacent_keys sp (oa_geom o') (a_geom a)"
  shows "i \<in> set (matched_ids sp tx t rows) \<longleftrightarrow> (\<exists>a\<in>set rows. a_id a = i \<and> matched_by_rule sp tx t a)"
proof -
  let ?st = "resolved_street tx (at_mappings t)"
  have mem: "i \<in> set (map f (filter p xs)) \<longleftrightarrow> (\<exists>x\<in>set xs. p x \<and> f x = i)" for f p and xs :: "'c list"
    by auto
  have "i \<in> set (matched_ids sp tx t rows) \<longleftrightarrow> (\<exists>a\<in>set rows. a_id a = i \<and> (\<exists>(dx, dy)\<in>set neighbor_offsets. \<exists>o'\<in>set (at_osm t).
      (fst (grid_key sp (a_geom a)) + dx, snd (grid_key sp (a_geom a)) + dy) = grid_key sp (oa_geom o') \<and>
      address_matches sp tx (?st a) a o'))"
    unfolding matched_ids_def Let_def resolved_streets_single [OF assms(1)]
    unfolding set_remdups mem by (simp add: list_ex_iff split_def) blast
  moreover have "(\<exists>(dx, dy)\<in>set neighbor_offsets. \<exists>o'\<in>set (at_osm t).
      (fst (grid_key sp (a_geom a)) + dx, snd (grid_key sp (a_geom a)) + dy) = grid_key sp (oa_geom o') \<and>
      address_matches sp tx (?st a) a o') \<longleftrightarrow> matched_by_rule sp tx t a" if "a \<in> set rows" for a
  proof
    assume "matched_by_rule sp tx t a"
    then obtain o' where o': "o' \<in> set (at_osm t)" "address_matches sp tx (?st a) a o'"
      by (auto simp: matched_by_rule_def list_ex_iff)
    let ?dx = "fst (grid_key sp (oa_geom o')) - fst (grid_key sp (a_geom a))"
    let ?dy = "snd (grid_key sp (oa_geom o')) - snd (grid_key sp (a_geom a))"
    have "adjacent_keys sp (oa_geom o') (a_geom a)" by (rule near [OF that o'(1) address_matches_near [OF o'(2)]])
    then have "(?dx, ?dy) \<in> set neighbor_offsets" unfolding neighbor_offsets_iff adjacent_keys_def .
    moreover have "(fst (grid_key sp (a_geom a)) + ?dx, snd (grid_key sp (a_geom a)) + ?dy) = grid_key sp (oa_geom o')"
      by simp
    ultimately show "\<exists>(dx, dy)\<in>set neighbor_offsets. \<exists>o'\<in>set (at_osm t).
      (fst (grid_key sp (a_geom a)) + dx, snd (grid_key sp (a_geom a)) + dy) = grid_key sp (oa_geom o') \<and>
      address_matches sp tx (?st a) a o'" using o' by blast
  qed (auto simp: matched_by_rule_def list_ex_iff)
  ultimately show ?thesis by blast
qed

lemma compare_addresses_by_rule:
  assumes "mapping_ok tx (at_mappings t)" "distinct (map a_id rows)"
    and near: "\<And>a o'. a \<in> set rows \<Longrightarrow> o' \<in> set (at_osm t) \<Longrightarrow>
      sp_distance sp (oa_geom o') (a_geom a) \<le> NAME_MATCH_DISTANCE_METERS \<Longrightarrow> adjacent_keys sp (oa_geom o') (a_geom a)"
  shows "compare_addresses_rows sp tx t rows = map (\<lambda>a. (a, sp_cell sp (a_geom a)))
    (filter (\<lambda>a. \<not> matched_by_rule sp tx t a \<and> \<not> address_reported t a) rows)"
proof -
  have "a_id a \<in> set (matched_ids sp tx t rows) \<longleftrightarrow> matched_by_rule sp tx t a" if "a \<in> set rows" for a
    using matched_ids_iff [OF assms(1) near] assms(2) that by (auto simp: distinct_map inj_on_def)
  then show ?thesis unfolding compare_addresses_rows_def by (auto intro!: arg_cong [of _ _ "map _"] filter_cong)
qed

lemma recompute_addresses_by_rule:
  assumes "mapping_ok tx (at_mappings t)"
    and wr: "\<And>a. a \<in> set rows \<Longrightarrow> sp_cell sp (a_geom a) = c \<Longrightarrow> sp_intersects sp (a_geom a) (sp_envelope sp write)"
    and rd: "\<And>a o'. a \<in> set rows \<Longrightarrow> o' \<in> set (at_osm t) \<Longrightarrow> sp_cell sp (a_geom a) = c \<Longrightarrow>
      sp_distance sp (oa_geom o') (a_geom a) \<le> NAME_MATCH_DISTANCE_METERS \<Longrightarrow> sp_intersects sp (oa_geom o') (sp_envelope sp read)"
  shows "recompute_address_rows sp tx t write read c rows = map (\<lambda>a. (a, sp_cell sp (a_geom a)))
    (filter (\<lambda>a. sp_cell sp (a_geom a) = c \<and> \<not> matched_by_rule sp tx t a \<and> \<not> address_reported t a) rows)"
proof -
  let ?q = "\<lambda>a. sp_intersects sp (a_geom a) (sp_envelope sp write) \<and> \<not> address_reported t a \<and>
    \<not> list_ex (\<lambda>o'. sp_intersects sp (oa_geom o') (sp_envelope sp read) \<and>
      address_matches sp tx (resolved_street tx (at_mappings t) a) a o') (at_osm t)"
  have one: "map fst (filter (\<lambda>(a, street). P a street) (concat (map (\<lambda>c. map (Pair c) [g c]) xs))) = filter (\<lambda>a. P a (g a)) xs" for P g xs
    by (induction xs) auto
  have "unmatched_addresses_in_cell sp tx t write read rows = filter ?q rows"
    unfolding unmatched_addresses_in_cell_def Let_def resolved_streets_single [OF assms(1)] one
    by (simp add: conj_ac)
  moreover have "sp_cell sp (a_geom a) = c \<and> ?q a \<longleftrightarrow>
      sp_cell sp (a_geom a) = c \<and> \<not> matched_by_rule sp tx t a \<and> \<not> address_reported t a" if "a \<in> set rows" for a
    using wr [OF that] rd [OF that] address_matches_near [of sp tx "resolved_street tx (at_mappings t) a" a]
    unfolding matched_by_rule_def list_ex_iff by blast
  ultimately show ?thesis
    unfolding recompute_address_rows_def by (auto intro!: arg_cong [of _ _ "map _"] filter_cong)
qed

section \<open>A concrete instance\<close>

text \<open>ASCII case conversion, points on a line whose z14 cells are unit intervals, all in one grid key.\<close>

definition ascii_text :: sql_text where
  "ascii_text = \<lparr>tx_lower = map ascii_lower,
     tx_upper = map (\<lambda>c. let n = of_char c :: nat in if 97 \<le> n \<and> n \<le> 122 then char_of (n - 32) else c)\<rparr>"

definition line :: "rat sql_spatial" where
  "line = \<lparr>sp_intersects = (\<lambda>p q. \<bar>p - q\<bar> \<le> 2), sp_covered = (\<lambda>_ _. None), sp_envelope = fst, sp_x = (\<lambda>_. 0), sp_y = (\<lambda>_. 0),
     sp_extent = (\<lambda>_. None), sp_cell = (\<lambda>p. (\<lfloor>p\<rfloor>, 0)), sp_tile_to_bbox = (\<lambda>c. (of_int (fst c), 0, 0, 0)),
     sp_distance = (\<lambda>p q. 100 * \<bar>p - q\<bar>)\<rparr>"

definition street_address :: "rat \<Rightarrow> string \<Rightarrow> string \<Rightarrow> string \<Rightarrow> rat prg_address" where
  "street_address p i hn st = \<lparr>a_geom = p, a_id = i, a_housenumber = Some hn, a_street = Some st, a_place = None, a_simc = Some ''1''\<rparr>"

definition sample_rows :: "rat prg_address list" where
  "sample_rows = [street_address 0 ''i'' ''12 a'' ''ul. X'', street_address (1/2) ''j'' ''7'' ''ul. X'']"

definition sample_tables :: "rat address_tables" where
  "sample_tables = \<lparr>at_osm = [\<lparr>oa_geom = 1, oa_housenumber = Some ''12A'', oa_street = Some ''Xowa'', oa_city = None\<rparr>],
     at_mappings = [\<lparr>mr_simc = None, mr_prg = ''ul. X'', mr_osm = ''Xowa''\<rparr>], at_reports = []\<rparr>"

definition sample_csv :: "csv_row list" where
  "sample_csv = [\<lparr>cr_simc = None, cr_prg = Some '' ul. X'', cr_osm = Some ''Xowa''\<rparr>]"

definition sample_db :: "rat mapping_db" where
  "sample_db = \<lparr>md_mappings = [], md_prg = Some sample_rows, md_match_queue = [], md_tile_queue = []\<rparr>"

section \<open>Properties\<close>

text \<open>Loading the mapping is all or nothing, and what is loaded cannot fan out: a file with an empty
  name or with two rows for one name and settlement leaves the database as it was; after a
  successful load the two left joins give every address exactly one street.\<close>

theorem loaded_mapping_cannot_fan_out:
  assumes "load_mappings sp tx commits csv db = (r, db')"
  shows "case r of Inl _ \<Rightarrow> db' = db
    | Inr n \<Rightarrow> n = length csv \<and> length (md_mappings db') = n \<and> (\<forall>a :: 'c prg_address. \<exists>street. resolved_streets tx (md_mappings db') a = [street])"
proof (cases r)
  case (Inl e)
  then show ?thesis using assms by (auto simp: load_mappings_def Let_def split: if_splits)
next
  case (Inr n)
  then have "load_mappings sp tx commits csv db = (Inr n, db')" using assms by simp
  note ok = load_mappings_ok [OF this]
  have "\<exists>street. resolved_streets tx (md_mappings db') a = [street]" for a :: "'c prg_address"
    unfolding resolved_streets_single [OF ok(1)] by simp
  then show ?thesis using Inr ok(2,4) by simp
qed

theorem loaded_mapping_cannot_fan_out_witness:
  "\<exists>street. resolved_streets ascii_text (md_mappings (snd (load_mappings line ascii_text True sample_csv sample_db)))
    (street_address 0 ''i'' ''12 a'' ''UL. x'') = [street]"
proof -
  have "fst (load_mappings line ascii_text True sample_csv sample_db) = Inr 1" by code_simp
  then have "load_mappings line ascii_text True sample_csv sample_db =
      (Inr 1, snd (load_mappings line ascii_text True sample_csv sample_db))" by (metis prod.collapse)
  from loaded_mapping_cannot_fan_out [OF this, where ?'c = rat] show ?thesis by auto
qed

text \<open>C19: a mapping edit is never missed: every address whose resolved street a successful load changes has
  its cell in the match queue and in the tile queue afterwards.\<close>

theorem mapping_edit_enqueues:
  assumes "load_mappings sp tx commits csv db = (Inr n, db')" "mapping_ok tx (md_mappings db)"
    and "md_prg db = Some prg" "a \<in> set prg"
    and "resolved_streets tx (md_mappings db) a \<noteq> resolved_streets tx (md_mappings db') a"
  shows "sp_cell sp (a_geom a) \<in> set (md_match_queue db') \<and> sp_cell sp (a_geom a) \<in> set (md_tile_queue db')"
proof -
  note ok = load_mappings_ok [OF assms(1)]
  have ne: "resolved_street tx (md_mappings db) a \<noteq> resolved_street tx (md_mappings db') a"
    using assms(5) unfolding resolved_streets_single [OF assms(2)] resolved_streets_single [OF ok(1)] by simp
  moreover have "resolved_street tx (md_mappings db) a = resolved_street tx (md_mappings db') a" if "a_street a = None"
    using resolved_street_none [OF that] by simp
  ultimately obtain u where u: "a_street a = Some u" by (cases "a_street a") auto
  have "name_key tx u \<in> set (changed_names tx (md_mappings db) (md_mappings db'))"
    using u resolved_street_triples [OF assms(2) ok(1)] ne by blast
  then have "sp_cell sp (a_geom a) \<in> set (delta_cells sp tx (md_mappings db) (md_mappings db') prg)"
    using assms(4) u by (force simp: delta_cells_def)
  then show ?thesis
    by (subst (1 2) ok(5)) (simp add: enqueue_mapping_delta_cells_def assms(3) Let_def)
qed

theorem mapping_edit_enqueues_witness:
  "(0, 0) \<in> set (md_match_queue (snd (load_mappings line ascii_text True sample_csv sample_db)))"
proof -
  let ?db' = "snd (load_mappings line ascii_text True sample_csv sample_db)"
  let ?a = "street_address 0 ''i'' ''12 a'' ''ul. X''"
  have "fst (load_mappings line ascii_text True sample_csv sample_db) = Inr 1" by code_simp
  then have l: "load_mappings line ascii_text True sample_csv sample_db = (Inr 1, ?db')" by (metis prod.collapse)
  have "resolved_streets ascii_text (md_mappings sample_db) ?a \<noteq> resolved_streets ascii_text (md_mappings ?db') ?a" by code_simp
  moreover have "mapping_ok ascii_text (md_mappings sample_db)" by (simp add: mapping_ok_def sample_db_def)
  moreover have "md_prg sample_db = Some sample_rows" "?a \<in> set sample_rows" by (simp_all add: sample_db_def sample_rows_def)
  ultimately have "sp_cell line (a_geom ?a) \<in> set (md_match_queue ?db')"
    using mapping_edit_enqueues [OF l] by blast
  then show ?thesis by (simp add: line_def street_address_def)
qed

text \<open>C18: the two implementations of the address rule agree: the nationwide grid-key join, restricted to a
  cell, is the per-cell predicate, if ids are unique, the mapping was loaded by the loader, points
  within the widest match distance have adjacent grid keys, and the cell's read envelope reaches
  every OSM address within that distance of a point of the cell.\<close>

theorem address_paths_agree:
  assumes "mapping_ok tx (at_mappings t)" "distinct (map a_id rows)"
    and "\<And>a o'. a \<in> set rows \<Longrightarrow> o' \<in> set (at_osm t) \<Longrightarrow>
      sp_distance sp (oa_geom o') (a_geom a) \<le> NAME_MATCH_DISTANCE_METERS \<Longrightarrow> adjacent_keys sp (oa_geom o') (a_geom a)"
    and "\<And>a. a \<in> set rows \<Longrightarrow> sp_cell sp (a_geom a) = c \<Longrightarrow> sp_intersects sp (a_geom a) (sp_envelope sp area)"
    and "\<And>a o'. a \<in> set rows \<Longrightarrow> o' \<in> set (at_osm t) \<Longrightarrow> sp_cell sp (a_geom a) = c \<Longrightarrow>
      sp_distance sp (oa_geom o') (a_geom a) \<le> NAME_MATCH_DISTANCE_METERS \<Longrightarrow> sp_intersects sp (oa_geom o') (sp_envelope sp reach)"
  shows "recompute_address_rows sp tx t area reach c rows = filter (\<lambda>r. snd r = c) (compare_addresses_rows sp tx t rows)"
proof -
  have "filter (\<lambda>r. snd r = c) (map (\<lambda>a. (a, sp_cell sp (a_geom a))) (filter P xs)) =
      map (\<lambda>a. (a, sp_cell sp (a_geom a))) (filter (\<lambda>a. sp_cell sp (a_geom a) = c \<and> P a) xs)" for P xs
    by (simp add: filter_map comp_def conj_ac)
  note cut = this
  have full: "compare_addresses_rows sp tx t rows = map (\<lambda>a. (a, sp_cell sp (a_geom a)))
      (filter (\<lambda>a. \<not> matched_by_rule sp tx t a \<and> \<not> address_reported t a) rows)"
    by (rule compare_addresses_by_rule [OF assms(1,2)]) (rule assms(3))
  have "recompute_address_rows sp tx t area reach c rows = map (\<lambda>a. (a, sp_cell sp (a_geom a)))
      (filter (\<lambda>a. sp_cell sp (a_geom a) = c \<and> \<not> matched_by_rule sp tx t a \<and> \<not> address_reported t a) rows)"
    by (rule recompute_addresses_by_rule [OF assms(1)]) (rule assms(4), assumption+, rule assms(5), assumption+)
  then show ?thesis unfolding full by (simp only: cut)
qed

theorem address_paths_agree_witness:
  "recompute_address_rows line ascii_text sample_tables (0, 0, 0, 0) (0, 0, 0, 0) (0, 0) sample_rows =
     filter (\<lambda>r. snd r = (0, 0)) (compare_addresses_rows line ascii_text sample_tables sample_rows) \<and>
   map (a_id \<circ> fst) (compare_addresses_rows line ascii_text sample_tables sample_rows) = [''j'']"
proof
  have m: "mapping_ok ascii_text (at_mappings sample_tables)" by (simp add: mapping_ok_def sample_tables_def sql_trim_def)
  have d: "distinct (map a_id sample_rows)" by (simp add: sample_rows_def street_address_def)
  have "list_all (\<lambda>a. list_all (\<lambda>o'. \<bar>fst (grid_key line (oa_geom o')) - fst (grid_key line (a_geom a))\<bar> \<le> 1 \<and>
      \<bar>snd (grid_key line (oa_geom o')) - snd (grid_key line (a_geom a))\<bar> \<le> 1 \<and>
      sp_intersects line (oa_geom o') (sp_envelope line (0, 0, 0, 0)) \<and>
      sp_intersects line (a_geom a) (sp_envelope line (0, 0, 0, 0))) (at_osm sample_tables)) sample_rows"
    by code_simp
  then have all: "adjacent_keys line (oa_geom o') (a_geom a)" "sp_intersects line (oa_geom o') (sp_envelope line (0, 0, 0, 0))"
    if "a \<in> set sample_rows" "o' \<in> set (at_osm sample_tables)" for a o'
    using that by (simp_all add: list_all_iff adjacent_keys_def)
  have w: "sp_intersects line (a_geom a) (sp_envelope line (0, 0, 0, 0))" if "a \<in> set sample_rows" for a
    using that by (auto simp: sample_rows_def street_address_def line_def)
  show "recompute_address_rows line ascii_text sample_tables (0, 0, 0, 0) (0, 0, 0, 0) (0, 0) sample_rows =
     filter (\<lambda>r. snd r = (0, 0)) (compare_addresses_rows line ascii_text sample_tables sample_rows)"
  proof (rule address_paths_agree [OF m d])
    fix a o' assume "a \<in> set sample_rows" "o' \<in> set (at_osm sample_tables)"
    then show "adjacent_keys line (oa_geom o') (a_geom a)" "sp_intersects line (oa_geom o') (sp_envelope line (0, 0, 0, 0))"
      by (rule all)+
  next
    fix a assume "a \<in> set sample_rows"
    then show "sp_intersects line (a_geom a) (sp_envelope line (0, 0, 0, 0))" by (rule w)
  qed
  have "compare_addresses_rows line ascii_text sample_tables sample_rows = map (\<lambda>a. (a, sp_cell line (a_geom a)))
      (filter (\<lambda>a. \<not> matched_by_rule line ascii_text sample_tables a \<and> \<not> address_reported sample_tables a) sample_rows)"
    by (rule compare_addresses_by_rule [OF m d all(1)])
  moreover have "map a_id (filter (\<lambda>a. \<not> matched_by_rule line ascii_text sample_tables a \<and>
      \<not> address_reported sample_tables a) sample_rows) = [''j'']" by code_simp
  ultimately show "map (a_id \<circ> fst) (compare_addresses_rows line ascii_text sample_tables sample_rows) = [''j'']"
    by (simp add: comp_def)
qed

end
