(* ===== verification/Drain.thy ===== *)
theory Drain
  imports Match_Address Compare_Buildings Jobs
begin

text \<open>
  The incremental comparison: \<open>recompute_cell_in_txn\<close> over the three sources, the queue
  \<open>match_dirty_cells\<close> that names the cells to recompute, and \<open>src/compare/drain.rs\<close>, which drains it
  in transactions of \<open>CELLS_PER_COMMIT\<close> cells with a replay of failed groups; \<open>enqueue_all\<close> of
  \<open>src/compare/reconcile.rs\<close> and the loop of \<open>queue drain\<close> in \<open>src/compare/mod.rs\<close>.

  A transaction reads the state that was committed when it began, sees its own writes and
  either commits all of them or none; other connections commit between transactions. Times are
  microseconds.
\<close>

section \<open>Recomputing a cell of any source\<close>

record 'g address_state =
  as_rows :: "'g prg_address list"
  as_tables :: "'g address_tables"
  as_unmatched :: "('g prg_address \<times> cell) list"
  as_totals :: "cell \<rightharpoonup> nat"

record 'g serving =
  sv_bdot10k :: "'g compare_state"
  sv_egib :: "'g compare_state"
  sv_prg :: "'g address_state"

definition match_buffer_deg :: rat where
  "match_buffer_deg = round53 (3 / 1000)"

definition buffer :: "bounds \<Rightarrow> rat \<Rightarrow> bounds" where
  "buffer b deg = (case b of (x1, y1, x2, y2) \<Rightarrow> (round53 (x1 - deg), round53 (y1 - deg), round53 (x2 + deg), round53 (y2 + deg)))"

definition address_slice :: "'g sql_spatial \<Rightarrow> sql_text \<Rightarrow> 'g address_state \<Rightarrow> cell \<Rightarrow> ('g prg_address \<times> cell) list" where
  "address_slice sp tx s c =
     (let area = sp_tile_to_bbox sp c
      in recompute_address_rows sp tx (as_tables s) area (buffer area match_buffer_deg) c (as_rows s))"

definition address_cell_total :: "'g sql_spatial \<Rightarrow> 'g address_state \<Rightarrow> cell \<Rightarrow> nat option" where
  "address_cell_total sp s c =
     (let envelope = sp_envelope sp (sp_tile_to_bbox sp c);
          candidates = filter (\<lambda>a. sp_intersects sp (a_geom a) envelope) (as_rows s)
      in positive (length (filter (\<lambda>a. sp_intersects sp (a_geom a) envelope \<and> sp_cell sp (a_geom a) = c) candidates)))"

definition recompute_address_cell :: "'g sql_spatial \<Rightarrow> sql_text \<Rightarrow> cell \<Rightarrow> 'g address_state \<Rightarrow> 'g address_state" where
  "recompute_address_cell sp tx c s =
     s\<lparr>as_unmatched := filter (\<lambda>(_, c'). c' \<noteq> c) (as_unmatched s) @ address_slice sp tx s c,
       as_totals := (as_totals s)(c := address_cell_total sp s c)\<rparr>"

definition recompute_cell_in_txn :: "'g sql_spatial \<Rightarrow> sql_text \<Rightarrow> string \<Rightarrow> cell \<Rightarrow> 'g serving \<Rightarrow> string + 'g serving" where
  "recompute_cell_in_txn sp tx source c w =
     (if source = ''bdot10k'' then Inr (w\<lparr>sv_bdot10k := recompute_cell sp bdot10k_source c (sv_bdot10k w)\<rparr>)
      else if source = ''egib'' then Inr (w\<lparr>sv_egib := recompute_cell sp egib_source c (sv_egib w)\<rparr>)
      else if source = ''prg'' then Inr (w\<lparr>sv_prg := recompute_address_cell sp tx c (sv_prg w)\<rparr>)
      else Inl (''recompute_cell: unknown source '' @ source))"

definition ALL_SPECS :: "string list" where
  "ALL_SPECS = [''bdot10k'', ''egib'', ''prg'']"

section \<open>The queues\<close>

record queue_row =
  q_source :: string
  q_cell :: cell
  q_at :: nat

text \<open>What the drain works on: the live and serving tables, \<open>match_dirty_cells\<close>, and
  \<open>tile_dirty_cells\<close> as cells with their time.\<close>

record 'w drain_db =
  dd_world :: 'w
  dd_queue :: "queue_row list"
  dd_tiles :: "(cell \<times> nat) list"

text \<open>Everything outside the drain's control. Transactions are numbered from 0 (the purge) and 1 (the
  select); \<open>de_env k\<close> is what other connections commit before transaction \<open>k\<close>, \<open>de_start\<close> the
  batch's cutoff and \<open>de_now k\<close> the start of transaction \<open>k\<close>. A statement fails where its predicate
  holds: \<open>de_rollback k\<close> is the text of a failed rollback. A stop is seen at poll \<open>i\<close> of transaction
  \<open>k\<close>, or after the replay that ended before transaction \<open>k\<close>.\<close>

record 'w drain_env =
  de_env :: "nat \<Rightarrow> 'w drain_db \<Rightarrow> 'w drain_db"
  de_start :: nat
  de_now :: "nat \<Rightarrow> nat"
  de_read_fails :: bool
  de_purge_fails :: bool
  de_select_fails :: bool
  de_begin_fails :: "nat \<Rightarrow> bool"
  de_cell_fails :: "nat \<Rightarrow> string \<times> cell \<Rightarrow> bool"
  de_tiles_fails :: "nat \<Rightarrow> bool"
  de_commit_fails :: "nat \<Rightarrow> bool"
  de_rollback :: "nat \<Rightarrow> string option"
  de_cancel :: "nat \<Rightarrow> nat \<Rightarrow> bool"
  de_cancel_after :: "nat \<Rightarrow> bool"

type_synonym 'w recompute = "string \<Rightarrow> cell \<Rightarrow> 'w \<Rightarrow> string + 'w"

section \<open>Draining\<close>

definition CELLS_PER_COMMIT :: nat where
  "CELLS_PER_COMMIT = 64"

definition drain_one_cell :: "'w recompute \<Rightarrow> nat \<Rightarrow> string \<times> cell \<Rightarrow> 'w drain_db \<Rightarrow> string + 'w drain_db" where
  "drain_one_cell rc batch_start sc db =
     bindR (rc (fst sc) (snd sc) (dd_world db)) (\<lambda>w. Inr (db\<lparr>dd_world := w,
       dd_queue := filter (\<lambda>r. \<not> (q_source r = fst sc \<and> q_cell r = snd sc \<and> q_at r \<le> batch_start)) (dd_queue db)\<rparr>))"

definition enqueue_tiles_for_cells :: "nat \<Rightarrow> cell list \<Rightarrow> 'w drain_db \<Rightarrow> 'w drain_db" where
  "enqueue_tiles_for_cells now cells db = db\<lparr>dd_tiles := dd_tiles db @ map (\<lambda>c. (c, now)) (remdups cells)\<rparr>"

text \<open>The loop of one group, at poll \<open>i\<close>: the cells done, and whether it was cancelled.\<close>

fun drain_cells :: "'w recompute \<Rightarrow> 'w drain_env \<Rightarrow> nat \<Rightarrow> nat \<Rightarrow> (string \<times> cell) list \<Rightarrow> 'w drain_db \<Rightarrow>
    string + ((string \<times> cell) list \<times> bool \<times> 'w drain_db)" where
  "drain_cells rc env k i [] db = Inr ([], False, db)"
| "drain_cells rc env k i (sc # grp) db =
     (if de_cancel env k i then Inr ([], True, db)
      else if de_cell_fails env k sc then Inl ''drain_one_cell''
      else bindR (drain_one_cell rc (de_start env) sc db) (\<lambda>db'.
        bindR (drain_cells rc env k (Suc i) grp db') (\<lambda>(ok, cancelled, db''). Inr (sc # ok, cancelled, db''))))"

record group_outcome =
  go_drained :: nat
  go_failed :: nat
  go_cancelled :: bool

fun replay_one_at_a_time :: "'w recompute \<Rightarrow> 'w drain_env \<Rightarrow> nat \<Rightarrow> (string \<times> cell) list \<Rightarrow> 'w drain_db \<Rightarrow>
    (nat \<times> nat) \<times> nat \<times> 'w drain_db" where
  "replay_one_at_a_time rc env k [] db = ((0, 0), k, db)"
| "replay_one_at_a_time rc env k (sc # cells) db =
     (let db0 = de_env env k db
      in if de_cancel env k 0 \<or> de_begin_fails env k then ((0, 0), Suc k, db0)
         else case (if de_cell_fails env k sc then Inl ''drain_one_cell'' else drain_one_cell rc (de_start env) sc db0) of
             Inr db1 \<Rightarrow>
               (if de_tiles_fails env k \<or> de_commit_fails env k
                then (case replay_one_at_a_time rc env (Suc k) cells db0 of
                        ((n, bad), k', db') \<Rightarrow> ((n, Suc bad), k', db'))
                else (case replay_one_at_a_time rc env (Suc k) cells
                          (enqueue_tiles_for_cells (de_now env k) [snd sc] db1) of
                        ((n, bad), k', db') \<Rightarrow> ((Suc n, bad), k', db')))
           | Inl _ \<Rightarrow> (case replay_one_at_a_time rc env (Suc k) cells db0 of
                 ((n, bad), k', db') \<Rightarrow> ((n, Suc bad), k', db')))"

definition drain_group :: "'w recompute \<Rightarrow> 'w drain_env \<Rightarrow> nat \<Rightarrow> (string \<times> cell) list \<Rightarrow> 'w drain_db \<Rightarrow>
    (string + group_outcome) \<times> nat \<times> 'w drain_db" where
  "drain_group rc env k grp db =
     (let db0 = de_env env k db
      in if de_begin_fails env k then (Inl ''BEGIN TRANSACTION'', Suc k, db0)
         else case bindR (drain_cells rc env k 0 grp db0) (\<lambda>r. if fst r \<noteq> [] \<and> de_tiles_fails env k then Inl ''drain: enqueue dirty tiles'' else Inr r) of
             Inr (ok, cancelled, db1) \<Rightarrow>
               (if de_commit_fails env k then (Inl ''COMMIT'', Suc k, db0)
                else (Inr \<lparr>go_drained = length ok, go_failed = 0, go_cancelled = cancelled\<rparr>, Suc k,
                      enqueue_tiles_for_cells (de_now env k) (map snd ok) db1))
           | Inl e \<Rightarrow>
               (if (case de_rollback env k of Some rb \<Rightarrow> is_database_invalidated rb | None \<Rightarrow> False)
                then (Inl (e @ the (de_rollback env k)), Suc k, db0)
                else case replay_one_at_a_time rc env (Suc k) grp db0 of
                       ((n, bad), k', db') \<Rightarrow>
                         (Inr \<lparr>go_drained = n, go_failed = bad, go_cancelled = de_cancel_after env k'\<rparr>, k', db')))"

record drain_stats =
  ds_cells :: nat
  ds_failed :: nat
  ds_purged :: nat

fun drain_groups :: "'w recompute \<Rightarrow> 'w drain_env \<Rightarrow> nat \<Rightarrow> (string \<times> cell) list list \<Rightarrow> drain_stats \<Rightarrow> 'w drain_db \<Rightarrow>
    (string + drain_stats) \<times> 'w drain_db" where
  "drain_groups rc env k [] st db = (Inr st, db)"
| "drain_groups rc env k (grp # groups) st db =
     (case drain_group rc env k grp db of
        (Inl e, _, db') \<Rightarrow> (Inl e, db')
      | (Inr go, k', db') \<Rightarrow>
          (let st' = st\<lparr>ds_cells := ds_cells st + go_drained go, ds_failed := ds_failed st + go_failed go\<rparr>
           in if go_cancelled go then (Inr st', db') else drain_groups rc env k' groups st' db'))"

definition purgeable :: "nat \<Rightarrow> queue_row \<Rightarrow> bool" where
  "purgeable batch_start r \<longleftrightarrow> q_at r \<le> batch_start \<and> q_source r \<notin> set ALL_SPECS"

definition purge :: "nat \<Rightarrow> 'w drain_db \<Rightarrow> 'w drain_db" where
  "purge batch_start db = db\<lparr>dd_queue := filter (\<lambda>r. \<not> purgeable batch_start r) (dd_queue db)\<rparr>"

text \<open>The distinct queued cells, by their oldest row.\<close>

definition oldest :: "queue_row list \<Rightarrow> string \<times> cell \<Rightarrow> nat" where
  "oldest rows sc = Min (set (map q_at (filter (\<lambda>r. (q_source r, q_cell r) = sc) rows)))"

definition select_cells :: "nat \<Rightarrow> nat \<Rightarrow> queue_row list \<Rightarrow> (string \<times> cell) list" where
  "select_cells batch_start batch_size rows =
     (let due = filter (\<lambda>r. q_at r \<le> batch_start \<and> q_source r \<in> set ALL_SPECS) rows
      in take batch_size (sort_key (oldest due) (remdups (map (\<lambda>r. (q_source r, q_cell r)) due))))"

definition drain_batch :: "'w recompute \<Rightarrow> 'w drain_env \<Rightarrow> nat \<Rightarrow> 'w drain_db \<Rightarrow> (string + drain_stats) \<times> 'w drain_db" where
  "drain_batch rc env batch_size db =
     (if de_read_fails env then (Inl ''drain: read batch_start'', db)
      else let db0 = de_env env 0 db
      in if de_purge_fails env then (Inl ''drain: purge unknown-source queue rows'', db0)
      else let purged = length (filter (purgeable (de_start env)) (dd_queue db0));
               db1 = de_env env 1 (purge (de_start env) db0)
      in if de_select_fails env then (Inl ''drain: select'', db1)
      else drain_groups rc env 2 (chunks CELLS_PER_COMMIT (select_cells (de_start env) batch_size (dd_queue db1)))
             \<lparr>ds_cells = 0, ds_failed = 0, ds_purged = purged\<rparr> db1)"


section \<open>What a batch commits\<close>

fun drain_list :: "'w recompute \<Rightarrow> nat \<Rightarrow> (string \<times> cell) list \<Rightarrow> 'w drain_db \<Rightarrow> string + 'w drain_db" where
  "drain_list rc batch_start [] db = Inr db"
| "drain_list rc batch_start (sc # cells) db = bindR (drain_one_cell rc batch_start sc db) (drain_list rc batch_start cells)"

text \<open>The states other connections can see while a batch runs, with the cells drained so far.\<close>

inductive commits :: "'w recompute \<Rightarrow> 'w drain_env \<Rightarrow> 'w drain_db \<Rightarrow> (string \<times> cell) list \<Rightarrow> 'w drain_db \<Rightarrow> bool"
  for rc env db where
  none: "commits rc env db [] db"
| other: "commits rc env db cs db' \<Longrightarrow> commits rc env db cs (de_env env k db')"
| purged: "commits rc env db cs db' \<Longrightarrow> commits rc env db cs (purge (de_start env) db')"
| cells: "commits rc env db cs db' \<Longrightarrow> drain_list rc (de_start env) ds db' = Inr db'' \<Longrightarrow>
    commits rc env db (cs @ ds) (enqueue_tiles_for_cells now (map snd ds) db'')"

lemma commits_trans:
  assumes "commits rc env db2 ds db3" "commits rc env db1 cs db2"
  shows "commits rc env db1 (cs @ ds) db3"
  using assms(1)
proof (induction rule: commits.induct)
  case none
  then show ?case using assms(2) by simp
next
  case (other ds' db' k)
  then show ?case by (intro commits.other)
next
  case (purged ds' db')
  then show ?case by (intro commits.purged)
next
  case (cells ds' db' es db'' now)
  then show ?case using commits.cells [of rc env db1 "cs @ ds'" db' es db'' now] by simp
qed

lemma commits_one:
  "drain_list rc (de_start env) ds db = Inr db' \<Longrightarrow> commits rc env db ds (enqueue_tiles_for_cells now (map snd ds) db')"
  using commits.cells [OF commits.none, of rc env ds db db' now] by simp

lemma commits_env: "commits rc env db [] (de_env env k db)"
  by (rule commits.other [OF commits.none])

lemma drain_cells_list:
  "drain_cells rc env k i grp db = Inr (ok, cancelled, db') \<Longrightarrow>
     drain_list rc (de_start env) ok db = Inr db' \<and> (\<exists>rest. grp = ok @ rest \<and> (\<not> cancelled \<longrightarrow> rest = []))"
proof (induction grp arbitrary: i db ok)
  case (Cons sc grp)
  show ?case
  proof (cases "de_cancel env k i")
    case False
    then obtain db1 ok' where "drain_one_cell rc (de_start env) sc db = Inr db1" "ok = sc # ok'"
      "drain_cells rc env k (Suc i) grp db1 = Inr (ok', cancelled, db')"
      using Cons.prems by (auto simp: bindR_Inr_iff split: if_splits)
    then show ?thesis using Cons.IH by fastforce
  qed (use Cons.prems in auto)
qed auto

lemma replay_commits:
  "replay_one_at_a_time rc env k grp db = ((n, bad), k', db') \<Longrightarrow>
     \<exists>cs. commits rc env db cs db' \<and> set cs \<subseteq> set grp \<and> length cs = n"
proof (induction grp arbitrary: k db n bad)
  case Nil
  then show ?case using commits.none by fastforce
next
  case (Cons sc grp)
  let ?db0 = "de_env env k db"
  have step: "\<exists>cs. commits rc env db cs db' \<and> set cs \<subseteq> set (sc # grp) \<and> length cs = length ds + m"
    if one: "commits rc env db ds db1" "set ds \<subseteq> {sc}" "replay_one_at_a_time rc env (Suc k) grp db1 = ((m, b), k', db')" for ds db1 m b
  proof -
    obtain es where es: "commits rc env db1 es db'" "set es \<subseteq> set grp" "length es = m" using Cons.IH [OF one(3)] by blast
    show ?thesis
      by (rule exI [of _ "ds @ es"]) (use commits_trans [OF es(1) one(1)] es(2,3) one(2) in auto)
  qed
  show ?case
  proof (cases "de_cancel env k 0 \<or> de_begin_fails env k")
    case True
    then show ?thesis using Cons.prems commits_env [of rc env db k] by fastforce
  next
    case go: False
    let ?r = "if de_cell_fails env k sc then Inl ''drain_one_cell'' else drain_one_cell rc (de_start env) sc ?db0"
    show ?thesis
    proof (cases "\<exists>db1. ?r = Inr db1 \<and> \<not> (de_tiles_fails env k \<or> de_commit_fails env k)")
      case True
      then obtain db1 where ok: "?r = Inr db1" "\<not> (de_tiles_fails env k \<or> de_commit_fails env k)" by blast
      then have "drain_list rc (de_start env) [sc] ?db0 = Inr db1" by (auto split: if_splits)
      then have c: "commits rc env db [sc] (enqueue_tiles_for_cells (de_now env k) [snd sc] db1)"
        using commits_trans [OF commits_one commits_env [of rc env db k]] by fastforce
      obtain m b where "replay_one_at_a_time rc env (Suc k) grp (enqueue_tiles_for_cells (de_now env k) [snd sc] db1) = ((m, b), k', db')" "n = Suc m"
        using Cons.prems go ok by (auto simp: Let_def split: prod.splits if_splits)
      then show ?thesis using step [OF c] by auto
    next
      case False
      then obtain m b where "replay_one_at_a_time rc env (Suc k) grp ?db0 = ((m, b), k', db')" "n = m"
        using Cons.prems go by (cases ?r) (auto simp: Let_def split: prod.splits if_splits)
      then show ?thesis using step [OF commits_env [of rc env db k]] by auto
    qed
  qed
qed

lemma group_commits:
  assumes "drain_group rc env k grp db = (r, k', db')"
  shows "\<exists>cs. commits rc env db cs db' \<and> set cs \<subseteq> set grp \<and> (\<forall>go. r = Inr go \<longrightarrow> go_drained go = length cs)"
proof -
  let ?db0 = "de_env env k db"
  note env = commits_env [of rc env db k]
  let ?r = "bindR (drain_cells rc env k 0 grp ?db0) (\<lambda>r. if fst r \<noteq> [] \<and> de_tiles_fails env k then Inl ''drain: enqueue dirty tiles'' else Inr r)"
  consider (fails) e where "r = Inl e" "db' = ?db0"
    | (group) ok cancelled db1 where "drain_cells rc env k 0 grp ?db0 = Inr (ok, cancelled, db1)"
        "r = Inr \<lparr>go_drained = length ok, go_failed = 0, go_cancelled = cancelled\<rparr>"
        "db' = enqueue_tiles_for_cells (de_now env k) (map snd ok) db1"
    | (replay) n bad c where "replay_one_at_a_time rc env (Suc k) grp ?db0 = ((n, bad), k', db')"
        "r = Inr \<lparr>go_drained = n, go_failed = bad, go_cancelled = c\<rparr>"
    using assms unfolding drain_group_def Let_def
    by (cases ?r) (auto simp: bindR_Inr_iff split: if_splits prod.splits)
  then show ?thesis
  proof cases
    case fails
    then show ?thesis using env by fastforce
  next
    case group
    have l: "drain_list rc (de_start env) ok ?db0 = Inr db1" "set ok \<subseteq> set grp"
      using drain_cells_list [OF group(1)] by auto
    then show ?thesis using commits_trans [OF commits_one [OF l(1)] env] group(2,3) by fastforce
  next
    case replay
    obtain cs where cs: "commits rc env ?db0 cs db'" "set cs \<subseteq> set grp" "length cs = n"
      using replay_commits [OF replay(1)] by blast
    show ?thesis using commits_trans [OF cs(1) env] cs(2,3) replay(2) by (intro exI [of _ cs]) auto
  qed
qed

lemma groups_commits:
  "drain_groups rc env k gs st db = (r, db') \<Longrightarrow>
     \<exists>cs. commits rc env db cs db' \<and> set cs \<subseteq> set (concat gs) \<and>
       (\<forall>st'. r = Inr st' \<longrightarrow> ds_cells st' = ds_cells st + length cs)"
proof (induction gs arbitrary: k st db)
  case Nil
  then show ?case using commits.none by fastforce
next
  case (Cons grp gs)
  obtain q k1 db1 where g: "drain_group rc env k grp db = (q, k1, db1)" by (metis prod_cases3)
  obtain cs where cs: "commits rc env db cs db1" "set cs \<subseteq> set grp" "\<forall>go. q = Inr go \<longrightarrow> go_drained go = length cs"
    using group_commits [OF g] by blast
  show ?case
  proof (cases q)
    case (Inl e)
    then show ?thesis using Cons.prems g cs by auto
  next
    case (Inr go)
    let ?st = "st\<lparr>ds_cells := ds_cells st + go_drained go, ds_failed := ds_failed st + go_failed go\<rparr>"
    show ?thesis
    proof (cases "go_cancelled go")
      case True
      then show ?thesis using Cons.prems g cs Inr by (intro exI [of _ cs]) (auto simp: Let_def)
    next
      case False
      then have "drain_groups rc env k1 gs ?st db1 = (r, db')" using Cons.prems g Inr by (simp add: Let_def)
      from Cons.IH [OF this] obtain ds where ds: "commits rc env db1 ds db'" "set ds \<subseteq> set (concat gs)"
        "\<forall>st'. r = Inr st' \<longrightarrow> ds_cells st' = ds_cells ?st + length ds" by blast
      have "go_drained go = length cs" using cs(3) Inr by blast
      then have "ds_cells ?st + length ds = ds_cells st + length (cs @ ds)" by simp
      then have "\<forall>st'. r = Inr st' \<longrightarrow> ds_cells st' = ds_cells st + length (cs @ ds)" using ds(3) by metis
      moreover have "set (cs @ ds) \<subseteq> set (concat (grp # gs))" using cs(2) ds(2) by auto
      ultimately show ?thesis by (intro exI [of _ "cs @ ds"] conjI commits_trans [OF ds(1) cs(1)])
    qed
  qed
qed


lemma batch_commits:
  assumes "drain_batch rc env n db = (r, db')"
  shows "\<exists>cs. commits rc env db cs db' \<and>
    set cs \<subseteq> set (select_cells (de_start env) n (dd_queue (de_env env 1 (purge (de_start env) (de_env env 0 db))))) \<and>
    (\<forall>st. r = Inr st \<longrightarrow> ds_cells st = length cs)"
proof -
  let ?db0 = "de_env env 0 db" and ?db1 = "de_env env 1 (purge (de_start env) (de_env env 0 db))"
  have c0: "commits rc env db [] ?db0" by (rule commits_env)
  have c1: "commits rc env db [] ?db1" by (rule commits.other [OF commits.purged [OF c0]])
  consider (early) e where "r = Inl e" "db' = db \<or> db' = ?db0 \<or> db' = ?db1"
    | (groups) st where "ds_cells st = 0" "drain_groups rc env 2
        (chunks CELLS_PER_COMMIT (select_cells (de_start env) n (dd_queue ?db1))) st ?db1 = (r, db')"
  proof (cases "de_read_fails env \<or> de_purge_fails env \<or> de_select_fails env")
    case True
    then show ?thesis using assms early unfolding drain_batch_def Let_def by (auto split: if_splits)
  next
    case False
    then show ?thesis using assms groups [of "\<lparr>ds_cells = 0, ds_failed = 0,
        ds_purged = length (filter (purgeable (de_start env)) (dd_queue ?db0))\<rparr>"]
      unfolding drain_batch_def Let_def by simp
  qed
  then show ?thesis
  proof cases
    case early
    then have "commits rc env db [] db'" using c0 c1 commits.none [of rc env db] by blast
    then show ?thesis using early(1) by (intro exI [of _ "[]"]) simp
  next
    case groups
    have "set (concat (chunks CELLS_PER_COMMIT cs)) = set cs" for cs :: "(string \<times> cell) list"
      by (simp add: concat_chunks CELLS_PER_COMMIT_def del: set_concat)
    with groups_commits [OF groups(2)] groups(1) obtain cs where "commits rc env ?db1 cs db'"
      "set cs \<subseteq> set (select_cells (de_start env) n (dd_queue ?db1))" "\<forall>st. r = Inr st \<longrightarrow> ds_cells st = length cs"
      by fastforce
    then show ?thesis using commits_trans [OF _ c1, of cs db'] by (intro exI [of _ cs]) simp
  qed
qed

section \<open>The queue under a drain\<close>

lemma drain_list_effect:
  "drain_list rc bs cs db = Inr db' \<Longrightarrow>
     dd_queue db' = filter (\<lambda>r. \<not> ((q_source r, q_cell r) \<in> set cs \<and> q_at r \<le> bs)) (dd_queue db) \<and>
     dd_tiles db' = dd_tiles db"
proof (induction cs arbitrary: db)
  case (Cons sc cs)
  then obtain w where "drain_list rc bs cs (db\<lparr>dd_world := w,
      dd_queue := filter (\<lambda>r. \<not> (q_source r = fst sc \<and> q_cell r = snd sc \<and> q_at r \<le> bs)) (dd_queue db)\<rparr>) = Inr db'"
    by (auto simp: drain_one_cell_def bindR_Inr_iff)
  from Cons.IH [OF this] show ?case
    by (auto simp: prod_eq_iff intro!: filter_cong)
qed simp

text \<open>Without other connections, a batch only removes rows, none of them newer than the cutoff, and
  every row due of a drained cell.\<close>

lemma commits_queue:
  assumes "commits rc env db cs db'" "\<And>k d. de_env env k d = d"
  shows "\<exists>P. dd_queue db' = filter P (dd_queue db) \<and> (\<forall>r. de_start env < q_at r \<longrightarrow> P r) \<and>
    (\<forall>r. P r \<and> q_at r \<le> de_start env \<longrightarrow> (q_source r, q_cell r) \<notin> set cs)"
  using assms(1)
proof (induction rule: commits.induct)
  case none
  show ?case by (rule exI [of _ "\<lambda>_. True"]) simp
next
  case (other cs db' k)
  then show ?case using assms(2) by simp
next
  case (purged cs db')
  then obtain P where P: "dd_queue db' = filter P (dd_queue db)" "\<forall>r. de_start env < q_at r \<longrightarrow> P r"
    "\<forall>r. P r \<and> q_at r \<le> de_start env \<longrightarrow> (q_source r, q_cell r) \<notin> set cs" by blast
  show ?case
    by (rule exI [of _ "\<lambda>r. P r \<and> \<not> purgeable (de_start env) r"])
      (use P in \<open>auto simp: purge_def purgeable_def conj_commute\<close>)
next
  case (cells cs db' ds db'' now)
  then obtain P where P: "dd_queue db' = filter P (dd_queue db)" "\<forall>r. de_start env < q_at r \<longrightarrow> P r"
    "\<forall>r. P r \<and> q_at r \<le> de_start env \<longrightarrow> (q_source r, q_cell r) \<notin> set cs" by blast
  show ?case
    by (rule exI [of _ "\<lambda>r. P r \<and> \<not> ((q_source r, q_cell r) \<in> set ds \<and> q_at r \<le> de_start env)"])
      (use P drain_list_effect [OF cells.hyps(2)] in \<open>auto simp: enqueue_tiles_for_cells_def\<close>)
qed

lemma select_cells_due:
  "set (select_cells bs n rows) \<subseteq> {sc. fst sc \<in> set ALL_SPECS \<and> (\<exists>r\<in>set rows. (q_source r, q_cell r) = sc \<and> q_at r \<le> bs)}"
proof
  fix sc assume "sc \<in> set (select_cells bs n rows)"
  then have "sc \<in> set (map (\<lambda>r. (q_source r, q_cell r)) (filter (\<lambda>r. q_at r \<le> bs \<and> q_source r \<in> set ALL_SPECS) rows))"
    unfolding select_cells_def Let_def by (metis (no_types, lifting) in_set_takeD set_sort set_remdups)
  then show "sc \<in> {sc. fst sc \<in> set ALL_SPECS \<and> (\<exists>r\<in>set rows. (q_source r, q_cell r) = sc \<and> q_at r \<le> bs)}" by auto
qed

lemma batch_shrinks:
  assumes "drain_batch rc env n db = (Inr st, db')" "\<And>k d. de_env env k d = d" "ds_cells st \<noteq> 0"
  shows "length (dd_queue db') < length (dd_queue db)"
proof -
  obtain cs where cs: "commits rc env db cs db'" "ds_cells st = length cs"
    "set cs \<subseteq> set (select_cells (de_start env) n (dd_queue (purge (de_start env) db)))"
    using batch_commits [OF assms(1)] by (auto simp: assms(2))
  obtain P where P: "dd_queue db' = filter P (dd_queue db)"
    "\<forall>r. P r \<and> q_at r \<le> de_start env \<longrightarrow> (q_source r, q_cell r) \<notin> set cs"
    using commits_queue [OF cs(1) assms(2)] by blast
  obtain sc where sc: "sc \<in> set cs" using cs(2) assms(3) by (cases cs) auto
  then obtain r where "r \<in> set (dd_queue db)" "(q_source r, q_cell r) = sc" "q_at r \<le> de_start env"
    using cs(3) select_cells_due by (fastforce simp: purge_def)
  then have "r \<in> set (dd_queue db)" "\<not> P r" using P(2) sc by auto
  then show ?thesis unfolding P(1) by (metis length_filter_less)
qed


section \<open>What a recomputation promises\<close>

text \<open>\<open>shown src c w\<close> is what the serving tables hold for cell \<open>c\<close> of a source. A cell is fresh when
  recomputing it would show the same.\<close>

definition cell_fresh :: "'w recompute \<Rightarrow> (string \<Rightarrow> cell \<Rightarrow> 'w \<Rightarrow> 'v) \<Rightarrow> string \<Rightarrow> cell \<Rightarrow> 'w \<Rightarrow> bool" where
  "cell_fresh rc shown src c w = (case rc src c w of Inr w' \<Rightarrow> shown src c w' = shown src c w | Inl _ \<Rightarrow> False)"

text \<open>Every stale cell among \<open>cells\<close> is queued.\<close>

definition covered :: "'w recompute \<Rightarrow> (string \<Rightarrow> cell \<Rightarrow> 'w \<Rightarrow> 'v) \<Rightarrow> (string \<times> cell) set \<Rightarrow> 'w drain_db \<Rightarrow> bool" where
  "covered rc shown cells db \<longleftrightarrow> (\<forall>(src, c)\<in>cells. src \<in> set ALL_SPECS \<longrightarrow>
     cell_fresh rc shown src c (dd_world db) \<or> (\<exists>r\<in>set (dd_queue db). q_source r = src \<and> q_cell r = c))"

definition undisturbed :: "'w drain_env \<Rightarrow> bool" where
  "undisturbed env \<longleftrightarrow> (\<forall>k d. de_env env k d = d) \<and> \<not> de_read_fails env \<and> \<not> de_purge_fails env \<and> \<not> de_select_fails env \<and>
     (\<forall>k. \<not> de_begin_fails env k \<and> \<not> de_tiles_fails env k \<and> \<not> de_commit_fails env k) \<and>
     (\<forall>k sc. \<not> de_cell_fails env k sc) \<and> (\<forall>k i. \<not> de_cancel env k i)"

locale cell_recompute =
  fixes rc :: "string \<Rightarrow> cell \<Rightarrow> 'w \<Rightarrow> string + 'w"
    and shown :: "string \<Rightarrow> cell \<Rightarrow> 'w \<Rightarrow> 'v"
  assumes rc_total: "src \<in> set ALL_SPECS \<Longrightarrow> \<exists>w'. rc src c w = Inr w'"
    and rc_known: "rc src c w = Inr w' \<Longrightarrow> src \<in> set ALL_SPECS"
    and rc_stable: "rc src c w = Inr w' \<Longrightarrow> rc s d w' = Inr u \<Longrightarrow> rc s d w = Inr v \<Longrightarrow> shown s d u = shown s d v"
    and rc_other: "rc src c w = Inr w' \<Longrightarrow> (s, d) \<noteq> (src, c) \<Longrightarrow> shown s d w' = shown s d w"
begin

lemma recomputed_fresh:
  assumes "rc src c w = Inr w'"
  shows "cell_fresh rc shown src c w'"
proof -
  obtain u where "rc src c w' = Inr u" using rc_total [OF rc_known [OF assms]] by blast
  then show ?thesis using rc_stable [OF assms _ assms] by (simp add: cell_fresh_def)
qed

lemma fresh_kept:
  assumes "rc src c w = Inr w'" "cell_fresh rc shown s d w"
  shows "cell_fresh rc shown s d w'"
proof (cases "(s, d) = (src, c)")
  case True
  then show ?thesis using recomputed_fresh [OF assms(1)] by simp
next
  case False
  obtain v where v: "rc s d w = Inr v" "shown s d v = shown s d w"
    using assms(2) by (auto simp: cell_fresh_def split: sum.splits)
  obtain u where u: "rc s d w' = Inr u" using rc_total [OF rc_known [OF v(1)]] by blast
  then show ?thesis using rc_stable [OF assms(1) u v(1)] v(2) rc_other [OF assms(1) False] by (simp add: cell_fresh_def)
qed

lemma drain_list_covered:
  "drain_list rc bs cs db = Inr db' \<Longrightarrow> covered rc shown K db \<Longrightarrow> covered rc shown K db'"
proof (induction cs arbitrary: db)
  case (Cons sc cs)
  then obtain w where w: "rc (fst sc) (snd sc) (dd_world db) = Inr w" and rest: "drain_list rc bs cs (db\<lparr>dd_world := w,
      dd_queue := filter (\<lambda>r. \<not> (q_source r = fst sc \<and> q_cell r = snd sc \<and> q_at r \<le> bs)) (dd_queue db)\<rparr>) = Inr db'"
    by (auto simp: drain_one_cell_def bindR_Inr_iff)
  show ?case
    by (rule Cons.IH [OF rest])
      (use Cons.prems(2) recomputed_fresh [OF w] fresh_kept [OF w] in \<open>fastforce simp: covered_def\<close>)
qed simp

lemma commits_covered:
  assumes "commits rc env db cs db'" "covered rc shown K db"
    and "\<And>k d. covered rc shown K d \<Longrightarrow> covered rc shown K (de_env env k d)"
  shows "covered rc shown K db'"
  using assms(1)
proof (induction rule: commits.induct)
  case (purged cs db')
  then show ?case unfolding covered_def by (fastforce simp: purge_def purgeable_def)
next
  case (cells cs db' ds db'' now)
  then show ?case using drain_list_covered [OF cells.hyps(2)] by (simp add: covered_def enqueue_tiles_for_cells_def)
qed (use assms in simp_all)

lemma drain_list_shown:
  "drain_list rc bs cs db = Inr db' \<Longrightarrow> (s, d) \<notin> set cs \<Longrightarrow> shown s d (dd_world db') = shown s d (dd_world db)"
proof (induction cs arbitrary: db)
  case (Cons sc cs)
  then obtain w where w: "rc (fst sc) (snd sc) (dd_world db) = Inr w" and rest: "drain_list rc bs cs (db\<lparr>dd_world := w,
      dd_queue := filter (\<lambda>r. \<not> (q_source r = fst sc \<and> q_cell r = snd sc \<and> q_at r \<le> bs)) (dd_queue db)\<rparr>) = Inr db'"
    by (auto simp: drain_one_cell_def bindR_Inr_iff)
  show ?case using Cons.IH [OF rest] Cons.prems(2) rc_other [OF w, of s d] by (cases sc) auto
qed simp

lemma commits_tiles:
  assumes "commits rc env db cs db'" "\<And>k d. de_env env k d = d"
  shows "set (dd_tiles db) \<subseteq> set (dd_tiles db') \<and>
    (\<forall>s d. shown s d (dd_world db') \<noteq> shown s d (dd_world db) \<longrightarrow> d \<in> fst ` set (dd_tiles db'))"
  using assms(1)
proof (induction rule: commits.induct)
  case (cells cs db' ds db'' now)
  let ?db = "enqueue_tiles_for_cells now (map snd ds) db''"
  have t: "set (dd_tiles ?db) = set (dd_tiles db') \<union> (\<lambda>sc. (snd sc, now)) ` set ds"
    using drain_list_effect [OF cells.hyps(2)] by (simp add: enqueue_tiles_for_cells_def image_image)
  have "d \<in> fst ` set (dd_tiles ?db)" if n: "shown s d (dd_world ?db) \<noteq> shown s d (dd_world db)" for s d
  proof (cases "(s, d) \<in> set ds")
    case True
    then show ?thesis unfolding t by force
  next
    case False
    then have "shown s d (dd_world db') \<noteq> shown s d (dd_world db)"
      using drain_list_shown [OF cells.hyps(2)] n by (simp add: enqueue_tiles_for_cells_def)
    then show ?thesis using cells.IH unfolding t by blast
  qed
  then show ?case using cells.IH unfolding t by blast
qed (use assms(2) in \<open>auto simp: purge_def\<close>)

lemma undisturbed_cells:
  "undisturbed env \<Longrightarrow> set (map fst grp) \<subseteq> set ALL_SPECS \<Longrightarrow>
     \<exists>db'. drain_cells rc env k i grp db = Inr (grp, False, db')"
proof (induction grp arbitrary: i db)
  case (Cons sc grp)
  have known: "fst sc \<in> set ALL_SPECS" "set (map fst grp) \<subseteq> set ALL_SPECS" using Cons.prems(2) by simp_all
  obtain w where "rc (fst sc) (snd sc) (dd_world db) = Inr w" using rc_total [OF known(1)] by blast
  then obtain db1 where "drain_one_cell rc (de_start env) sc db = Inr db1" by (auto simp: drain_one_cell_def)
  moreover obtain db' where "drain_cells rc env k (Suc i) grp db1 = Inr (grp, False, db')"
    using Cons.IH [OF Cons.prems(1) known(2)] by blast
  moreover have "\<not> de_cancel env k i" "\<not> de_cell_fails env k sc" using Cons.prems(1) unfolding undisturbed_def by blast+
  ultimately show ?case by simp
qed simp

lemma undisturbed_groups:
  "undisturbed env \<Longrightarrow> set (map fst (concat gs)) \<subseteq> set ALL_SPECS \<Longrightarrow>
     \<exists>st' db'. drain_groups rc env k gs st db = (Inr st', db') \<and> ds_cells st' = ds_cells st + length (concat gs)"
proof (induction gs arbitrary: k st db)
  case (Cons grp gs)
  obtain db1 where "drain_cells rc env k 0 grp (de_env env k db) = Inr (grp, False, db1)"
    using undisturbed_cells [OF Cons.prems(1), of grp k 0 "de_env env k db"] Cons.prems(2) by auto
  then have g: "drain_group rc env k grp db = (Inr \<lparr>go_drained = length grp, go_failed = 0, go_cancelled = False\<rparr>, Suc k,
      enqueue_tiles_for_cells (de_now env k) (map snd grp) db1)"
    using Cons.prems(1) by (simp add: drain_group_def undisturbed_def Let_def)
  let ?st = "st\<lparr>ds_cells := ds_cells st + length grp, ds_failed := ds_failed st + 0\<rparr>"
  have "set (map fst (concat gs)) \<subseteq> set ALL_SPECS" using Cons.prems(2) by auto
  from Cons.IH [OF Cons.prems(1) this] obtain st' db' where r: "drain_groups rc env (Suc k) gs ?st
      (enqueue_tiles_for_cells (de_now env k) (map snd grp) db1) = (Inr st', db')"
    "ds_cells st' = ds_cells ?st + length (concat gs)" by blast
  then have "drain_groups rc env k (grp # gs) st db = (Inr st', db')" by (simp add: g Let_def)
  moreover have "ds_cells st' = ds_cells st + length (concat (grp # gs))" by (simp add: r(2))
  ultimately show ?case by blast
qed simp

lemma undisturbed_batch:
  assumes "undisturbed env"
  shows "\<exists>st db'. drain_batch rc env n db = (Inr st, db') \<and>
    ds_cells st = length (select_cells (de_start env) n (dd_queue (purge (de_start env) db)))"
proof -
  let ?cs = "select_cells (de_start env) n (dd_queue (purge (de_start env) db))"
  have c: "concat (chunks CELLS_PER_COMMIT ?cs) = ?cs" by (simp add: concat_chunks CELLS_PER_COMMIT_def)
  have "set (map fst (concat (chunks CELLS_PER_COMMIT ?cs))) \<subseteq> set ALL_SPECS"
    unfolding c using select_cells_due by fastforce
  from undisturbed_groups [OF assms this, of 2 "\<lparr>ds_cells = 0, ds_failed = 0,
      ds_purged = length (filter (purgeable (de_start env)) (dd_queue db))\<rparr>" "purge (de_start env) db"]
  obtain st db' where "drain_groups rc env 2 (chunks CELLS_PER_COMMIT ?cs) \<lparr>ds_cells = 0, ds_failed = 0,
      ds_purged = length (filter (purgeable (de_start env)) (dd_queue db))\<rparr> (purge (de_start env) db) = (Inr st, db')"
    "ds_cells st = length ?cs" unfolding c by auto
  then show ?thesis using assms by (simp add: drain_batch_def undisturbed_def Let_def)
qed

end


section \<open>The three sources\<close>

definition serving_shown :: "string \<Rightarrow> cell \<Rightarrow> 'g serving \<Rightarrow>
    (('g building \<times> cell) multiset \<times> nat option) + (('g prg_address \<times> cell) multiset \<times> nat option)" where
  "serving_shown src c w =
     (if src = ''prg'' then Inr (mset (filter (\<lambda>r. snd r = c) (as_unmatched (sv_prg w))), as_totals (sv_prg w) c)
      else if src = ''bdot10k'' then Inl (mset (filter (\<lambda>r. snd r = c) (cs_unmatched (sv_bdot10k w))), cs_totals (sv_bdot10k w) c)
      else if src = ''egib'' then Inl (mset (filter (\<lambda>r. snd r = c) (cs_unmatched (sv_egib w))), cs_totals (sv_egib w) c)
      else Inl ({#}, None))"

lemma filter_other_cell:
  "filter (\<lambda>r. snd r = d) (filter (\<lambda>(_, c'). c' \<noteq> c) xs) = (if d = c then [] else filter (\<lambda>r. snd r = d) xs)"
  by (induction xs) auto

lemma shown_recompute_cell:
  "filter (\<lambda>r. snd r = d) (cs_unmatched (recompute_cell sp src c s)) =
     (if d = c then map (tagged sp) (cell_slice sp src s c) else filter (\<lambda>r. snd r = d) (cs_unmatched s))"
proof -
  have "filter (\<lambda>r. snd r = d) (map (tagged sp) (cell_slice sp src s c)) =
      (if d = c then map (tagged sp) (cell_slice sp src s c) else [])"
    by (auto simp: filter_map comp_def tagged_def cell_slice_def filter_empty_conv intro!: arg_cong [of _ _ "map _"] filter_cong)
  then show ?thesis by (simp add: recompute_cell_slice(1) filter_other_cell del: filter_filter)
qed

lemma recompute_address_cell_fields [simp]:
  "as_totals (recompute_address_cell sp tx c s) = (as_totals s)(c := address_cell_total sp s c)"
  "address_slice sp tx (recompute_address_cell sp tx c s) d = address_slice sp tx s d"
  "address_cell_total sp (recompute_address_cell sp tx c s) d = address_cell_total sp s d"
  by (simp_all add: recompute_address_cell_def address_slice_def address_cell_total_def)

lemma shown_recompute_address_cell:
  "filter (\<lambda>r. snd r = d) (as_unmatched (recompute_address_cell sp tx c s)) =
     (if d = c then address_slice sp tx s c else filter (\<lambda>r. snd r = d) (as_unmatched s))"
proof -
  have "filter (\<lambda>r. snd r = d) (address_slice sp tx s c) = (if d = c then address_slice sp tx s c else [])"
    by (auto simp: address_slice_def recompute_address_rows_def Let_def filter_empty_conv filter_id_conv)
  then show ?thesis by (simp add: recompute_address_cell_def filter_other_cell del: filter_filter)
qed

lemma recompute_in_txn_cases:
  assumes "recompute_cell_in_txn sp tx src c w = Inr w'"
  obtains (bdot10k) "src = ''bdot10k''" "w' = w\<lparr>sv_bdot10k := recompute_cell sp bdot10k_source c (sv_bdot10k w)\<rparr>"
  | (egib) "src = ''egib''" "w' = w\<lparr>sv_egib := recompute_cell sp egib_source c (sv_egib w)\<rparr>"
  | (prg) "src = ''prg''" "w' = w\<lparr>sv_prg := recompute_address_cell sp tx c (sv_prg w)\<rparr>"
  using assms unfolding recompute_cell_in_txn_def by (auto split: if_splits)

lemmas shown_simps = serving_shown_def shown_recompute_cell shown_recompute_address_cell recompute_cell_slice(2-4)

interpretation drain: cell_recompute "recompute_cell_in_txn sp tx" serving_shown for sp tx
proof
  fix src c w assume "src \<in> set ALL_SPECS"
  then show "\<exists>w'. recompute_cell_in_txn sp tx src c w = Inr w'" by (auto simp: recompute_cell_in_txn_def ALL_SPECS_def)
next
  fix src c w w' assume "recompute_cell_in_txn sp tx src c w = Inr w'"
  then show "src \<in> set ALL_SPECS" by (cases rule: recompute_in_txn_cases) (simp_all add: ALL_SPECS_def)
next
  fix src c w w' s d u v
  assume r: "recompute_cell_in_txn sp tx src c w = Inr w'" "recompute_cell_in_txn sp tx s d w' = Inr u"
    "recompute_cell_in_txn sp tx s d w = Inr v"
  show "serving_shown s d u = serving_shown s d v"
    by (rule recompute_in_txn_cases [OF r(1)]; rule recompute_in_txn_cases [OF r(2)]; rule recompute_in_txn_cases [OF r(3)];
        simp add: shown_simps del: mset_filter mset_map)
next
  fix src c w w' s d
  assume r: "recompute_cell_in_txn sp tx src c w = Inr w'" and o: "(s, d) \<noteq> (src, c)"
  show "serving_shown s d w' = serving_shown s d w"
    by (rule recompute_in_txn_cases [OF r]) (use o in \<open>simp_all add: shown_simps del: mset_filter mset_map\<close>)
qed


section \<open>The drain loop and the sweep\<close>

text \<open>\<open>queue drain\<close> has the database to itself, so nothing else commits. \<open>stop n\<close> is the poll before
  batch \<open>n\<close>, whose faults are \<open>envs n\<close>.\<close>

function run_queue_drain :: "'w recompute \<Rightarrow> (nat \<Rightarrow> bool) \<Rightarrow> (nat \<Rightarrow> 'w drain_env) \<Rightarrow> nat \<Rightarrow> nat \<Rightarrow> 'w drain_db \<Rightarrow>
    (string + unit) \<times> 'w drain_db" where
  "run_queue_drain rc stop envs n batch_size db =
     (if stop n then (Inl SHUTDOWN_BAIL_MESSAGE, db)
      else case drain_batch rc ((envs n)\<lparr>de_env := \<lambda>_ d. d\<rparr>) batch_size db of
          (Inl e, db') \<Rightarrow> (Inl e, db')
        | (Inr st, db') \<Rightarrow> if ds_cells st = 0 then (Inr (), db')
            else run_queue_drain rc stop envs (Suc n) batch_size db')"
  by pat_completeness auto
termination
  by (relation "measure (\<lambda>(rc, stop, envs, n, b, db). length (dd_queue db))") (auto dest!: batch_shrinks [OF sym])

declare run_queue_drain.simps [simp del]

text \<open>The cells the sweep finds in a live table.\<close>

definition live_cells :: "'g sql_spatial \<Rightarrow> string \<Rightarrow> 'g serving \<Rightarrow> cell list" where
  "live_cells sp source w =
     (if source = ''bdot10k'' then remdups (map (\<lambda>b. sp_cell sp (b_centroid b)) (cs_rows (sv_bdot10k w)))
      else if source = ''egib'' then remdups (map (\<lambda>b. sp_cell sp (b_centroid b)) (cs_rows (sv_egib w)))
      else remdups (map (\<lambda>a. sp_cell sp (a_geom a)) (as_rows (sv_prg w))))"

fun enqueue_sources :: "'g sql_spatial \<Rightarrow> (string \<Rightarrow> bool) \<Rightarrow> (string \<Rightarrow> bool) \<Rightarrow> (string \<Rightarrow> nat) \<Rightarrow> string list \<Rightarrow> nat \<Rightarrow>
    'g serving drain_db \<Rightarrow> (string + nat) \<times> 'g serving drain_db" where
  "enqueue_sources sp stop fails now [] total_rows db = (Inr total_rows, db)"
| "enqueue_sources sp stop fails now (source # sources) total_rows db =
     (if stop source then (Inl SHUTDOWN_BAIL_MESSAGE, db)
      else if fails source then (Inl (''enqueue_all for '' @ source), db)
      else let rows = map (\<lambda>c. \<lparr>q_source = source, q_cell = c, q_at = now source\<rparr>) (live_cells sp source (dd_world db))
           in enqueue_sources sp stop fails now sources (total_rows + length rows) (db\<lparr>dd_queue := dd_queue db @ rows\<rparr>))"

definition enqueue_all :: "'g sql_spatial \<Rightarrow> (string \<Rightarrow> bool) \<Rightarrow> (string \<Rightarrow> bool) \<Rightarrow> (string \<Rightarrow> nat) \<Rightarrow>
    'g serving drain_db \<Rightarrow> (string + nat) \<times> 'g serving drain_db" where
  "enqueue_all sp stop fails now db = enqueue_sources sp stop fails now [''bdot10k'', ''egib'', ''prg''] 0 db"

lemma select_none_purge:
  assumes "0 < n" "select_cells bs n (dd_queue (purge bs db)) = []" "\<forall>r\<in>set (dd_queue db). q_at r \<le> bs"
  shows "dd_queue (purge bs db) = []"
proof -
  have "filter (\<lambda>r. q_at r \<le> bs \<and> q_source r \<in> set ALL_SPECS) (dd_queue (purge bs db)) = []"
  proof -
    have "sort_key f xs = [] \<longleftrightarrow> xs = []" for f :: "string \<times> cell \<Rightarrow> nat" and xs
      by (metis set_empty set_sort)
    then show ?thesis using assms(1,2) by (simp add: select_cells_def Let_def)
  qed
  then show ?thesis using assms(3) by (auto simp: purge_def purgeable_def filter_empty_conv)
qed

context cell_recompute
begin

text \<open>The loop, undisturbed and with every queued row due at each batch, empties the queue and leaves every covered cell fresh.\<close>

lemma drain_loop_completes:
  assumes "\<And>n. \<not> stop n" "\<And>n. undisturbed ((envs n)\<lparr>de_env := \<lambda>_ d. d\<rparr>)" "0 < batch_size"
  shows "\<forall>r\<in>set (dd_queue db). \<forall>m. q_at r \<le> de_start (envs m) \<Longrightarrow> covered rc shown K db \<Longrightarrow>
    \<exists>db'. run_queue_drain rc stop envs n batch_size db = (Inr (), db') \<and> dd_queue db' = [] \<and> covered rc shown K db'"
proof (induction "length (dd_queue db)" arbitrary: n db rule: less_induct)
  case less
  let ?env = "(envs n)\<lparr>de_env := \<lambda>_ d. d\<rparr>"
  obtain st db' where b: "drain_batch rc ?env batch_size db = (Inr st, db')"
    "ds_cells st = length (select_cells (de_start ?env) batch_size (dd_queue (purge (de_start ?env) db)))"
    using undisturbed_batch [OF assms(2)] by blast
  obtain cs where cs: "commits rc ?env db cs db'" using batch_commits [OF b(1)] by blast
  have cov: "covered rc shown K db'" by (rule commits_covered [OF cs less.prems(2)]) simp
  show ?case
  proof (cases "ds_cells st = 0")
    case True
    then have none: "select_cells (de_start ?env) batch_size (dd_queue (purge (de_start ?env) db)) = []" using b(2) by simp
    then have "db' = purge (de_start ?env) db"
      using b(1) assms(2) [of n] by (simp add: drain_batch_def undisturbed_def Let_def chunks.simps split: if_splits)
    moreover have "dd_queue (purge (de_start ?env) db) = []"
      by (rule select_none_purge [OF assms(3) none]) (use less.prems(1) in simp)
    ultimately show ?thesis using cov b True by (subst run_queue_drain.simps) (simp add: assms(1))
  next
    case False
    obtain P where P: "dd_queue db' = filter P (dd_queue db)" using commits_queue [OF cs] by auto
    have "length (dd_queue db') < length (dd_queue db)" by (rule batch_shrinks [OF b(1) _ False]) simp
    from less.hyps [OF this _ cov, of "Suc n"] less.prems(1)
    show ?thesis using b(1) False by (subst run_queue_drain.simps) (simp add: assms(1) P)
  qed
qed

end




section \<open>A concrete queue\<close>

text \<open>Two EGIB buildings in two cells, one already mapped; nothing compared yet, both cells queued.\<close>

definition boxes_serving :: "bounds serving" where
  "boxes_serving = \<lparr>sv_bdot10k = two_boxes, sv_egib = two_boxes,
     sv_prg = \<lparr>as_rows = [], as_tables = \<lparr>at_osm = [], at_mappings = [], at_reports = []\<rparr>, as_unmatched = [], as_totals = Map.empty\<rparr>\<rparr>"

definition boxes_queue :: "bounds serving drain_db" where
  "boxes_queue = \<lparr>dd_world = boxes_serving, dd_queue = [\<lparr>q_source = ''egib'', q_cell = (0, 0), q_at = 3\<rparr>,
     \<lparr>q_source = ''egib'', q_cell = (1, 0), q_at = 2\<rparr>], dd_tiles = []\<rparr>"

definition egib_cells :: "(string \<times> cell) set" where
  "egib_cells = {(''egib'', (0, 0)), (''egib'', (1, 0))}"

text \<open>No other connection and no fault but the given ones; the cutoff is 9.\<close>

definition calm :: "(string \<times> cell \<Rightarrow> bool) \<Rightarrow> 'w drain_env" where
  "calm poison = \<lparr>de_env = \<lambda>_ d. d, de_start = 9, de_now = (\<lambda>k. 10 + k), de_read_fails = False, de_purge_fails = False,
     de_select_fails = False, de_begin_fails = (\<lambda>_. False), de_cell_fails = (\<lambda>_. poison), de_tiles_fails = (\<lambda>_. False),
     de_commit_fails = (\<lambda>_. False), de_rollback = (\<lambda>_. None), de_cancel = (\<lambda>_ _. False), de_cancel_after = (\<lambda>_. False)\<rparr>"

lemma boxes_covered: "covered rc shown egib_cells boxes_queue"
  by (simp add: covered_def egib_cells_def boxes_queue_def)

text \<open>A cell whose recomputation fails stays queued; the other cell of its group is drained.\<close>

lemma poison_cell_isolated:
  "(case drain_batch (recompute_cell_in_txn boxes ascii_text) (calm (\<lambda>sc. snd sc = (1, 0))) 512 boxes_queue of
      (Inr st, db') \<Rightarrow> ds_cells st = 1 \<and> ds_failed st = 1 \<and> map q_cell (dd_queue db') = [(1, 0)] \<and> map fst (dd_tiles db') = [(0, 0)]
    | _ \<Rightarrow> False)"
  by code_simp

section \<open>Properties\<close>

text \<open>C6: no stale cell is ever lost. If every cell of a set that recomputation would change is queued, and the
  other connections keep that so, then it still holds after \<open>drain_batch\<close>, whatever it returns: with
  failing statements, poisoned cells replayed one by one, failed commits and rollbacks, an
  invalidated database or a stop at any point.\<close>

theorem stale_cells_stay_queued:
  assumes "covered (recompute_cell_in_txn sp tx) serving_shown cells db"
    and "\<And>k d. covered (recompute_cell_in_txn sp tx) serving_shown cells d \<Longrightarrow>
      covered (recompute_cell_in_txn sp tx) serving_shown cells (de_env env k d)"
  shows "covered (recompute_cell_in_txn sp tx) serving_shown cells (snd (drain_batch (recompute_cell_in_txn sp tx) env batch_size db))"
proof -
  let ?rc = "recompute_cell_in_txn sp tx"
  obtain r db' where run: "drain_batch ?rc env batch_size db = (r, db')" by fastforce
  then obtain cs where "commits ?rc env db cs db'" using batch_commits by blast
  then show ?thesis using drain.commits_covered [OF _ assms] run by simp
qed

text \<open>C7: a batch with the database to itself never loses a tile. Every cell for which the serving tables
  of some source changed is in the tile queue afterwards, whatever the outcome, and the rows
  enqueued after the cutoff are all still queued, in order.\<close>

theorem drained_cells_reach_tiles:
  assumes "\<And>k d. de_env env k d = d" "drain_batch (recompute_cell_in_txn sp tx) env batch_size db = (r, db')"
  shows "(\<forall>src c. serving_shown src c (dd_world db') \<noteq> serving_shown src c (dd_world db) \<longrightarrow> c \<in> fst ` set (dd_tiles db')) \<and>
    set (dd_tiles db) \<subseteq> set (dd_tiles db') \<and>
    filter (\<lambda>q. de_start env < q_at q) (dd_queue db') = filter (\<lambda>q. de_start env < q_at q) (dd_queue db)"
proof -
  obtain cs where cs: "commits (recompute_cell_in_txn sp tx) env db cs db'" using batch_commits [OF assms(2)] by blast
  obtain P where P: "dd_queue db' = filter P (dd_queue db)" "\<forall>q. de_start env < q_at q \<longrightarrow> P q"
    using commits_queue [OF cs assms(1)] by blast
  have "filter (\<lambda>q. de_start env < q_at q) (filter P rows) = filter (\<lambda>q. de_start env < q_at q) rows" for rows
    using P(2) by (auto intro!: filter_cong)
  then show ?thesis using drain.commits_tiles [OF cs assms(1)] P(1) by simp
qed



text \<open>Where no live row is left the sweep enqueues nothing: a row served for a building that has
  disappeared stays, although the sweep is meant to repair any dropped enqueue.\<close>

theorem reconcile_misses_emptied_cells:
  "let w = boxes_serving\<lparr>sv_egib := two_boxes\<lparr>cs_rows := [], cs_unmatched := [tagged boxes (box_building ''b'' (5/4, 1/4, 7/4, 3/4))]\<rparr>\<rparr>
   in (case enqueue_all boxes (\<lambda>_. False) (\<lambda>_. False) (\<lambda>_. 3) \<lparr>dd_world = w\<lparr>sv_bdot10k := sv_egib w\<rparr>, dd_queue = [], dd_tiles = []\<rparr> of
         (Inr n, db1) \<Rightarrow> n = 0 \<and> dd_queue db1 = [] | _ \<Rightarrow> False) \<and>
      \<not> cell_fresh (recompute_cell_in_txn boxes ascii_text) serving_shown ''egib'' (1, 0) w"
  by code_simp

section \<open>Witnesses\<close>

theorem stale_cells_stay_queued_witness:
  "covered (recompute_cell_in_txn boxes ascii_text) serving_shown egib_cells
     (snd (drain_batch (recompute_cell_in_txn boxes ascii_text) (calm (\<lambda>sc. snd sc = (1, 0))) 512 boxes_queue))"
  by (rule stale_cells_stay_queued [OF boxes_covered]) (simp add: calm_def)

theorem drained_cells_reach_tiles_witness:
  "\<exists>r db'. drain_batch (recompute_cell_in_txn boxes ascii_text) (calm (\<lambda>_. False)) 512 boxes_queue = (r, db') \<and>
     (\<forall>src c. serving_shown src c (dd_world db') \<noteq> serving_shown src c (dd_world boxes_queue) \<longrightarrow> c \<in> fst ` set (dd_tiles db'))"
proof -
  obtain r db' where run: "drain_batch (recompute_cell_in_txn boxes ascii_text) (calm (\<lambda>_. False)) 512 boxes_queue = (r, db')"
    by fastforce
  then show ?thesis using drained_cells_reach_tiles [OF _ run] by (auto simp: calm_def)
qed




end
