(* ===== verification/Tile_Refresh.thy ===== *)
theory Tile_Refresh
  imports Tile_Store Dirty_Cells "HOL-Library.Product_Lexorder"
begin

text \<open>
  \<open>src/server/jobs/tile_refresh.rs\<close>: one tick of the job that keeps the stored tiles in step with the
  tables, with \<open>render_blocks\<close> of \<open>src/server/tiles.rs\<close>. A tile's rendering is a parameter, a function
  of the tables; gzip is another. Every statement commits on its own, and other connections
  commit between statements. Times are microseconds.
\<close>

section \<open>State\<close>

record 'w tile_db =
  td_world :: 'w
  td_queue :: "(cell \<times> nat) list"
  td_store :: tile_store

text \<open>The parameters and faults of a tick. \<open>te_env i\<close> is what other connections commit before step \<open>i\<close>:
  step 0 is the select, then each block, then each delete. A \<open>te_false_positive\<close> key is one the Bloom
  filter reports although it is absent; \<open>te_answers i k\<close> says whether the query of block \<open>i\<close> answers for
  a tile. Other connections write the tables and the queue; what the \<open>/tiles\<close> handler itself puts into the
  tile store while a tick runs is left out.\<close>

record 'w tick_env =
  te_render :: "'w \<Rightarrow> tile_id \<Rightarrow> byte list"
  te_gzip :: "byte list \<Rightarrow> byte list option"
  te_env :: "nat \<Rightarrow> 'w \<times> (cell \<times> nat) list \<Rightarrow> 'w \<times> (cell \<times> nat) list"
  te_start :: nat
  te_read_fails :: bool
  te_select_fails :: bool
  te_false_positive :: "tile_id \<Rightarrow> bool"
  te_cancel :: "nat \<Rightarrow> bool"
  te_block_fails :: "nat \<Rightarrow> bool"
  te_answers :: "nat \<Rightarrow> tile_id \<Rightarrow> bool"
  te_flush_fails :: "nat \<Rightarrow> tile_id \<Rightarrow> bool"
  te_write_fails :: bool
  te_delete_fails :: "nat \<Rightarrow> bool"

definition others_commit :: "'w tick_env \<Rightarrow> nat \<Rightarrow> 'w tile_db \<Rightarrow> 'w tile_db" where
  "others_commit env i db = (case te_env env i (td_world db, td_queue db) of (w, q) \<Rightarrow> db\<lparr>td_world := w, td_queue := q\<rparr>)"

section \<open>The tick\<close>

definition tile_ids :: "cell \<Rightarrow> tile_id list" where
  "tile_ids c = map (\<lambda>(z, x, y). (of_nat z, of_nat x, of_nat y)) (tiles_for_cell (fst c) (snd c))"

definition may_exist :: "'w tick_env \<Rightarrow> tile_store \<Rightarrow> tile_id \<Rightarrow> bool" where
  "may_exist env s k = (case ts_db s of None \<Rightarrow> False
     | Some db \<Rightarrow> cf_tiles db (encode_tile_key k) \<noteq> None \<or> te_false_positive env k)"

definition RENDER_BLOCK_SHIFT :: nat where
  "RENDER_BLOCK_SHIFT = 3"

record render_block =
  rb_z :: u32
  rb_tiles :: "(u32 \<times> u32) list"

definition block_of :: "tile_id \<Rightarrow> tile_id" where
  "block_of k = (case k of (z, x, y) \<Rightarrow> (z, drop_bit RENDER_BLOCK_SHIFT x, drop_bit RENDER_BLOCK_SHIFT y))"

text \<open>The blocks in the order of their keys, as the ordered map yields them.\<close>

definition render_blocks :: "tile_id list \<Rightarrow> render_block list" where
  "render_blocks keys = map (\<lambda>b. \<lparr>rb_z = fst b, rb_tiles = map snd (filter (\<lambda>k. block_of k = b) keys)\<rparr>)
     (sort (remdups (map block_of keys)))"

definition block_keys :: "render_block \<Rightarrow> tile_id list" where
  "block_keys b = map (Pair (rb_z b)) (rb_tiles b)"

text \<open>The tiles of a block with their bytes; none when the query fails.\<close>

definition render_out :: "'w tick_env \<Rightarrow> nat \<Rightarrow> 'w \<Rightarrow> render_block \<Rightarrow> (tile_id \<times> byte list) list" where
  "render_out env i w b = (if te_block_fails env i then []
     else map (\<lambda>k. (k, te_render env w k)) (filter (te_answers env i) (block_keys b)))"

text \<open>What a tick carries: the pending batch, the store, the unsettled keys and the counters.\<close>

record progress =
  pr_batch :: tile_batch
  pr_store :: tile_store
  pr_unsettled :: "tile_id set"
  pr_rendered :: nat
  pr_failed :: nat

fun put_tiles :: "'w tick_env \<Rightarrow> nat \<Rightarrow> (tile_id \<times> byte list) list \<Rightarrow> progress \<Rightarrow> (string + unit) \<times> progress" where
  "put_tiles env i [] p = (Inr (), p)"
| "put_tiles env i ((k, raw) # out) p =
     (case prepare (te_gzip env) raw of
        None \<Rightarrow> put_tiles env i out p
      | Some (etag, body) \<Rightarrow>
          let b = tile_batch_put (pr_store p) k etag body (pr_batch p);
              p' = p\<lparr>pr_batch := b, pr_unsettled := pr_unsettled p - {k}, pr_rendered := pr_rendered p + 1\<rparr>
          in if BATCH_FLUSH_BYTES \<le> tb_bytes b \<and> te_flush_fails env i k then (Inl ''tile store batch write failed'', p')
             else case flush_if_full b (pr_store p) of
                    (b', s') \<Rightarrow> put_tiles env i out (p'\<lparr>pr_batch := b', pr_store := s'\<rparr>))"

definition evict_unwritten :: "tile_id list \<Rightarrow> progress \<Rightarrow> progress" where
  "evict_unwritten keys p = foldl (\<lambda>p k. if k \<in> pr_unsettled p
     then p\<lparr>pr_batch := tile_batch_delete (pr_store p) k (pr_batch p), pr_unsettled := pr_unsettled p - {k},
            pr_failed := pr_failed p + 1\<rparr> else p) p keys"

fun refresh_blocks :: "'w tick_env \<Rightarrow> nat \<Rightarrow> render_block list \<Rightarrow> progress \<Rightarrow> 'w tile_db \<Rightarrow>
    (string + unit) \<times> progress \<times> 'w tile_db" where
  "refresh_blocks env i [] p db = (Inr (), p, db)"
| "refresh_blocks env i (b # bs) p db =
     (let db' = others_commit env i db
      in if te_cancel env i then (Inr (), p, db')
         else case put_tiles env i (render_out env i (td_world db') b) p of
             (Inl e, p') \<Rightarrow> (Inl e, p', db')
           | (Inr _, p') \<Rightarrow> refresh_blocks env (Suc i) bs (evict_unwritten (block_keys b) p') db')"

fun delete_settled :: "'w tick_env \<Rightarrow> nat \<Rightarrow> tile_id set \<Rightarrow> cell list \<Rightarrow> nat \<Rightarrow> 'w tile_db \<Rightarrow> (string + nat) \<times> 'w tile_db" where
  "delete_settled env i unsettled [] deferred db = (Inr deferred, db)"
| "delete_settled env i unsettled (c # cells) deferred db =
     (if list_ex (\<lambda>k. k \<in> unsettled) (tile_ids c) then delete_settled env i unsettled cells (Suc deferred) db
      else let db' = others_commit env i db
           in if te_delete_fails env i then (Inl ''DELETE'', db')
              else delete_settled env (Suc i) unsettled cells deferred
                     (db'\<lparr>td_queue := filter (\<lambda>r. \<not> (fst r = c \<and> snd r \<le> te_start env)) (td_queue db')\<rparr>))"

definition oldest_row :: "(cell \<times> nat) list \<Rightarrow> cell \<Rightarrow> nat" where
  "oldest_row rows c = Min (snd ` set (filter (\<lambda>r. fst r = c) rows))"

definition due_cells :: "nat \<Rightarrow> nat \<Rightarrow> (cell \<times> nat) list \<Rightarrow> cell list" where
  "due_cells batch_start batch_size rows =
     (let due = filter (\<lambda>r. snd r \<le> batch_start) rows
      in take batch_size (sort_key (oldest_row due) (remdups (map fst due))))"

record tick_stats =
  ti_cells :: nat
  ti_deferred :: nat
  ti_resident :: nat
  ti_rendered :: nat
  ti_failed :: nat

definition tick :: "'w tick_env \<Rightarrow> nat \<Rightarrow> 'w tile_db \<Rightarrow> (string + tick_stats) \<times> 'w tile_db" where
  "tick env batch_size db =
     (if te_read_fails env then (Inl ''tile_refresh: read batch_start'', db)
      else let db0 = others_commit env 0 db
      in if te_select_fails env then (Inl ''tile_refresh: select'', db0)
      else let cells = due_cells (te_start env) batch_size (td_queue db0);
               keys = sort (remdups (concat (map tile_ids cells)));
               resident = filter (may_exist env (td_store db0)) keys;
               p0 = \<lparr>pr_batch = new_tile_batch, pr_store = td_store db0, pr_unsettled = set resident, pr_rendered = 0, pr_failed = 0\<rparr>
      in case refresh_blocks env 1 (render_blocks resident) p0 db0 of
           (Inl e, p, db1) \<Rightarrow> (Inl e, db1\<lparr>td_store := pr_store p\<rparr>)
         | (Inr _, p, db1) \<Rightarrow>
             (if te_write_fails env then (Inl ''tile store batch write failed'', db1\<lparr>td_store := pr_store p\<rparr>)
              else case delete_settled env (Suc (length (render_blocks resident))) (pr_unsettled p) cells 0
                          (db1\<lparr>td_store := write_tile_batch (pr_batch p) (pr_store p)\<rparr>) of
                     (Inl e, db2) \<Rightarrow> (Inl e, db2)
                   | (Inr deferred, db2) \<Rightarrow> (Inr \<lparr>ti_cells = length cells, ti_deferred = deferred, ti_resident = length resident,
                        ti_rendered = pr_rendered p, ti_failed = pr_failed p\<rparr>, db2)))"


section \<open>Reading through a pending batch\<close>

definition stored :: "tile_store \<Rightarrow> tile_id \<Rightarrow> stored_tile option" where
  "stored s k = fst (tile_get k s)"

definition seen :: "tile_batch \<Rightarrow> tile_store \<Rightarrow> tile_id \<Rightarrow> stored_tile option" where
  "seen b s = stored (write_tile_batch b s)"

text \<open>Keys whose zoom fits the key's byte: all that the job handles.\<close>

definition byte_zoom :: "tile_id \<Rightarrow> bool" where
  "byte_zoom k \<longleftrightarrow> unat (fst k) < 256"

lemma stored_none [simp]: "ts_db s = None \<Longrightarrow> stored s k = None"
  by (simp add: stored_def tile_get_def)

lemma stored_some:
  "ts_db s = Some db \<Longrightarrow> stored s k = (case cf_tiles db (encode_tile_key k) of None \<Rightarrow> None | Some raw \<Rightarrow> decode_value raw (ts_version s))"
  by (auto simp: stored_def tile_get_def split: option.split)

lemma write_version [simp]: "ts_version (write_tile_batch b s) = ts_version s"
  by (simp add: write_tile_batch_def split: option.split)

lemma write_none [simp]: "ts_db s = None \<Longrightarrow> write_tile_batch b s = s"
  by (simp add: write_tile_batch_def)

lemma seen_some:
  assumes "ts_db s = Some db"
  shows "seen b s k = (case with_writes b db (encode_tile_key k) of None \<Rightarrow> None | Some raw \<Rightarrow> decode_value raw (ts_version s))"
  unfolding seen_def using stored_some [OF write_with [OF assms]] by (simp split: option.split)

lemma seen_new [simp]: "seen new_tile_batch s = stored s"
  by (rule ext) (simp add: seen_def write_tile_batch_def new_tile_batch_def split: option.split)

lemma encode_key_eq: "byte_zoom k \<Longrightarrow> byte_zoom l \<Longrightarrow> encode_tile_key k = encode_tile_key l \<longleftrightarrow> k = l"
  using encode_tile_key_inj by (cases k; cases l) (simp add: byte_zoom_def)

lemma seen_put:
  assumes "byte_zoom k" "byte_zoom l" "tile_fits (etag, body)"
  shows "seen (tile_batch_put s k etag body b) s l = (if l = k \<and> ts_db s \<noteq> None then Some (etag, body) else seen b s l)"
proof (cases "ts_db s")
  case None
  then show ?thesis by (simp add: tile_batch_put_def)
next
  case (Some db)
  have "with_writes (tile_batch_put s k etag body b) db =
      (with_writes b db)(encode_tile_key k \<mapsto> encode_value (ts_version s) etag body)"
    using tiles_batch_put(1) [OF Some] by (simp add: with_writes_def)
  moreover have "encode_tile_key l = encode_tile_key k \<longleftrightarrow> l = k" using encode_key_eq assms(1,2) by blast
  ultimately show ?thesis
    using assms(3) by (simp add: seen_some [OF Some] Some decode_encode_value tile_fits_def)
qed

lemma seen_delete:
  assumes "byte_zoom k" "byte_zoom l"
  shows "seen (tile_batch_delete s k b) s l = (if l = k then None else seen b s l)"
proof (cases "ts_db s")
  case None
  then show ?thesis by (simp add: tile_batch_delete_def seen_def)
next
  case (Some db)
  have "with_writes (tile_batch_delete s k b) db = (with_writes b db)(encode_tile_key k := None)"
    using Some by (simp add: with_writes_def tile_batch_delete_def)
  moreover have "encode_tile_key l = encode_tile_key k \<longleftrightarrow> l = k" using encode_key_eq assms by blast
  ultimately show ?thesis by (simp add: seen_some [OF Some])
qed

lemma flush_seen:
  assumes "flush_if_full b s = (b', s')"
  shows "seen b' s' = seen b s" "stored s' = stored s \<or> stored s' = seen b s"
    "ts_db s' = None \<longleftrightarrow> ts_db s = None"
proof -
  have w: "stored (write_tile_batch b s) = seen b s" by (rule ext) (simp add: seen_def)
  have "ts_db (write_tile_batch b s) = None \<longleftrightarrow> ts_db s = None" by (simp add: write_tile_batch_def split: option.split)
  then show "seen b' s' = seen b s" "stored s' = stored s \<or> stored s' = seen b s" "ts_db s' = None \<longleftrightarrow> ts_db s = None"
    using assms w by (auto simp: flush_if_full_def split: if_splits)
qed

section \<open>The invariant of a tick\<close>

text \<open>A tile is settled by \<open>rows\<close> when it is absent, current, or one of the rows' cells expands to it.\<close>

definition settled :: "'w tick_env \<Rightarrow> (cell \<times> nat) set \<Rightarrow> 'w \<Rightarrow> (tile_id \<Rightarrow> stored_tile option) \<Rightarrow> tile_id \<Rightarrow> bool" where
  "settled env rows w v k \<longleftrightarrow> v k = None \<or> v k = prepare (te_gzip env) (te_render env w k) \<or>
     (\<exists>r\<in>rows. k \<in> set (tile_ids (fst r)))"

text \<open>The rows the tick will not delete.\<close>

definition kept_rows :: "'w tick_env \<Rightarrow> cell list \<Rightarrow> (cell \<times> nat) list \<Rightarrow> (cell \<times> nat) set" where
  "kept_rows env cells q = {r \<in> set q. fst r \<notin> set cells \<or> te_start env < snd r}"

definition tick_inv :: "'w tick_env \<Rightarrow> cell list \<Rightarrow> tile_id set \<Rightarrow> (tile_id \<Rightarrow> stored_tile option) \<Rightarrow> 'w tile_db \<Rightarrow> bool" where
  "tick_inv env cells unsettled v db \<longleftrightarrow> (\<forall>k. byte_zoom k \<longrightarrow> settled env (set (td_queue db)) (td_world db) v k \<and>
     (k \<notin> unsettled \<longrightarrow> settled env (kept_rows env cells (td_queue db)) (td_world db) v k))"

lemma tick_invD:
  assumes "tick_inv env cells u v db" "byte_zoom k"
  shows "settled env (set (td_queue db)) (td_world db) v k"
    "k \<notin> u \<Longrightarrow> settled env (kept_rows env cells (td_queue db)) (td_world db) v k"
  using assms unfolding tick_inv_def by blast+

text \<open>Every stored tile is current or waits in the queue.\<close>

definition tiles_ok :: "'w tick_env \<Rightarrow> 'w tile_db \<Rightarrow> bool" where
  "tiles_ok env db \<longleftrightarrow> (\<forall>k. byte_zoom k \<longrightarrow> settled env (set (td_queue db)) (td_world db) (stored (td_store db)) k)"

text \<open>The producers' side: other connections only append rows, newer than the cutoff, one of which
  expands to each tile whose rendering they change.\<close>

definition producers_enqueue :: "'w tick_env \<Rightarrow> bool" where
  "producers_enqueue env \<longleftrightarrow> (\<forall>i w q. \<exists>rows. snd (te_env env i (w, q)) = q @ rows \<and>
     (\<forall>r\<in>set rows. te_start env < snd r) \<and>
     (\<forall>k. te_render env (fst (te_env env i (w, q))) k \<noteq> te_render env w k \<longrightarrow> (\<exists>r\<in>set rows. k \<in> set (tile_ids (fst r)))))"

lemma settled_mono: "settled env A w v k \<Longrightarrow> A \<subseteq> B \<Longrightarrow> settled env B w v k"
  by (auto simp: settled_def)

lemma others_inv:
  assumes "producers_enqueue env" "tick_inv env cells u v db"
  shows "tick_inv env cells u v (others_commit env i db)"
proof -
  obtain w q where wq: "te_env env i (td_world db, td_queue db) = (w, q)" by fastforce
  obtain rows where r: "q = td_queue db @ rows" "\<forall>r\<in>set rows. te_start env < snd r"
    "\<And>k. te_render env w k \<noteq> te_render env (td_world db) k \<Longrightarrow> \<exists>r\<in>set rows. k \<in> set (tile_ids (fst r))"
    using assms(1) wq unfolding producers_enqueue_def by (metis fst_conv snd_conv)
  have late: "set rows \<subseteq> kept_rows env cells q" using r(1,2) by (auto simp: kept_rows_def)
  have step: "settled env B w v k" if "settled env A (td_world db) v k" "A \<subseteq> B" "set rows \<subseteq> B" for A B k
    using that r(3) [of k] by (cases "te_render env w k = te_render env (td_world db) k") (auto simp: settled_def)
  have "kept_rows env cells (td_queue db) \<subseteq> kept_rows env cells q" "set (td_queue db) \<subseteq> set q" "set rows \<subseteq> set q"
    using r(1) by (auto simp: kept_rows_def)
  then show ?thesis using assms(2) step late by (simp add: tick_inv_def others_commit_def wq) blast
qed

lemma others_store [simp]: "td_store (others_commit env i db) = td_store db"
  by (simp add: others_commit_def split: prod.split)

lemma put_tiles_inv:
  assumes "\<forall>(k, raw)\<in>set out. byte_zoom k \<and> raw = te_render env (td_world db) k"
    and "tick_inv env cells (pr_unsettled p) (seen (pr_batch p) (pr_store p)) db" "tick_inv env cells UNIV (stored (pr_store p)) db"
    and "put_tiles env i out p = (r, p')"
  shows "tick_inv env cells UNIV (stored (pr_store p')) db \<and> pr_unsettled p' \<subseteq> pr_unsettled p \<and>
    (r = Inr () \<longrightarrow> tick_inv env cells (pr_unsettled p') (seen (pr_batch p') (pr_store p')) db)"
  using assms
proof (induction out arbitrary: p)
  case (Cons kr out)
  obtain k raw where kr: "kr = (k, raw)" by fastforce
  have k: "byte_zoom k" "raw = te_render env (td_world db) k" using Cons.prems(1) by (auto simp: kr)
  show ?case
  proof (cases "prepare (te_gzip env) raw")
    case None
    then show ?thesis using Cons by (simp add: kr)
  next
    case (Some t)
    obtain etag body where t: "t = (etag, body)" by fastforce
    have fits: "tile_fits (etag, body)" using Some content_etag_fits by (auto simp: t prepare_def)
    let ?b = "tile_batch_put (pr_store p) k etag body (pr_batch p)"
    let ?p = "p\<lparr>pr_batch := ?b, pr_unsettled := pr_unsettled p - {k}, pr_rendered := pr_rendered p + 1\<rparr>"
    have v: "seen ?b (pr_store p) l = (if l = k \<and> ts_db (pr_store p) \<noteq> None then Some (etag, body) else seen (pr_batch p) (pr_store p) l)"
      if "byte_zoom l" for l using seen_put [OF k(1) that fits] .
    have fresh: "settled env A (td_world db) (seen ?b (pr_store p)) k" for A
      using v [OF k(1)] Some by (cases "ts_db (pr_store p)") (auto simp: settled_def t k(2) seen_def)
    have put: "tick_inv env cells (pr_unsettled p - {k}) (seen ?b (pr_store p)) db"
      unfolding tick_inv_def
    proof (intro allI impI)
      fix l assume l: "byte_zoom l"
      show "settled env (set (td_queue db)) (td_world db) (seen ?b (pr_store p)) l \<and>
        (l \<notin> pr_unsettled p - {k} \<longrightarrow> settled env (kept_rows env cells (td_queue db)) (td_world db) (seen ?b (pr_store p)) l)"
      proof (cases "l = k")
        case True
        then show ?thesis using fresh by simp
      next
        case False
        then have "settled env A (td_world db) (seen ?b (pr_store p)) l \<longleftrightarrow>
            settled env A (td_world db) (seen (pr_batch p) (pr_store p)) l" for A using v [OF l] by (simp add: settled_def)
        then show ?thesis using Cons.prems(2) l False unfolding tick_inv_def by blast
      qed
    qed
    show ?thesis
    proof (cases "BATCH_FLUSH_BYTES \<le> tb_bytes ?b \<and> te_flush_fails env i k")
      case True
      then have "r = Inl ''tile store batch write failed''" "p' = ?p" using Cons.prems(4) Some by (auto simp: kr t Let_def)
      then show ?thesis using Cons.prems(3) by auto
    next
      case False
      obtain b' s' where f: "flush_if_full ?b (pr_store p) = (b', s')" by fastforce
      let ?q = "?p\<lparr>pr_batch := b', pr_store := s'\<rparr>"
      have run: "put_tiles env i out ?q = (r, p')" using Cons.prems(4) Some False f by (simp add: kr t Let_def)
      have "tick_inv env cells UNIV (seen ?b (pr_store p)) db" using put by (simp add: tick_inv_def)
      then have s: "tick_inv env cells UNIV (stored (pr_store ?q)) db" using Cons.prems(3) flush_seen(2) [OF f] by auto
      have "tick_inv env cells (pr_unsettled ?q) (seen (pr_batch ?q) (pr_store ?q)) db" using put flush_seen(1) [OF f] by simp
      from Cons.IH [OF _ this s run] Cons.prems(1) show ?thesis by auto
    qed
  qed
qed auto


lemma evict_inv:
  "\<forall>k\<in>set keys. byte_zoom k \<Longrightarrow> tick_inv env cells (pr_unsettled p) (seen (pr_batch p) (pr_store p)) db \<Longrightarrow>
     pr_store (evict_unwritten keys p) = pr_store p \<and> pr_unsettled (evict_unwritten keys p) = pr_unsettled p - set keys \<and>
     tick_inv env cells (pr_unsettled (evict_unwritten keys p)) (seen (pr_batch (evict_unwritten keys p)) (pr_store p)) db"
proof (induction keys arbitrary: p)
  case (Cons k keys)
  let ?p = "p\<lparr>pr_batch := tile_batch_delete (pr_store p) k (pr_batch p), pr_unsettled := pr_unsettled p - {k}, pr_failed := pr_failed p + 1\<rparr>"
  show ?case
  proof (cases "k \<in> pr_unsettled p")
    case True
    have v: "seen (tile_batch_delete (pr_store p) k (pr_batch p)) (pr_store p) l = (if l = k then None else seen (pr_batch p) (pr_store p) l)"
      if "byte_zoom l" for l using seen_delete [OF _ that] Cons.prems(1) by simp
    have "tick_inv env cells (pr_unsettled ?p) (seen (pr_batch ?p) (pr_store ?p)) db"
      unfolding tick_inv_def
    proof (intro allI impI)
      fix l assume l: "byte_zoom l"
      have "settled env A (td_world db) (seen (pr_batch ?p) (pr_store ?p)) l \<longleftrightarrow>
          l = k \<or> settled env A (td_world db) (seen (pr_batch p) (pr_store p)) l" for A using v [OF l] by (simp add: settled_def)
      then show "settled env (set (td_queue db)) (td_world db) (seen (pr_batch ?p) (pr_store ?p)) l \<and>
          (l \<notin> pr_unsettled ?p \<longrightarrow> settled env (kept_rows env cells (td_queue db)) (td_world db) (seen (pr_batch ?p) (pr_store ?p)) l)"
        using tick_invD [OF Cons.prems(2) l] by auto
    qed
    from Cons.IH [OF _ this] Cons.prems(1) show ?thesis
      using True by (auto simp: evict_unwritten_def)
  next
    case False
    then show ?thesis using Cons.IH [OF _ Cons.prems(2)] Cons.prems(1) by (auto simp: evict_unwritten_def)
  qed
qed (simp add: evict_unwritten_def)

lemma render_out_tiles: "(k, raw) \<in> set (render_out env i w b) \<Longrightarrow> k \<in> set (block_keys b) \<and> raw = te_render env w k"
  by (auto simp: render_out_def split: if_splits)

lemma refresh_blocks_inv:
  assumes "producers_enqueue env" "\<forall>b\<in>set bs. \<forall>k\<in>set (block_keys b). byte_zoom k"
    and "tick_inv env cells (pr_unsettled p) (seen (pr_batch p) (pr_store p)) db" "tick_inv env cells UNIV (stored (pr_store p)) db"
    and "refresh_blocks env i bs p db = (r, p', db')"
  shows "tick_inv env cells UNIV (stored (pr_store p')) db' \<and>
    (r = Inr () \<longrightarrow> tick_inv env cells (pr_unsettled p') (seen (pr_batch p') (pr_store p')) db')"
  using assms(2-)
proof (induction bs arbitrary: i p db)
  case (Cons b bs)
  let ?db = "others_commit env i db"
  have p: "tick_inv env cells (pr_unsettled p) (seen (pr_batch p) (pr_store p)) ?db" "tick_inv env cells UNIV (stored (pr_store p)) ?db"
    using others_inv [OF assms(1)] Cons.prems(2,3) by blast+
  show ?case
  proof (cases "te_cancel env i")
    case True
    then show ?thesis using Cons.prems(4) p by auto
  next
    case False
    obtain q p1 where put: "put_tiles env i (render_out env i (td_world ?db) b) p = (q, p1)" by fastforce
    have out: "\<forall>(k, raw)\<in>set (render_out env i (td_world ?db) b). byte_zoom k \<and> raw = te_render env (td_world ?db) k"
      using render_out_tiles Cons.prems(1) by fastforce
    note inv = put_tiles_inv [OF out p put]
    show ?thesis
    proof (cases q)
      case (Inl e)
      then show ?thesis using Cons.prems(4) False put inv by (auto simp: Let_def)
    next
      case (Inr u)
      let ?p = "evict_unwritten (block_keys b) p1"
      have "refresh_blocks env (Suc i) bs ?p ?db = (r, p', db')" using Cons.prems(4) False put Inr by (simp add: Let_def)
      moreover have "\<forall>k\<in>set (block_keys b). byte_zoom k" using Cons.prems(1) by simp
      from evict_inv [OF this, of env cells p1 ?db] inv Inr
      have "tick_inv env cells (pr_unsettled ?p) (seen (pr_batch ?p) (pr_store ?p)) ?db" "tick_inv env cells UNIV (stored (pr_store ?p)) ?db"
        by auto
      ultimately show ?thesis using Cons.IH [of ?p ?db "Suc i"] Cons.prems(1) by auto
    qed
  qed
qed auto

lemma delete_settled_inv:
  assumes "producers_enqueue env" "tick_inv env cells u (stored (td_store db)) db" "set cs \<subseteq> set cells"
    and "delete_settled env i u cs n db = (r, db')"
  shows "tick_inv env cells u (stored (td_store db')) db'"
  using assms(2-)
proof (induction cs arbitrary: i n db)
  case (Cons c cs)
  show ?case
  proof (cases "list_ex (\<lambda>k. k \<in> u) (tile_ids c)")
    case True
    then have "delete_settled env i u cs (Suc n) db = (r, db')" using Cons.prems(3) by simp
    then show ?thesis using Cons.IH [OF Cons.prems(1)] Cons.prems(2) by auto
  next
    case False
    let ?db = "others_commit env i db"
    have inv: "tick_inv env cells u (stored (td_store ?db)) ?db" using others_inv [OF assms(1) Cons.prems(1)] by simp
    show ?thesis
    proof (cases "te_delete_fails env i")
      case True
      then show ?thesis using Cons.prems(3) False inv by auto
    next
      case ok: False
      let ?q = "filter (\<lambda>r. \<not> (fst r = c \<and> snd r \<le> te_start env)) (td_queue ?db)"
      let ?d = "?db\<lparr>td_queue := ?q\<rparr>"
      have kept: "kept_rows env cells ?q = kept_rows env cells (td_queue ?db)"
        using Cons.prems(2) by (auto simp: kept_rows_def)
      have "tick_inv env cells u (stored (td_store ?d)) ?d"
        unfolding tick_inv_def
      proof (intro allI impI)
        fix k assume k: "byte_zoom k"
        have "settled env (set ?q) (td_world ?db) (stored (td_store ?db)) k"
        proof (cases "k \<in> u")
          case True
          then have other: "k \<notin> set (tile_ids c)" using False by (auto simp: list_ex_iff)
          have "r \<in> set ?q" if "r \<in> set (td_queue ?db)" "k \<in> set (tile_ids (fst r))" for r
            using that other by auto
          then show ?thesis using tick_invD(1) [OF inv k] unfolding settled_def by blast
        next
          case not_u: False
          have "kept_rows env cells (td_queue ?db) \<subseteq> set ?q" unfolding kept [symmetric] by (auto simp: kept_rows_def)
          then show ?thesis by (rule settled_mono [OF tick_invD(2) [OF inv k not_u]])
        qed
        moreover have "settled env (kept_rows env cells ?q) (td_world ?db) (stored (td_store ?db)) k" if "k \<notin> u"
          unfolding kept by (rule tick_invD(2) [OF inv k that])
        ultimately show "settled env (set (td_queue ?d)) (td_world ?d) (stored (td_store ?d)) k \<and>
            (k \<notin> u \<longrightarrow> settled env (kept_rows env cells (td_queue ?d)) (td_world ?d) (stored (td_store ?d)) k)"
          by simp
      qed
      moreover have "delete_settled env (Suc i) u cs n ?d = (r, db')" using Cons.prems(3) False ok by (simp add: Let_def)
      moreover have "set cs \<subseteq> set cells" using Cons.prems(2) by simp
      ultimately show ?thesis by (intro Cons.IH)
    qed
  qed
qed auto


lemma tiles_for_cell_zoom:
  assumes "t \<in> set (tiles_for_cell cx cy)"
  shows "fst t \<le> 14"
proof -
  have ring: "fst t = CHANGE_CELL_ZOOM" if "t \<in> set (if c then [] else [(CHANGE_CELL_ZOOM, a, b)])" for c a b
    using that by (cases c) simp_all
  have parents: "fst t < CHANGE_CELL_ZOOM" if "t \<in> set (map (\<lambda>z. (z, f z, g z)) [MIN_PERSISTED_ZOOM..<CHANGE_CELL_ZOOM])" for f g
    using that unfolding set_map image_iff set_upt by auto
  have "fst t = CHANGE_CELL_ZOOM \<or> fst t < CHANGE_CELL_ZOOM"
  proof -
    let ?r = "\<lambda>x y. if x < 0 \<or> y < 0 \<or> x \<ge> 2 ^ CHANGE_CELL_ZOOM \<or> y \<ge> 2 ^ CHANGE_CELL_ZOOM
      then [] else [(CHANGE_CELL_ZOOM, nat x, nat y)]"
    let ?p = "map (\<lambda>z. (z, drop_bit (CHANGE_CELL_ZOOM - z) (nat cx), drop_bit (CHANGE_CELL_ZOOM - z) (nat cy)))
      [MIN_PERSISTED_ZOOM..<CHANGE_CELL_ZOOM]"
    have "t \<in> set ?p \<or> (\<exists>x y. t \<in> set (?r x y))"
      using assms unfolding tiles_for_cell_def Let_def set_append Un_iff in_concat_map by (auto split: if_splits)
    then show ?thesis
    proof (elim disjE exE)
      assume "t \<in> set ?p"
      from parents [OF this] show ?thesis by simp
    next
      fix x y assume "t \<in> set (?r x y)"
      from ring [OF this] show ?thesis by simp
    qed
  qed
  then show ?thesis by (auto simp: CHANGE_CELL_ZOOM_def)
qed

lemma tile_ids_zoom:
  assumes "k \<in> set (tile_ids c)"
  shows "byte_zoom k"
proof -
  obtain z x y where t: "(z, x, y) \<in> set (tiles_for_cell (fst c) (snd c))" "fst k = of_nat z"
    using assms by (auto simp: tile_ids_def)
  from tiles_for_cell_zoom [OF t(1)] show ?thesis
    by (simp add: byte_zoom_def t(2) unsigned_of_nat take_bit_nat_eq_self)
qed

lemma block_keys_sub:
  assumes "b \<in> set (render_blocks keys)" "k \<in> set (block_keys b)"
  shows "k \<in> set keys"
proof -
  obtain B where B: "b = \<lparr>rb_z = fst B, rb_tiles = map snd (filter (\<lambda>k. block_of k = B) keys)\<rparr>"
    using assms(1) by (auto simp: render_blocks_def)
  then obtain l where l: "l \<in> set keys" "block_of l = B" "k = (fst B, snd l)" using assms(2) by (auto simp: block_keys_def)
  then have "fst l = fst B" by (auto simp: block_of_def split: prod.splits)
  then show ?thesis using l by (cases l) simp
qed

text \<open>The start: what is stored is in the queue or current, and the cells of the tick have resident tiles only.\<close>

lemma tick_start:
  assumes "tiles_ok env db" "keys = sort (remdups (concat (map tile_ids cells)))" "resident = filter (may_exist env (td_store db)) keys"
  shows "tick_inv env cells (set resident) (stored (td_store db)) db"
  unfolding tick_inv_def
proof (intro allI impI conjI)
  fix k assume k: "byte_zoom k"
  show all: "settled env (set (td_queue db)) (td_world db) (stored (td_store db)) k" using assms(1) k unfolding tiles_ok_def by blast
  assume u: "k \<notin> set resident"
  show "settled env (kept_rows env cells (td_queue db)) (td_world db) (stored (td_store db)) k"
  proof (cases "k \<in> set keys")
    case True
    then have "\<not> may_exist env (td_store db) k" using u assms(3) by simp
    then have "stored (td_store db) k = None"
      by (cases "ts_db (td_store db)") (auto simp: may_exist_def stored_some)
    then show ?thesis by (simp add: settled_def)
  next
    case False
    then have none: "c \<notin> set cells" if "k \<in> set (tile_ids c)" for c using that assms(2) by auto
    have "r \<in> kept_rows env cells (td_queue db)" if "r \<in> set (td_queue db)" "k \<in> set (tile_ids (fst r))" for r
      using that none [of "fst r"] by (simp add: kept_rows_def)
    then show ?thesis using all unfolding settled_def by blast
  qed
qed

lemma tick_inv_ok: "tick_inv env cells u (stored (td_store db)) db \<Longrightarrow> tiles_ok env db"
  by (simp add: tick_inv_def tiles_ok_def)

lemma tick_inv_UNIV: "tiles_ok env db \<Longrightarrow> tick_inv env cells UNIV (stored (td_store db)) db"
  by (simp add: tick_inv_def tiles_ok_def)

section \<open>Properties\<close>

text \<open>C8: a tick never leaves a stale tile behind. If every stored tile is current or has a row in the
  queue, and producers enqueue what they change with rows newer than the tick's cutoff, then this
  holds after the tick, whatever its outcome: cancelled between two blocks, with blocks that fail
  to render or to compress, queries that leave tiles out, failed writes or deletes, or Bloom filter
  false positives. The tick is the only writer of the tile store here: the \<open>/tiles\<close> handler's own puts are not
  among the interleaved steps.\<close>

theorem tick_keeps_tiles_fresh:
  assumes "producers_enqueue env" "tiles_ok env db"
  shows "tiles_ok env (snd (tick env batch_size db))"
proof -
  let ?db0 = "others_commit env 0 db"
  have ok0: "tiles_ok env ?db0"
    using others_inv [OF assms(1) tick_inv_UNIV [OF assms(2), of "[]"]] tick_inv_ok by (metis others_store)
  define cells where "cells = due_cells (te_start env) batch_size (td_queue ?db0)"
  define keys where "keys = sort (remdups (concat (map tile_ids cells)))"
  define resident where "resident = filter (may_exist env (td_store ?db0)) keys"
  define p0 where "p0 = \<lparr>pr_batch = new_tile_batch, pr_store = td_store ?db0, pr_unsettled = set resident, pr_rendered = 0, pr_failed = 0\<rparr>"
  obtain r p db1 where run: "refresh_blocks env 1 (render_blocks resident) p0 ?db0 = (r, p, db1)" by (metis prod_cases3)
  have "\<forall>b\<in>set (render_blocks resident). \<forall>k\<in>set (block_keys b). byte_zoom k"
    using block_keys_sub tile_ids_zoom by (fastforce simp: resident_def keys_def)
  from refresh_blocks_inv [OF assms(1) this _ _ run, of cells] tick_start [OF ok0 keys_def resident_def] tick_inv_UNIV [OF ok0]
  have inv: "tick_inv env cells UNIV (stored (pr_store p)) db1"
    "r = Inr () \<Longrightarrow> tick_inv env cells (pr_unsettled p) (seen (pr_batch p) (pr_store p)) db1"
    by (simp_all add: p0_def)
  have err: "tiles_ok env (db1\<lparr>td_store := pr_store p\<rparr>)" using inv(1) by (simp add: tick_inv_def tiles_ok_def)
  let ?db1 = "db1\<lparr>td_store := write_tile_batch (pr_batch p) (pr_store p)\<rparr>"
  obtain q db2 where del: "delete_settled env (Suc (length (render_blocks resident))) (pr_unsettled p) cells 0 ?db1 = (q, db2)" by fastforce
  have "tiles_ok env db2" if "r = Inr ()"
  proof (rule tick_inv_ok [OF delete_settled_inv [OF assms(1) _ subset_refl del]])
    have "stored (write_tile_batch (pr_batch p) (pr_store p)) = seen (pr_batch p) (pr_store p)" by (rule ext) (simp add: seen_def)
    then show "tick_inv env cells (pr_unsettled p) (stored (td_store ?db1)) ?db1"
      using inv(2) [OF that] by (simp add: tick_inv_def)
  qed
  moreover have "tick env batch_size db = (if te_read_fails env then (Inl ''tile_refresh: read batch_start'', db)
      else if te_select_fails env then (Inl ''tile_refresh: select'', ?db0)
      else case refresh_blocks env 1 (render_blocks resident) p0 ?db0 of
           (Inl e, p, db1) \<Rightarrow> (Inl e, db1\<lparr>td_store := pr_store p\<rparr>)
         | (Inr _, p, db1) \<Rightarrow>
             (if te_write_fails env then (Inl ''tile store batch write failed'', db1\<lparr>td_store := pr_store p\<rparr>)
              else case delete_settled env (Suc (length (render_blocks resident))) (pr_unsettled p) cells 0
                          (db1\<lparr>td_store := write_tile_batch (pr_batch p) (pr_store p)\<rparr>) of
                     (Inl e, db2) \<Rightarrow> (Inl e, db2)
                   | (Inr deferred, db2) \<Rightarrow> (Inr \<lparr>ti_cells = length cells, ti_deferred = deferred, ti_resident = length resident,
                        ti_rendered = pr_rendered p, ti_failed = pr_failed p\<rparr>, db2)))"
    unfolding tick_def Let_def cells_def keys_def resident_def p0_def by (rule refl)
  then have "snd (tick env batch_size db) = (if te_read_fails env then db else if te_select_fails env then ?db0
      else case r of Inl e \<Rightarrow> db1\<lparr>td_store := pr_store p\<rparr>
        | Inr _ \<Rightarrow> if te_write_fails env then db1\<lparr>td_store := pr_store p\<rparr> else db2)"
    by (simp only: run del prod.case split: sum.split prod.split) simp
  ultimately show ?thesis using assms(2) ok0 err by (auto split: sum.split)
qed


section \<open>A concrete tick\<close>

text \<open>The table is one byte and every tile renders to it; the tile of the queued cell is stored as 1 and
  the table holds 2.\<close>

definition byte_tiles :: "(nat \<Rightarrow> byte \<times> (cell \<times> nat) list \<Rightarrow> byte \<times> (cell \<times> nat) list) \<Rightarrow> (nat \<Rightarrow> bool) \<Rightarrow> byte tick_env" where
  "byte_tiles others cancel = \<lparr>te_render = (\<lambda>w _. [w]), te_gzip = Some, te_env = others, te_start = 9, te_read_fails = False,
     te_select_fails = False, te_false_positive = (\<lambda>_. False), te_cancel = cancel, te_block_fails = (\<lambda>_. False),
     te_answers = (\<lambda>_ _. True), te_flush_fails = (\<lambda>_ _. False), te_write_fails = False, te_delete_fails = (\<lambda>_. False)\<rparr>"

definition one_tile :: "byte tile_db" where
  "one_tile = \<lparr>td_world = 2, td_queue = [((5, 7), 3)],
     td_store = tile_put False (14, 5, 7) (content_etag [1]) \<lparr>orig_len = 1, gzip = [1]\<rparr> (open_store 1 empty_kv)\<rparr>"

definition nobody :: "nat \<Rightarrow> byte \<times> (cell \<times> nat) list \<Rightarrow> byte \<times> (cell \<times> nat) list" where
  "nobody _ wq = wq"

text \<open>A producer whose transaction began at 6, before the tick's cutoff, and commits between the block
  and the delete: it changes the table and enqueues the cell, stamped with its begin.\<close>

definition late_commit :: "nat \<Rightarrow> byte \<times> (cell \<times> nat) list \<Rightarrow> byte \<times> (cell \<times> nat) list" where
  "late_commit i wq = (if i = 2 then (3, snd wq @ [((5, 7), 6)]) else wq)"

lemma one_tile_keys:
  "filter (may_exist (byte_tiles others cancel) (td_store one_tile)) (sort (remdups (concat (map tile_ids [(5, 7)])))) = [(14, 5, 7)]"
proof -
  let ?keys = "sort (remdups (concat (map tile_ids [(5, 7)])))"
  have mem: "(14, 5, 7) \<in> set (tile_ids (5, 7))" by code_simp
  have "may_exist (byte_tiles others cancel) (td_store one_tile) k \<longleftrightarrow> k = (14, 5, 7)" if "k \<in> set ?keys" for k
  proof -
    have "byte_zoom k" "byte_zoom (14, 5, 7)" using that tile_ids_zoom by (simp_all add: byte_zoom_def)
    then have "encode_tile_key k = encode_tile_key (14, 5, 7) \<longleftrightarrow> k = (14, 5, 7)" by (rule encode_key_eq)
    then show ?thesis
      by (simp add: may_exist_def one_tile_def tile_put_def open_store_def byte_tiles_def empty_kv_def)
  qed
  then have "filter (may_exist (byte_tiles others cancel) (td_store one_tile)) ?keys = filter (\<lambda>k. k = (14, 5, 7)) ?keys"
    by (rule filter_cong [OF refl])
  moreover have "distinct ?keys" "(14, 5, 7) \<in> set ?keys" using mem by simp_all
  moreover have "filter (\<lambda>k. k = a) xs = [a]" if "distinct xs" "a \<in> set xs" for a and xs :: "tile_id list"
    using that by (induction xs) (auto simp: filter_empty_conv)
  ultimately show ?thesis by simp
qed

lemma one_tile_tick:
  assumes "\<And>wq. others 0 wq = wq" "\<And>wq. others 1 wq = wq"
  shows "\<exists>st db. tick (byte_tiles others (\<lambda>_. False)) 100 one_tile = (Inr st, db) \<and> td_world db = fst (others 2 (2, td_queue one_tile)) \<and>
    td_queue db = filter (\<lambda>r. \<not> (fst r = (5, 7) \<and> snd r \<le> 9)) (snd (others 2 (2, td_queue one_tile))) \<and>
    stored (td_store db) (14, 5, 7) = prepare Some [2]"
proof -
  let ?env = "byte_tiles others (\<lambda>_. False)" and ?k = "(14, 5, 7) :: tile_id"
  let ?t = "\<lparr>orig_len = 1, gzip = [2 :: byte]\<rparr>"
  let ?b = "tile_batch_put (td_store one_tile) ?k (content_etag [2]) ?t new_tile_batch"
  have db: "\<exists>db. ts_db (td_store one_tile) = Some db" by (simp add: one_tile_def tile_put_def open_store_def)
  have due: "due_cells 9 100 (td_queue one_tile) = [(5, 7)]" by (simp add: due_cells_def one_tile_def)
  have blocks: "render_blocks [?k] = [\<lparr>rb_z = 14, rb_tiles = [(5, 7)]\<rparr>]" by (simp add: render_blocks_def block_of_def)
  have "tb_bytes ?b = 27"
    using db by (auto simp: tiles_batch_put new_tile_batch_def encode_value_def bytes_of_def content_etag_def hex16_text)
  then have flush: "flush_if_full ?b (td_store one_tile) = (?b, td_store one_tile)" by (simp add: flush_if_full_def BATCH_FLUSH_BYTES_def)
  have idle: "others_commit ?env 0 one_tile = one_tile" "others_commit ?env 1 one_tile = one_tile"
    using assms by (simp_all add: others_commit_def byte_tiles_def one_tile_def)
  have fields: "te_start ?env = 9" "te_read_fails ?env = False" "te_select_fails ?env = False" "te_write_fails ?env = False"
    "te_cancel ?env i = False" "te_delete_fails ?env i = False" "te_flush_fails ?env i k = False" "te_gzip ?env = Some" for i k
    by (simp_all add: byte_tiles_def)
  have out: "render_out ?env 1 (td_world one_tile) \<lparr>rb_z = 14, rb_tiles = [(5, 7)]\<rparr> = [(?k, [2])]"
    by (simp add: render_out_def byte_tiles_def block_keys_def one_tile_def)
  let ?p0 = "\<lparr>pr_batch = new_tile_batch, pr_store = td_store one_tile, pr_unsettled = set [?k], pr_rendered = 0, pr_failed = 0\<rparr>"
  let ?p1 = "\<lparr>pr_batch = ?b, pr_store = td_store one_tile, pr_unsettled = {}, pr_rendered = 1, pr_failed = 0\<rparr>"
  have put: "put_tiles ?env 1 [(?k, [2])] ?p0 = (Inr (), ?p1)" by (simp add: fields prepare_def flush)
  have run: "refresh_blocks ?env 1 [\<lparr>rb_z = 14, rb_tiles = [(5, 7)]\<rparr>] ?p0 one_tile = (Inr (), ?p1, one_tile)"
    unfolding refresh_blocks.simps Let_def idle fields if_False out put
    by (simp add: evict_unwritten_def block_keys_def)
  have st: "stored (write_tile_batch ?b (td_store one_tile)) ?k = prepare Some [2]"
    using seen_put [of ?k ?k "content_etag [2]" ?t "td_store one_tile"] db content_etag_fits
    by (auto simp: byte_zoom_def seen_def prepare_def)
  show ?thesis
    unfolding tick_def Let_def fields if_False idle due one_tile_keys blocks run prod.case sum.case progress.simps
    using st by (simp add: fields others_commit_def list_ex_iff)
      (simp add: byte_tiles_def one_tile_def numeral_2_eq_2 split: prod.splits)
qed

text \<open>C10: the cutoff does not protect a late commit. A producer whose transaction began before the tick and
  commits between the render and the delete loses: the tile's row is deleted although the tile was rendered before the commit: it stays stale, with
  nothing queued. \<open>now()\<close> is the start of the enqueuing transaction, so the cutoff does not separate
  what the tick saw from what it did not.\<close>

theorem tick_loses_late_commit:
  "\<exists>st db. tick (byte_tiles late_commit (\<lambda>_. False)) 100 one_tile = (Inr st, db) \<and> td_world db = 3 \<and> td_queue db = [] \<and>
     stored (td_store db) (14, 5, 7) = prepare Some [2] \<and> prepare Some [2] \<noteq> prepare Some [td_world db]"
proof -
  have "late_commit 0 wq = wq" "late_commit 1 wq = wq" for wq by (simp_all add: late_commit_def)
  from one_tile_tick [of late_commit, OF this] show ?thesis
    by (auto simp: late_commit_def one_tile_def prepare_def)
qed

section \<open>Witnesses\<close>

theorem tick_keeps_tiles_fresh_witness:
  "tiles_ok (byte_tiles nobody (\<lambda>i. i = 1)) (snd (tick (byte_tiles nobody (\<lambda>i. i = 1)) 100 one_tile))"
proof (rule tick_keeps_tiles_fresh)
  show "producers_enqueue (byte_tiles nobody (\<lambda>i. i = 1))" by (simp add: producers_enqueue_def byte_tiles_def nobody_def)
  have "(14, 5, 7) \<in> set (tile_ids (5, 7))" by code_simp
  moreover have "stored (td_store one_tile) k = None" if "byte_zoom k" "k \<noteq> (14, 5, 7)" for k
  proof -
    have "byte_zoom (14, 5, 7)" by (simp add: byte_zoom_def)
    then have "encode_tile_key k \<noteq> encode_tile_key (14, 5, 7)" using encode_key_eq that by blast
    then show ?thesis
      by (simp add: one_tile_def stored_def tile_get_def tile_put_def open_store_def empty_kv_def)
  qed
  ultimately show "tiles_ok (byte_tiles nobody (\<lambda>i. i = 1)) one_tile"
    unfolding tiles_ok_def settled_def by (force simp: one_tile_def)
qed

end
