(* ===== verification/Download.thy ===== *)
theory Download
  imports Texts "HOL-Library.Sublist"
begin

text \<open>
  \<open>src/download.rs\<close>: downloads into a temporary file that is renamed onto its destination. Several
  threads download at once, sometimes the same file (the prefetch thread of \<open>update/osm.rs\<close> and the
  apply loop), so a download is a sequence of atomic accesses to the shared file system, and the
  process is their interleaving, with stop requests, callers that remove the files they have
  consumed, and crashes. A response is the list of items its stream yields. Progress bars and log
  lines are left out. A file is what the operating system holds of it: a crash is the process's, not
  the machine's.
\<close>

section \<open>Paths\<close>

text \<open>A path is its directory and file name. \<open>Path::file_name\<close> of a destination is always present, so
  the fallback \<open>"download"\<close> is not reached.\<close>

type_synonym path = "string \<times> string"

definition MAX_RETRIES :: nat where "MAX_RETRIES = 3"

definition url_file_name :: "string \<Rightarrow> string" where
  "url_file_name url = last (split_on CHR ''/'' url)"

definition download_dest :: "string \<Rightarrow> string \<Rightarrow> path" where
  "download_dest url dir = (dir, url_file_name url)"

definition temp_dest_path :: "nat \<Rightarrow> nat \<Rightarrow> path \<Rightarrow> path" where
  "temp_dest_path pid counter p = (fst p, snd p @ ''.'' @ show_nat pid @ ''.'' @ show_nat counter @ ''.part'')"

definition part_file :: "path \<Rightarrow> bool" where
  "part_file p \<longleftrightarrow> suffix ''.part'' (snd p)"

section \<open>The buffered writer\<close>

definition BUF_CAPACITY :: nat where "BUF_CAPACITY = 8192"

text \<open>\<open>BufWriter::write_all\<close>: what reaches the file, and what stays in the buffer.\<close>

definition buffered_write :: "byte list \<Rightarrow> byte list \<Rightarrow> byte list \<times> byte list" where
  "buffered_write buf chunk =
     (let spare = BUF_CAPACITY - length buf;
          (out, buf') = (if spare < length chunk then (buf, []) else ([], buf))
      in if BUF_CAPACITY \<le> length chunk then (out @ chunk, buf') else (out, buf' @ chunk))"

lemma buffered_write_bytes: "buffered_write buf chunk = (out, buf') \<Longrightarrow> out @ buf' = buf @ chunk"
proof -
  assume w: "buffered_write buf chunk = (out, buf')"
  have "BUF_CAPACITY \<le> length chunk \<Longrightarrow> \<not> BUF_CAPACITY - length buf < length chunk \<Longrightarrow> buf = []"
    by (cases buf) (simp_all add: BUF_CAPACITY_def)
  with w show "out @ buf' = buf @ chunk"
    by (auto simp: buffered_write_def Let_def split: if_splits)
qed

section \<open>One download\<close>

type_synonym body_stream = "(string + byte list) list"

text \<open>The body of a stream that ends without an error.\<close>

fun received :: "body_stream \<Rightarrow> byte list option" where
  "received [] = Some []"
| "received (Inl e # items) = None"
| "received (Inr chunk # items) = map_option ((@) chunk) (received items)"

definition complete_body :: "(string \<Rightarrow> body_stream \<Rightarrow> bool) \<Rightarrow> string \<Rightarrow> byte list \<Rightarrow> bool" where
  "complete_body serves url b \<longleftrightarrow> (\<exists>items. serves url items \<and> received items = Some b)"

lemma received_snoc: "received pre = Some b \<Longrightarrow> received (pre @ [Inr chunk]) = Some (b @ chunk)"
  by (induction pre arbitrary: b rule: received.induct) auto

text \<open>Where a download is: checking the destination, creating the directory, then for an attempt
  sending the request, creating the temporary file, receiving with some bytes in the buffer,
  renaming, removing the temporary file after an error, and waiting before the next attempt. The
  temporary file is named by its ticket of the process-wide counter.\<close>

datatype download_pc = Check | Make_dir | Send nat | Create_file nat nat body_stream
  | Receive nat nat body_stream "byte list" | Rename nat nat | Remove nat nat string
  | Back_off nat string | Finished "string + path"

record download =
  dl_url :: string
  dl_dest :: path
  dl_pc :: download_pc

record disk =
  dk_files :: "path \<Rightarrow> byte list option"
  dk_pid :: nat
  dk_counter :: nat
  dk_stop :: bool

definition temp_path :: "disk \<Rightarrow> download \<Rightarrow> nat \<Rightarrow> path" where
  "temp_path k d c = temp_dest_path (dk_pid k) c (dl_dest d)"

definition set_file :: "path \<Rightarrow> byte list option \<Rightarrow> disk \<Rightarrow> disk" where
  "set_file p b k = k\<lparr>dk_files := (dk_files k)(p := b)\<rparr>"

text \<open>A file that exists is not downloaded again; a failed attempt is retried unless it was the last or a
  stop was requested.\<close>

definition check_dest :: "path \<Rightarrow> (path \<Rightarrow> byte list option) \<Rightarrow> download_pc" where
  "check_dest dest files = (if files dest \<noteq> None then Finished (Inr dest) else Make_dir)"

definition after_attempt :: "nat \<Rightarrow> string \<Rightarrow> bool \<Rightarrow> download_pc" where
  "after_attempt n e stop_requested =
     (if n < MAX_RETRIES then if stop_requested then Finished (Inl ''Shutdown requested'') else Send (n + 1)
      else Finished (Inl e))"

text \<open>An item of the stream: a stop request is looked at first, then the item. When a write, a flush
  or the stream fails, the writer is dropped, which writes what it can of its buffer.\<close>

inductive download_step :: "(string \<Rightarrow> body_stream \<Rightarrow> bool) \<Rightarrow> download \<Rightarrow> disk \<Rightarrow> download \<Rightarrow> disk \<Rightarrow> bool" for serves where
  d_check: "dl_pc d = Check \<Longrightarrow> download_step serves d k (d\<lparr>dl_pc := check_dest (dl_dest d) (dk_files k)\<rparr>) k"
| d_dir: "dl_pc d = Make_dir \<Longrightarrow> download_step serves d k (d\<lparr>dl_pc := Send 1\<rparr>) k"
| d_dir_fails: "dl_pc d = Make_dir \<Longrightarrow>
    download_step serves d k (d\<lparr>dl_pc := Finished (Inl ''Failed to create directory'')\<rparr>) k"
| d_response: "dl_pc d = Send n \<Longrightarrow> serves (dl_url d) items \<Longrightarrow>
    download_step serves d k (d\<lparr>dl_pc := Create_file n (dk_counter k) items\<rparr>) (k\<lparr>dk_counter := dk_counter k + 1\<rparr>)"
| d_no_response: "dl_pc d = Send n \<Longrightarrow> download_step serves d k (d\<lparr>dl_pc := Back_off n e\<rparr>) k"
| d_create: "dl_pc d = Create_file n c items \<Longrightarrow>
    download_step serves d k (d\<lparr>dl_pc := Receive n c items []\<rparr>) (set_file (temp_path k d c) (Some []) k)"
| d_create_fails: "dl_pc d = Create_file n c items \<Longrightarrow>
    download_step serves d k (d\<lparr>dl_pc := Remove n c ''Failed to create''\<rparr>) k"
| d_chunk: "dl_pc d = Receive n c (Inr chunk # items) buf \<Longrightarrow> \<not> dk_stop k \<Longrightarrow>
    dk_files k (temp_path k d c) = Some f \<Longrightarrow> buffered_write buf chunk = (out, buf') \<Longrightarrow>
    download_step serves d k (d\<lparr>dl_pc := Receive n c items buf'\<rparr>) (set_file (temp_path k d c) (Some (f @ out)) k)"
| d_stopped: "dl_pc d = Receive n c (item # items) buf \<Longrightarrow> dk_stop k \<Longrightarrow>
    dk_files k (temp_path k d c) = Some f \<Longrightarrow>
    download_step serves d k (d\<lparr>dl_pc := Remove n c ''Shutdown requested''\<rparr>) (set_file (temp_path k d c) (Some (f @ take m buf)) k)"
| d_broken: "dl_pc d = Receive n c (Inl e # items) buf \<Longrightarrow> \<not> dk_stop k \<Longrightarrow>
    dk_files k (temp_path k d c) = Some f \<Longrightarrow>
    download_step serves d k (d\<lparr>dl_pc := Remove n c e\<rparr>) (set_file (temp_path k d c) (Some (f @ take m buf)) k)"
| d_write_fails: "dl_pc d = Receive n c (Inr chunk # items) buf \<Longrightarrow> \<not> dk_stop k \<Longrightarrow>
    dk_files k (temp_path k d c) = Some f \<Longrightarrow>
    download_step serves d k (d\<lparr>dl_pc := Remove n c ''Failed to write''\<rparr>) (set_file (temp_path k d c) (Some (f @ take m (buf @ chunk))) k)"
| d_flush: "dl_pc d = Receive n c [] buf \<Longrightarrow> dk_files k (temp_path k d c) = Some f \<Longrightarrow>
    download_step serves d k (d\<lparr>dl_pc := Rename n c\<rparr>) (set_file (temp_path k d c) (Some (f @ buf)) k)"
| d_flush_fails: "dl_pc d = Receive n c [] buf \<Longrightarrow> dk_files k (temp_path k d c) = Some f \<Longrightarrow>
    download_step serves d k (d\<lparr>dl_pc := Remove n c ''Failed to flush''\<rparr>) (set_file (temp_path k d c) (Some (f @ take m buf)) k)"
| d_rename: "dl_pc d = Rename n c \<Longrightarrow> dk_files k (temp_path k d c) = Some b \<Longrightarrow>
    download_step serves d k (d\<lparr>dl_pc := Finished (Inr (dl_dest d))\<rparr>)
      (set_file (temp_path k d c) None (set_file (dl_dest d) (Some b) k))"
| d_rename_fails: "dl_pc d = Rename n c \<Longrightarrow> download_step serves d k (d\<lparr>dl_pc := Back_off n ''Failed to move''\<rparr>) k"
| d_remove: "dl_pc d = Remove n c e \<Longrightarrow>
    download_step serves d k (d\<lparr>dl_pc := Back_off n e\<rparr>) (set_file (temp_path k d c) None k)"
| d_remove_fails: "dl_pc d = Remove n c e \<Longrightarrow> download_step serves d k (d\<lparr>dl_pc := Back_off n e\<rparr>) k"
| d_after: "dl_pc d = Back_off n e \<Longrightarrow> download_step serves d k (d\<lparr>dl_pc := after_attempt n e (dk_stop k)\<rparr>) k"

section \<open>The process\<close>

record downloads =
  ds_all :: "nat \<Rightarrow> download"
  ds_disk :: disk

text \<open>The requests the program makes are \<open>wanted\<close>; a download that has not begun is one of them.\<close>

definition fresh_downloads :: "(string \<times> path) set \<Rightarrow> (nat \<Rightarrow> download) \<Rightarrow> bool" where
  "fresh_downloads wanted ds \<longleftrightarrow> (\<forall>i. dl_pc (ds i) = Check \<and> (dl_url (ds i), dl_dest (ds i)) \<in> wanted)"

inductive downloads_step :: "(string \<times> path) set \<Rightarrow> (string \<Rightarrow> body_stream \<Rightarrow> bool) \<Rightarrow> downloads \<Rightarrow> downloads \<Rightarrow> bool" for wanted serves where
  p_run: "download_step serves (ds_all s i) (ds_disk s) d k \<Longrightarrow>
    downloads_step wanted serves s (s\<lparr>ds_all := (ds_all s)(i := d), ds_disk := k\<rparr>)"
| p_stop: "downloads_step wanted serves s (s\<lparr>ds_disk := (ds_disk s)\<lparr>dk_stop := True\<rparr>\<rparr>)"
| p_consumed: "(u, p) \<in> wanted \<Longrightarrow> downloads_step wanted serves s (s\<lparr>ds_disk := set_file p None (ds_disk s)\<rparr>)"
| p_crash: "fresh_downloads wanted ds \<Longrightarrow>
    downloads_step wanted serves s (s\<lparr>ds_all := ds, ds_disk := (ds_disk s)\<lparr>dk_pid := pid, dk_counter := 0, dk_stop := False\<rparr>\<rparr>)"

section \<open>Names\<close>

lemma temp_part [simp]: "part_file (temp_dest_path pid c p)"
  by (simp add: part_file_def temp_dest_path_def suffix_def)

lemma show_nat_no_dot: "x \<in> set (show_nat n) \<Longrightarrow> x \<noteq> CHR ''.''"
proof
  assume "x \<in> set (show_nat n)" "x = CHR ''.''"
  then obtain d where "d < 10" "digit_char d = CHR ''.''"
    using show_nat_digits by metis
  then have "(of_char (char_of (48 + d) :: char) :: nat) = 46"
    by (simp add: digit_char_def)
  with \<open>d < 10\<close> show False by simp
qed

lemma last_number: "takeWhile (\<lambda>x. x \<noteq> CHR ''.'') (rev (p @ ''.'' @ show_nat n)) = rev (show_nat n)"
  using show_nat_no_dot by (simp add: takeWhile_tail takeWhile_append2 takeWhile_eq_all_conv takeWhile_append)

lemma temp_ticket: "temp_dest_path pid c p = temp_dest_path pid' c' p' \<Longrightarrow> c = c'"
proof -
  assume "temp_dest_path pid c p = temp_dest_path pid' c' p'"
  then have "(snd p @ ''.'' @ show_nat pid) @ ''.'' @ show_nat c = (snd p' @ ''.'' @ show_nat pid') @ ''.'' @ show_nat c'"
    by (simp add: temp_dest_path_def)
  then have "rev (show_nat c) = rev (show_nat c')"
    by (metis last_number)
  then show "c = c'" by (metis parse_nat_show option.inject rev_is_rev_conv)
qed

section \<open>The invariant\<close>

fun ticket :: "download_pc \<Rightarrow> nat option" where
  "ticket (Create_file n c items) = Some c"
| "ticket (Receive n c items buf) = Some c"
| "ticket (Rename n c) = Some c"
| "ticket (Remove n c e) = Some c"
| "ticket pc = None"

fun attempt :: "download_pc \<Rightarrow> nat" where
  "attempt (Send n) = n"
| "attempt (Create_file n c items) = n"
| "attempt (Receive n c items buf) = n"
| "attempt (Rename n c) = n"
| "attempt (Remove n c e) = n"
| "attempt (Back_off n e) = n"
| "attempt pc = 0"

text \<open>What the temporary file holds of the body, by where the download is.\<close>

fun part_ok :: "(string \<Rightarrow> body_stream \<Rightarrow> bool) \<Rightarrow> string \<Rightarrow> (nat \<Rightarrow> byte list option) \<Rightarrow> download_pc \<Rightarrow> bool" where
  "part_ok serves url part (Create_file n c items) = serves url items"
| "part_ok serves url part (Receive n c items buf) =
     (\<exists>pre f. serves url (pre @ items) \<and> part c = Some f \<and> received pre = Some (f @ buf))"
| "part_ok serves url part (Rename n c) = (\<exists>b. part c = Some b \<and> complete_body serves url b)"
| "part_ok serves url part pc = True"

definition part_of :: "disk \<Rightarrow> download \<Rightarrow> nat \<Rightarrow> byte list option" where
  "part_of k d c = dk_files k (temp_path k d c)"

definition download_ok :: "(string \<Rightarrow> body_stream \<Rightarrow> bool) \<Rightarrow> disk \<Rightarrow> download \<Rightarrow> bool" where
  "download_ok serves k d \<longleftrightarrow> (\<forall>c. ticket (dl_pc d) = Some c \<longrightarrow> c < dk_counter k) \<and>
     attempt (dl_pc d) \<le> MAX_RETRIES \<and> part_ok serves (dl_url d) (part_of k d) (dl_pc d)"

definition all_complete :: "(string \<times> path) set \<Rightarrow> (string \<Rightarrow> body_stream \<Rightarrow> bool) \<Rightarrow> disk \<Rightarrow> bool" where
  "all_complete wanted serves k \<longleftrightarrow> (\<forall>p b. dk_files k p = Some b \<longrightarrow> \<not> part_file p \<longrightarrow>
     (\<exists>url. (url, p) \<in> wanted \<and> complete_body serves url b))"

lemma part_of_other:
  assumes "\<not> part_file (dl_dest d)" "ticket (dl_pc d) \<noteq> Some c" "download_step serves d k d' k'"
  shows "part_of k' e c = part_of k e c"
proof -
  have "temp_dest_path pid c q \<noteq> dl_dest d" for pid c q
    using assms(1) temp_part by metis
  with assms(3,2) show ?thesis
    by cases (auto simp: part_of_def temp_path_def set_file_def dest: temp_ticket)
qed

lemma dstep_frame: "download_step serves d k d' k' \<Longrightarrow> dl_url d' = dl_url d \<and> dl_dest d' = dl_dest d \<and>
    dk_pid k' = dk_pid k \<and> dk_stop k' = dk_stop k \<and> dk_counter k \<le> dk_counter k'"
  by (erule download_step.cases) (auto simp: set_file_def)

lemma dstep_ticket: "download_step serves d k d' k' \<Longrightarrow> ticket (dl_pc d') = Some c \<Longrightarrow>
    ticket (dl_pc d) = Some c \<or> c = dk_counter k \<and> dk_counter k' = Suc c"
  by (erule download_step.cases) (auto simp: set_file_def check_dest_def after_attempt_def split: if_splits)

lemma complete_body_end: "serves url pre \<Longrightarrow> received pre = Some b \<Longrightarrow> complete_body serves url b"
  by (auto simp: complete_body_def)

lemma dstep_ok:
  assumes "download_step serves d k d' k'" "download_ok serves k d" "\<not> part_file (dl_dest d)"
  shows "download_ok serves k' d'"
  using assms
proof cases
  case (d_chunk n c chunk items buf f out buf')
  then obtain pre where pre: "serves (dl_url d) (pre @ Inr chunk # items)" "received pre = Some (f @ buf)"
    using assms(2) by (auto simp: download_ok_def part_of_def)
  have "received (pre @ [Inr chunk]) = Some ((f @ out) @ buf')"
    using received_snoc [OF pre(2)] buffered_write_bytes [OF d_chunk(6)] by simp
  then have "\<exists>pre'. serves (dl_url d) (pre' @ items) \<and> received pre' = Some ((f @ out) @ buf')"
    using pre(1) by (metis append.assoc append_Cons append_Nil)
  then show ?thesis
    using d_chunk assms(2) by (auto simp: download_ok_def part_of_def set_file_def temp_path_def)
next
  case (d_flush n c buf f)
  then show ?thesis using assms(2)
    by (auto simp: download_ok_def part_of_def set_file_def temp_path_def intro: complete_body_end)
next
  case (d_create n c items)
  have "serves (dl_url d) ([] @ items)" using d_create assms(2) by (auto simp: download_ok_def)
  moreover have "received [] = Some ([] @ [])" by simp
  ultimately have "\<exists>pre. serves (dl_url d) (pre @ items) \<and> received pre = Some ([] @ [])" by blast
  then show ?thesis
    using d_create assms(2) by (auto simp: download_ok_def part_of_def set_file_def temp_path_def)
qed (auto simp: download_ok_def part_of_def set_file_def temp_path_def check_dest_def after_attempt_def MAX_RETRIES_def)

lemma dstep_complete:
  assumes "download_step serves d k d' k'" "download_ok serves k d" "(dl_url d, dl_dest d) \<in> wanted"
    "all_complete wanted serves k"
  shows "all_complete wanted serves k'"
  using assms
proof cases
  case (d_rename n c b)
  then show ?thesis using assms
    by (auto simp: all_complete_def set_file_def download_ok_def part_of_def)
qed (auto simp: all_complete_def set_file_def temp_path_def)


section \<open>The process keeps it\<close>

definition downloads_ok :: "(string \<times> path) set \<Rightarrow> (string \<Rightarrow> body_stream \<Rightarrow> bool) \<Rightarrow> downloads \<Rightarrow> bool" where
  "downloads_ok wanted serves s \<longleftrightarrow>
     (\<forall>i. (dl_url (ds_all s i), dl_dest (ds_all s i)) \<in> wanted \<and> download_ok serves (ds_disk s) (ds_all s i)) \<and>
     (\<forall>i j c. ticket (dl_pc (ds_all s i)) = Some c \<longrightarrow> ticket (dl_pc (ds_all s j)) = Some c \<longrightarrow> i = j) \<and>
     all_complete wanted serves (ds_disk s)"

lemma part_ok_cong:
  "(\<And>c. ticket pc = Some c \<Longrightarrow> part c = part' c) \<Longrightarrow> part_ok serves url part pc = part_ok serves url part' pc"
  by (cases pc) auto

lemma other_ok:
  assumes "download_step serves d k d' k'" "\<not> part_file (dl_dest d)" "download_ok serves k e"
    "\<And>c. ticket (dl_pc e) = Some c \<Longrightarrow> ticket (dl_pc d) \<noteq> Some c"
  shows "download_ok serves k' e"
proof -
  have "part_ok serves (dl_url e) (part_of k' e) (dl_pc e) = part_ok serves (dl_url e) (part_of k e) (dl_pc e)"
    using part_of_other [OF assms(2) _ assms(1)] assms(4) by (intro part_ok_cong) blast
  then show ?thesis
    using assms(3) dstep_frame [OF assms(1)] by (fastforce simp: download_ok_def)
qed

lemma tickets_below: "downloads_ok wanted serves s \<Longrightarrow> ticket (dl_pc (ds_all s i)) = Some c \<Longrightarrow> c < dk_counter (ds_disk s)"
  by (simp add: downloads_ok_def download_ok_def)

lemma downloads_ok_parts:
  assumes "downloads_ok wanted serves s"
  shows "(dl_url (ds_all s i), dl_dest (ds_all s i)) \<in> wanted" "download_ok serves (ds_disk s) (ds_all s i)"
    "ticket (dl_pc (ds_all s i)) = Some c \<Longrightarrow> ticket (dl_pc (ds_all s j)) = Some c \<Longrightarrow> i = j"
    "all_complete wanted serves (ds_disk s)"
  using assms unfolding downloads_ok_def by blast+

lemma run_ok:
  assumes "downloads_ok wanted serves s" "download_step serves (ds_all s i) (ds_disk s) d k"
    and named: "\<And>u p. (u, p) \<in> wanted \<Longrightarrow> \<not> part_file p"
  shows "downloads_ok wanted serves (s\<lparr>ds_all := (ds_all s)(i := d), ds_disk := k\<rparr>)"
proof -
  note ok = downloads_ok_parts [OF assms(1)] and frame = dstep_frame [OF assms(2)]
  have dest: "\<not> part_file (dl_dest (ds_all s i))" by (rule named [OF ok(1)])
  have other: "download_ok serves k (ds_all s j)" if "j \<noteq> i" for j
    using other_ok [OF assms(2) dest ok(2)] ok(3) that by metis
  have own: "download_ok serves k d" by (rule dstep_ok [OF assms(2) ok(2) dest])
  have "ticket (dl_pc d) = Some c \<Longrightarrow> ticket (dl_pc (ds_all s j)) = Some c \<Longrightarrow> j = i" for j c
    using dstep_ticket [OF assms(2)] ok(3) tickets_below [OF assms(1)] by (metis nat_neq_iff)
  then show ?thesis
    using own other ok frame dstep_complete [OF assms(2) ok(2) ok(1) ok(4)]
    by (simp add: downloads_ok_def)
qed

lemma part_of_consumed: "\<not> part_file p \<Longrightarrow> part_of (set_file p None k) d c = part_of k d c"
  by (auto simp: part_of_def set_file_def temp_path_def)

lemma consumed_ok:
  assumes "downloads_ok wanted serves s" "\<not> part_file p"
  shows "downloads_ok wanted serves (s\<lparr>ds_disk := set_file p None (ds_disk s)\<rparr>)"
proof -
  have "part_of (set_file p None (ds_disk s)) d = part_of (ds_disk s) d" for d
    using part_of_consumed [OF assms(2)] by blast
  then have "download_ok serves (set_file p None (ds_disk s)) d = download_ok serves (ds_disk s) d" for d
    by (simp add: download_ok_def) (simp add: set_file_def)
  moreover have "all_complete wanted serves (set_file p None (ds_disk s))"
    using downloads_ok_parts(4) [OF assms(1)] by (auto simp: all_complete_def set_file_def)
  ultimately show ?thesis using downloads_ok_parts [OF assms(1)] by (simp add: downloads_ok_def)
qed

lemma fresh_ok:
  assumes "fresh_downloads wanted ds" "all_complete wanted serves k"
  shows "downloads_ok wanted serves \<lparr>ds_all = ds, ds_disk = k\<rparr>"
  using assms by (simp add: downloads_ok_def fresh_downloads_def download_ok_def)

lemma pstep_ok:
  assumes "downloads_step wanted serves s s'" "downloads_ok wanted serves s"
    and named: "\<And>u p. (u, p) \<in> wanted \<Longrightarrow> \<not> part_file p"
  shows "downloads_ok wanted serves s'"
  using assms(1)
proof cases
  case (p_run i d k)
  then show ?thesis using run_ok [OF assms(2) p_run(2)] named by blast
next
  case p_stop
  have "part_of ((ds_disk s)\<lparr>dk_stop := True\<rparr>) d = part_of (ds_disk s) d" for d
    by (rule ext) (simp add: part_of_def temp_path_def)
  then have "download_ok serves ((ds_disk s)\<lparr>dk_stop := True\<rparr>) d = download_ok serves (ds_disk s) d" for d
    by (simp add: download_ok_def)
  with p_stop assms(2) show ?thesis by (simp add: downloads_ok_def all_complete_def)
next
  case (p_consumed u p)
  then show ?thesis using consumed_ok [OF assms(2) named] by blast
next
  case (p_crash ds pid)
  then show ?thesis
    using fresh_ok [OF p_crash(2)] downloads_ok_parts(4) [OF assms(2)] by (cases s) (simp add: all_complete_def)
qed

lemma reachable_ok:
  assumes "(downloads_step wanted serves)\<^sup>*\<^sup>* s s'" "downloads_ok wanted serves s"
    and named: "\<And>u p. (u, p) \<in> wanted \<Longrightarrow> \<not> part_file p"
  shows "downloads_ok wanted serves s'"
  using assms by (induction rule: rtranclp_induct) (blast intro: pstep_ok)+


lemma finished_present:
  assumes "download_step serves d k d' k'" "\<not> part_file (dl_dest d)" "dl_pc d' = Finished (Inr q)"
  shows "q = dl_dest d' \<and> dk_files k' q \<noteq> None"
proof -
  have "temp_dest_path pid c p \<noteq> dl_dest d" "dl_dest d \<noteq> temp_dest_path pid c p" for pid c p
    using assms(2) temp_part by metis+
  with assms(1,3) show ?thesis
    by cases (auto simp: set_file_def temp_path_def check_dest_def after_attempt_def split: if_splits)
qed

section \<open>Termination\<close>

fun budget :: "download_pc \<Rightarrow> nat" where
  "budget Check = MAX_RETRIES + 2"
| "budget Make_dir = MAX_RETRIES + 1"
| "budget (Finished r) = 0"
| "budget pc = MAX_RETRIES + 1 - attempt pc"

fun phase :: "download_pc \<Rightarrow> nat" where
  "phase (Send n) = 6"
| "phase (Create_file n c items) = 5"
| "phase (Receive n c items buf) = 4"
| "phase (Rename n c) = 3"
| "phase (Remove n c e) = 2"
| "phase (Back_off n e) = 1"
| "phase pc = 0"

fun pending :: "download_pc \<Rightarrow> nat" where
  "pending (Receive n c items buf) = length items"
| "pending pc = 0"

lemma dstep_decreases:
  "download_step serves d k d' k' \<Longrightarrow>
     (dl_pc d', dl_pc d) \<in> budget <*mlex*> (phase <*mlex*> measure pending)"
  by (erule download_step.cases) (auto simp: mlex_prod_def check_dest_def after_attempt_def MAX_RETRIES_def)

lemma dstep_wf: "wf {(d', d). \<exists>k k'. download_step serves d k d' k'}"
proof (rule wf_subset)
  show "wf (inv_image (budget <*mlex*> (phase <*mlex*> measure pending)) dl_pc)"
    by (intro wf_inv_image wf_mlex) simp
  show "{(d', d). \<exists>k k'. download_step serves d k d' k'} \<subseteq> inv_image (budget <*mlex*> (phase <*mlex*> measure pending)) dl_pc"
    using dstep_decreases by (auto simp: inv_image_def)
qed

lemma dstep_progress:
  assumes "download_ok serves k d"
  shows "(\<exists>r. dl_pc d = Finished r) \<or> (\<exists>d' k'. download_step serves d k d' k')"
proof (cases "dl_pc d")
  case (Receive n c items buf)
  with assms obtain f where f: "dk_files k (temp_path k d c) = Some f"
    by (auto simp: download_ok_def part_of_def)
  show ?thesis
  proof (cases items)
    case Nil
    with Receive f show ?thesis by (blast intro: d_flush)
  next
    case (Cons item rest)
    obtain out buf' where w: "buffered_write buf (projr item) = (out, buf')" by fastforce
    show ?thesis
    proof (cases "dk_stop k")
      case True
      with Receive Cons f show ?thesis by (blast intro: d_stopped)
    next
      case False
      with Receive Cons f w show ?thesis by (cases item) (blast intro: d_broken, force intro: d_chunk)
    qed
  qed
qed (blast intro: d_check d_after d_dir d_no_response d_create d_rename_fails d_remove)+

section \<open>Validators\<close>

text \<open>\<open>HeaderValue::to_str\<close>: visible ASCII, spaces and tabs.\<close>

definition header_text :: "byte list \<Rightarrow> string option" where
  "header_text v = (if list_all (\<lambda>b. 32 \<le> unat b \<and> unat b < 127 \<or> b = 9) v then Some (map (\<lambda>b. char_of (unat b)) v) else None)"

text \<open>The outcome of the HEAD request is an error or the two headers.\<close>

definition fetch_etag :: "string + byte list option \<times> byte list option \<Rightarrow> string + string option" where
  "fetch_etag response = (case response of Inl e \<Rightarrow> Inl e
     | Inr (etag, last_modified) \<Rightarrow>
         Inr (Option.bind (case etag of Some v \<Rightarrow> Some v | None \<Rightarrow> last_modified) header_text))"

section \<open>Properties\<close>

text \<open>C35: however downloads interleave, also two of the same file, and wherever the process crashes or is
  stopped, a file under a destination's name is the complete body of one successful response to a
  request for it; and a download that returns a path returns its destination, with the file there.\<close>

theorem downloads_complete:
  assumes "(downloads_step wanted serves)\<^sup>*\<^sup>* \<lparr>ds_all = ds, ds_disk = k\<rparr> s"
    and "fresh_downloads wanted ds" "all_complete wanted serves k"
    and "\<forall>(u, p)\<in>wanted. \<not> part_file p"
  shows "(\<forall>p b. dk_files (ds_disk s) p = Some b \<longrightarrow> \<not> part_file p \<longrightarrow>
        (\<exists>u. (u, p) \<in> wanted \<and> complete_body serves u b)) \<and>
    (\<forall>i d' k' q. download_step serves (ds_all s i) (ds_disk s) d' k' \<longrightarrow> dl_pc d' = Finished (Inr q) \<longrightarrow>
        q = dl_dest d' \<and> (\<exists>b u. dk_files k' q = Some b \<and> (u, q) \<in> wanted \<and> complete_body serves u b))"
proof -
  have named: "\<And>u p. (u, p) \<in> wanted \<Longrightarrow> \<not> part_file p" using assms(4) by blast
  have ok: "downloads_ok wanted serves s"
    using reachable_ok [OF assms(1) fresh_ok [OF assms(2,3)]] named by blast
  have "q = dl_dest d' \<and> (\<exists>b u. dk_files k' q = Some b \<and> (u, q) \<in> wanted \<and> complete_body serves u b)"
    if "download_step serves (ds_all s i) (ds_disk s) d' k'" "dl_pc d' = Finished (Inr q)" for i d' k' q
  proof -
    note parts = downloads_ok_parts(1,2) [OF ok, of i] downloads_ok_parts(4) [OF ok]
    have q: "q = dl_dest d'" "dk_files k' q \<noteq> None"
      using that finished_present [OF that(1) named [OF parts(1)]] by auto
    moreover have "all_complete wanted serves k'" by (rule dstep_complete [OF that(1) parts(2,1,3)])
    moreover have "\<not> part_file q"
      using named [OF parts(1)] dstep_frame [OF that(1)] q(1) by metis
    ultimately show ?thesis unfolding all_complete_def by blast
  qed
  with downloads_ok_parts(4) [OF ok] show ?thesis unfolding all_complete_def by blast
qed

definition demo_serves :: "string \<Rightarrow> body_stream \<Rightarrow> bool" where
  "demo_serves url items \<longleftrightarrow> items = [Inr [7], Inr [8]] \<or> items = [Inr [7], Inl ''reset'']"

definition demo_download :: "download_pc \<Rightarrow> download" where
  "demo_download pc = \<lparr>dl_url = ''http://host/7.osc.gz'', dl_dest = (''data'', ''7.osc.gz''), dl_pc = pc\<rparr>"

definition demo_disk :: "nat \<Rightarrow> disk" where
  "demo_disk n = \<lparr>dk_files = (\<lambda>p. None), dk_pid = 42, dk_counter = n, dk_stop = False\<rparr>"

definition demo_part :: "byte list \<Rightarrow> disk" where
  "demo_part b = set_file (''data'', ''7.osc.gz.42.0.part'') (Some b) (demo_disk 1)"

lemma demo_temp: "temp_path (demo_part b) (demo_download pc) 0 = (''data'', ''7.osc.gz.42.0.part'')"
  "temp_path (demo_disk (Suc 0)) (demo_download pc) 0 = (''data'', ''7.osc.gz.42.0.part'')"
  by (simp_all add: temp_path_def demo_part_def demo_disk_def demo_download_def set_file_def temp_dest_path_def show_numeral)

lemma demo_part_file: "dk_files (demo_part b) (''data'', ''7.osc.gz.42.0.part'') = Some b" "\<not> dk_stop (demo_part b)"
  "set_file (''data'', ''7.osc.gz.42.0.part'') (Some c) (demo_part b) = demo_part c"
  by (simp_all add: demo_part_def set_file_def demo_disk_def)

abbreviation demo_process :: "download_pc \<Rightarrow> disk \<Rightarrow> downloads" where
  "demo_process pc k \<equiv> \<lparr>ds_all = (\<lambda>i. demo_download Check)(0 := demo_download pc), ds_disk = k\<rparr>"

lemma demo_run:
  assumes "(downloads_step wanted serves)\<^sup>*\<^sup>* s (demo_process pc k)" "download_step serves (demo_download pc) k (demo_download pc') k'"
  shows "(downloads_step wanted serves)\<^sup>*\<^sup>* s (demo_process pc' k')"
proof -
  have "downloads_step wanted serves (demo_process pc k) (demo_process pc' k')"
    using p_run [of serves "demo_process pc k" 0 "demo_download pc'" k' wanted] assms(2) by simp
  with assms(1) show ?thesis by simp
qed

lemma demo_pc: "(demo_download pc)\<lparr>dl_pc := pc'\<rparr> = demo_download pc'" "dl_pc (demo_download pc) = pc"
  by (simp_all add: demo_download_def)

lemma demo_steps:
  "download_step demo_serves (demo_download Check) (demo_disk 0) (demo_download Make_dir) (demo_disk 0)"
  "download_step demo_serves (demo_download Make_dir) (demo_disk 0) (demo_download (Send 1)) (demo_disk 0)"
  "download_step demo_serves (demo_download (Send 1)) (demo_disk 0) (demo_download (Create_file 1 0 [Inr [7], Inr [8]])) (demo_disk 1)"
  "download_step demo_serves (demo_download (Create_file 1 0 [Inr [7], Inr [8]])) (demo_disk 1)
     (demo_download (Receive 1 0 [Inr [7], Inr [8]] [])) (demo_part [])"
  "download_step demo_serves (demo_download (Receive 1 0 [Inr [7], Inr [8]] [])) (demo_part [])
     (demo_download (Receive 1 0 [Inr [8]] [7])) (demo_part [])"
  "download_step demo_serves (demo_download (Receive 1 0 [Inr [8]] [7])) (demo_part [])
     (demo_download (Receive 1 0 [] [7, 8])) (demo_part [])"
  "download_step demo_serves (demo_download (Receive 1 0 [] [7, 8])) (demo_part []) (demo_download (Rename 1 0)) (demo_part [7, 8])"
proof -
  show "download_step demo_serves (demo_download Check) (demo_disk 0) (demo_download Make_dir) (demo_disk 0)"
    using d_check [of "demo_download Check" _ "demo_disk 0"] by (simp add: demo_pc check_dest_def) (simp add: demo_disk_def)
  show "download_step demo_serves (demo_download Make_dir) (demo_disk 0) (demo_download (Send 1)) (demo_disk 0)"
    using d_dir [of "demo_download Make_dir"] by (simp add: demo_pc)
  show "download_step demo_serves (demo_download (Send 1)) (demo_disk 0) (demo_download (Create_file 1 0 [Inr [7], Inr [8]])) (demo_disk 1)"
    using d_response [of "demo_download (Send 1)" 1 demo_serves "[Inr [7], Inr [8]]" "demo_disk 0"]
    by (simp add: demo_pc demo_serves_def demo_disk_def)
  show "download_step demo_serves (demo_download (Create_file 1 0 [Inr [7], Inr [8]])) (demo_disk 1)
     (demo_download (Receive 1 0 [Inr [7], Inr [8]] [])) (demo_part [])"
    using d_create [of "demo_download (Create_file 1 0 [Inr [7], Inr [8]])" 1 0 "[Inr [7], Inr [8]]" demo_serves "demo_disk 1"]
    by (simp add: demo_pc demo_temp demo_part_def)
  show "download_step demo_serves (demo_download (Receive 1 0 [Inr [7], Inr [8]] [])) (demo_part [])
     (demo_download (Receive 1 0 [Inr [8]] [7])) (demo_part [])"
    using d_chunk [of "demo_download (Receive 1 0 [Inr [7], Inr [8]] [])" 1 0 "[7]" "[Inr [8]]" "[]" "demo_part []" "[]" "[]" "[7]"]
    by (simp add: demo_pc demo_temp demo_part_file buffered_write_def BUF_CAPACITY_def)
  show "download_step demo_serves (demo_download (Receive 1 0 [Inr [8]] [7])) (demo_part [])
     (demo_download (Receive 1 0 [] [7, 8])) (demo_part [])"
    using d_chunk [of "demo_download (Receive 1 0 [Inr [8]] [7])" 1 0 "[8]" "[]" "[7]" "demo_part []" "[]" "[]" "[7, 8]"]
    by (simp add: demo_pc demo_temp demo_part_file buffered_write_def BUF_CAPACITY_def)
  show "download_step demo_serves (demo_download (Receive 1 0 [] [7, 8])) (demo_part []) (demo_download (Rename 1 0)) (demo_part [7, 8])"
    using d_flush [of "demo_download (Receive 1 0 [] [7, 8])" 1 0 "[7, 8]" "demo_part []" "[]"]
    by (simp add: demo_pc demo_temp demo_part_file)
qed

lemma demo_reached:
  "(downloads_step {(''http://host/7.osc.gz'', (''data'', ''7.osc.gz''))} demo_serves)\<^sup>*\<^sup>*
     \<lparr>ds_all = (\<lambda>i. demo_download Check), ds_disk = demo_disk 0\<rparr> (demo_process (Rename 1 0) (demo_part [7, 8]))"
proof -
  have "(downloads_step {(''http://host/7.osc.gz'', (''data'', ''7.osc.gz''))} demo_serves)\<^sup>*\<^sup>*
     \<lparr>ds_all = (\<lambda>i. demo_download Check), ds_disk = demo_disk 0\<rparr> (demo_process Check (demo_disk 0))"
    by (simp add: fun_upd_idem)
  from demo_run [OF demo_run [OF demo_run [OF demo_run [OF this demo_steps(1)] demo_steps(2)] demo_steps(3)] demo_steps(4)]
  show ?thesis
    by (rule demo_run [OF demo_run [OF demo_run [OF _ demo_steps(5)] demo_steps(6)] demo_steps(7)])
qed

lemma demo_start:
  "fresh_downloads {(''http://host/7.osc.gz'', (''data'', ''7.osc.gz''))} (\<lambda>i. demo_download Check)"
  "all_complete {(''http://host/7.osc.gz'', (''data'', ''7.osc.gz''))} demo_serves (demo_disk 0)"
  "\<forall>(u, p)\<in>{(''http://host/7.osc.gz'', (''data'', ''7.osc.gz''))}. \<not> part_file p"
  by (auto simp: fresh_downloads_def demo_download_def all_complete_def demo_disk_def part_file_def suffix_def)

text \<open>Here the response arrives in two chunks, the file is complete under its temporary name, and the
  rename is the next step.\<close>

theorem downloads_complete_witness:
  "download_step demo_serves (demo_download (Rename 1 0)) (demo_part [7, 8])
      (demo_download (Finished (Inr (''data'', ''7.osc.gz''))))
      (set_file (''data'', ''7.osc.gz.42.0.part'') None (set_file (''data'', ''7.osc.gz'') (Some [7, 8]) (demo_part [7, 8]))) \<and>
   (\<exists>u. complete_body demo_serves u [7, 8])"
proof -
  let ?k = "set_file (''data'', ''7.osc.gz.42.0.part'') None (set_file (''data'', ''7.osc.gz'') (Some [7, 8]) (demo_part [7, 8]))"
  have step: "download_step demo_serves (demo_download (Rename 1 0)) (demo_part [7, 8])
      (demo_download (Finished (Inr (''data'', ''7.osc.gz'')))) ?k"
    using d_rename [of "demo_download (Rename 1 0)" 1 0 "demo_part [7, 8]" "[7, 8]" demo_serves]
    by (simp add: demo_pc demo_temp demo_part_file) (simp add: demo_download_def)
  have "\<forall>d' k' q. download_step demo_serves (demo_download (Rename 1 0)) (demo_part [7, 8]) d' k' \<longrightarrow> dl_pc d' = Finished (Inr q) \<longrightarrow>
        (\<exists>b u. dk_files k' q = Some b \<and> complete_body demo_serves u b)"
    using conjunct2 [OF downloads_complete [OF demo_reached demo_start], THEN spec, of 0] by simp blast
  then have "\<exists>b u. dk_files ?k (''data'', ''7.osc.gz'') = Some b \<and> complete_body demo_serves u b"
    using step demo_pc(2) by blast
  then show ?thesis using step by (simp add: set_file_def)
qed

text \<open>C36: every download ends: its steps are well-founded whatever the file system and the server do, at
  most three attempts are made, and in a reachable state a download that has not returned can step.\<close>

theorem downloads_end:
  assumes "(downloads_step wanted serves)\<^sup>*\<^sup>* \<lparr>ds_all = ds, ds_disk = k\<rparr> s"
    and "fresh_downloads wanted ds" "all_complete wanted serves k"
    and "\<forall>(u, p)\<in>wanted. \<not> part_file p"
  shows "wf {(d', d). \<exists>k k'. download_step serves d k d' k'} \<and>
    (\<forall>i. attempt (dl_pc (ds_all s i)) \<le> MAX_RETRIES \<and>
       ((\<exists>r. dl_pc (ds_all s i) = Finished r) \<or> (\<exists>d' k'. download_step serves (ds_all s i) (ds_disk s) d' k')))"
proof -
  have "downloads_ok wanted serves s"
    using reachable_ok [OF assms(1) fresh_ok [OF assms(2,3)]] assms(4) by blast
  then show ?thesis
    using dstep_wf dstep_progress downloads_ok_parts(2) download_ok_def by blast
qed

theorem downloads_end_witness:
  "\<exists>d' k'. download_step demo_serves (demo_download (Rename 1 0)) (demo_part [7, 8]) d' k'"
proof -
  show ?thesis
    using conjunct2 [OF downloads_end [OF demo_reached demo_start], THEN spec, of 0] by (simp add: demo_pc)
qed

end
