(* ===== verification/Config.thy ===== *)
theory Config
  imports Texts Float64
begin

text \<open>
  \<open>src/config.rs\<close> and \<open>src/server/public_config.rs\<close>: the configuration, its defaults and how a TOML
  document fills it, and the slice of it that \<open>/status\<close> publishes. The TOML and URL parsers are
  parameters. Every struct is \<open>#[serde(default)]\<close>: a key that is absent from a table takes the value of
  that struct's \<open>Default\<close>, a key the struct does not know is ignored, and a value of the wrong type is an
  error. A \<open>u64\<close> field takes a TOML integer that is not negative.
\<close>

section \<open>Documents\<close>

datatype toml = T_bool bool | T_int int | T_float f64 | T_string string | T_array "toml list" | T_table "(string \<times> toml) list"

definition type_error :: "string + 'a" where
  "type_error = Inl ''invalid type''"

fun de_bool :: "toml \<Rightarrow> string + bool" where
  "de_bool (T_bool b) = Inr b"
| "de_bool v = type_error"

fun de_u64 :: "toml \<Rightarrow> string + nat" where
  "de_u64 (T_int i) = (if 0 \<le> i then Inr (nat i) else Inl ''invalid value'')"
| "de_u64 v = type_error"

fun de_u32 :: "toml \<Rightarrow> string + nat" where
  "de_u32 (T_int i) = (if 0 \<le> i \<and> i < 2 ^ 32 then Inr (nat i) else Inl ''invalid value'')"
| "de_u32 v = type_error"

fun de_f64 :: "toml \<Rightarrow> string + f64" where
  "de_f64 (T_float x) = Inr x"
| "de_f64 (T_int i) = Inr (f64_of_rat (of_int i))"
| "de_f64 v = type_error"

fun de_string :: "toml \<Rightarrow> string + string" where
  "de_string (T_string s) = Inr s"
| "de_string v = type_error"

fun de_some_string :: "toml \<Rightarrow> string + string option" where
  "de_some_string (T_string s) = Inr (Some s)"
| "de_some_string v = type_error"

fun all_ok :: "(string + 'a) list \<Rightarrow> string + 'a list" where
  "all_ok [] = Inr []"
| "all_ok (Inl e # rs) = Inl e"
| "all_ok (Inr x # rs) = (case all_ok rs of Inl e \<Rightarrow> Inl e | Inr xs \<Rightarrow> Inr (x # xs))"

fun de_strings :: "toml \<Rightarrow> string + string list" where
  "de_strings (T_array vs) = all_ok (map de_string vs)"
| "de_strings v = type_error"

text \<open>A field of a struct: the record is updated by the value of its key, if the table has it.\<close>

definition toml_field :: "string \<Rightarrow> (toml \<Rightarrow> string + 'v) \<Rightarrow> (('v \<Rightarrow> 'v) \<Rightarrow> 'r \<Rightarrow> 'r) \<Rightarrow> (string \<times> toml) list \<Rightarrow> 'r \<Rightarrow> string + 'r" where
  "toml_field key de upd table r = (case map_of table key of None \<Rightarrow> Inr r
     | Some v \<Rightarrow> (case de v of Inl e \<Rightarrow> Inl e | Inr x \<Rightarrow> Inr (upd (\<lambda>_. x) r)))"

fun de_fields :: "((string \<times> toml) list \<Rightarrow> 'r \<Rightarrow> string + 'r) list \<Rightarrow> (string \<times> toml) list \<Rightarrow> 'r \<Rightarrow> string + 'r" where
  "de_fields [] table r = Inr r"
| "de_fields (f # fs) table r = (case f table r of Inl e \<Rightarrow> Inl e | Inr r' \<Rightarrow> de_fields fs table r')"

definition de_struct :: "((string \<times> toml) list \<Rightarrow> 'r \<Rightarrow> string + 'r) list \<Rightarrow> 'r \<Rightarrow> toml \<Rightarrow> string + 'r" where
  "de_struct fields r v = (case v of T_table table \<Rightarrow> de_fields fields table r | _ \<Rightarrow> type_error)"

section \<open>Settings\<close>

datatype coordinate_order = Auto | Xy | Yx

definition forced :: "coordinate_order \<Rightarrow> bool option" where
  "forced order = (case order of Auto \<Rightarrow> None | Xy \<Rightarrow> Some True | Yx \<Rightarrow> Some False)"

definition de_order :: "toml \<Rightarrow> string + coordinate_order" where
  "de_order v = (case v of T_string s \<Rightarrow>
     if s = ''auto'' then Inr Auto else if s = ''xy'' then Inr Xy else if s = ''yx'' then Inr Yx
     else Inl ''unknown variant'' | _ \<Rightarrow> type_error)"

record job_config = 
  jc_enabled :: bool
  jc_interval_seconds :: nat
  jc_timeout_seconds :: nat
  jc_run_on_start :: bool

definition job_config_default :: job_config where
  "job_config_default = \<lparr>jc_enabled = True, jc_interval_seconds = 60, jc_timeout_seconds = 600, jc_run_on_start = True\<rparr>"

text \<open>The fields every job has.\<close>

definition job_fields :: "((string \<times> toml) list \<Rightarrow> 'a job_config_scheme \<Rightarrow> string + 'a job_config_scheme) list" where
  "job_fields =
    [toml_field ''enabled'' de_bool jc_enabled_update,
     toml_field ''interval_seconds'' de_u64 jc_interval_seconds_update,
     toml_field ''timeout_seconds'' de_u64 jc_timeout_seconds_update,
     toml_field ''run_on_start'' de_bool jc_run_on_start_update]"

definition de_job_config :: "toml \<Rightarrow> string + job_config" where
  "de_job_config v = de_struct job_fields job_config_default v"

record osm_update_config = job_config + 
  ou_prefetch_ahead :: nat
  ou_batch_commit_threshold :: nat
  ou_batch_size :: nat

definition osm_update_config_default :: osm_update_config where
  "osm_update_config_default = \<lparr>jc_enabled = True, jc_interval_seconds = 60, jc_timeout_seconds = 600, jc_run_on_start = True,
     ou_prefetch_ahead = 8, ou_batch_commit_threshold = 20, ou_batch_size = 20\<rparr>"

definition de_osm_update_config :: "toml \<Rightarrow> string + osm_update_config" where
  "de_osm_update_config v = de_struct (job_fields @
    [toml_field ''prefetch_ahead'' de_u64 ou_prefetch_ahead_update,
     toml_field ''batch_commit_threshold'' de_u64 ou_batch_commit_threshold_update,
     toml_field ''batch_size'' de_u64 ou_batch_size_update]) osm_update_config_default v"

record retention_prune_config = job_config + 
  rp_package_exports_days :: nat
  rp_change_areas_days :: nat

definition retention_prune_config_default :: retention_prune_config where
  "retention_prune_config_default = \<lparr>jc_enabled = True, jc_interval_seconds = 86400, jc_timeout_seconds = 60, jc_run_on_start = True,
     rp_package_exports_days = 365, rp_change_areas_days = 90\<rparr>"

definition de_retention_prune_config :: "toml \<Rightarrow> string + retention_prune_config" where
  "de_retention_prune_config v = de_struct (job_fields @
    [toml_field ''package_exports_days'' de_u64 rp_package_exports_days_update,
     toml_field ''change_areas_days'' de_u64 rp_change_areas_days_update]) retention_prune_config_default v"

record health_log_config = job_config + 
  hl_osm_lag_warn_seconds :: nat

definition health_log_config_default :: health_log_config where
  "health_log_config_default = \<lparr>jc_enabled = True, jc_interval_seconds = 3600, jc_timeout_seconds = 60, jc_run_on_start = True,
     hl_osm_lag_warn_seconds = 1800\<rparr>"

definition de_health_log_config :: "toml \<Rightarrow> string + health_log_config" where
  "de_health_log_config v = de_struct (job_fields @
    [toml_field ''osm_lag_warn_seconds'' de_u64 hl_osm_lag_warn_seconds_update]) health_log_config_default v"

record backup_config = job_config + 
  bk_dir :: string
  bk_keep_days :: nat

definition backup_config_default :: backup_config where
  "backup_config_default = \<lparr>jc_enabled = False, jc_interval_seconds = 3600, jc_timeout_seconds = 60, jc_run_on_start = True,
     bk_dir = ''backups'', bk_keep_days = 30\<rparr>"

definition de_backup_config :: "toml \<Rightarrow> string + backup_config" where
  "de_backup_config v = de_struct (job_fields @
    [toml_field ''dir'' de_string bk_dir_update,
     toml_field ''keep_days'' de_u64 bk_keep_days_update]) backup_config_default v"

record match_refresh_config = job_config + 
  mr_batch_size :: nat

definition match_refresh_config_default :: match_refresh_config where
  "match_refresh_config_default = \<lparr>jc_enabled = True, jc_interval_seconds = 30, jc_timeout_seconds = 300, jc_run_on_start = True,
     mr_batch_size = 512\<rparr>"

definition de_match_refresh_config :: "toml \<Rightarrow> string + match_refresh_config" where
  "de_match_refresh_config v = de_struct (job_fields @
    [toml_field ''batch_size'' de_u64 mr_batch_size_update]) match_refresh_config_default v"

record tile_refresh_config = job_config + 
  tr_batch_size :: nat

definition tile_refresh_config_default :: tile_refresh_config where
  "tile_refresh_config_default = \<lparr>jc_enabled = True, jc_interval_seconds = 10, jc_timeout_seconds = 300, jc_run_on_start = True,
     tr_batch_size = 256\<rparr>"

definition de_tile_refresh_config :: "toml \<Rightarrow> string + tile_refresh_config" where
  "de_tile_refresh_config v = de_struct (job_fields @
    [toml_field ''batch_size'' de_u64 tr_batch_size_update]) tile_refresh_config_default v"

type_synonym match_reconcile_config = job_config

definition match_reconcile_config_default :: match_reconcile_config where
  "match_reconcile_config_default = \<lparr>jc_enabled = False, jc_interval_seconds = 86400, jc_timeout_seconds = 1800, jc_run_on_start = True\<rparr>"

definition de_match_reconcile_config :: "toml \<Rightarrow> string + match_reconcile_config" where
  "de_match_reconcile_config v = de_struct job_fields match_reconcile_config_default v"

type_synonym reports_reconcile_config = job_config

definition reports_reconcile_config_default :: reports_reconcile_config where
  "reports_reconcile_config_default = \<lparr>jc_enabled = False, jc_interval_seconds = 86400, jc_timeout_seconds = 300, jc_run_on_start = False\<rparr>"

definition de_reports_reconcile_config :: "toml \<Rightarrow> string + reports_reconcile_config" where
  "de_reports_reconcile_config v = de_struct job_fields reports_reconcile_config_default v"

record teryt_config = 
  te_download :: bool
  te_api_username :: "string option"
  te_api_password :: "string option"
  te_file_path :: "string option"

definition teryt_config_default :: teryt_config where
  "teryt_config_default = \<lparr>te_download = True, te_api_username = None, te_api_password = None, te_file_path = None\<rparr>"

definition de_teryt_config :: "toml \<Rightarrow> string + teryt_config" where
  "de_teryt_config v = de_struct (
    [toml_field ''download'' de_bool te_download_update,
     toml_field ''api_username'' de_some_string te_api_username_update,
     toml_field ''api_password'' de_some_string te_api_password_update,
     toml_field ''file_path'' de_some_string te_file_path_update]) teryt_config_default v"

record prg_config = 
  pc_coordinate_order :: coordinate_order

definition prg_config_default :: prg_config where
  "prg_config_default = \<lparr>pc_coordinate_order = Auto\<rparr>"

definition de_prg_config :: "toml \<Rightarrow> string + prg_config" where
  "de_prg_config v = de_struct (
    [toml_field ''coordinate_order'' de_order pc_coordinate_order_update]) prg_config_default v"

record updates_config = 
  uc_default_minutes :: nat
  uc_max_minutes :: nat

definition updates_config_default :: updates_config where
  "updates_config_default = \<lparr>uc_default_minutes = 60, uc_max_minutes = 1440\<rparr>"

definition de_updates_config :: "toml \<Rightarrow> string + updates_config" where
  "de_updates_config v = de_struct (
    [toml_field ''default_minutes'' de_u64 uc_default_minutes_update,
     toml_field ''max_minutes'' de_u64 uc_max_minutes_update]) updates_config_default v"

record changes_config = 
  cc_max_age_days :: nat

definition changes_config_default :: changes_config where
  "changes_config_default = \<lparr>cc_max_age_days = 7\<rparr>"

definition de_changes_config :: "toml \<Rightarrow> string + changes_config" where
  "de_changes_config v = de_struct (
    [toml_field ''max_age_days'' de_u64 cc_max_age_days_update]) changes_config_default v"

record cache_config = 
  ca_tile_max_age_seconds :: nat
  ca_agg_tile_max_age_seconds :: nat
  ca_updates_max_age_seconds :: nat
  ca_stats_max_age_seconds :: nat
  ca_static_max_age_seconds :: nat
  ca_font_max_age_seconds :: nat
  ca_tile_cache_max_bytes :: nat
  ca_persist_tiles :: bool

definition cache_config_default :: cache_config where
  "cache_config_default = \<lparr>ca_tile_max_age_seconds = 60,
     ca_agg_tile_max_age_seconds = 300,
     ca_updates_max_age_seconds = 60,
     ca_stats_max_age_seconds = 300,
     ca_static_max_age_seconds = 604800,
     ca_font_max_age_seconds = 31536000,
     ca_tile_cache_max_bytes = 67108864,
     ca_persist_tiles = True\<rparr>"

definition de_cache_config :: "toml \<Rightarrow> string + cache_config" where
  "de_cache_config v = de_struct (
    [toml_field ''tile_max_age_seconds'' de_u64 ca_tile_max_age_seconds_update,
     toml_field ''agg_tile_max_age_seconds'' de_u64 ca_agg_tile_max_age_seconds_update,
     toml_field ''updates_max_age_seconds'' de_u64 ca_updates_max_age_seconds_update,
     toml_field ''stats_max_age_seconds'' de_u64 ca_stats_max_age_seconds_update,
     toml_field ''static_max_age_seconds'' de_u64 ca_static_max_age_seconds_update,
     toml_field ''font_max_age_seconds'' de_u64 ca_font_max_age_seconds_update,
     toml_field ''tile_cache_max_bytes'' de_u64 ca_tile_cache_max_bytes_update,
     toml_field ''persist_tiles'' de_bool ca_persist_tiles_update]) cache_config_default v"

record package_config = 
  pk_max_area_sq_deg :: f64

definition package_config_default :: package_config where
  "package_config_default = \<lparr>pk_max_area_sq_deg = f64_of_rat (4 / 100)\<rparr>"

definition de_package_config :: "toml \<Rightarrow> string + package_config" where
  "de_package_config v = de_struct (
    [toml_field ''max_area_sq_deg'' de_f64 pk_max_area_sq_deg_update]) package_config_default v"

record reports_config = 
  rc_enabled :: bool
  rc_max_objects_per_request :: nat

definition reports_config_default :: reports_config where
  "reports_config_default = \<lparr>rc_enabled = True, rc_max_objects_per_request = 100\<rparr>"

definition de_reports_config :: "toml \<Rightarrow> string + reports_config" where
  "de_reports_config v = de_struct (
    [toml_field ''enabled'' de_bool rc_enabled_update,
     toml_field ''max_objects_per_request'' de_u64 rc_max_objects_per_request_update]) reports_config_default v"

record download_urls = 
  du_osm_pbf :: string
  du_bdot10k :: string
  du_egib :: string
  du_prg :: string
  du_osm_replication :: string
  du_street_mappings :: string
  du_bdot10k_building_types :: string
  du_egib_building_types :: string

definition download_urls_default :: download_urls where
  "download_urls_default = \<lparr>du_osm_pbf = ''https://download.openstreetmap.fr/extracts/europe/poland-latest.osm.pbf'',
     du_bdot10k = ''https://opendata.geoportal.gov.pl/bdot10k/schemat2021/GeoParquet/OT_BUBD_A.parquet'',
     du_egib = ''https://opendata.geoportal.gov.pl/InneDane/latest_exports/eziudp_wfs/PARQUET/0_budynki.parquet'',
     du_prg = ''https://integracja.gugik.gov.pl/PRG/pobierz.php?adresy_zbiorcze_gml'',
     du_osm_replication = ''https://download.openstreetmap.fr/replication/europe/poland/minute'',
     du_street_mappings = ''https://raw.githubusercontent.com/openstreetmap-polska/osmpbudynkiv2/main/mappings/street_names_mappings.csv'',
     du_bdot10k_building_types = ''https://raw.githubusercontent.com/openstreetmap-polska/osmpbudynkiv2/main/mappings/bdot10k_building_types.csv'',
     du_egib_building_types = ''https://raw.githubusercontent.com/openstreetmap-polska/osmpbudynkiv2/main/mappings/egib_building_types.csv''\<rparr>"

definition de_download_urls :: "toml \<Rightarrow> string + download_urls" where
  "de_download_urls v = de_struct (
    [toml_field ''osm_pbf'' de_string du_osm_pbf_update,
     toml_field ''bdot10k'' de_string du_bdot10k_update,
     toml_field ''egib'' de_string du_egib_update,
     toml_field ''prg'' de_string du_prg_update,
     toml_field ''osm_replication'' de_string du_osm_replication_update,
     toml_field ''street_mappings'' de_string du_street_mappings_update,
     toml_field ''bdot10k_building_types'' de_string du_bdot10k_building_types_update,
     toml_field ''egib_building_types'' de_string du_egib_building_types_update]) download_urls_default v"

record jobs_config =
  jobs_osm_update :: osm_update_config
  jobs_retention_prune :: retention_prune_config
  jobs_backup :: backup_config
  jobs_health_log :: health_log_config
  jobs_bdot10k_update :: job_config
  jobs_egib_update :: job_config
  jobs_prg_update :: job_config
  jobs_match_refresh :: match_refresh_config
  jobs_tile_refresh :: tile_refresh_config
  jobs_match_reconcile :: match_reconcile_config
  jobs_reports_reconcile :: reports_reconcile_config
  jobs_street_mappings_update :: job_config
  jobs_building_types_update :: job_config

definition daily :: "nat \<Rightarrow> job_config" where
  "daily timeout = \<lparr>jc_enabled = True, jc_interval_seconds = 86400, jc_timeout_seconds = timeout, jc_run_on_start = True\<rparr>"

definition opt_in :: job_config where
  "opt_in = \<lparr>jc_enabled = False, jc_interval_seconds = 86400, jc_timeout_seconds = 300, jc_run_on_start = True\<rparr>"

definition jobs_config_default :: jobs_config where
  "jobs_config_default = \<lparr>jobs_osm_update = osm_update_config_default,
     jobs_retention_prune = retention_prune_config_default,
     jobs_backup = backup_config_default,
     jobs_health_log = health_log_config_default,
     jobs_bdot10k_update = daily 3600,
     jobs_egib_update = daily 3600,
     jobs_prg_update = daily 7200,
     jobs_match_refresh = match_refresh_config_default,
     jobs_tile_refresh = tile_refresh_config_default,
     jobs_match_reconcile = match_reconcile_config_default,
     jobs_reports_reconcile = reports_reconcile_config_default,
     jobs_street_mappings_update = opt_in,
     jobs_building_types_update = opt_in\<rparr>"

definition de_jobs_config :: "toml \<Rightarrow> string + jobs_config" where
  "de_jobs_config v = de_struct
    [toml_field ''osm_update'' de_osm_update_config jobs_osm_update_update,
     toml_field ''retention_prune'' de_retention_prune_config jobs_retention_prune_update,
     toml_field ''backup'' de_backup_config jobs_backup_update,
     toml_field ''health_log'' de_health_log_config jobs_health_log_update,
     toml_field ''bdot10k_update'' de_job_config jobs_bdot10k_update_update,
     toml_field ''egib_update'' de_job_config jobs_egib_update_update,
     toml_field ''prg_update'' de_job_config jobs_prg_update_update,
     toml_field ''match_refresh'' de_match_refresh_config jobs_match_refresh_update,
     toml_field ''tile_refresh'' de_tile_refresh_config jobs_tile_refresh_update,
     toml_field ''match_reconcile'' de_match_reconcile_config jobs_match_reconcile_update,
     toml_field ''reports_reconcile'' de_reports_reconcile_config jobs_reports_reconcile_update,
     toml_field ''street_mappings_update'' de_job_config jobs_street_mappings_update_update,
     toml_field ''building_types_update'' de_job_config jobs_building_types_update_update] jobs_config_default v"

record config =
  cf_db_path :: string
  cf_rocksdb_path :: string
  cf_rocksdb_block_cache_mb :: nat
  cf_rocksdb_write_buffer_mb :: nat
  cf_rocksdb_tile_block_cache_mb :: nat
  cf_log_level :: string
  cf_http_listen_addr :: string
  cf_web_dir :: string
  cf_download_dir :: "string option"
  cf_cleanup_downloaded_files :: bool
  cf_teryt :: teryt_config
  cf_prg :: prg_config
  cf_duckdb_init_commands :: "string list"
  cf_db_pool_size :: nat
  cf_download_urls :: download_urls
  cf_jobs :: jobs_config
  cf_package :: package_config
  cf_updates :: updates_config
  cf_changes :: changes_config
  cf_cache :: cache_config
  cf_reports :: reports_config

definition default_init_commands :: "string list" where
  "default_init_commands =
    [''INSTALL spatial'', ''LOAD spatial'', ''INSTALL icu'', ''LOAD icu'',
     ''SET GLOBAL preserve_insertion_order = false'', ''SET GLOBAL geometry_always_xy = true'',
     ''SET GLOBAL temp_directory = '' @ [CHR 0x27] @ ''./osmpbudynkiv2.duckdb.tmp'' @ [CHR 0x27],
     ''SET GLOBAL memory_limit = '' @ [CHR 0x27] @ ''4GB'' @ [CHR 0x27], ''SET GLOBAL threads = 8'']"

definition config_default :: config where
  "config_default = \<lparr>cf_db_path = ''./osmpbudynkiv2.duckdb'',
     cf_rocksdb_path = ''./osmpbudynkiv2.rocksdb'',
     cf_rocksdb_block_cache_mb = 512,
     cf_rocksdb_write_buffer_mb = 64,
     cf_rocksdb_tile_block_cache_mb = 256,
     cf_log_level = ''info'',
     cf_http_listen_addr = ''127.0.0.1:3000'',
     cf_web_dir = ''./web'',
     cf_download_dir = None,
     cf_cleanup_downloaded_files = True,
     cf_teryt = teryt_config_default,
     cf_prg = prg_config_default,
     cf_duckdb_init_commands = default_init_commands,
     cf_db_pool_size = 8,
     cf_download_urls = download_urls_default,
     cf_jobs = jobs_config_default,
     cf_package = package_config_default,
     cf_updates = updates_config_default,
     cf_changes = changes_config_default,
     cf_cache = cache_config_default,
     cf_reports = reports_config_default\<rparr>"

definition de_config :: "toml \<Rightarrow> string + config" where
  "de_config v = de_struct
    [toml_field ''db_path'' de_string cf_db_path_update,
     toml_field ''rocksdb_path'' de_string cf_rocksdb_path_update,
     toml_field ''rocksdb_block_cache_mb'' de_u64 cf_rocksdb_block_cache_mb_update,
     toml_field ''rocksdb_write_buffer_mb'' de_u64 cf_rocksdb_write_buffer_mb_update,
     toml_field ''rocksdb_tile_block_cache_mb'' de_u64 cf_rocksdb_tile_block_cache_mb_update,
     toml_field ''log_level'' de_string cf_log_level_update,
     toml_field ''http_listen_addr'' de_string cf_http_listen_addr_update,
     toml_field ''web_dir'' de_string cf_web_dir_update,
     toml_field ''download_dir'' de_some_string cf_download_dir_update,
     toml_field ''cleanup_downloaded_files'' de_bool cf_cleanup_downloaded_files_update,
     toml_field ''teryt'' de_teryt_config cf_teryt_update,
     toml_field ''prg'' de_prg_config cf_prg_update,
     toml_field ''duckdb_init_commands'' de_strings cf_duckdb_init_commands_update,
     toml_field ''db_pool_size'' de_u32 cf_db_pool_size_update,
     toml_field ''download_urls'' de_download_urls cf_download_urls_update,
     toml_field ''jobs'' de_jobs_config cf_jobs_update,
     toml_field ''package'' de_package_config cf_package_update,
     toml_field ''updates'' de_updates_config cf_updates_update,
     toml_field ''changes'' de_changes_config cf_changes_update,
     toml_field ''cache'' de_cache_config cf_cache_update,
     toml_field ''reports'' de_reports_config cf_reports_update] config_default v"

text \<open>The file's text as the operating system returns it; \<open>parse\<close> is the TOML parser.\<close>

definition load_config :: "(string \<Rightarrow> string + toml) \<Rightarrow> (string + string) option \<Rightarrow> string + config" where
  "load_config parse file = (case file of
     None \<Rightarrow> Inr config_default
   | Some (Inl e) \<Rightarrow> Inl ''Failed to read config file''
   | Some (Inr content) \<Rightarrow> (case parse content of
       Inl e \<Rightarrow> Inl ''Failed to parse config file''
     | Inr doc \<Rightarrow> (case de_config doc of Inl e \<Rightarrow> Inl ''Failed to parse config file'' | Inr c \<Rightarrow> Inr c)))"

definition download_dir :: "string \<Rightarrow> config \<Rightarrow> string" where
  "download_dir temp_dir c = (case cf_download_dir c of Some dir \<Rightarrow> dir | None \<Rightarrow> temp_dir)"

section \<open>What is published\<close>

record public_config =
  pb_max_area_sq_deg :: f64
  pb_reports_enabled :: bool
  pb_max_objects_per_request :: nat
  pb_max_age_days :: nat
  pb_osm_replication :: "string option"

text \<open>A parsed URL; a URL that has no host refuses a user name.\<close>

record url =
  url_scheme :: string
  url_userinfo :: "string option"
  url_host :: "string option"
  url_path :: string
  url_query :: "string option"
  url_fragment :: "string option"

definition show_url :: "url \<Rightarrow> string" where
  "show_url u = url_scheme u @ '':'' @
     (case url_host u of None \<Rightarrow> [] | Some h \<Rightarrow> ''//'' @ (case url_userinfo u of None \<Rightarrow> [] | Some i \<Rightarrow> i @ ''@'') @ h) @
     url_path u @ (case url_query u of None \<Rightarrow> [] | Some q \<Rightarrow> ''?'' @ q) @
     (case url_fragment u of None \<Rightarrow> [] | Some f \<Rightarrow> ''#'' @ f)"

definition public_url :: "(string \<Rightarrow> url option) \<Rightarrow> string \<Rightarrow> string option" where
  "public_url parse raw = (case parse raw of None \<Rightarrow> None
     | Some u \<Rightarrow> if url_scheme u \<noteq> ''http'' \<and> url_scheme u \<noteq> ''https'' then None
         else if url_host u = None then None
         else Some (show_url (u\<lparr>url_userinfo := None, url_query := None, url_fragment := None\<rparr>)))"

definition from_config :: "(string \<Rightarrow> url option) \<Rightarrow> config \<Rightarrow> public_config" where
  "from_config parse c =
     \<lparr>pb_max_area_sq_deg = pk_max_area_sq_deg (cf_package c),
      pb_reports_enabled = rc_enabled (cf_reports c),
      pb_max_objects_per_request = rc_max_objects_per_request (cf_reports c),
      pb_max_age_days = cc_max_age_days (cf_changes c),
      pb_osm_replication = public_url parse (du_osm_replication (cf_download_urls c))\<rparr>"

section \<open>The schedules\<close>

text \<open>\<open>JobConfigResolved\<close> and the job list of \<open>server::run\<close>, in its order. An interval of zero makes
  \<open>tokio::time::interval\<close> panic.\<close>

record job_schedule =
  sc_enabled :: bool
  sc_interval :: nat
  sc_timeout :: nat
  sc_run_on_start :: bool

definition job_schedule_of :: "'a job_config_scheme \<Rightarrow> job_schedule" where
  "job_schedule_of j = \<lparr>sc_enabled = jc_enabled j, sc_interval = jc_interval_seconds j,
     sc_timeout = jc_timeout_seconds j, sc_run_on_start = jc_run_on_start j\<rparr>"

definition job_list :: "config \<Rightarrow> (string \<times> job_schedule) list" where
  "job_list c = (let j = cf_jobs c in
    [(''osm_update'', job_schedule_of (jobs_osm_update j)),
     (''retention_prune'', job_schedule_of (jobs_retention_prune j)),
     (''backup'', job_schedule_of (jobs_backup j)),
     (''health_log'', job_schedule_of (jobs_health_log j)),
     (''bdot10k_update'', job_schedule_of (jobs_bdot10k_update j)),
     (''egib_update'', job_schedule_of (jobs_egib_update j)),
     (''prg_update'', job_schedule_of (jobs_prg_update j)),
     (''match_refresh'', job_schedule_of (jobs_match_refresh j)),
     (''tile_refresh'', job_schedule_of (jobs_tile_refresh j)),
     (''match_reconcile'', job_schedule_of (jobs_match_reconcile j)),
     (''reports_reconcile'', job_schedule_of (jobs_reports_reconcile j)),
     (''street_mappings_update'', job_schedule_of (jobs_street_mappings_update j)),
     (''building_types_update'', job_schedule_of (jobs_building_types_update j))])"

definition first_tick :: "nat \<Rightarrow> job_schedule \<Rightarrow> nat option" where
  "first_tick now sch = (if sc_interval sch = 0 then None
     else Some (if sc_run_on_start sch then now else now + sc_interval sch))"

section \<open>Reading a table\<close>

text \<open>The value a key gives, or the default.\<close>

definition read_or :: "string \<Rightarrow> (toml \<Rightarrow> string + 'v) \<Rightarrow> (string \<times> toml) list \<Rightarrow> 'v \<Rightarrow> 'v \<Rightarrow> bool" where
  "read_or key de table d x \<longleftrightarrow> (case map_of table key of None \<Rightarrow> x = d | Some v \<Rightarrow> de v = Inr x)"

lemma de_fields_step:
  assumes "de_fields (toml_field key de upd # fs) table r = Inr c" "\<And>r. upd id r = r"
    "\<And>g. de_fields fs table (upd g r) = Inr c \<Longrightarrow> (\<And>d. read_or key de table d (g d)) \<Longrightarrow> thesis"
  shows thesis
proof (cases "map_of table key")
  case None
  with assms(1) have "de_fields fs table (upd id r) = Inr c" by (simp add: toml_field_def assms(2))
  then show thesis by (rule assms(3)) (simp add: read_or_def None)
next
  case (Some v)
  with assms(1) obtain x where x: "de v = Inr x" "de_fields fs table (upd (\<lambda>_. x) r) = Inr c"
    by (auto simp: toml_field_def split: sum.splits)
  from x(2) show thesis by (rule assms(3)) (simp add: read_or_def Some x)
qed

lemma de_fields_append:
  "de_fields (fs @ gs) table r = Inr c \<longleftrightarrow> (\<exists>m. de_fields fs table r = Inr m \<and> de_fields gs table m = Inr c)"
  by (induction fs table r rule: de_fields.induct) (auto split: sum.splits)

lemma de_struct_table: "de_struct fs r v = Inr c \<Longrightarrow> \<exists>table. v = T_table table \<and> de_fields fs table r = Inr c"
  by (auto simp: de_struct_def type_error_def split: toml.splits)

lemma jobs_read:
  assumes "de_fields 
    [toml_field ''osm_update'' de_osm_update_config jobs_osm_update_update,
     toml_field ''retention_prune'' de_retention_prune_config jobs_retention_prune_update,
     toml_field ''backup'' de_backup_config jobs_backup_update,
     toml_field ''health_log'' de_health_log_config jobs_health_log_update,
     toml_field ''bdot10k_update'' de_job_config jobs_bdot10k_update_update,
     toml_field ''egib_update'' de_job_config jobs_egib_update_update,
     toml_field ''prg_update'' de_job_config jobs_prg_update_update,
     toml_field ''match_refresh'' de_match_refresh_config jobs_match_refresh_update,
     toml_field ''tile_refresh'' de_tile_refresh_config jobs_tile_refresh_update,
     toml_field ''match_reconcile'' de_match_reconcile_config jobs_match_reconcile_update,
     toml_field ''reports_reconcile'' de_reports_reconcile_config jobs_reports_reconcile_update,
     toml_field ''street_mappings_update'' de_job_config jobs_street_mappings_update_update,
     toml_field ''building_types_update'' de_job_config jobs_building_types_update_update] jt jobs_config_default = Inr j"
  shows "read_or ''osm_update'' de_osm_update_config jt osm_update_config_default (jobs_osm_update j) \<and>
    read_or ''retention_prune'' de_retention_prune_config jt retention_prune_config_default (jobs_retention_prune j) \<and>
    read_or ''backup'' de_backup_config jt backup_config_default (jobs_backup j) \<and>
    read_or ''health_log'' de_health_log_config jt health_log_config_default (jobs_health_log j) \<and>
    read_or ''bdot10k_update'' de_job_config jt (daily 3600) (jobs_bdot10k_update j) \<and>
    read_or ''egib_update'' de_job_config jt (daily 3600) (jobs_egib_update j) \<and>
    read_or ''prg_update'' de_job_config jt (daily 7200) (jobs_prg_update j) \<and>
    read_or ''match_refresh'' de_match_refresh_config jt match_refresh_config_default (jobs_match_refresh j) \<and>
    read_or ''tile_refresh'' de_tile_refresh_config jt tile_refresh_config_default (jobs_tile_refresh j) \<and>
    read_or ''match_reconcile'' de_match_reconcile_config jt match_reconcile_config_default (jobs_match_reconcile j) \<and>
    read_or ''reports_reconcile'' de_reports_reconcile_config jt reports_reconcile_config_default (jobs_reports_reconcile j) \<and>
    read_or ''street_mappings_update'' de_job_config jt (opt_in) (jobs_street_mappings_update j) \<and>
    read_or ''building_types_update'' de_job_config jt (opt_in) (jobs_building_types_update j)"
  using assms by (elim de_fields_step) (auto simp: jobs_config_default_def)

definition schedule_from :: "(string \<times> toml) list \<Rightarrow> job_schedule \<Rightarrow> job_schedule \<Rightarrow> bool" where
  "schedule_from table d r \<longleftrightarrow> read_or ''enabled'' de_bool table (sc_enabled d) (sc_enabled r) \<and>
     read_or ''interval_seconds'' de_u64 table (sc_interval d) (sc_interval r) \<and>
     read_or ''timeout_seconds'' de_u64 table (sc_timeout d) (sc_timeout r) \<and>
     read_or ''run_on_start'' de_bool table (sc_run_on_start d) (sc_run_on_start r)"

lemma job_fields_schedule:
  "de_fields job_fields table r = Inr c \<Longrightarrow> schedule_from table (job_schedule_of r) (job_schedule_of c)"
  unfolding job_fields_def by (elim de_fields_step) (auto simp: schedule_from_def job_schedule_of_def)

lemma job_table_schedule:
  assumes "de_struct (job_fields @ fs) d v = Inr c"
    "\<And>table m c. de_fields fs table m = Inr c \<Longrightarrow> job_schedule_of c = job_schedule_of m"
  shows "\<exists>table. v = T_table table \<and> schedule_from table (job_schedule_of d) (job_schedule_of c)"
  using de_struct_table [OF assms(1)] assms(2) job_fields_schedule by (metis de_fields_append)

lemma osm_update_config_schedule:
  assumes "de_osm_update_config v = Inr c"
  shows "\<exists>table. v = T_table table \<and> schedule_from table (job_schedule_of osm_update_config_default) (job_schedule_of c)"
  by (rule job_table_schedule [OF assms [unfolded de_osm_update_config_def]], elim de_fields_step) (auto simp: job_schedule_of_def)

lemma retention_prune_config_schedule:
  assumes "de_retention_prune_config v = Inr c"
  shows "\<exists>table. v = T_table table \<and> schedule_from table (job_schedule_of retention_prune_config_default) (job_schedule_of c)"
  by (rule job_table_schedule [OF assms [unfolded de_retention_prune_config_def]], elim de_fields_step) (auto simp: job_schedule_of_def)

lemma backup_config_schedule:
  assumes "de_backup_config v = Inr c"
  shows "\<exists>table. v = T_table table \<and> schedule_from table (job_schedule_of backup_config_default) (job_schedule_of c)"
  by (rule job_table_schedule [OF assms [unfolded de_backup_config_def]], elim de_fields_step) (auto simp: job_schedule_of_def)

lemma health_log_config_schedule:
  assumes "de_health_log_config v = Inr c"
  shows "\<exists>table. v = T_table table \<and> schedule_from table (job_schedule_of health_log_config_default) (job_schedule_of c)"
  by (rule job_table_schedule [OF assms [unfolded de_health_log_config_def]], elim de_fields_step) (auto simp: job_schedule_of_def)

lemma match_refresh_config_schedule:
  assumes "de_match_refresh_config v = Inr c"
  shows "\<exists>table. v = T_table table \<and> schedule_from table (job_schedule_of match_refresh_config_default) (job_schedule_of c)"
  by (rule job_table_schedule [OF assms [unfolded de_match_refresh_config_def]], elim de_fields_step) (auto simp: job_schedule_of_def)

lemma tile_refresh_config_schedule:
  assumes "de_tile_refresh_config v = Inr c"
  shows "\<exists>table. v = T_table table \<and> schedule_from table (job_schedule_of tile_refresh_config_default) (job_schedule_of c)"
  by (rule job_table_schedule [OF assms [unfolded de_tile_refresh_config_def]], elim de_fields_step) (auto simp: job_schedule_of_def)

lemma job_config_schedule:
  assumes "de_job_config v = Inr c"
  shows "\<exists>table. v = T_table table \<and> schedule_from table (job_schedule_of job_config_default) (job_schedule_of c)"
  using job_table_schedule [of "[]" job_config_default v c] assms by (simp add: de_job_config_def)

lemma match_reconcile_config_schedule:
  assumes "de_match_reconcile_config v = Inr c"
  shows "\<exists>table. v = T_table table \<and> schedule_from table (job_schedule_of match_reconcile_config_default) (job_schedule_of c)"
  using job_table_schedule [of "[]" match_reconcile_config_default v c] assms by (simp add: de_match_reconcile_config_def)

lemma reports_reconcile_config_schedule:
  assumes "de_reports_reconcile_config v = Inr c"
  shows "\<exists>table. v = T_table table \<and> schedule_from table (job_schedule_of reports_reconcile_config_default) (job_schedule_of c)"
  using job_table_schedule [of "[]" reports_reconcile_config_default v c] assms by (simp add: de_reports_reconcile_config_def)

lemmas table_schedules = osm_update_config_schedule
  retention_prune_config_schedule
  backup_config_schedule
  health_log_config_schedule
  match_refresh_config_schedule
  tile_refresh_config_schedule
  job_config_schedule
  match_reconcile_config_schedule
  reports_reconcile_config_schedule

text \<open>For each job, its schedule when the document has no table for it, and the one a table starts from.\<close>

definition job_defaults :: "(string \<times> job_schedule \<times> job_schedule) list" where
  "job_defaults =
    [(''osm_update'', job_schedule_of osm_update_config_default, job_schedule_of osm_update_config_default),
     (''retention_prune'', job_schedule_of retention_prune_config_default, job_schedule_of retention_prune_config_default),
     (''backup'', job_schedule_of backup_config_default, job_schedule_of backup_config_default),
     (''health_log'', job_schedule_of health_log_config_default, job_schedule_of health_log_config_default),
     (''bdot10k_update'', job_schedule_of (daily 3600), job_schedule_of job_config_default),
     (''egib_update'', job_schedule_of (daily 3600), job_schedule_of job_config_default),
     (''prg_update'', job_schedule_of (daily 7200), job_schedule_of job_config_default),
     (''match_refresh'', job_schedule_of match_refresh_config_default, job_schedule_of match_refresh_config_default),
     (''tile_refresh'', job_schedule_of tile_refresh_config_default, job_schedule_of tile_refresh_config_default),
     (''match_reconcile'', job_schedule_of match_reconcile_config_default, job_schedule_of match_reconcile_config_default),
     (''reports_reconcile'', job_schedule_of reports_reconcile_config_default, job_schedule_of reports_reconcile_config_default),
     (''street_mappings_update'', job_schedule_of (opt_in), job_schedule_of job_config_default),
     (''building_types_update'', job_schedule_of (opt_in), job_schedule_of job_config_default)]"

definition scheduled :: "(string \<times> toml) list \<Rightarrow> string \<times> job_schedule \<times> job_schedule \<Rightarrow> string \<times> job_schedule \<Rightarrow> bool" where
  "scheduled jt d j = (case d of (name, unset, base) \<Rightarrow> fst j = name \<and>
     (case map_of jt name of None \<Rightarrow> snd j = unset
      | Some v \<Rightarrow> (\<exists>table. v = T_table table \<and> schedule_from table base (snd j))))"

lemma read_scheduled:
  assumes "read_or name de jt d x" "\<And>v y. de v = Inr y \<Longrightarrow> \<exists>table. v = T_table table \<and> schedule_from table base (job_schedule_of y)"
  shows "scheduled jt (name, job_schedule_of d, base) (name, job_schedule_of x)"
  using assms by (auto simp: read_or_def scheduled_def split: option.splits)

lemma jobs_scheduled:
  assumes "de_jobs_config v = Inr j" "cf_jobs c = j"
  shows "\<exists>jt. v = T_table jt \<and> list_all2 (scheduled jt) job_defaults (job_list c)"
proof -
  obtain jt where v: "v = T_table jt" and read: "de_jobs_config (T_table jt) = Inr j"
    using de_struct_table [OF assms(1) [unfolded de_jobs_config_def]] assms(1) by metis
  note r = jobs_read [OF read [unfolded de_jobs_config_def de_struct_def toml.case]]
  have "list_all2 (scheduled jt) job_defaults (job_list c)"
    unfolding job_defaults_def job_list_def Let_def assms(2) list_all2_Cons list_all2_Nil
    using r by (elim conjE, intro conjI refl) (rule read_scheduled, assumption, erule table_schedules)+
  with v show ?thesis by blast
qed

lemma loaded_jobs:
  assumes "load_config parse (Some (Inr content)) = Inr c" "parse content = Inr (T_table doc)" "map_of doc ''jobs'' = Some v"
  shows "de_jobs_config v = Inr (cf_jobs c)"
proof -
  have "de_config (T_table doc) = Inr c"
    using assms(1,2) by (auto simp: load_config_def split: sum.splits)
  then have "read_or ''jobs'' de_jobs_config doc jobs_config_default (cf_jobs c)"
    unfolding de_config_def de_struct_def toml.case
    by (elim de_fields_step; clarsimp simp: config_default_def)
  then show ?thesis by (simp add: read_or_def assms(3))
qed

section \<open>Properties\<close>

text \<open>The schedule of every job, exactly: the job list names each job once, in order; a job with no
  table in the document has the default of \<open>JobsConfig\<close>; a job with a table takes each setting from it,
  and the settings it leaves out from the \<open>Default\<close> of the table's own struct. For the five jobs that use
  the plain \<open>JobConfig\<close> these are not the same defaults.\<close>

theorem job_schedules_exact:
  assumes "load_config parse (Some (Inr content)) = Inr c" "parse content = Inr (T_table doc)"
    and "map_of doc ''jobs'' = Some v"
  shows "\<exists>jt. v = T_table jt \<and> list_all2 (scheduled jt) job_defaults (job_list c)"
  using jobs_scheduled [OF loaded_jobs [OF assms]] by simp

definition prg_doc :: "(string \<times> toml) list" where
  "prg_doc = [(''jobs'', T_table
     [(''prg_update'', T_table [(''run_on_start'', T_bool False)]),
      (''street_mappings_update'', T_table [(''interval_seconds'', T_int 3600)])])]"

definition prg_demo :: config where
  "prg_demo = config_default\<lparr>cf_jobs := jobs_config_default
     \<lparr>jobs_prg_update := job_config_default\<lparr>jc_run_on_start := False\<rparr>,
      jobs_street_mappings_update := job_config_default\<lparr>jc_interval_seconds := 3600\<rparr>\<rparr>\<rparr>"

lemma prg_loaded: "de_config (T_table prg_doc) = Inr prg_demo"
  by (simp add: de_config_def de_struct_def prg_doc_def toml_field_def de_jobs_config_def de_job_config_def job_fields_def prg_demo_def
    config_default_def jobs_config_default_def job_config_default_def)

theorem job_schedules_exact_witness:
  "\<exists>jt. map_of prg_doc ''jobs'' = Some (T_table jt) \<and> list_all2 (scheduled jt) job_defaults (job_list prg_demo)"
  using job_schedules_exact [of "\<lambda>s. Inr (T_table prg_doc)" "[]" prg_demo prg_doc]
  by (simp add: load_config_def prg_loaded) (simp add: prg_doc_def)

text \<open>So a document that only turns off the first run of \<open>prg_update\<close> makes it poll every minute, with
  ten minutes to load what takes up to two hours, where its own default is once a day; and one that only
  sets the interval of \<open>street_mappings_update\<close>, a job that is off unless the operator opts in, enables it.\<close>

theorem partial_job_table_changes_schedule:
  "\<exists>c. load_config (\<lambda>s. Inr (T_table prg_doc)) (Some (Inr [])) = Inr c \<and>
     map_of (job_list c) ''prg_update'' = Some \<lparr>sc_enabled = True, sc_interval = 60, sc_timeout = 600, sc_run_on_start = False\<rparr> \<and>
     map_of (job_list config_default) ''prg_update'' = Some \<lparr>sc_enabled = True, sc_interval = 86400, sc_timeout = 7200, sc_run_on_start = True\<rparr> \<and>
     map_of (job_list c) ''street_mappings_update'' = Some \<lparr>sc_enabled = True, sc_interval = 3600, sc_timeout = 600, sc_run_on_start = True\<rparr> \<and>
     map_of (job_list config_default) ''street_mappings_update'' = Some \<lparr>sc_enabled = False, sc_interval = 86400, sc_timeout = 300, sc_run_on_start = True\<rparr>"
  by (simp add: load_config_def prg_loaded job_list_def Let_def job_schedule_of_def prg_demo_def config_default_def jobs_config_default_def
    job_config_default_def daily_def opt_in_def)

text \<open>What \<open>/status\<close> publishes depends on five settings only, and a published feed address is an http(s)
  one without user information, query or fragment.\<close>

lemma public_config_allowlist:
  assumes "cf_package c = cf_package d" "cf_reports c = cf_reports d" "cf_changes c = cf_changes d"
    "du_osm_replication (cf_download_urls c) = du_osm_replication (cf_download_urls d)"
  shows "from_config parse c = from_config parse d"
  using assms by (simp add: from_config_def)

lemma public_url_clean:
  assumes "public_url parse raw = Some s"
  shows "\<exists>u. parse raw = Some u \<and> s = url_scheme u @ ''://'' @ the (url_host u) @ url_path u \<and>
    url_scheme u \<in> {''http'', ''https''}"
  using assms by (auto simp: public_url_def show_url_def split: option.splits if_splits)
end
