(* ===== verification/Dataset.thy ===== *)
theory Dataset
  imports Texts Match_Rule "HOL-Library.Multiset"
begin

text \<open>
  \<open>src/dataset.rs\<close>: what a government source is, when one of its records has changed, and the steps
  that make a loaded table usable (usable keys, usable geometry, one row per key), as
  \<open>import/bdot10k.rs\<close> and \<open>import/egib.rs\<close> compose them. A column is the text of its VARCHAR cast, NULL
  is \<open>None\<close>; the version a source orders duplicates by is an integer. DuckDB's geometry functions,
  \<open>md5\<close> and \<open>hash\<close> are parameters.
\<close>

section \<open>Sources\<close>

datatype geom_kind = Point | Polygon

record dataset_spec =
  ds_name :: string
  ds_table :: string
  ds_key_columns :: "string list"
  ds_compared_columns :: "string list"
  ds_compare_geometry :: bool
  ds_geom_kind :: geom_kind

definition BDOT10K :: dataset_spec where
  "BDOT10K = \<lparr>ds_name = ''bdot10k'', ds_table = ''bdot10k_buildings'', ds_key_columns = [''PRZESTRZENNAZW'', ''LOKALNYID''],
     ds_compared_columns = [''WERSJA'', ''KATEGORIAISTNIENIA'', ''PRZEWAZAJACAFUNKCJABUDYNKU'', ''FUNKCJAOGOLNABUDYNKU'',
       ''LICZBAKONDYGNACJI'', ''NAZWA'', ''FSBUD'', ''INFORMACJADODATKOWA'', ''KODKST'', ''ZRODLODANYCHGEOMETRYCZNYCH''],
     ds_compare_geometry = False, ds_geom_kind = Polygon\<rparr>"

definition EGIB :: dataset_spec where
  "EGIB = \<lparr>ds_name = ''egib'', ds_table = ''egib_buildings'', ds_key_columns = [''id_budynku''],
     ds_compared_columns = [''rodzaj'', ''kondygnacje_nadziemne'', ''kondygnacje_podziemne''],
     ds_compare_geometry = True, ds_geom_kind = Polygon\<rparr>"

definition PRG :: dataset_spec where
  "PRG = \<lparr>ds_name = ''prg'', ds_table = ''prg_addresses'', ds_key_columns = [''lokalny_id''],
     ds_compared_columns = [''numer_porzadkowy'', ''ulica'', ''miejscowosc'', ''kod_pocztowy'', ''teryt_miejscowosc''],
     ds_compare_geometry = True, ds_geom_kind = Point\<rparr>"

definition spec_by_name :: "string \<Rightarrow> dataset_spec option" where
  "spec_by_name name = (if name = ''bdot10k'' then Some BDOT10K else if name = ''egib'' then Some EGIB
     else if name = ''prg'' then Some PRG else None)"

definition staging_table :: "dataset_spec \<Rightarrow> string" where
  "staging_table spec = ds_table spec @ ''__staging''"

record 'g gov_row =
  gr_cols :: "string \<Rightarrow> string option"
  gr_version :: "int option"
  gr_geom :: "'g option"
  gr_centroid :: "'g option"

text \<open>The functions of DuckDB a source's statements use. The extents of a bounding box are in fractional
  cells; extents and area are NULL for an empty geometry.\<close>

record 'g gov_sql =
  gq_wkb :: "'g \<Rightarrow> string"
  gq_md5 :: "string \<Rightarrow> string"
  gq_hash :: "string option list \<Rightarrow> 64 word"
  gq_centroid :: "'g \<Rightarrow> 'g option"
  gq_cell :: "'g \<Rightarrow> cell"
  gq_valid :: "'g \<Rightarrow> bool"
  gq_empty :: "'g \<Rightarrow> bool"
  gq_x_extent :: "'g \<Rightarrow> rat option"
  gq_y_extent :: "'g \<Rightarrow> rat option"
  gq_area_m2 :: "'g \<Rightarrow> rat option"

definition row_key :: "dataset_spec \<Rightarrow> 'g gov_row \<Rightarrow> string option list" where
  "row_key spec r = map (gr_cols r) (ds_key_columns spec)"

definition representative_point :: "dataset_spec \<Rightarrow> 'g gov_row \<Rightarrow> 'g option" where
  "representative_point spec r = (case ds_geom_kind spec of Point \<Rightarrow> gr_geom r | Polygon \<Rightarrow> gr_centroid r)"

definition with_centroid :: "'g gov_sql \<Rightarrow> dataset_spec \<Rightarrow> 'g gov_row \<Rightarrow> 'g gov_row" where
  "with_centroid gq spec r = (case ds_geom_kind spec of Point \<Rightarrow> r
     | Polygon \<Rightarrow> r\<lparr>gr_centroid := Option.bind (gr_geom r) (gq_centroid gq)\<rparr>)"

section \<open>Change\<close>

text \<open>The columns a source compares, with the geometry's WKB where it takes part.\<close>

definition compared :: "'g gov_sql \<Rightarrow> dataset_spec \<Rightarrow> 'g gov_row \<Rightarrow> string option list" where
  "compared gq spec r = map (gr_cols r) (ds_compared_columns spec) @
     (if ds_compare_geometry spec then [map_option (gq_wkb gq) (gr_geom r)] else [])"

definition changed_predicate :: "'g gov_sql \<Rightarrow> dataset_spec \<Rightarrow> 'g gov_row \<Rightarrow> 'g gov_row \<Rightarrow> bool" where
  "changed_predicate gq spec a b \<longleftrightarrow>
     map (gr_cols a) (ds_compared_columns spec) \<noteq> map (gr_cols b) (ds_compared_columns spec) \<or>
     ds_compare_geometry spec \<and> map_option (gq_wkb gq) (gr_geom a) \<noteq> map_option (gq_wkb gq) (gr_geom b)"

definition content_hash :: "'g gov_sql \<Rightarrow> dataset_spec \<Rightarrow> 'g gov_row \<Rightarrow> 64 word" where
  "content_hash gq spec r = (case compared gq spec r of [] \<Rightarrow> gq_hash gq [None] | vs \<Rightarrow> gq_hash gq vs)"

definition upper_hex :: "nat \<Rightarrow> char" where
  "upper_hex n = char_of (if n < 10 then 48 + n else 55 + n)"

fun hex_text :: "string \<Rightarrow> string" where
  "hex_text [] = []"
| "hex_text (c # cs) = upper_hex (of_char c div 16) # upper_hex (of_char c mod 16) # hex_text cs"

definition NULL_SENTINEL :: string where "NULL_SENTINEL = [CHR 0x1E]"
definition SEPARATOR :: string where "SEPARATOR = [CHR 0x1F]"

definition coalesce :: "string option \<Rightarrow> string" where
  "coalesce v = (case v of Some s \<Rightarrow> s | None \<Rightarrow> NULL_SENTINEL)"

definition signature_parts :: "'g gov_sql \<Rightarrow> dataset_spec \<Rightarrow> 'g gov_row \<Rightarrow> string list" where
  "signature_parts gq spec r = map (\<lambda>c. coalesce (gr_cols r c)) (ds_compared_columns spec) @
     (if ds_compare_geometry spec then [coalesce (map_option (\<lambda>g. hex_text (gq_wkb gq g)) (gr_geom r))] else [])"

definition signature_text :: "'g gov_sql \<Rightarrow> dataset_spec \<Rightarrow> 'g gov_row \<Rightarrow> string" where
  "signature_text gq spec r = join_with SEPARATOR (signature_parts gq spec r)"

definition content_signature :: "'g gov_sql \<Rightarrow> dataset_spec \<Rightarrow> 'g gov_row \<Rightarrow> string" where
  "content_signature gq spec r = gq_md5 gq (signature_text gq spec r)"

section \<open>Loading\<close>

definition MAX_EXAMPLE_IDS :: nat where "MAX_EXAMPLE_IDS = 20"
definition MIN_BUILDING_AREA_M2 :: rat where "MIN_BUILDING_AREA_M2 = 1"

record load_stats =
  ls_invalid_geometry :: nat
  ls_example_ids :: "string list"
  ls_oversized_geometry :: nat
  ls_oversized_example_ids :: "string list"
  ls_undersized_geometry :: nat
  ls_undersized_example_ids :: "string list"
  ls_missing_coordinates :: nat
  ls_missing_coordinates_example_ids :: "string list"
  ls_null_key :: nat
  ls_duplicate_key :: nat
  ls_duplicate_example_ids :: "string list"

definition non_null_key :: "dataset_spec \<Rightarrow> 'g gov_row \<Rightarrow> bool" where
  "non_null_key spec r \<longleftrightarrow> list_all (\<lambda>k. gr_cols r k \<noteq> None) (ds_key_columns spec)"

definition null_key :: "dataset_spec \<Rightarrow> 'g gov_row \<Rightarrow> bool" where
  "null_key spec r \<longleftrightarrow> list_ex (\<lambda>k. gr_cols r k = None) (ds_key_columns spec)"

text \<open>SQL's three-valued \<open>OR\<close>, and \<open>a >= 1\<close>, \<open>a < b\<close> with NULL.\<close>

fun or3 :: "bool option \<Rightarrow> bool option \<Rightarrow> bool option" where
  "or3 (Some True) _ = Some True"
| "or3 _ (Some True) = Some True"
| "or3 (Some False) (Some False) = Some False"
| "or3 _ _ = None"

text \<open>A filter of the load: the ids of the first rows its predicate is true of are read (an id that is
  NULL cannot be), then those rows are deleted.\<close>

definition delete_rows :: "('g gov_row \<Rightarrow> bool) \<Rightarrow> string \<Rightarrow> 'g gov_row list \<Rightarrow> string + (nat \<times> string list \<times> 'g gov_row list)" where
  "delete_rows p id_col rows =
     (let hit = filter p rows; ids = map (\<lambda>r. gr_cols r id_col) (take MAX_EXAMPLE_IDS hit)
      in if None \<in> set ids then Inl ''Failed to read id'' else Inr (length hit, map the ids, filter (\<lambda>r. \<not> p r) rows))"

definition invalid_geometry :: "'g gov_sql \<Rightarrow> 'g gov_row \<Rightarrow> bool" where
  "invalid_geometry gq r \<longleftrightarrow> map_option (\<lambda>g. \<not> gq_valid gq g) (gr_geom r) = Some True"

definition oversized_geometry :: "'g gov_sql \<Rightarrow> 'g gov_row \<Rightarrow> bool" where
  "oversized_geometry gq r \<longleftrightarrow>
     or3 (map_option (\<lambda>w. 1 \<le> w) (Option.bind (gr_geom r) (gq_x_extent gq)))
         (map_option (\<lambda>w. 1 \<le> w) (Option.bind (gr_geom r) (gq_y_extent gq))) = Some True"

definition undersized_geometry :: "'g gov_sql \<Rightarrow> 'g gov_row \<Rightarrow> bool" where
  "undersized_geometry gq r \<longleftrightarrow>
     or3 (map_option (gq_empty gq) (gr_geom r))
         (map_option (\<lambda>a. a < MIN_BUILDING_AREA_M2) (Option.bind (gr_geom r) (gq_area_m2 gq))) = Some True"

text \<open>The ranking of \<open>deduplicate_by_key\<close>: the newest version first, NULL last, then the smaller
  signature; rows that still tie are ranked as the scan meets them, here their position.\<close>

definition newer :: "int option \<Rightarrow> int option \<Rightarrow> bool" where
  "newer a b = (case a of None \<Rightarrow> False | Some x \<Rightarrow> (case b of None \<Rightarrow> True | Some y \<Rightarrow> y < x))"

definition ranks_before :: "'g gov_sql \<Rightarrow> dataset_spec \<Rightarrow> 'g gov_row \<Rightarrow> 'g gov_row \<Rightarrow> bool" where
  "ranks_before gq spec a b \<longleftrightarrow> newer (gr_version a) (gr_version b) \<or>
     gr_version a = gr_version b \<and> content_signature gq spec a < content_signature gq spec b"

definition outranked :: "'g gov_sql \<Rightarrow> dataset_spec \<Rightarrow> (nat \<times> 'g gov_row) list \<Rightarrow> nat \<times> 'g gov_row \<Rightarrow> bool" where
  "outranked gq spec rows ir \<longleftrightarrow> non_null_key spec (snd ir) \<and>
     list_ex (\<lambda>jr. row_key spec (snd jr) = row_key spec (snd ir) \<and>
       (ranks_before gq spec (snd jr) (snd ir) \<or>
        \<not> ranks_before gq spec (snd ir) (snd jr) \<and> fst jr < fst ir)) rows"

definition deduplicate_by_key :: "'g gov_sql \<Rightarrow> dataset_spec \<Rightarrow> string \<Rightarrow> 'g gov_row list \<Rightarrow>
    string + (nat \<times> string list \<times> 'g gov_row list)" where
  "deduplicate_by_key gq spec id_col rows =
     (let rs = enumerate 0 rows; hit = filter (outranked gq spec rs) rs;
          ids = map (\<lambda>ir. gr_cols (snd ir) id_col) (take MAX_EXAMPLE_IDS hit)
      in if None \<in> set ids then Inl ''Failed to read duplicate-key id''
         else Inr (length hit, map the ids, map snd (filter (\<lambda>ir. \<not> outranked gq spec rs ir) rs)))"

text \<open>\<open>load_into\<close> of the two building sources, on the rows of the file.\<close>

definition load_into :: "'g gov_sql \<Rightarrow> dataset_spec \<Rightarrow> string \<Rightarrow> 'g gov_row list \<Rightarrow> string + (load_stats \<times> 'g gov_row list)" where
  "load_into gq spec id_col file =
     (let loaded = map (with_centroid gq spec) (filter (non_null_key spec) file)
      in case delete_rows (invalid_geometry gq) id_col loaded of Inl e \<Rightarrow> Inl e
       | Inr (n1, ids1, rows1) \<Rightarrow>
      (case delete_rows (oversized_geometry gq) id_col rows1 of Inl e \<Rightarrow> Inl e
       | Inr (n2, ids2, rows2) \<Rightarrow>
      (case delete_rows (undersized_geometry gq) id_col rows2 of Inl e \<Rightarrow> Inl e
       | Inr (n3, ids3, rows3) \<Rightarrow>
      (case deduplicate_by_key gq spec id_col rows3 of Inl e \<Rightarrow> Inl e
       | Inr (n4, ids4, rows4) \<Rightarrow>
         Inr (\<lparr>ls_invalid_geometry = n1, ls_example_ids = ids1, ls_oversized_geometry = n2, ls_oversized_example_ids = ids2,
               ls_undersized_geometry = n3, ls_undersized_example_ids = ids3, ls_missing_coordinates = 0,
               ls_missing_coordinates_example_ids = [], ls_null_key = length (filter (null_key spec) file),
               ls_duplicate_key = n4, ls_duplicate_example_ids = ids4\<rparr>, rows4)))))"

section \<open>Messages\<close>

definition format_skip_clause :: "string \<Rightarrow> nat \<Rightarrow> string list \<Rightarrow> string" where
  "format_skip_clause reason skipped_rows ids =
     (if ids = [] then ''skipped '' @ show_nat skipped_rows @ '' '' @ reason @ '' rows''
      else let more = skipped_rows - length ids in
        ''skipped '' @ show_nat skipped_rows @ '' '' @ reason @ '' rows (ids: '' @ join_with '', '' ids @
        (if 0 < more then '', +'' @ show_nat more @ '' more)'' else '')''))"

text \<open>\<open>summarize\<close> of the two building imports.\<close>

definition skip_parts :: "load_stats \<Rightarrow> string list" where
  "skip_parts s =
     (if 0 < ls_null_key s then [format_skip_clause ''null-key'' (ls_null_key s) []] else []) @
     (if 0 < ls_invalid_geometry s then [format_skip_clause ''invalid-geometry'' (ls_invalid_geometry s) (ls_example_ids s)] else []) @
     (if 0 < ls_oversized_geometry s then [format_skip_clause ''oversized-geometry'' (ls_oversized_geometry s) (ls_oversized_example_ids s)] else []) @
     (if 0 < ls_undersized_geometry s then [format_skip_clause ''undersized-geometry'' (ls_undersized_geometry s) (ls_undersized_example_ids s)] else []) @
     (if 0 < ls_duplicate_key s then [format_skip_clause ''duplicate-key'' (ls_duplicate_key s) (ls_duplicate_example_ids s)] else [])"

definition summarize :: "load_stats \<Rightarrow> string" where
  "summarize s = (if skip_parts s = [] then ''no rows skipped'' else join_with ''; '' (skip_parts s))"

section \<open>The signature tells what the diff tells\<close>

definition plain :: "string \<Rightarrow> bool" where
  "plain s \<longleftrightarrow> CHR 0x1E \<notin> set s \<and> CHR 0x1F \<notin> set s"

definition plain_row :: "dataset_spec \<Rightarrow> 'g gov_row \<Rightarrow> bool" where
  "plain_row spec r \<longleftrightarrow> (\<forall>c\<in>set (ds_compared_columns spec). \<forall>v. gr_cols r c = Some v \<longrightarrow> plain v)"

lemma upper_hex_value: "n < 16 \<Longrightarrow> (of_char (upper_hex n) :: nat) = (if n < 10 then 48 + n else 55 + n)"
  by (simp add: upper_hex_def)

lemma upper_hex_eq: "m < 16 \<Longrightarrow> n < 16 \<Longrightarrow> upper_hex m = upper_hex n \<longleftrightarrow> m = n"
proof -
  assume "m < 16" "n < 16"
  note vals = upper_hex_value [OF this(1)] upper_hex_value [OF this(2)]
  have "m = n" if "upper_hex m = upper_hex n"
  proof -
    have "(if m < 10 then 48 + m else 55 + m) = (if n < 10 then 48 + n else 55 + n)"
      using vals that by metis
    then show ?thesis by (simp split: if_splits)
  qed
  then show ?thesis by blast
qed

lemma upper_hex_plain: "n < 16 \<Longrightarrow> upper_hex n \<noteq> CHR 0x1E \<and> upper_hex n \<noteq> CHR 0x1F"
  using upper_hex_value [of n] by (auto split: if_splits)

lemma char_nibbles: "c = d \<longleftrightarrow> (of_char c :: nat) div 16 = of_char d div 16 \<and> (of_char c :: nat) mod 16 = of_char d mod 16"
  by (metis div_mult_mod_eq of_char_eq_iff)

lemma nibble_bounds: "(of_char c :: nat) div 16 < 16" "(of_char c :: nat) mod 16 < 16"
proof -
  have "(of_char c :: nat) < 256" using of_char_mod_256 [of c] mod_less_divisor [of 256] by (metis zero_less_numeral)
  then show "(of_char c :: nat) div 16 < 16" by (simp add: less_mult_imp_div_less)
qed simp

lemma hex_text_eq: "hex_text s = hex_text t \<longleftrightarrow> s = t"
proof (induction s arbitrary: t)
  case Nil
  show ?case by (cases t) auto
next
  case step: (Cons c cs)
  show ?case
  proof (cases t)
    case Nil
    then show ?thesis by simp
  next
    case (Cons d ds)
    then show ?thesis
      using step.IH [of ds] char_nibbles [of c d] by (simp add: upper_hex_eq nibble_bounds)
  qed
qed

lemma hex_text_plain: "plain (hex_text s)"
proof (induction s)
  case (Cons c cs)
  then show ?case using upper_hex_plain nibble_bounds by (auto simp: plain_def dest: sym)
qed (simp add: plain_def)

lemma coalesce_eq:
  "(\<And>v. x = Some v \<Longrightarrow> plain v) \<Longrightarrow> (\<And>v. y = Some v \<Longrightarrow> plain v) \<Longrightarrow> coalesce x = coalesce y \<longleftrightarrow> x = y"
  by (cases x; cases y) (auto simp: coalesce_def NULL_SENTINEL_def plain_def)

lemma coalesce_no_separator: "(\<And>v. x = Some v \<Longrightarrow> plain v) \<Longrightarrow> CHR 0x1F \<notin> set (coalesce x)"
  by (cases x) (auto simp: coalesce_def NULL_SENTINEL_def plain_def)

lemma join_eq:
  assumes "length xs = length ys" "\<forall>x\<in>set xs. c \<notin> set x" "\<forall>y\<in>set ys. c \<notin> set y"
  shows "join_with [c] xs = join_with [c] ys \<longleftrightarrow> xs = ys"
  using assms split_join by (metis length_0_conv)

lemma column_separated: "plain_row spec r \<Longrightarrow> c \<in> set (ds_compared_columns spec) \<Longrightarrow> CHR 0x1F \<notin> set (coalesce (gr_cols r c))"
  by (rule coalesce_no_separator) (simp add: plain_row_def)

lemma geometry_separated: "CHR 0x1F \<notin> set (coalesce (map_option (\<lambda>g. hex_text (f g)) x))"
  by (rule coalesce_no_separator) (auto simp: hex_text_plain)

lemma parts_separated: "plain_row spec r \<Longrightarrow> \<forall>x\<in>set (signature_parts gq spec r). CHR 0x1F \<notin> set x"
  using column_separated geometry_separated [of "gq_wkb gq" "gr_geom r"] by (auto simp: signature_parts_def)

lemma parts_eq:
  assumes "plain_row spec a" "plain_row spec b"
  shows "signature_parts gq spec a = signature_parts gq spec b \<longleftrightarrow> \<not> changed_predicate gq spec a b"
proof -
  have "coalesce (gr_cols a c) = coalesce (gr_cols b c) \<longleftrightarrow> gr_cols a c = gr_cols b c" if "c \<in> set (ds_compared_columns spec)" for c
    using assms that by (intro coalesce_eq) (auto simp: plain_row_def)
  moreover have "coalesce (map_option (\<lambda>g. hex_text (gq_wkb gq g)) (gr_geom a)) = coalesce (map_option (\<lambda>g. hex_text (gq_wkb gq g)) (gr_geom b)) \<longleftrightarrow>
      map_option (gq_wkb gq) (gr_geom a) = map_option (gq_wkb gq) (gr_geom b)"
    using hex_text_plain hex_text_eq by (subst coalesce_eq) (auto simp: map_option_case split: option.splits)
  ultimately show ?thesis by (auto simp: signature_parts_def changed_predicate_def)
qed

lemma signature_text_eq:
  assumes "plain_row spec a" "plain_row spec b"
  shows "signature_text gq spec a = signature_text gq spec b \<longleftrightarrow> \<not> changed_predicate gq spec a b"
proof -
  have "length (signature_parts gq spec a) = length (signature_parts gq spec b)" by (simp add: signature_parts_def)
  then show ?thesis
    using join_eq parts_separated [OF assms(1)] parts_separated [OF assms(2)] parts_eq [OF assms]
    unfolding signature_text_def SEPARATOR_def by metis
qed

lemma compared_eq: "compared gq spec a = compared gq spec b \<longleftrightarrow> \<not> changed_predicate gq spec a b"
  by (auto simp: compared_def changed_predicate_def)

section \<open>Deduplication\<close>

definition version_rank :: "int option \<Rightarrow> nat \<times> int" where
  "version_rank v = (case v of Some x \<Rightarrow> (0, - x) | None \<Rightarrow> (1, 0))"

definition row_rank :: "'g gov_sql \<Rightarrow> dataset_spec \<Rightarrow> 'g gov_row \<Rightarrow> (nat \<times> int) \<times> string" where
  "row_rank gq spec r = (version_rank (gr_version r), content_signature gq spec r)"

lemma version_rank_eq: "version_rank a = version_rank b \<longleftrightarrow> a = b"
  by (auto simp: version_rank_def split: option.splits)

lemma newer_rank: "newer a b \<longleftrightarrow> version_rank a < version_rank b"
  by (auto simp: newer_def version_rank_def less_prod_def split: option.splits)

lemma ranks_before_rank: "ranks_before gq spec a b \<longleftrightarrow> row_rank gq spec a < row_rank gq spec b"
  unfolding ranks_before_def row_rank_def newer_rank less_prod_simp
  by (auto simp: order.order_iff_strict version_rank_eq)

lemma outranked_iff:
  "outranked gq spec rows (i, r) \<longleftrightarrow> non_null_key spec r \<and>
     (\<exists>(j, s)\<in>set rows. row_key spec s = row_key spec r \<and> (row_rank gq spec s, j) < (row_rank gq spec r, i))"
proof -
  have "(ranks_before gq spec s r \<or> \<not> ranks_before gq spec r s \<and> j < i) \<longleftrightarrow> (row_rank gq spec s, j) < (row_rank gq spec r, i)" for s j
    by (auto simp: ranks_before_rank)
  then show ?thesis by (simp add: outranked_def list_ex_iff split_def)
qed

definition survivors :: "'g gov_sql \<Rightarrow> dataset_spec \<Rightarrow> 'g gov_row list \<Rightarrow> 'g gov_row list" where
  "survivors gq spec rows = map snd (filter (\<lambda>ir. \<not> outranked gq spec (enumerate 0 rows) ir) (enumerate 0 rows))"

lemma survivors_subset: "set (survivors gq spec rows) \<subseteq> set rows"
  by (auto simp: survivors_def in_set_enumerate_eq)

lemma survivor_exists:
  assumes "r \<in> set rows"
  shows "\<exists>s\<in>set (survivors gq spec rows). row_key spec s = row_key spec r \<and> row_rank gq spec s \<le> row_rank gq spec r"
proof -
  let ?rs = "enumerate 0 rows"
  obtain i where i: "(i, r) \<in> set ?rs" using assms by (auto simp: in_set_enumerate_eq in_set_conv_nth [of r])
  let ?same = "{(j, s). (j, s) \<in> set ?rs \<and> row_key spec s = row_key spec r}"
  have fin: "finite ?same" by (rule finite_subset [of _ "set ?rs"]) auto
  let ?f = "\<lambda>(j, s). (row_rank gq spec s, j)"
  have "?same \<noteq> {}" using i by auto
  then obtain j s where js: "(j, s) \<in> ?same" "\<forall>x\<in>?same. ?f (j, s) \<le> ?f x"
    using fin arg_min_if_finite [of ?same ?f] by (metis (no_types, lifting) arg_min_least surj_pair)
  have "\<not> outranked gq spec ?rs (j, s)"
  proof
    assume "outranked gq spec ?rs (j, s)"
    then obtain k t where kt: "(k, t) \<in> set ?rs" "row_key spec t = row_key spec s" "?f (k, t) < ?f (j, s)"
      unfolding outranked_iff by auto
    then have "(k, t) \<in> ?same" using js(1) by simp
    then have "?f (j, s) \<le> ?f (k, t)" using js(2) by blast
    with kt(3) show False using leD by blast
  qed
  then have "s \<in> set (survivors gq spec rows)" using js(1) by (force simp: survivors_def)
  moreover have "row_rank gq spec s \<le> row_rank gq spec r"
  proof -
    have "(i, r) \<in> ?same" using i by simp
    then have "?f (j, s) \<le> ?f (i, r)" using js(2) by blast
    then show ?thesis by auto
  qed
  ultimately show ?thesis using js(1) by blast
qed

lemma survivors_distinct:
  assumes "\<forall>r\<in>set rows. non_null_key spec r"
  shows "distinct (map (row_key spec) (survivors gq spec rows))"
proof -
  let ?rs = "enumerate 0 rows"
  let ?kept = "filter (\<lambda>ir. \<not> outranked gq spec ?rs ir) ?rs"
  have "i = j \<and> r = s" if kept: "(i, r) \<in> set ?kept" "(j, s) \<in> set ?kept" and key: "row_key spec r = row_key spec s" for i r j s
  proof -
    have null: "non_null_key spec r" "non_null_key spec s"
      using kept assms by (auto simp: in_set_enumerate_eq)
    have "\<not> (row_rank gq spec s, j) < (row_rank gq spec r, i)" "\<not> (row_rank gq spec r, i) < (row_rank gq spec s, j)"
      using kept key null by (auto simp: outranked_iff)
    then have "i = j" by (metis linorder_less_linear prod.inject)
    then show ?thesis using kept by (auto simp: in_set_enumerate_eq)
  qed
  then have "inj_on (row_key spec \<circ> snd) (set ?kept)" by (auto simp: inj_on_def)
  moreover have "distinct ?kept" by (simp add: distinct_enumerate)
  ultimately show ?thesis by (simp add: survivors_def distinct_map)
qed

section \<open>Loading\<close>

text \<open>A record of the file that can be served.\<close>

definition usable :: "'g gov_sql \<Rightarrow> dataset_spec \<Rightarrow> 'g gov_row \<Rightarrow> bool" where
  "usable gq spec f \<longleftrightarrow> non_null_key spec f \<and> \<not> invalid_geometry gq (with_centroid gq spec f) \<and>
     \<not> oversized_geometry gq (with_centroid gq spec f) \<and> \<not> undersized_geometry gq (with_centroid gq spec f)"

lemma with_centroid_cols [simp]: "gr_cols (with_centroid gq spec r) = gr_cols r"
  by (simp add: with_centroid_def split: geom_kind.split)

lemma with_centroid_keys [simp]: "non_null_key spec' (with_centroid gq spec r) = non_null_key spec' r"
  "row_key spec' (with_centroid gq spec r) = row_key spec' r"
  by (simp_all add: non_null_key_def row_key_def)

lemma delete_rows_ok:
  assumes "\<forall>r\<in>set rows. gr_cols r id_col \<noteq> None"
  shows "\<exists>n ids. delete_rows p id_col rows = Inr (n, ids, filter (\<lambda>r. \<not> p r) rows)"
proof -
  have "None \<notin> set (map (\<lambda>r. gr_cols r id_col) (take MAX_EXAMPLE_IDS (filter p rows)))"
    using assms in_set_takeD by fastforce
  then show ?thesis by (simp add: delete_rows_def Let_def)
qed

lemma deduplicate_ok:
  assumes "\<forall>r\<in>set rows. gr_cols r id_col \<noteq> None"
  shows "\<exists>n ids. deduplicate_by_key gq spec id_col rows = Inr (n, ids, survivors gq spec rows)"
proof -
  have "gr_cols (snd ir) id_col \<noteq> None" if "ir \<in> set (take n (filter p (enumerate 0 rows)))" for ir n p
  proof -
    have "snd ir \<in> set rows" using that by (auto simp: in_set_enumerate_eq dest!: in_set_takeD) (metis nth_mem)
    then show ?thesis using assms by blast
  qed
  then have "None \<notin> set (map (\<lambda>ir. gr_cols (snd ir) id_col) (take n (filter p (enumerate 0 rows))))" for n p
    by (auto simp del: in_set_enumerate_eq) (metis option.distinct(1))
  then show ?thesis by (simp add: deduplicate_by_key_def survivors_def Let_def)
qed

lemma key_column_present: "id_col \<in> set (ds_key_columns spec) \<Longrightarrow> non_null_key spec r \<Longrightarrow> gr_cols r id_col \<noteq> None"
  by (simp add: non_null_key_def list_all_iff)

lemma load_into_ok:
  assumes "id_col \<in> set (ds_key_columns spec)"
  shows "\<exists>st. load_into gq spec id_col file =
    Inr (st, survivors gq spec (map (with_centroid gq spec) (filter (usable gq spec) file)))"
proof -
  let ?loaded = "map (with_centroid gq spec) (filter (non_null_key spec) file)"
  let ?rows1 = "filter (\<lambda>r. \<not> invalid_geometry gq r) ?loaded"
  let ?rows2 = "filter (\<lambda>r. \<not> oversized_geometry gq r) ?rows1"
  let ?rows3 = "filter (\<lambda>r. \<not> undersized_geometry gq r) ?rows2"
  have present: "\<forall>r\<in>set ?loaded. gr_cols r id_col \<noteq> None"
    using key_column_present [OF assms] by auto
  obtain n1 ids1 where s1: "delete_rows (invalid_geometry gq) id_col ?loaded = Inr (n1, ids1, ?rows1)"
    using delete_rows_ok [OF present] by blast
  have "\<forall>r\<in>set ?rows1. gr_cols r id_col \<noteq> None" using present by (metis filter_is_subset subsetD)
  from delete_rows_ok [OF this] obtain n2 ids2 where s2: "delete_rows (oversized_geometry gq) id_col ?rows1 = Inr (n2, ids2, ?rows2)"
    by blast
  have "\<forall>r\<in>set ?rows2. gr_cols r id_col \<noteq> None" using present by (metis filter_is_subset subsetD)
  from delete_rows_ok [OF this] obtain n3 ids3 where s3: "delete_rows (undersized_geometry gq) id_col ?rows2 = Inr (n3, ids3, ?rows3)"
    by blast
  have "\<forall>r\<in>set ?rows3. gr_cols r id_col \<noteq> None" using present by (metis filter_is_subset subsetD)
  from deduplicate_ok [OF this] obtain n4 ids4 where s4: "deduplicate_by_key gq spec id_col ?rows3 = Inr (n4, ids4, survivors gq spec ?rows3)"
    by blast
  have "?rows3 = map (with_centroid gq spec) (filter (usable gq spec) file)"
    by (simp add: filter_map o_def usable_def conj_ac cong: filter_cong)
  then show ?thesis
    using s1 s2 s3 s4 unfolding load_into_def Let_def by simp
qed

definition keyed :: "dataset_spec \<Rightarrow> 'g gov_row list \<Rightarrow> bool" where
  "keyed spec rows \<longleftrightarrow> distinct (map (row_key spec) rows) \<and> (\<forall>r\<in>set rows. non_null_key spec r)"

lemma keyed_unique: "keyed spec rows \<Longrightarrow> a \<in> set rows \<Longrightarrow> b \<in> set rows \<Longrightarrow> row_key spec a = row_key spec b \<Longrightarrow> a = b"
  by (auto simp: keyed_def distinct_map inj_on_def)

lemma row_key_usable: "non_null_key spec r \<longleftrightarrow> None \<notin> set (row_key spec r)"
  by (force simp: non_null_key_def row_key_def list_all_iff)

text \<open>What a load keeps of a file: one row for each key with a usable record, with the content of the newest.\<close>

definition staged_from :: "'g gov_sql \<Rightarrow> dataset_spec \<Rightarrow> 'g gov_row list \<Rightarrow> 'g gov_row list \<Rightarrow> bool" where
  "staged_from gq spec file rows \<longleftrightarrow> keyed spec rows \<and>
     (\<forall>r\<in>set rows. \<exists>f\<in>set file. usable gq spec f \<and> row_key spec f = row_key spec r \<and> compared gq spec (with_centroid gq spec f) = compared gq spec r \<and>
        (\<forall>g\<in>set file. usable gq spec g \<longrightarrow> row_key spec g = row_key spec f \<longrightarrow> \<not> newer (gr_version g) (gr_version f))) \<and>
     (\<forall>f\<in>set file. usable gq spec f \<longrightarrow> (\<exists>r\<in>set rows. row_key spec r = row_key spec f))"

lemma survivors_staged:
  "staged_from gq spec file (survivors gq spec (map (with_centroid gq spec) (filter (usable gq spec) file)))"
proof -
  let ?u = "map (with_centroid gq spec) (filter (usable gq spec) file)"
  let ?rows = "survivors gq spec ?u"
  have nn: "\<forall>r\<in>set ?u. non_null_key spec r" by (auto simp: usable_def)
  have keyed: "keyed spec ?rows"
    using survivors_distinct [OF nn] survivors_subset [of gq spec ?u] nn by (auto simp: keyed_def)
  have version: "gr_version (with_centroid gq spec f) = gr_version f" for f
    by (simp add: with_centroid_def split: geom_kind.split)
  have kept: "\<exists>r\<in>set ?rows. row_key spec r = row_key spec f \<and> \<not> newer (gr_version f) (gr_version r)"
    if "f \<in> set file" "usable gq spec f" for f
  proof -
    have "with_centroid gq spec f \<in> set ?u" using that by auto
    from survivor_exists [OF this] obtain r where r: "r \<in> set ?rows" "row_key spec r = row_key spec f"
      "row_rank gq spec r \<le> row_rank gq spec (with_centroid gq spec f)" by auto
    with version [of f] have "version_rank (gr_version r) \<le> version_rank (gr_version f)" by (auto simp: row_rank_def)
    with r(1,2) show ?thesis unfolding newer_rank by (metis leD)
  qed
  have "\<exists>f\<in>set file. usable gq spec f \<and> row_key spec f = row_key spec r \<and> compared gq spec (with_centroid gq spec f) = compared gq spec r \<and>
      (\<forall>g\<in>set file. usable gq spec g \<longrightarrow> row_key spec g = row_key spec f \<longrightarrow> \<not> newer (gr_version g) (gr_version f))" if r: "r \<in> set ?rows" for r
  proof -
    obtain f where f: "f \<in> set file" "usable gq spec f" "r = with_centroid gq spec f"
      using subsetD [OF survivors_subset r] by auto
    have "\<not> newer (gr_version g) (gr_version f)" if "g \<in> set file" "usable gq spec g" "row_key spec g = row_key spec f" for g
      using kept [OF that(1,2)] keyed_unique [OF keyed _ r] that(3) f(3) version [of f] with_centroid_keys(2) by metis
    with f show ?thesis by auto
  qed
  with keyed kept show ?thesis unfolding staged_from_def by blast
qed

lemma survivors_agree:
  assumes "set rows = set rows'" "\<forall>r\<in>set rows. non_null_key spec r"
    and "r \<in> set (survivors gq spec rows)" "r' \<in> set (survivors gq spec rows')" "row_key spec r = row_key spec r'"
  shows "row_rank gq spec r = row_rank gq spec r'"
proof -
  have le: "row_rank gq spec b \<le> row_rank gq spec a"
    if "set xs = set ys" "\<forall>r\<in>set ys. non_null_key spec r" "a \<in> set (survivors gq spec xs)" "b \<in> set (survivors gq spec ys)" "row_key spec a = row_key spec b"
    for a b xs ys
  proof -
    have "a \<in> set ys" using that(1,3) survivors_subset by blast
    then obtain c where c: "c \<in> set (survivors gq spec ys)" "row_key spec c = row_key spec a" "row_rank gq spec c \<le> row_rank gq spec a"
      using survivor_exists by blast
    have "c = b"
      using survivors_distinct [OF that(2), of gq] c(1,2) that(4,5) by (simp add: distinct_map inj_on_def)
    with c(3) show ?thesis by simp
  qed
  show ?thesis
    using le [OF assms(1) _ assms(3,4,5)] le [OF assms(1) [symmetric] assms(2) assms(4,3) assms(5) [symmetric]] assms(1,2) by force
qed

section \<open>Properties\<close>

text \<open>The three answers to "did this record change" are one answer. For two versions of a record whose
  compared columns hold no control characters 30 and 31, and on which \<open>md5\<close> and \<open>hash\<close> do not collide,
  the signature stored with a report and the hash the diff joins on differ exactly when the compared
  columns (with NULL equal to NULL), or the geometry where the source compares it, differ.\<close>

theorem signature_and_diff_agree:
  assumes "plain_row spec a" "plain_row spec b"
    and "gq_md5 gq (signature_text gq spec a) = gq_md5 gq (signature_text gq spec b) \<Longrightarrow>
      signature_text gq spec a = signature_text gq spec b"
    and "content_hash gq spec a = content_hash gq spec b \<Longrightarrow> compared gq spec a = compared gq spec b"
  shows "(content_signature gq spec a \<noteq> content_signature gq spec b \<longleftrightarrow> changed_predicate gq spec a b) \<and>
    (content_hash gq spec a \<noteq> content_hash gq spec b \<longleftrightarrow> changed_predicate gq spec a b)"
proof -
  have "compared gq spec a = compared gq spec b \<Longrightarrow> content_hash gq spec a = content_hash gq spec b"
    by (simp add: content_hash_def)
  then show ?thesis
    using assms(3,4) signature_text_eq [OF assms(1,2)] compared_eq unfolding content_signature_def by metis
qed

definition demo_sql :: "nat gov_sql" where
  "demo_sql = \<lparr>gq_wkb = (\<lambda>g. show_nat g), gq_md5 = (\<lambda>s. s), gq_hash = (\<lambda>vs. of_nat (length (concat (map coalesce vs)))),
     gq_centroid = Some, gq_cell = (\<lambda>g. (int g, 0)), gq_valid = (\<lambda>g. True), gq_empty = (\<lambda>g. False),
     gq_x_extent = (\<lambda>g. Some 0), gq_y_extent = (\<lambda>g. Some 0), gq_area_m2 = (\<lambda>g. Some (of_nat g))\<rparr>"

definition demo_row :: "string \<Rightarrow> string option \<Rightarrow> int option \<Rightarrow> nat \<Rightarrow> nat gov_row" where
  "demo_row key rodzaj v g = \<lparr>gr_cols = [''id_budynku'' \<mapsto> key] ++ (case rodzaj of None \<Rightarrow> Map.empty | Some k \<Rightarrow> [''rodzaj'' \<mapsto> k]),
     gr_version = v, gr_geom = Some g, gr_centroid = Some g\<rparr>"

theorem signature_and_diff_agree_witness:
  "content_signature demo_sql EGIB (demo_row ''B1'' None None 5) \<noteq> content_signature demo_sql EGIB (demo_row ''B1'' (Some ''m'') None 50)"
  using signature_and_diff_agree [of EGIB "demo_row ''B1'' None None 5" "demo_row ''B1'' (Some ''m'') None 50" demo_sql]
  by (simp add: plain_row_def plain_def demo_row_def EGIB_def content_hash_def compared_def changed_predicate_def demo_sql_def coalesce_def
    NULL_SENTINEL_def show_numeral)

text \<open>C33: loading is reproducible as far as anything can tell: two loads of the same rows, met in whatever
  order, keep the same records, and the diff between them is empty, on data without the control
  characters and \<open>md5\<close> collisions.\<close>

theorem reloading_changes_nothing:
  assumes "id_col \<in> set (ds_key_columns spec)" "mset file = mset file'"
    and "load_into gq spec id_col file = Inr (st, rows)" "load_into gq spec id_col file' = Inr (st', rows')"
    and "\<forall>f\<in>set file. plain_row spec f"
    and "inj_on (gq_md5 gq) (signature_text gq spec ` with_centroid gq spec ` set file)"
  shows "row_key spec ` set rows = row_key spec ` set rows' \<and>
    (\<forall>r\<in>set rows. \<forall>r'\<in>set rows'. row_key spec r = row_key spec r' \<longrightarrow>
       gr_version r = gr_version r' \<and> \<not> changed_predicate gq spec r r')"
proof -
  let ?u = "\<lambda>fs. map (with_centroid gq spec) (filter (usable gq spec) fs)"
  have rows: "rows = survivors gq spec (?u file)" "rows' = survivors gq spec (?u file')"
    using load_into_ok [OF assms(1)] assms(3,4) by (metis Inr_inject prod.inject)+
  have same: "set (?u file) = set (?u file')" using mset_eq_setD [OF assms(2)] by simp
  have nn: "\<forall>r\<in>set (?u file). non_null_key spec r" by (auto simp: usable_def)
  have "row_key spec ` set (survivors gq spec xs) = row_key spec ` set xs" for xs
  proof
    show "row_key spec ` set xs \<subseteq> row_key spec ` set (survivors gq spec xs)"
    proof
      fix k assume "k \<in> row_key spec ` set xs"
      then obtain x where "x \<in> set xs" "k = row_key spec x" by blast
      with survivor_exists [of x xs gq spec] show "k \<in> row_key spec ` set (survivors gq spec xs)" by (metis imageI)
    qed
  qed (use survivors_subset in blast)
  then have keys: "row_key spec ` set rows = row_key spec ` set rows'" using same rows by simp
  have "gr_version r = gr_version r' \<and> \<not> changed_predicate gq spec r r'"
    if r: "r \<in> set rows" "r' \<in> set rows'" "row_key spec r = row_key spec r'" for r r'
  proof -
    have rank: "row_rank gq spec r = row_rank gq spec r'"
      using survivors_agree [OF same nn] r rows by blast
    have in_file: "\<exists>f\<in>set file. x = with_centroid gq spec f" if "x \<in> set rows \<or> x \<in> set rows'" for x
      using that rows survivors_subset [of gq spec "?u file"] survivors_subset [of gq spec "?u file'"] mset_eq_setD [OF assms(2)] by fastforce
    have image: "signature_text gq spec x \<in> signature_text gq spec ` with_centroid gq spec ` set file" if "x \<in> set rows \<or> x \<in> set rows'" for x
      using in_file [OF that] by (metis imageI)
    have texts: "signature_text gq spec r = signature_text gq spec r'"
      using rank image [of r] image [of r'] r(1,2) inj_onD [OF assms(6)] by (simp add: row_rank_def content_signature_def)
    have "plain_row spec (with_centroid gq spec f)" if "f \<in> set file" for f
      using assms(5) that by (simp add: plain_row_def)
    then have "plain_row spec r" "plain_row spec r'"
      using in_file [of r] in_file [of r'] r(1,2) by blast+
    then show ?thesis using rank texts signature_text_eq by (auto simp: row_rank_def version_rank_eq)
  qed
  with keys show ?thesis by blast
qed

definition demo_file :: "nat gov_row list" where
  "demo_file = [demo_row ''B1'' (Some ''m'') (Some 2) 0, demo_row ''B1'' None (Some 1) 40, demo_row ''B1'' (Some ''g'') (Some 1) 40,
     demo_row ''B2'' None None 60]"

text \<open>The newest row of \<open>B1\<close> has no area, so an older one is kept, and of those two that tie the one
  with the smaller signature, in either order of the file.\<close>

definition loaded_keys :: "string + load_stats \<times> nat gov_row list \<Rightarrow> (string option list \<times> nat option) list option" where
  "loaded_keys res = (case res of Inl e \<Rightarrow> None | Inr (st, rows) \<Rightarrow> Some (map (\<lambda>r. (row_key EGIB r, gr_geom r)) rows))"

lemma demo_loaded:
  "loaded_keys (load_into demo_sql EGIB ''id_budynku'' demo_file) = Some [([Some ''B1''], Some 40), ([Some ''B2''], Some 60)]"
  "loaded_keys (load_into demo_sql EGIB ''id_budynku'' (rev demo_file)) = Some [([Some ''B2''], Some 60), ([Some ''B1''], Some 40)]"
  by code_simp+

theorem reloading_changes_nothing_witness:
  "\<exists>st rows st' rows'. load_into demo_sql EGIB ''id_budynku'' demo_file = Inr (st, rows) \<and>
     load_into demo_sql EGIB ''id_budynku'' (rev demo_file) = Inr (st', rows') \<and> rows \<noteq> [] \<and>
     (\<forall>r\<in>set rows. \<forall>r'\<in>set rows'. row_key EGIB r = row_key EGIB r' \<longrightarrow> \<not> changed_predicate demo_sql EGIB r r')"
proof -
  obtain st rows st' rows' where l: "load_into demo_sql EGIB ''id_budynku'' demo_file = Inr (st, rows)"
    "load_into demo_sql EGIB ''id_budynku'' (rev demo_file) = Inr (st', rows')"
    using demo_loaded by (auto simp: loaded_keys_def split: sum.splits)
  have "\<forall>f\<in>set demo_file. plain_row EGIB f"
    by (simp add: demo_file_def plain_row_def plain_def demo_row_def EGIB_def)
  moreover have "inj_on (gq_md5 demo_sql) A" for A by (simp add: demo_sql_def inj_on_def)
  ultimately show ?thesis
    using reloading_changes_nothing [OF _ _ l] l demo_loaded(1) by (fastforce simp: EGIB_def loaded_keys_def)
qed
end
