(* ===== verification/Reports.thy ===== *)
theory Reports
  imports Dataset Compare_Buildings
begin

text \<open>
  \<open>src/reports/mod.rs\<close> and the validation of \<open>src/server/reports.rs\<close>: the reports that keep an object from
  being offered. The state is the live source tables, \<open>object_reports\<close> and the two dirty queues. A
  queue row is a source, a cell (\<open>None\<close> for a NULL pair) and a time. A transaction reads the state it
  began with and commits all of its statements or none; \<open>reconcile_source\<close> opens none of its own, so
  outside a caller's transaction other connections commit between its statements. The JSON parser
  is a parameter; times are microseconds.
\<close>

section \<open>State\<close>

record object_report =
  or_id :: nat
  or_source :: string
  or_key :: "string list"
  or_signature :: "string option"
  or_reported_at :: nat
  or_cell :: "cell option"
  or_status :: string
  or_resolved_at :: "nat option"

record 'g gov_db =
  gb_live :: "string \<Rightarrow> 'g gov_row list"
  gb_reports :: "object_report list"
  gb_match :: "(string \<times> cell option \<times> nat) list"
  gb_tiles :: "(cell option \<times> nat) list"

definition STATUS_EXPIRED :: string where "STATUS_EXPIRED = ''expired''"
definition STATUS_REVOKED :: string where "STATUS_REVOKED = ''revoked''"

record report_target =
  rt_spec :: dataset_spec
  rt_key :: "string list"

datatype report_outcome = Accepted nat | UnknownRecord

record insert_stats =
  is_accepted :: nat
  is_rejected :: nat
  is_cells_enqueued :: nat

text \<open>A record key compared as a list, NULL equal to NULL: a submitted key holds no NULL.\<close>

definition key_is :: "dataset_spec \<Rightarrow> string list \<Rightarrow> 'g gov_row \<Rightarrow> bool" where
  "key_is spec key b \<longleftrightarrow> row_key spec b = map Some key"

definition next_report_id :: "'g gov_db \<Rightarrow> nat" where
  "next_report_id db = (if gb_reports db = [] then 0 else Max (set (map or_id (gb_reports db)))) + 1"

text \<open>The cells of the reports a predicate selects: one row per distinct source and cell in
  \<open>match_dirty_cells\<close>, one per distinct cell in \<open>tile_dirty_cells\<close>.\<close>

definition enqueue_match_for_reports :: "nat \<Rightarrow> (object_report \<Rightarrow> bool) \<Rightarrow> 'g gov_db \<Rightarrow> nat \<times> 'g gov_db" where
  "enqueue_match_for_reports now p db =
     (let cells = remdups (map (\<lambda>r. (or_source r, or_cell r)) (filter (\<lambda>r. p r \<and> or_cell r \<noteq> None) (gb_reports db)))
      in (length cells, db\<lparr>gb_match := gb_match db @ map (\<lambda>(s, c). (s, c, now)) cells\<rparr>))"

definition enqueue_tiles_for_reports :: "nat \<Rightarrow> (object_report \<Rightarrow> bool) \<Rightarrow> 'g gov_db \<Rightarrow> 'g gov_db" where
  "enqueue_tiles_for_reports now p db =
     db\<lparr>gb_tiles := gb_tiles db @ map (\<lambda>c. (c, now))
        (remdups (map or_cell (filter (\<lambda>r. p r \<and> or_cell r \<noteq> None) (gb_reports db))))\<rparr>"

section \<open>Insert\<close>

definition new_reports :: "'g gov_sql \<Rightarrow> nat \<Rightarrow> report_target \<Rightarrow> nat \<Rightarrow> 'g gov_db \<Rightarrow> object_report list" where
  "new_reports gq now t report_id db =
     (let spec = rt_spec t in map (\<lambda>b. \<lparr>or_id = report_id, or_source = ds_name spec, or_key = rt_key t,
          or_signature = Some (content_signature gq spec b), or_reported_at = now,
          or_cell = map_option (gq_cell gq) (representative_point spec b), or_status = REPORT_ACTIVE, or_resolved_at = None\<rparr>)
        (filter (\<lambda>b. key_is spec (rt_key t) b \<and> gr_geom b \<noteq> None) (gb_live db (ds_table spec))))"

definition insert_one :: "'g gov_sql \<Rightarrow> nat \<Rightarrow> report_target \<Rightarrow> nat \<Rightarrow> 'g gov_db \<Rightarrow> bool \<times> 'g gov_db" where
  "insert_one gq now t report_id db =
     (let new = new_reports gq now t report_id db in (new \<noteq> [], db\<lparr>gb_reports := gb_reports db @ new\<rparr>))"

text \<open>\<open>fails i\<close>: the insert of target \<open>i\<close> fails.\<close>

fun insert_targets :: "'g gov_sql \<Rightarrow> nat \<Rightarrow> (nat \<Rightarrow> bool) \<Rightarrow> nat \<Rightarrow> report_target list \<Rightarrow> nat \<Rightarrow> 'g gov_db \<Rightarrow>
    (string + report_outcome list \<times> nat) \<times> 'g gov_db" where
  "insert_targets gq now fails i [] next_id db = (Inr ([], next_id), db)"
| "insert_targets gq now fails i (t # ts) next_id db =
     (if fails i then (Inl ''Failed to insert report'', db)
      else case insert_one gq now t next_id db of (inserted, db1) \<Rightarrow>
        case insert_targets gq now fails (Suc i) ts (if inserted then next_id + 1 else next_id) db1 of
          (Inl e, db2) \<Rightarrow> (Inl e, db2)
        | (Inr (outs, next_id'), db2) \<Rightarrow> (Inr ((if inserted then Accepted next_id else UnknownRecord) # outs, next_id'), db2))"

record report_faults =
  rf_begin :: bool
  rf_read :: bool
  rf_row :: "nat \<Rightarrow> bool"
  rf_match :: bool
  rf_tiles :: bool
  rf_update :: "nat \<Rightarrow> bool"
  rf_commit :: bool

definition is_accept :: "report_outcome \<Rightarrow> bool" where
  "is_accept r = (case r of Accepted i \<Rightarrow> True | UnknownRecord \<Rightarrow> False)"

definition insert_in_txn :: "'g gov_sql \<Rightarrow> nat \<Rightarrow> report_faults \<Rightarrow> report_target list \<Rightarrow> 'g gov_db \<Rightarrow>
    (string + report_outcome list \<times> insert_stats) \<times> 'g gov_db" where
  "insert_in_txn gq now flt targets db =
     (if rf_read flt then (Inl ''Failed to allocate report_id'', db)
      else case insert_targets gq now (rf_row flt) 0 targets (next_report_id db) db of
          (Inl e, db1) \<Rightarrow> (Inl e, db1)
        | (Inr (outs, next_id), db1) \<Rightarrow>
            let accepted = length (filter is_accept outs); from_id = next_id - accepted
            in if rf_match flt then (Inl ''Failed to enqueue dirty cells for reports'', db1)
               else case enqueue_match_for_reports now (\<lambda>r. from_id \<le> or_id r) db1 of (n, db2) \<Rightarrow>
                 if rf_tiles flt then (Inl ''Failed to enqueue dirty tiles for reports'', db2)
                 else (Inr (outs, \<lparr>is_accepted = accepted, is_rejected = length outs - accepted, is_cells_enqueued = n\<rparr>),
                       enqueue_tiles_for_reports now (\<lambda>r. from_id \<le> or_id r) db2))"

definition insert_reports :: "'g gov_sql \<Rightarrow> nat \<Rightarrow> report_faults \<Rightarrow> report_target list \<Rightarrow> 'g gov_db \<Rightarrow>
    (string + report_outcome list \<times> insert_stats) \<times> 'g gov_db" where
  "insert_reports gq now flt targets db =
     (if targets = [] then (Inr ([], \<lparr>is_accepted = 0, is_rejected = 0, is_cells_enqueued = 0\<rparr>), db)
      else in_transaction (\<not> rf_begin flt) (\<not> rf_commit flt) (insert_in_txn gq now flt targets) db)"

section \<open>Reconcile\<close>

definition record_missing :: "dataset_spec \<Rightarrow> 'g gov_db \<Rightarrow> object_report \<Rightarrow> bool" where
  "record_missing spec db r \<longleftrightarrow> \<not> list_ex (key_is spec (or_key r)) (gb_live db (ds_table spec))"

definition record_changed :: "'g gov_sql \<Rightarrow> dataset_spec \<Rightarrow> 'g gov_db \<Rightarrow> object_report \<Rightarrow> bool" where
  "record_changed gq spec db r \<longleftrightarrow>
     list_ex (\<lambda>b. key_is spec (or_key r) b \<and> Some (content_signature gq spec b) \<noteq> or_signature r) (gb_live db (ds_table spec))"

definition active_of :: "dataset_spec \<Rightarrow> object_report \<Rightarrow> bool" where
  "active_of spec r \<longleftrightarrow> or_status r = REPORT_ACTIVE \<and> or_source r = ds_name spec"

definition stale_report :: "'g gov_sql \<Rightarrow> dataset_spec \<Rightarrow> 'g gov_db \<Rightarrow> object_report \<Rightarrow> bool" where
  "stale_report gq spec db r \<longleftrightarrow> active_of spec r \<and> (record_missing spec db r \<or> record_changed gq spec db r)"

record reconcile_stats =
  rs_expired_changed :: nat
  rs_expired_removed :: nat
  rs_cells_enqueued :: nat

definition retire :: "string \<Rightarrow> nat \<Rightarrow> (object_report \<Rightarrow> bool) \<Rightarrow> 'g gov_db \<Rightarrow> nat \<times> 'g gov_db" where
  "retire status now p db = (length (filter p (gb_reports db)),
     db\<lparr>gb_reports := map (\<lambda>r. if p r then r\<lparr>or_status := status, or_resolved_at := Some now\<rparr> else r) (gb_reports db)\<rparr>)"

text \<open>\<open>others i\<close> is what other connections commit before statement \<open>i\<close>: nothing, inside a transaction.
  \<open>now i\<close> is the time of the statement.\<close>

definition reconcile_source :: "'g gov_sql \<Rightarrow> (nat \<Rightarrow> 'g gov_db \<Rightarrow> 'g gov_db) \<Rightarrow> (nat \<Rightarrow> nat) \<Rightarrow> report_faults \<Rightarrow> dataset_spec \<Rightarrow>
    'g gov_db \<Rightarrow> (string + reconcile_stats) \<times> 'g gov_db" where
  "reconcile_source gq others now flt spec db =
     (let db0 = others 0 db
      in if rf_match flt then (Inl ''Failed to enqueue expired-report cells'', db0)
      else case enqueue_match_for_reports (now 0) (stale_report gq spec db0) db0 of (n, db0') \<Rightarrow>
      let db1 = others 1 db0'
      in if rf_tiles flt then (Inl ''Failed to enqueue dirty tiles for reports'', db1)
      else let db2 = others 2 (enqueue_tiles_for_reports (now 1) (stale_report gq spec db1) db1)
      in if rf_update flt 0 then (Inl ''Failed to expire removed-record reports'', db2)
      else case retire STATUS_EXPIRED (now 2) (\<lambda>r. active_of spec r \<and> record_missing spec db2 r) db2 of (removed, db2') \<Rightarrow>
      let db3 = others 3 db2'
      in if rf_update flt 1 then (Inl ''Failed to expire changed-record reports'', db3)
      else case retire STATUS_EXPIRED (now 3) (\<lambda>r. active_of spec r \<and> record_changed gq spec db3 r) db3 of (changed, db4) \<Rightarrow>
      (Inr \<lparr>rs_expired_changed = changed, rs_expired_removed = removed, rs_cells_enqueued = n\<rparr>, db4))"

fun reconcile_specs :: "'g gov_sql \<Rightarrow> (string \<Rightarrow> bool) \<Rightarrow> (string \<Rightarrow> nat \<Rightarrow> 'g gov_db \<Rightarrow> 'g gov_db) \<Rightarrow> (string \<Rightarrow> nat \<Rightarrow> nat) \<Rightarrow>
    (string \<Rightarrow> report_faults) \<Rightarrow> dataset_spec list \<Rightarrow> reconcile_stats \<Rightarrow> 'g gov_db \<Rightarrow> (string + reconcile_stats) \<times> 'g gov_db" where
  "reconcile_specs gq stop others now flt [] acc db = (Inr acc, db)"
| "reconcile_specs gq stop others now flt (spec # specs) acc db =
     (if stop (ds_name spec) then (Inl SHUTDOWN_BAIL_MESSAGE, db)
      else case reconcile_source gq (others (ds_name spec)) (now (ds_name spec)) (flt (ds_name spec)) spec db of
          (Inl e, db') \<Rightarrow> (Inl e, db')
        | (Inr s, db') \<Rightarrow> reconcile_specs gq stop others now flt specs
            \<lparr>rs_expired_changed = rs_expired_changed acc + rs_expired_changed s,
             rs_expired_removed = rs_expired_removed acc + rs_expired_removed s,
             rs_cells_enqueued = rs_cells_enqueued acc + rs_cells_enqueued s\<rparr> db')"

definition reconcile_all :: "'g gov_sql \<Rightarrow> (string \<Rightarrow> bool) \<Rightarrow> (string \<Rightarrow> nat \<Rightarrow> 'g gov_db \<Rightarrow> 'g gov_db) \<Rightarrow> (string \<Rightarrow> nat \<Rightarrow> nat) \<Rightarrow>
    (string \<Rightarrow> report_faults) \<Rightarrow> 'g gov_db \<Rightarrow> (string + reconcile_stats) \<times> 'g gov_db" where
  "reconcile_all gq stop others now flt db =
     reconcile_specs gq stop others now flt [BDOT10K, EGIB, PRG] \<lparr>rs_expired_changed = 0, rs_expired_removed = 0, rs_cells_enqueued = 0\<rparr> db"

section \<open>Revoke\<close>

datatype revoke_selector = By_id nat | Since nat "string option"

fun selects :: "revoke_selector \<Rightarrow> object_report \<Rightarrow> bool" where
  "selects (By_id i) r = (or_id r = i)"
| "selects (Since t src) r = (t \<le> or_reported_at r \<and> (case src of Some s \<Rightarrow> or_source r = s | None \<Rightarrow> True))"

definition revoke_in_txn :: "nat \<Rightarrow> report_faults \<Rightarrow> revoke_selector \<Rightarrow> 'g gov_db \<Rightarrow> (string + nat \<times> nat) \<times> 'g gov_db" where
  "revoke_in_txn now flt sel db =
     (let p = (\<lambda>r. or_status r = REPORT_ACTIVE \<and> selects sel r)
      in if rf_match flt then (Inl ''Failed to enqueue revoked-report cells'', db)
      else case enqueue_match_for_reports now p db of (cells, db1) \<Rightarrow>
      if rf_tiles flt then (Inl ''Failed to enqueue dirty tiles for reports'', db1)
      else let db2 = enqueue_tiles_for_reports now p db1
      in if rf_update flt 0 then (Inl ''Failed to revoke reports'', db2)
      else case retire STATUS_REVOKED now p db2 of (revoked, db3) \<Rightarrow> (Inr (revoked, cells), db3))"

definition revoke :: "nat \<Rightarrow> report_faults \<Rightarrow> revoke_selector \<Rightarrow> 'g gov_db \<Rightarrow> (string + nat \<times> nat) \<times> 'g gov_db" where
  "revoke now flt sel db = in_transaction (\<not> rf_begin flt) (\<not> rf_commit flt) (revoke_in_txn now flt sel) db"

text \<open>\<open>reports revoke\<close>: an id, or a start time with an optional source.\<close>

definition revoke_arguments :: "nat option \<Rightarrow> nat option \<Rightarrow> string option \<Rightarrow> string + revoke_selector" where
  "revoke_arguments i since source = (case (i, since) of
     (Some i, None) \<Rightarrow> Inr (By_id i)
   | (None, Some t) \<Rightarrow> Inr (Since t source)
   | _ \<Rightarrow> Inl ''specify either a report id or --since <timestamp>'')"

section \<open>Counts, dumps and the command line\<close>

record report_counts =
  rc_active :: nat
  rc_expired :: nat
  rc_revoked :: nat

definition counts :: "'g gov_db \<Rightarrow> report_counts" where
  "counts db = (let n = (\<lambda>status. length (filter (\<lambda>r. or_status r = status) (gb_reports db)))
     in \<lparr>rc_active = n REPORT_ACTIVE, rc_expired = n STATUS_EXPIRED, rc_revoked = n STATUS_REVOKED\<rparr>)"

text \<open>A dumped row: times are the text of their VARCHAR cast. The key's passage through JSON text is
  left out.\<close>

record report_row =
  rr_id :: nat
  rr_source :: string
  rr_key :: "string list"
  rr_signature :: "string option"
  rr_reported_at :: string
  rr_cell :: "cell option"
  rr_status :: string
  rr_resolved_at :: "string option"

text \<open>DuckDB's casts of a time to and from text, and \<open>serde_json\<close> on a row.\<close>

record report_text =
  ts_show :: "nat \<Rightarrow> string"
  ts_read :: "string \<Rightarrow> nat option"
  js_write :: "report_row \<Rightarrow> string"
  js_read :: "string \<Rightarrow> report_row option"

definition dump_row :: "report_text \<Rightarrow> object_report \<Rightarrow> report_row" where
  "dump_row tx r = \<lparr>rr_id = or_id r, rr_source = or_source r, rr_key = or_key r, rr_signature = or_signature r,
     rr_reported_at = ts_show tx (or_reported_at r), rr_cell = or_cell r, rr_status = or_status r,
     rr_resolved_at = map_option (ts_show tx) (or_resolved_at r)\<rparr>"

definition quoted :: "string \<Rightarrow> string" where
  "quoted s = [CHR 0x27] @ s @ [CHR 0x27]"

definition list_reports :: "report_text \<Rightarrow> string option \<Rightarrow> string option \<Rightarrow> string option \<Rightarrow> nat option \<Rightarrow> 'g gov_db \<Rightarrow>
    string + report_row list" where
  "list_reports tx source status since limit db =
     (if (case source of Some s \<Rightarrow> spec_by_name s = None | None \<Rightarrow> False)
      then Inl (''unknown source '' @ quoted (the source) @ ''; expected bdot10k, egib or prg'')
      else if (case status of Some s \<Rightarrow> s \<notin> {REPORT_ACTIVE, STATUS_EXPIRED, STATUS_REVOKED} | None \<Rightarrow> False)
      then Inl (''unknown status '' @ quoted (the status) @ ''; expected active, expired or revoked'')
      else if (case since of Some s \<Rightarrow> ts_read tx s = None | None \<Rightarrow> False) then Inl ''Failed to read object_reports''
      else let rows = sort_key (\<lambda>r. - int (or_id r)) (filter (\<lambda>r.
               (case source of Some s \<Rightarrow> or_source r = s | None \<Rightarrow> True) \<and>
               (case status of Some s \<Rightarrow> or_status r = s | None \<Rightarrow> True) \<and>
               (case since of Some s \<Rightarrow> the (ts_read tx s) \<le> or_reported_at r | None \<Rightarrow> True)) (gb_reports db))
           in Inr (map (dump_row tx) (case limit of Some n \<Rightarrow> take n rows | None \<Rightarrow> rows)))"

definition export_to_string :: "report_text \<Rightarrow> 'g gov_db \<Rightarrow> string + string" where
  "export_to_string tx db = (case list_reports tx None None None None db of Inl e \<Rightarrow> Inl e
     | Inr rows \<Rightarrow> Inr (concat (map (\<lambda>r. js_write tx r @ [CHR 10]) rows)))"

definition IMPORT_CHUNK :: nat where "IMPORT_CHUNK = 1000"

definition import_row :: "report_text \<Rightarrow> nat \<Rightarrow> report_row \<Rightarrow> object_report option" where
  "import_row tx i r =
     (case ts_read tx (rr_reported_at r) of None \<Rightarrow> None | Some tm \<Rightarrow>
     (case (case rr_resolved_at r of None \<Rightarrow> Some None | Some t \<Rightarrow> map_option Some (ts_read tx t)) of None \<Rightarrow> None | Some res \<Rightarrow>
       Some \<lparr>or_id = i, or_source = rr_source r, or_key = rr_key r, or_signature = rr_signature r, or_reported_at = tm,
             or_cell = rr_cell r, or_status = rr_status r, or_resolved_at = res\<rparr>))"

fun import_chunks :: "report_text \<Rightarrow> (nat \<Rightarrow> bool) \<Rightarrow> nat \<Rightarrow> report_row list list \<Rightarrow> nat \<Rightarrow> 'g gov_db \<Rightarrow> (string + nat) \<times> 'g gov_db" where
  "import_chunks tx fails k [] next_id db = (Inr next_id, db)"
| "import_chunks tx fails k (c # cs) next_id db =
     (case mapM_opt (\<lambda>(i, r). import_row tx i r) (enumerate next_id c) of
        Some new \<Rightarrow> if fails k then (Inl ''Failed to insert imported reports'', db)
          else import_chunks tx fails (Suc k) cs (next_id + length c) (db\<lparr>gb_reports := gb_reports db @ new\<rparr>)
      | None \<Rightarrow> (Inl ''Failed to insert imported reports'', db))"

definition import_rows_in_txn :: "report_text \<Rightarrow> nat \<Rightarrow> report_faults \<Rightarrow> report_row list \<Rightarrow> 'g gov_db \<Rightarrow> (string + nat) \<times> 'g gov_db" where
  "import_rows_in_txn tx now flt rows db =
     (if rf_read flt then (Inl ''Failed to allocate report_id'', db)
      else case import_chunks tx (rf_row flt) 0 (chunks IMPORT_CHUNK rows) (next_report_id db) db of
        (Inl e, db1) \<Rightarrow> (Inl e, db1)
      | (Inr next_id, db1) \<Rightarrow>
          let p = (\<lambda>r. next_id - length rows \<le> or_id r \<and> or_status r = REPORT_ACTIVE)
          in if rf_match flt then (Inl ''Failed to enqueue imported-report cells'', db1)
             else case enqueue_match_for_reports now p db1 of (_, db2) \<Rightarrow>
               if rf_tiles flt then (Inl ''Failed to enqueue dirty tiles for reports'', db2)
               else (Inr (length rows), enqueue_tiles_for_reports now p db2))"

definition import_rows :: "report_text \<Rightarrow> nat \<Rightarrow> report_faults \<Rightarrow> report_row list \<Rightarrow> 'g gov_db \<Rightarrow> (string + nat) \<times> 'g gov_db" where
  "import_rows tx now flt rows db = (if rows = [] then (Inr 0, db)
     else in_transaction (\<not> rf_begin flt) (\<not> rf_commit flt) (import_rows_in_txn tx now flt rows) db)"

text \<open>\<open>s.trim().is_empty()\<close> on the bytes of a UTF-8 string: Unicode has one-, two- and three-byte white space.\<close>

definition ws2 :: "char \<Rightarrow> char \<Rightarrow> bool" where
  "ws2 c d \<longleftrightarrow> c = CHR 0xC2 \<and> d \<in> {CHR 0x85, CHR 0xA0}"

definition ws3 :: "char \<Rightarrow> char \<Rightarrow> char \<Rightarrow> bool" where
  "ws3 c d e \<longleftrightarrow>
     c = CHR 0xE1 \<and> d = CHR 0x9A \<and> e = CHR 0x80 \<or>
     c = CHR 0xE2 \<and> d = CHR 0x80 \<and> (0x80 \<le> (of_char e :: nat) \<and> (of_char e :: nat) \<le> 0x8A \<or> e \<in> {CHR 0xA8, CHR 0xA9, CHR 0xAF}) \<or>
     c = CHR 0xE2 \<and> d = CHR 0x81 \<and> e = CHR 0x9F \<or>
     c = CHR 0xE3 \<and> d = CHR 0x80 \<and> e = CHR 0x80"

fun blank :: "string \<Rightarrow> bool" where
  "blank [] = True"
| "blank [c] = is_ws c"
| "blank [c, d] = (if is_ws c then is_ws d else ws2 c d)"
| "blank (c # d # e # s) = (if is_ws c then blank (d # e # s) else if ws2 c d then blank (e # s) else ws3 c d e \<and> blank s)"

text \<open>\<open>reports import\<close> on the text of a file.\<close>

fun read_dump :: "report_text \<Rightarrow> nat \<Rightarrow> string list \<Rightarrow> string + report_row list" where
  "read_dump tx i [] = Inr []"
| "read_dump tx i (l # ls) =
     (if blank l then read_dump tx (Suc i) ls
      else case js_read tx l of
        None \<Rightarrow> Inl (''line '' @ show_nat (i + 1) @ '': malformed report'')
      | Some r \<Rightarrow> (case read_dump tx (Suc i) ls of Inl e \<Rightarrow> Inl e | Inr rs \<Rightarrow> Inr (r # rs)))"

definition import_text :: "report_text \<Rightarrow> nat \<Rightarrow> report_faults \<Rightarrow> string \<Rightarrow> 'g gov_db \<Rightarrow> (string + nat) \<times> 'g gov_db" where
  "import_text tx now flt text db = (case read_dump tx 0 (lines_of text) of Inl e \<Rightarrow> (Inl e, db)
     | Inr rows \<Rightarrow> import_rows tx now flt rows db)"

section \<open>The endpoint\<close>

text \<open>A parsed body: each object's source and its key columns, in the order of a \<open>BTreeMap\<close>.\<close>

fun parse_key :: "nat \<Rightarrow> string \<Rightarrow> (string \<times> string) list \<Rightarrow> string list \<Rightarrow> string + string list" where
  "parse_key i source key [] = Inr []"
| "parse_key i source key (column # columns) =
     (case map_of key column of
        None \<Rightarrow> Inl (''objects['' @ show_nat i @ '']: source '' @ quoted source @ '' is missing key column '' @ quoted column)
      | Some v \<Rightarrow> if blank v then Inl (''objects['' @ show_nat i @ '']: key column '' @ quoted column @ '' is empty'')
          else (case parse_key i source key columns of Inl e \<Rightarrow> Inl e | Inr vs \<Rightarrow> Inr (v # vs)))"

fun parse_objects :: "nat \<Rightarrow> (string \<times> (string \<times> string) list) list \<Rightarrow> string + report_target list" where
  "parse_objects i [] = Inr []"
| "parse_objects i ((source, key) # objs) =
     (case spec_by_name source of
        None \<Rightarrow> Inl (''objects['' @ show_nat i @ '']: unknown source '' @ quoted source)
      | Some spec \<Rightarrow>
          if length key \<noteq> length (ds_key_columns spec)
          then Inl (''objects['' @ show_nat i @ '']: source '' @ quoted source @ '' needs exactly the key columns ['' @
                 join_with '', '' (ds_key_columns spec) @ '']'')
          else (case parse_key i source key (ds_key_columns spec) of Inl e \<Rightarrow> Inl e
            | Inr k \<Rightarrow> (case parse_objects (Suc i) objs of Inl e \<Rightarrow> Inl e
                | Inr ts \<Rightarrow> Inr (\<lparr>rt_spec = spec, rt_key = k\<rparr> # ts))))"

definition parse_report_body :: "(string \<Rightarrow> string + (string \<times> (string \<times> string) list) list) \<Rightarrow> string \<Rightarrow> nat \<Rightarrow> string + report_target list" where
  "parse_report_body json body max_objects =
     (case json body of Inl e \<Rightarrow> Inl (''invalid JSON body: '' @ e)
      | Inr objs \<Rightarrow> if objs = [] then Inl ''objects must not be empty''
          else if max_objects < length objs
          then Inl (''too many objects: '' @ show_nat (length objs) @ '' (limit '' @ show_nat max_objects @ '')'')
          else parse_objects 0 objs)"

definition UNKNOWN_RECORD_MESSAGE :: string where
  "UNKNOWN_RECORD_MESSAGE = ''no such record in the current dataset''"

datatype report_response =
    Error_response nat string
  | Stored "(nat \<times> string \<times> nat) list" "(nat \<times> string \<times> string) list" nat

definition accepted_items :: "(nat \<times> report_outcome \<times> string) list \<Rightarrow> (nat \<times> string \<times> nat) list" where
  "accepted_items xs = concat (map (\<lambda>(i, out, src). case out of Accepted rid \<Rightarrow> [(i, src, rid)] | UnknownRecord \<Rightarrow> []) xs)"

definition rejected_items :: "(nat \<times> report_outcome \<times> string) list \<Rightarrow> (nat \<times> string \<times> string) list" where
  "rejected_items xs = concat (map (\<lambda>(i, out, src). case out of Accepted rid \<Rightarrow> [] | UnknownRecord \<Rightarrow> [(i, src, UNKNOWN_RECORD_MESSAGE)]) xs)"

definition post_report :: "'g gov_sql \<Rightarrow> (string \<Rightarrow> string + (string \<times> (string \<times> string) list) list) \<Rightarrow> bool \<Rightarrow> nat \<Rightarrow> bool \<Rightarrow>
    nat \<Rightarrow> report_faults \<Rightarrow> string \<Rightarrow> 'g gov_db \<Rightarrow> report_response \<times> 'g gov_db" where
  "post_report gq json enabled max_objects pool_ok now flt body db =
     (if \<not> enabled then (Error_response 404 ''reporting is disabled'', db)
      else case parse_report_body json body max_objects of
        Inl msg \<Rightarrow> (Error_response 400 msg, db)
      | Inr targets \<Rightarrow> if \<not> pool_ok then (Error_response 500 ''internal error'', db)
          else case insert_reports gq now flt targets db of
            (Inl e, db') \<Rightarrow> (Error_response 500 ''internal error'', db')
          | (Inr (outs, stats), db') \<Rightarrow>
              let xs = enumerate 0 (zip outs (map (\<lambda>t. ds_name (rt_spec t)) targets))
              in (Stored (accepted_items xs) (rejected_items xs) (is_cells_enqueued stats), db'))"


section \<open>Report changes are announced\<close>

definition active_reports :: "'g gov_db \<Rightarrow> object_report set" where
  "active_reports db = {r \<in> set (gb_reports db). or_status r = REPORT_ACTIVE}"

definition queued :: "'g gov_db \<Rightarrow> string \<Rightarrow> cell \<Rightarrow> bool" where
  "queued db s c \<longleftrightarrow> (\<exists>t. (s, Some c, t) \<in> set (gb_match db)) \<and> (\<exists>t. (Some c, t) \<in> set (gb_tiles db))"

definition announced :: "'g gov_db \<Rightarrow> 'g gov_db \<Rightarrow> bool" where
  "announced db db' \<longleftrightarrow> gb_live db' = gb_live db \<and> set (gb_match db) \<subseteq> set (gb_match db') \<and> set (gb_tiles db) \<subseteq> set (gb_tiles db') \<and>
     (\<forall>r c. (r \<in> active_reports db) \<noteq> (r \<in> active_reports db') \<longrightarrow> or_cell r = Some c \<longrightarrow> queued db' (or_source r) c)"

lemma announced_refl [simp]: "announced db db"
  by (simp add: announced_def)

lemma queued_mono: "queued db s c \<Longrightarrow> set (gb_match db) \<subseteq> set (gb_match db') \<Longrightarrow> set (gb_tiles db) \<subseteq> set (gb_tiles db') \<Longrightarrow> queued db' s c"
  by (auto simp: queued_def)

lemma announced_trans: "announced a b \<Longrightarrow> announced b c \<Longrightarrow> announced a c"
  unfolding announced_def using queued_mono by (metis (no_types, opaque_lifting) subset_trans)

text \<open>Both queue statements of an operation, on the rows \<open>p\<close> selects.\<close>

definition enqueue_both :: "nat \<Rightarrow> (object_report \<Rightarrow> bool) \<Rightarrow> 'g gov_db \<Rightarrow> 'g gov_db" where
  "enqueue_both now p db = enqueue_tiles_for_reports now p (snd (enqueue_match_for_reports now p db))"

lemma enqueue_both_simps [simp]:
  "gb_live (enqueue_both now p db) = gb_live db"
  "gb_reports (enqueue_both now p db) = gb_reports db"
  "set (gb_match db) \<subseteq> set (gb_match (enqueue_both now p db))"
  "set (gb_tiles db) \<subseteq> set (gb_tiles (enqueue_both now p db))"
  by (auto simp: enqueue_both_def enqueue_tiles_for_reports_def enqueue_match_for_reports_def Let_def)

lemma enqueue_both_queues:
  "r \<in> set (gb_reports db) \<Longrightarrow> p r \<Longrightarrow> or_cell r = Some c \<Longrightarrow> queued (enqueue_both now p db) (or_source r) c"
  by (force simp: queued_def enqueue_both_def enqueue_tiles_for_reports_def enqueue_match_for_reports_def Let_def)

lemma announced_by_enqueue:
  assumes live: "gb_live db' = gb_live db"
    and queues: "gb_match db' = gb_match (enqueue_both now p db1)" "gb_tiles db' = gb_tiles (enqueue_both now p db1)"
    and before: "gb_match db1 = gb_match db" "gb_tiles db1 = gb_tiles db"
    and changed: "\<And>r. (r \<in> active_reports db) \<noteq> (r \<in> active_reports db') \<Longrightarrow> r \<in> set (gb_reports db1) \<and> p r"
  shows "announced db db'"
proof -
  have "queued db' (or_source r) c" if "(r \<in> active_reports db) \<noteq> (r \<in> active_reports db')" "or_cell r = Some c" for r c
    using enqueue_both_queues [of r db1 p c now] changed [OF that(1)] that(2) queues by (simp add: queued_def)
  then show ?thesis
    using live queues enqueue_both_simps(3,4) [of db1 now p] before by (simp add: announced_def)
qed

lemma retire_simps [simp]:
  "gb_live (snd (retire s now p db)) = gb_live db" "gb_match (snd (retire s now p db)) = gb_match db"
  "gb_tiles (snd (retire s now p db)) = gb_tiles db"
  "gb_reports (snd (retire s now p db)) = map (\<lambda>r. if p r then r\<lparr>or_status := s, or_resolved_at := Some now\<rparr> else r) (gb_reports db)"
  by (simp_all add: retire_def)

text \<open>Retiring only takes the selected reports out of the active ones.\<close>

lemma active_retire:
  assumes "s \<noteq> REPORT_ACTIVE"
  shows "active_reports (snd (retire s now p db)) = {r \<in> active_reports db. \<not> p r}"
  using assms by (auto simp: active_reports_def split: if_splits)

lemma statuses_differ [simp]: "STATUS_EXPIRED \<noteq> REPORT_ACTIVE" "STATUS_REVOKED \<noteq> REPORT_ACTIVE" "STATUS_EXPIRED \<noteq> STATUS_REVOKED"
  by (simp_all add: STATUS_EXPIRED_def STATUS_REVOKED_def REPORT_ACTIVE_def)

lemma in_transaction_announced:
  assumes "\<And>v. fst (f db) = Inr v \<Longrightarrow> announced db (snd (f db))"
  shows "announced db (snd (in_transaction b c f db))"
  using assms by (auto simp: in_transaction_def split: sum.splits prod.splits)

lemma revoke_announced: "announced db (snd (revoke now flt sel db))"
  unfolding revoke_def
proof (rule in_transaction_announced)
  fix v
  assume ok: "fst (revoke_in_txn now flt sel db) = Inr v"
  let ?p = "\<lambda>r. or_status r = REPORT_ACTIVE \<and> selects sel r"
  from ok have eq: "snd (revoke_in_txn now flt sel db) = snd (retire STATUS_REVOKED now ?p (enqueue_both now ?p db))"
    by (simp add: revoke_in_txn_def Let_def enqueue_both_def split: if_splits prod.splits)
  show "announced db (snd (revoke_in_txn now flt sel db))"
    unfolding eq by (rule announced_by_enqueue [of _ _ now ?p db]) (auto simp: active_retire active_reports_def)
qed


lemma new_reports_id: "r \<in> set (new_reports gq now t i db) \<Longrightarrow> or_id r = i"
  by (auto simp: new_reports_def Let_def)

lemma new_reports_made:
  "r \<in> set (new_reports gq now t i db) \<Longrightarrow> \<exists>b\<in>set (gb_live db (ds_table (rt_spec t))).
     key_is (rt_spec t) (rt_key t) b \<and> gr_geom b \<noteq> None \<and> or_source r = ds_name (rt_spec t) \<and> or_key r = rt_key t \<and>
     or_signature r = Some (content_signature gq (rt_spec t) b) \<and> or_status r = REPORT_ACTIVE"
  by (auto simp: new_reports_def Let_def)

lemma new_reports_update [simp]: "new_reports gq now t i (db\<lparr>gb_reports := rs\<rparr>) = new_reports gq now t i db"
  by (simp add: new_reports_def)

lemma insert_one_simps [simp]:
  "gb_live (snd (insert_one gq now t i db)) = gb_live db" "gb_match (snd (insert_one gq now t i db)) = gb_match db"
  "gb_tiles (snd (insert_one gq now t i db)) = gb_tiles db"
  by (simp_all add: insert_one_def Let_def)

lemma is_accept_simps [simp]: "is_accept (Accepted i)" "\<not> is_accept UnknownRecord"
  by (simp_all add: is_accept_def)

definition outcome_reports :: "'g gov_sql \<Rightarrow> nat \<Rightarrow> 'g gov_db \<Rightarrow> report_target \<times> report_outcome \<Rightarrow> object_report list" where
  "outcome_reports gq now db = (\<lambda>(t, out). case out of Accepted i \<Rightarrow> new_reports gq now t i db | UnknownRecord \<Rightarrow> [])"

lemma insert_targets_spec:
  "insert_targets gq now fails k ts i db = (Inr (outs, j), db') \<Longrightarrow>
     gb_live db' = gb_live db \<and> gb_match db' = gb_match db \<and> gb_tiles db' = gb_tiles db \<and>
     j = i + length (filter is_accept outs) \<and> length outs = length ts \<and>
     gb_reports db' = gb_reports db @ concat (map (outcome_reports gq now db) (zip ts outs)) \<and>
     concat (map (\<lambda>out. case out of Accepted rid \<Rightarrow> [rid] | UnknownRecord \<Rightarrow> []) outs) = [i..<j] \<and>
     list_all2 (\<lambda>t out. is_accept out \<longleftrightarrow> new_reports gq now t 0 db \<noteq> []) ts outs"
proof (induction ts arbitrary: k i db outs)
  case Nil
  then show ?case by simp
next
  case (Cons t ts)
  let ?new = "new_reports gq now t i db"
  let ?db1 = "db\<lparr>gb_reports := gb_reports db @ ?new\<rparr>" and ?i' = "if ?new \<noteq> [] then i + 1 else i"
  obtain outs' where rest: "insert_targets gq now fails (Suc k) ts ?i' ?db1 = (Inr (outs', j), db')"
    and outs: "outs = (if ?new \<noteq> [] then Accepted i else UnknownRecord) # outs'"
    using Cons.prems by (auto simp: insert_one_def Let_def split: if_splits prod.splits sum.splits)
  have live: "outcome_reports gq now ?db1 = outcome_reports gq now db"
    unfolding outcome_reports_def new_reports_update ..
  have nil: "new_reports gq now t 0 db = [] \<longleftrightarrow> ?new = []"
    by (simp add: new_reports_def Let_def)
  note ih = Cons.IH [OF rest, unfolded live]
  have upt: "[i..<j] = (if ?new \<noteq> [] then i # [?i'..<j] else [?i'..<j])"
    using ih by (simp add: upt_conv_Cons del: upt_Suc)
  show ?case
    unfolding upt using ih outs nil by (simp add: outcome_reports_def del: upt_Suc split del: if_split) (auto simp: outcome_reports_def)
qed

lemma new_ids:
  assumes "insert_targets gq now fails k ts i db = (Inr (outs, j), db')"
  shows "r \<in> set (concat (map (outcome_reports gq now db) (zip ts outs))) \<Longrightarrow> i \<le> or_id r"
proof -
  assume "r \<in> set (concat (map (outcome_reports gq now db) (zip ts outs)))"
  then obtain t out where "out \<in> set outs" "r \<in> set (outcome_reports gq now db (t, out))"
    by (auto dest: set_zip_rightD)
  then have "or_id r \<in> set (concat (map (\<lambda>out. case out of Accepted rid \<Rightarrow> [rid] | UnknownRecord \<Rightarrow> []) outs))"
    by (auto simp: outcome_reports_def dest: new_reports_id split: report_outcome.splits)
  then show "i \<le> or_id r"
    using insert_targets_spec [OF assms] by simp
qed

lemma insert_announced: "announced db (snd (insert_reports gq now flt ts db))"
proof -
  have "announced db (snd (insert_in_txn gq now flt ts db))" if ok: "fst (insert_in_txn gq now flt ts db) = Inr w" for w
  proof -
    obtain outs j db1 where ins: "insert_targets gq now (rf_row flt) 0 ts (next_report_id db) db = (Inr (outs, j), db1)"
      using ok by (auto simp: insert_in_txn_def split: if_splits prod.splits sum.splits)
    let ?p = "\<lambda>r. j - length (filter is_accept outs) \<le> or_id r"
    have eq: "snd (insert_in_txn gq now flt ts db) = enqueue_both now ?p db1"
      using ok ins by (simp add: insert_in_txn_def Let_def enqueue_both_def split: if_splits prod.splits)
    show ?thesis
      unfolding eq using insert_targets_spec [OF ins] new_ids [OF ins]
      by (intro announced_by_enqueue [of _ _ now ?p db1]) (auto simp: active_reports_def)
  qed
  then show ?thesis
    by (auto simp: insert_reports_def intro: in_transaction_announced)
qed

text \<open>\<open>reconcile_source\<close> with nothing committed between its statements.\<close>

abbreviation alone :: "nat \<Rightarrow> 'g gov_db \<Rightarrow> 'g gov_db" where
  "alone \<equiv> \<lambda>i db. db"

lemma stale_simps [simp]:
  "record_missing spec (snd (enqueue_match_for_reports n p d)) = record_missing spec d"
  "record_changed gq spec (snd (enqueue_match_for_reports n p d)) = record_changed gq spec d"
  "stale_report gq spec (snd (enqueue_match_for_reports n p d)) = stale_report gq spec d"
  "record_missing spec (enqueue_tiles_for_reports n p d) = record_missing spec d"
  "record_changed gq spec (enqueue_tiles_for_reports n p d) = record_changed gq spec d"
  "record_changed gq spec (snd (retire s n p d)) = record_changed gq spec d"
  by (auto simp: fun_eq_iff stale_report_def record_missing_def record_changed_def enqueue_match_for_reports_def
      enqueue_tiles_for_reports_def retire_def Let_def)

definition reconciled :: "'g gov_sql \<Rightarrow> nat \<Rightarrow> dataset_spec \<Rightarrow> 'g gov_db \<Rightarrow> 'g gov_db" where
  "reconciled gq now spec db =
     snd (retire STATUS_EXPIRED now (\<lambda>r. active_of spec r \<and> record_changed gq spec db r)
       (snd (retire STATUS_EXPIRED now (\<lambda>r. active_of spec r \<and> record_missing spec db r)
         (enqueue_both now (stale_report gq spec db) db))))"

lemma reconcile_alone:
  "fst (reconcile_source gq alone (\<lambda>i. now) flt spec db) = Inr s \<Longrightarrow>
     snd (reconcile_source gq alone (\<lambda>i. now) flt spec db) = reconciled gq now spec db"
  by (simp add: reconcile_source_def Let_def enqueue_both_def reconciled_def case_prod_beta split: if_splits)

lemma reconciled_simps [simp]:
  "gb_live (reconciled gq now spec db) = gb_live db"
  "gb_match (reconciled gq now spec db) = gb_match (enqueue_both now (stale_report gq spec db) db)"
  "gb_tiles (reconciled gq now spec db) = gb_tiles (enqueue_both now (stale_report gq spec db) db)"
  by (simp_all add: reconciled_def)

lemma reconciled_reports:
  "gb_reports (reconciled gq now spec db) =
     map (\<lambda>r. if stale_report gq spec db r then r\<lparr>or_status := STATUS_EXPIRED, or_resolved_at := Some now\<rparr> else r) (gb_reports db)"
  by (auto simp: reconciled_def stale_report_def active_of_def)

lemma active_reconciled: "active_reports (reconciled gq now spec db) = {r \<in> active_reports db. \<not> stale_report gq spec db r}"
  by (auto simp: active_reports_def reconciled_reports split: if_splits)

lemma reconciled_announced: "announced db (reconciled gq now spec db)"
  by (rule announced_by_enqueue [of _ _ now "stale_report gq spec db" db])
    (simp_all add: active_reconciled, auto simp: active_reports_def)

lemma reconcile_announced: "announced db (snd (in_transaction b c (reconcile_source gq alone (\<lambda>i. now) flt spec) db))"
  by (rule in_transaction_announced) (simp add: reconcile_alone reconciled_announced)

lemma mapM_opt_append: "mapM_opt f xs = Some as \<Longrightarrow> mapM_opt f ys = Some bs \<Longrightarrow> mapM_opt f (xs @ ys) = Some (as @ bs)"
  by (induction xs arbitrary: as) (auto split: option.splits)

lemma import_chunks_spec:
  "import_chunks tx fails k cs i db = (Inr j, db') \<Longrightarrow>
     gb_live db' = gb_live db \<and> gb_match db' = gb_match db \<and> gb_tiles db' = gb_tiles db \<and> j = i + length (concat cs) \<and>
     (\<exists>new. mapM_opt (\<lambda>(i, r). import_row tx i r) (enumerate i (concat cs)) = Some new \<and> gb_reports db' = gb_reports db @ new)"
proof (induction cs arbitrary: k i db)
  case Nil
  then show ?case by simp
next
  case (Cons c cs)
  obtain new where new: "mapM_opt (\<lambda>(i, r). import_row tx i r) (enumerate i c) = Some new"
    and rest: "import_chunks tx fails (Suc k) cs (i + length c) (db\<lparr>gb_reports := gb_reports db @ new\<rparr>) = (Inr j, db')"
    using Cons.prems by (auto split: option.splits if_splits)
  obtain new' where "mapM_opt (\<lambda>(i, r). import_row tx i r) (enumerate (i + length c) (concat cs)) = Some new'"
    "gb_reports db' = gb_reports db @ new @ new'" "gb_live db' = gb_live db" "gb_match db' = gb_match db" "gb_tiles db' = gb_tiles db"
    "j = i + length c + length (concat cs)"
    using Cons.IH [OF rest] by auto
  then show ?case
    using new by (simp add: enumerate_append_eq mapM_opt_append)
qed

lemma import_row_id: "import_row tx i r = Some x \<Longrightarrow> or_id x = i"
  by (auto simp: import_row_def split: option.splits)

lemma imported_ids: "mapM_opt (\<lambda>(i, r). import_row tx i r) (enumerate i rows) = Some new \<Longrightarrow> \<forall>x\<in>set new. i \<le> or_id x"
proof (induction rows arbitrary: i new)
  case (Cons r rows)
  then obtain x xs where "import_row tx i r = Some x" "mapM_opt (\<lambda>(i, r). import_row tx i r) (enumerate (Suc i) rows) = Some xs" "new = x # xs"
    by (auto split: option.splits)
  with Cons.IH [of "Suc i" xs] import_row_id [of tx i r x] show ?case
    using Suc_leD by auto
qed simp

lemma import_announced: "announced db (snd (import_rows tx now flt rows db))"
proof -
  have "announced db (snd (import_rows_in_txn tx now flt rows db))" if ok: "fst (import_rows_in_txn tx now flt rows db) = Inr w" for w
  proof -
    obtain j db1 where ins: "import_chunks tx (rf_row flt) 0 (chunks IMPORT_CHUNK rows) (next_report_id db) db = (Inr j, db1)"
      using ok by (auto simp: import_rows_in_txn_def split: if_splits prod.splits sum.splits)
    let ?p = "\<lambda>r. j - length rows \<le> or_id r \<and> or_status r = REPORT_ACTIVE"
    have eq: "snd (import_rows_in_txn tx now flt rows db) = enqueue_both now ?p db1"
      using ok ins by (simp add: import_rows_in_txn_def Let_def enqueue_both_def split: if_splits prod.splits)
    have c: "concat (chunks IMPORT_CHUNK rows) = rows"
      by (rule concat_chunks) (simp add: IMPORT_CHUNK_def)
    show ?thesis
      unfolding eq using import_chunks_spec [OF ins] imported_ids [of tx "next_report_id db" rows]
      by (intro announced_by_enqueue [of _ _ now ?p db1]) (auto simp: active_reports_def c)
  qed
  then show ?thesis
    by (auto simp: import_rows_def intro: in_transaction_announced)
qed

section \<open>Properties\<close>

text \<open>The transactions on reports, with the time of each.\<close>

datatype report_txn =
    Insert_txn nat report_faults "report_target list"
  | Revoke_txn nat report_faults revoke_selector
  | Reconcile_txn nat bool bool report_faults dataset_spec
  | Import_txn nat report_faults string

fun run_txn :: "'g gov_sql \<Rightarrow> report_text \<Rightarrow> report_txn \<Rightarrow> 'g gov_db \<Rightarrow> 'g gov_db" where
  "run_txn gq tx (Insert_txn now flt ts) db = snd (insert_reports gq now flt ts db)"
| "run_txn gq tx (Revoke_txn now flt sel) db = snd (revoke now flt sel db)"
| "run_txn gq tx (Reconcile_txn now b c flt spec) db = snd (in_transaction b c (reconcile_source gq alone (\<lambda>i. now) flt spec) db)"
| "run_txn gq tx (Import_txn now flt text) db = snd (import_text tx now flt text db)"

lemma run_txn_announced: "announced db (run_txn gq tx op db)"
  by (cases op) (simp_all add: insert_announced revoke_announced reconcile_announced import_text_def import_announced split: sum.splits)

text \<open>C31: no report is put into force or taken out of it silently. Whatever sequence of inserts, revokes,
  imports and reconciles (each in its transaction) runs, with whatever failures of statements and
  commits, a report that is in force before and not after, or the other way round, has its cell queued
  for the comparison of its source and for the tiles, and no queued row is lost.\<close>

theorem report_changes_are_announced:
  "announced db (foldl (\<lambda>d op. run_txn gq tx op d) db ops)"
proof (induction ops arbitrary: db)
  case (Cons op ops)
  show ?case using announced_trans [OF run_txn_announced Cons] by simp
qed simp

lemma distinct_concat_nth: "distinct (concat xss) \<Longrightarrow> i < length xss \<Longrightarrow> j < length xss \<Longrightarrow> x \<in> set (xss ! i) \<Longrightarrow> x \<in> set (xss ! j) \<Longrightarrow> i = j"
proof (induction xss arbitrary: i j)
  case (Cons xs xss)
  have out: "x \<notin> set xs" if "k < length xss" "x \<in> set (xss ! k)" for k
    using Cons.prems(1) that nth_mem [OF that(1)] by fastforce
  show ?case
    using Cons.prems Cons.IH [of "i - 1" "j - 1"] out by (cases i; cases j) auto
qed simp

lemma max_id: "r \<in> set (gb_reports db) \<Longrightarrow> or_id r < next_report_id db"
  using Max_ge [of "set (map or_id (gb_reports db))" "or_id r"] by (auto simp: next_report_id_def less_Suc_eq_le)

lemma insert_reports_ok:
  assumes "insert_reports gq now flt ts db = (Inr (outs, st), db')" "ts \<noteq> []"
  obtains db1 j where "insert_targets gq now (rf_row flt) 0 ts (next_report_id db) db = (Inr (outs, j), db1)"
    "gb_reports db' = gb_reports db1" "gb_live db' = gb_live db1"
proof -
  have "insert_in_txn gq now flt ts db = (Inr (outs, st), db')"
    using assms by (auto simp: insert_reports_def in_transaction_def split: if_splits sum.splits prod.splits)
  then show thesis
    by (auto simp: insert_in_txn_def Let_def enqueue_match_for_reports_def enqueue_tiles_for_reports_def
        split: if_splits prod.splits sum.splits intro: that)
qed

lemma accepted_report:
  assumes "insert_reports gq now flt ts db = (Inr (outs, st), db')" "n < length ts" "outs ! n = Accepted rid"
    and "r \<in> set (gb_reports db')" "or_id r = rid"
  shows "r \<in> set (new_reports gq now (ts ! n) rid db)"
proof -
  have ne: "ts \<noteq> []" using assms(2) by auto
  obtain db1 j where ins: "insert_targets gq now (rf_row flt) 0 ts (next_report_id db) db = (Inr (outs, j), db1)"
    and same: "gb_reports db' = gb_reports db1"
    using insert_reports_ok [OF assms(1) ne] by metis
  let ?ids = "\<lambda>out. case out of Accepted rid \<Rightarrow> [rid] | UnknownRecord \<Rightarrow> []"
  note spec = insert_targets_spec [OF ins]
  have "Accepted rid \<in> set outs" using assms(2,3) spec nth_mem [of n outs] by simp
  then have "rid \<in> set (concat (map ?ids outs))" by force
  then have "next_report_id db \<le> rid" using spec by simp
  then have "r \<in> set (concat (map (outcome_reports gq now db) (zip ts outs)))"
    using assms(4,5) same spec max_id [of r db] by auto
  then obtain m where m: "m < length ts" "r \<in> set (outcome_reports gq now db (ts ! m, outs ! m))"
    using spec by (auto simp: in_set_zip)
  then have om: "outs ! m = Accepted rid" "r \<in> set (new_reports gq now (ts ! m) rid db)"
    using assms(5) by (auto simp: outcome_reports_def dest: new_reports_id split: report_outcome.splits)
  have "m = n"
  proof (rule ccontr)
    assume "m \<noteq> n"
    have "distinct (concat (map ?ids outs))" using spec by simp
    then show False
      using distinct_concat_nth [of "map ?ids outs" m n rid] \<open>m \<noteq> n\<close> m(1) assms(2,3) om(1) spec by simp
  qed
  with om show ?thesis by simp
qed


lemma stale_iff:
  assumes "distinct (map (row_key spec) (gb_live db (ds_table spec)))" "active_of spec r"
  shows "\<not> stale_report gq spec db r \<longleftrightarrow>
    (\<exists>b\<in>set (gb_live db (ds_table spec)). key_is spec (or_key r) b \<and> Some (content_signature gq spec b) = or_signature r)"
proof -
  have "b = b'" if "b \<in> set (gb_live db (ds_table spec))" "b' \<in> set (gb_live db (ds_table spec))"
      "key_is spec (or_key r) b" "key_is spec (or_key r) b'" for b b'
    using assms(1) that by (auto simp: distinct_map inj_on_def key_is_def)
  then show ?thesis
    using assms(2) by (auto simp: stale_report_def record_missing_def record_changed_def list_ex_iff)
qed

text \<open>C30: a report stays in force exactly as long as the record it was made on stays as it was. Let a request's
  object \<open>n\<close> be accepted, let the report still be in force later, whatever became of the source's rows
  in between, and let the source then be reconciled. The report is in force afterwards iff the source
  still has a row of that key that the refresh's own comparison does not tell apart from the row the
  report was made on. Hypotheses: the loaded rows have distinct keys (what \<open>load_into\<close> gives), compared
  columns hold no control characters 30 and 31, and \<open>md5\<close> does not collide on the two rows.\<close>

theorem report_follows_record:
  assumes inserted: "insert_reports gq now flt ts db = (Inr (outs, st), db1)"
    and n: "n < length ts" "outs ! n = Accepted (or_id r)" "rt_spec (ts ! n) = spec"
    and r: "r \<in> set (gb_reports db1)" "r \<in> active_reports db2"
    and keys: "distinct (map (row_key spec) (gb_live db2 (ds_table spec)))"
    and rows: "\<forall>a\<in>set (gb_live db (ds_table spec)). \<forall>b\<in>set (gb_live db2 (ds_table spec)).
      plain_row spec a \<and> plain_row spec b \<and>
      (gq_md5 gq (signature_text gq spec a) = gq_md5 gq (signature_text gq spec b) \<longrightarrow>
        signature_text gq spec a = signature_text gq spec b)"
    and reconcile: "in_transaction b c (reconcile_source gq alone (\<lambda>i. now') flt' spec) db2 = (Inr s, db3)"
  shows "\<exists>b0\<in>set (gb_live db (ds_table spec)). row_key spec b0 = map Some (rt_key (ts ! n)) \<and>
    (r \<in> active_reports db3 \<longleftrightarrow>
      (\<exists>b1\<in>set (gb_live db2 (ds_table spec)). row_key spec b1 = row_key spec b0 \<and> \<not> changed_predicate gq spec b0 b1))"
proof -
  from new_reports_made [OF accepted_report [OF inserted n(1,2) r(1) refl]] n(3)
  obtain b0 where b0: "b0 \<in> set (gb_live db (ds_table spec))" "key_is spec (rt_key (ts ! n)) b0"
    and fields: "or_source r = ds_name spec" "or_key r = rt_key (ts ! n)" "or_signature r = Some (content_signature gq spec b0)"
    by auto
  have active: "active_of spec r" using r(2) fields by (simp add: active_of_def active_reports_def)
  have "db3 = reconciled gq now' spec db2"
    using reconcile reconcile_alone [of gq now' flt' spec db2]
    by (auto simp: in_transaction_def split: if_splits sum.splits prod.splits)
  then have "r \<in> active_reports db3 \<longleftrightarrow>
      (\<exists>b1\<in>set (gb_live db2 (ds_table spec)). key_is spec (or_key r) b1 \<and> Some (content_signature gq spec b1) = or_signature r)"
    using stale_iff [OF keys active] r(2) by (simp add: active_reconciled)
  also have "\<dots> \<longleftrightarrow> (\<exists>b1\<in>set (gb_live db2 (ds_table spec)). row_key spec b1 = row_key spec b0 \<and> \<not> changed_predicate gq spec b0 b1)"
  proof (rule bex_cong [OF refl])
    fix b1
    assume b1: "b1 \<in> set (gb_live db2 (ds_table spec))"
    have "content_signature gq spec b0 = content_signature gq spec b1 \<longleftrightarrow> \<not> changed_predicate gq spec b0 b1"
      using rows b0(1) b1 signature_text_eq [of spec b0 b1 gq] by (auto simp: content_signature_def)
    then show "key_is spec (or_key r) b1 \<and> Some (content_signature gq spec b1) = or_signature r \<longleftrightarrow>
        row_key spec b1 = row_key spec b0 \<and> \<not> changed_predicate gq spec b0 b1"
      using b0(2) fields by (auto simp: key_is_def)
  qed
  finally show ?thesis
    by (intro bexI [OF _ b0(1)] conjI) (use b0(2) in \<open>simp_all add: key_is_def\<close>)
qed

definition no_faults :: report_faults where
  "no_faults = \<lparr>rf_begin = False, rf_read = False, rf_row = (\<lambda>k. False), rf_match = False, rf_tiles = False,
     rf_update = (\<lambda>k. False), rf_commit = False\<rparr>"

lemma no_faults_simps [simp]:
  "\<not> rf_begin no_faults" "\<not> rf_read no_faults" "\<not> rf_row no_faults k" "\<not> rf_match no_faults" "\<not> rf_tiles no_faults"
  "\<not> rf_update no_faults k" "\<not> rf_commit no_faults"
  by (simp_all add: no_faults_def)

definition demo_db :: "string option \<Rightarrow> object_report list \<Rightarrow> nat gov_db" where
  "demo_db rodzaj rs = \<lparr>gb_live = (\<lambda>t. [demo_row ''B1'' rodzaj None 5]), gb_reports = rs, gb_match = [], gb_tiles = []\<rparr>"

definition demo_report :: object_report where
  "demo_report = \<lparr>or_id = 1, or_source = ''egib'', or_key = [''B1''],
     or_signature = Some (content_signature demo_sql EGIB (demo_row ''B1'' None None 5)), or_reported_at = 7,
     or_cell = Some (5, 0), or_status = REPORT_ACTIVE, or_resolved_at = None\<rparr>"

abbreviation demo_targets :: "report_target list" where
  "demo_targets \<equiv> [\<lparr>rt_spec = EGIB, rt_key = [''B1'']\<rparr>]"

lemma demo_inserted:
  "\<exists>st db1. insert_reports demo_sql 7 no_faults demo_targets (demo_db None []) = (Inr ([Accepted 1], st), db1) \<and> demo_report \<in> set (gb_reports db1)"
  by (simp add: insert_reports_def in_transaction_def insert_in_txn_def next_report_id_def demo_db_def insert_one_def new_reports_def
    key_is_def row_key_def EGIB_def demo_row_def enqueue_match_for_reports_def demo_report_def enqueue_tiles_for_reports_def
    representative_point_def demo_sql_def Let_def del: One_nat_def)

lemma demo_reconciled:
  "in_transaction True True (reconcile_source demo_sql alone (\<lambda>i. 9) no_faults EGIB) db =
     (Inr (projr (fst (reconcile_source demo_sql alone (\<lambda>i. 9) no_faults EGIB db))), reconciled demo_sql 9 EGIB db)"
proof -
  obtain s where "fst (reconcile_source demo_sql alone (\<lambda>i. 9) no_faults EGIB db) = Inr s"
    by (simp add: reconcile_source_def Let_def case_prod_beta)
  then show ?thesis
    using reconcile_alone [of demo_sql 9 no_faults EGIB db s] by (auto simp: in_transaction_def split: prod.splits)
qed

theorem report_follows_record_witness:
  "demo_report \<in> active_reports (reconciled demo_sql 9 EGIB (demo_db None [demo_report])) \<and>
   demo_report \<notin> active_reports (reconciled demo_sql 9 EGIB (demo_db (Some ''m'') [demo_report]))"
proof -
  have base: "or_id demo_report = 1" "or_status demo_report = REPORT_ACTIVE" by (simp_all add: demo_report_def)
  obtain st db1 where ins: "insert_reports demo_sql 7 no_faults demo_targets (demo_db None []) = (Inr ([Accepted 1], st), db1)"
    "demo_report \<in> set (gb_reports db1)" using demo_inserted by blast
  have "\<exists>b0\<in>set (gb_live (demo_db None []) (ds_table EGIB)). row_key EGIB b0 = map Some (rt_key (demo_targets ! 0)) \<and>
      (demo_report \<in> active_reports (reconciled demo_sql 9 EGIB (demo_db k [demo_report])) \<longleftrightarrow>
        (\<exists>b1\<in>set (gb_live (demo_db k [demo_report]) (ds_table EGIB)). row_key EGIB b1 = row_key EGIB b0 \<and>
          \<not> changed_predicate demo_sql EGIB b0 b1))" if "k = None \<or> k = Some ''m''" for k
    by (rule report_follows_record [OF ins(1) _ _ _ ins(2) _ _ _ demo_reconciled])
      (use that base in \<open>auto simp: active_reports_def demo_db_def plain_row_def plain_def demo_row_def EGIB_def demo_sql_def\<close>)
  from this [of None] this [of "Some ''m''"] show ?thesis
    by (simp add: demo_db_def changed_predicate_def row_key_def EGIB_def demo_row_def demo_sql_def)
qed

lemma split_terminated: "\<forall>l\<in>set ls. c \<notin> set l \<Longrightarrow> split_on c (concat (map (\<lambda>l. l @ [c]) ls)) = ls @ [[]]"
  by (induction ls) (simp_all add: split_on_append)

lemma lines_terminated:
  assumes "\<forall>l\<in>set ls. CHR 0x0A \<notin> set l \<and> CHR 0x0D \<notin> set l"
  shows "lines_of (concat (map (\<lambda>l. l @ [CHR 0x0A]) ls)) = ls"
proof -
  have "map strip_cr ls = ls"
    using assms by (intro map_idI) (auto simp: strip_cr_def dest: last_in_set)
  then show ?thesis
    using split_terminated [of ls "CHR 0x0A"] assms by (simp add: lines_of_def Let_def butlast_append)
qed

lemma read_dump_written:
  "\<forall>r\<in>set rows. js_read tx (js_write tx r) = Some r \<and> \<not> blank (js_write tx r) \<Longrightarrow> read_dump tx i (map (js_write tx) rows) = Inr rows"
  by (induction rows arbitrary: i) simp_all

lemma import_chunks_ok:
  "mapM_opt (\<lambda>(i, r). import_row tx i r) (enumerate i (concat cs)) = Some new \<Longrightarrow>
     import_chunks tx (\<lambda>k. False) k cs i db = (Inr (i + length (concat cs)), db\<lparr>gb_reports := gb_reports db @ new\<rparr>)"
proof (induction cs arbitrary: k i db new)
  case (Cons c cs)
  have split: "\<exists>as bs. mapM_opt f xs = Some as \<and> mapM_opt f ys = Some bs \<and> zs = as @ bs" if "mapM_opt f (xs @ ys) = Some zs"
    for f :: "nat \<times> report_row \<Rightarrow> object_report option" and xs ys zs
    using that by (induction xs arbitrary: zs) (auto split: option.splits)
  have "mapM_opt (\<lambda>(i, r). import_row tx i r) (enumerate i c @ enumerate (i + length c) (concat cs)) = Some new"
    using Cons.prems by (simp add: enumerate_append_eq)
  from split [OF this] obtain ys zs where "mapM_opt (\<lambda>(i, r). import_row tx i r) (enumerate i c) = Some ys"
    "mapM_opt (\<lambda>(i, r). import_row tx i r) (enumerate (i + length c) (concat cs)) = Some zs" "new = ys @ zs" by blast
  with Cons.IH [of "i + length c" zs] show ?case by (simp add: add.assoc)
qed simp

lemma import_dump_rows:
  assumes "\<forall>r\<in>set rs. \<forall>t\<in>insert (or_reported_at r) (set_option (or_resolved_at r)). ts_read tx (ts_show tx t) = Some t"
  shows "mapM_opt (\<lambda>(i, r). import_row tx i r) (enumerate i (map (dump_row tx) rs)) = Some (map (\<lambda>(i, r). r\<lparr>or_id := i\<rparr>) (enumerate i rs))"
  using assms
proof (induction rs arbitrary: i)
  case (Cons r rs)
  then have "import_row tx i (dump_row tx r) = Some (r\<lparr>or_id := i\<rparr>)"
    by (cases "or_resolved_at r") (simp_all add: import_row_def dump_row_def)
  with Cons show ?case by simp
qed simp

text \<open>C34: an export can be restored. Where JSON and the casts of a time read back what they wrote, and a JSON
  line has no line break and is not blank, importing the exported text of any database into any other
  succeeds and appends every report with its content unchanged, under fresh consecutive ids in the
  order of the dump (newest id first), and announces the ones in force.\<close>

theorem export_import_roundtrip:
  assumes json: "\<forall>r\<in>set (gb_reports db). let l = js_write tx (dump_row tx r) in js_read tx l = Some (dump_row tx r) \<and> \<not> blank l \<and>
      CHR 0x0A \<notin> set l \<and> CHR 0x0D \<notin> set l"
    and times: "\<forall>r\<in>set (gb_reports db). \<forall>t\<in>insert (or_reported_at r) (set_option (or_resolved_at r)). ts_read tx (ts_show tx t) = Some t"
  shows "\<exists>text db'. export_to_string tx db = Inr text \<and>
    import_text tx now no_faults text target = (Inr (length (gb_reports db)), db') \<and>
    gb_reports db' = gb_reports target @
      map (\<lambda>(i, r). r\<lparr>or_id := i\<rparr>) (enumerate (next_report_id target) (sort_key (\<lambda>r. - int (or_id r)) (gb_reports db))) \<and>
    announced target db'"
proof -
  let ?rs = "sort_key (\<lambda>r. - int (or_id r)) (gb_reports db)"
  let ?rows = "map (dump_row tx) ?rs" and ?i = "next_report_id target"
  let ?new = "map (\<lambda>(i, r). r\<lparr>or_id := i\<rparr>) (enumerate ?i ?rs)"
  have exported: "export_to_string tx db = Inr (concat (map (\<lambda>l. l @ [CHR 0x0A]) (map (js_write tx) ?rows)))"
    by (simp add: export_to_string_def list_reports_def Let_def comp_def)
  have dump: "read_dump tx 0 (lines_of (concat (map (\<lambda>l. l @ [CHR 0x0A]) (map (js_write tx) ?rows)))) = Inr ?rows"
    using json by (subst lines_terminated, force simp: Let_def) (rule read_dump_written, auto simp: Let_def)
  have chunks: "concat (chunks IMPORT_CHUNK ?rows) = ?rows"
    by (rule concat_chunks) (simp add: IMPORT_CHUNK_def)
  have rows: "mapM_opt (\<lambda>(i, r). import_row tx i r) (enumerate ?i ?rows) = Some ?new"
    using times by (intro import_dump_rows) simp
  obtain db' where imported: "import_rows tx now no_faults ?rows target = (Inr (length (gb_reports db)), db')"
    and reports: "gb_reports db' = gb_reports target @ ?new"
  proof (cases "?rows = []")
    case True
    then have "gb_reports db = []" by (metis map_is_Nil_conv length_0_conv length_sort)
    then show thesis by (intro that [of target]) (simp_all add: import_rows_def)
  next
    case False
    have fls: "rf_row no_faults = (\<lambda>k. False)" by (simp add: no_faults_def)
    show thesis
      using that False import_chunks_ok [of tx ?i "chunks IMPORT_CHUNK ?rows" ?new 0 target] rows
      unfolding import_rows_def in_transaction_def import_rows_in_txn_def fls chunks
      by (simp add: Let_def case_prod_beta enqueue_match_for_reports_def enqueue_tiles_for_reports_def)
  qed
  have "announced target db'" using import_announced [of target tx now no_faults ?rows] imported by simp
  then show ?thesis
    using exported dump imported reports by (simp add: import_text_def del: enumerate_map_upt)
qed


definition demo_text :: report_text where
  "demo_text = \<lparr>ts_show = (\<lambda>t. show_nat t), ts_read = (\<lambda>s. parse_nat s), js_write = (\<lambda>r. ''report''),
     js_read = (\<lambda>s. if s = ''report'' then Some (dump_row \<lparr>ts_show = (\<lambda>t. show_nat t), ts_read = (\<lambda>s. None),
       js_write = (\<lambda>r. []), js_read = (\<lambda>s. None)\<rparr> demo_report) else None)\<rparr>"

theorem export_import_roundtrip_witness:
  "\<exists>text db'. export_to_string demo_text (demo_db None [demo_report]) = Inr text \<and>
    import_text demo_text 8 no_faults text (demo_db None []) = (Inr 1, db') \<and> gb_reports db' = [demo_report] \<and> announced (demo_db None []) db'"
proof -
  have "blank ''report'' = False" by (simp add: is_ws_def ws2_def ws3_def)
  then show ?thesis
    using export_import_roundtrip [of "demo_db None [demo_report]" demo_text 8 "demo_db None []"]
    by (simp add: demo_db_def demo_text_def demo_report_def dump_row_def Let_def next_report_id_def)
qed

lemma parse_key_Inr: "parse_key i source key columns = Inr vs \<Longrightarrow> map (map_of key) columns = map Some vs \<and> list_all (\<lambda>v. \<not> blank v) vs"
  by (induction columns arbitrary: vs) (auto split: option.splits if_splits sum.splits)

lemma parse_objects_Inr:
  "parse_objects i objs = Inr ts \<Longrightarrow> list_all2 (\<lambda>(source, key) t. spec_by_name source = Some (rt_spec t) \<and>
     length key = length (ds_key_columns (rt_spec t)) \<and> map (map_of key) (ds_key_columns (rt_spec t)) = map Some (rt_key t) \<and>
     list_all (\<lambda>v. \<not> blank v) (rt_key t)) objs ts"
  by (induction i objs arbitrary: ts rule: parse_objects.induct)
    (auto split: option.splits if_splits sum.splits dest: parse_key_Inr)

lemma parse_report_body_Inr:
  "parse_report_body json body limit = Inr ts \<Longrightarrow>
     \<exists>objs. json body = Inr objs \<and> objs \<noteq> [] \<and> length objs \<le> limit \<and> parse_objects 0 objs = Inr ts"
  by (auto simp: parse_report_body_def split: sum.splits if_splits)

lemma insert_reports_error: "insert_reports gq now flt ts db = (Inl e, db') \<Longrightarrow> db' = db"
  by (auto simp: insert_reports_def in_transaction_def split: if_splits sum.splits prod.splits)

lemma response_items:
  assumes "i < length outs" "length outs = length srcs"
  shows "case outs ! i of Accepted rid \<Rightarrow> (i, srcs ! i, rid) \<in> set (accepted_items (enumerate 0 (zip outs srcs)))
    | UnknownRecord \<Rightarrow> (i, srcs ! i, UNKNOWN_RECORD_MESSAGE) \<in> set (rejected_items (enumerate 0 (zip outs srcs)))"
proof -
  have "(i, outs ! i, srcs ! i) \<in> set (enumerate 0 (zip outs srcs))"
    using assms by (auto simp: in_set_enumerate_eq)
  then show ?thesis
    by (force simp: accepted_items_def rejected_items_def split: report_outcome.splits)
qed

lemma insert_outcomes:
  assumes "insert_reports gq now flt ts db = (Inr (outs, st), db')" "ts \<noteq> []"
  shows "length outs = length ts" "gb_reports db' = gb_reports db @ concat (map (outcome_reports gq now db) (zip ts outs))"
    "i < length ts \<Longrightarrow> outs ! i = Accepted rid \<Longrightarrow> next_report_id db \<le> rid \<and> new_reports gq now (ts ! i) rid db \<noteq> []"
    "i < length ts \<Longrightarrow> outs ! i = UnknownRecord \<Longrightarrow> new_reports gq now (ts ! i) 0 db = []"
proof -
  let ?ids = "\<lambda>out. case out of Accepted rid \<Rightarrow> [rid] | UnknownRecord \<Rightarrow> []"
  obtain db1 j where ins: "insert_targets gq now (rf_row flt) 0 ts (next_report_id db) db = (Inr (outs, j), db1)"
    and same: "gb_reports db' = gb_reports db1"
    using insert_reports_ok [OF assms] by metis
  note spec = insert_targets_spec [OF ins]
  show len: "length outs = length ts" and "gb_reports db' = gb_reports db @ concat (map (outcome_reports gq now db) (zip ts outs))"
    using spec same by simp_all
  have ids: "concat (map ?ids outs) = [next_report_id db..<j]"
    and found: "list_all2 (\<lambda>t out. is_accept out \<longleftrightarrow> new_reports gq now t 0 db \<noteq> []) ts outs"
    using spec by blast+
  show "next_report_id db \<le> rid \<and> new_reports gq now (ts ! i) rid db \<noteq> []" if "i < length ts" "outs ! i = Accepted rid"
  proof
    have "Accepted rid \<in> set outs" using that len nth_mem [of i outs] by simp
    then have "rid \<in> set (concat (map ?ids outs))" by force
    then show "next_report_id db \<le> rid" unfolding ids by simp
    have "new_reports gq now (ts ! i) 0 db \<noteq> []" using list_all2_nthD [OF found that(1)] that(2) by simp
    then show "new_reports gq now (ts ! i) rid db \<noteq> []" by (simp add: new_reports_def Let_def)
  qed
  show "new_reports gq now (ts ! i) 0 db = []" if "i < length ts" "outs ! i = UnknownRecord"
    using list_all2_nthD [OF found that(1)] that(2) by simp
qed

lemma post_report_cases:
  obtains code msg where "post_report gq json enabled limit pool_ok now flt body db = (Error_response code msg, db)"
  | objs ts outs st db' where "enabled" "json body = Inr objs" "objs \<noteq> []" "length objs \<le> limit" "parse_objects 0 objs = Inr ts"
      "insert_reports gq now flt ts db = (Inr (outs, st), db')"
      "post_report gq json enabled limit pool_ok now flt body db =
        (Stored (accepted_items (enumerate 0 (zip outs (map (\<lambda>t. ds_name (rt_spec t)) ts))))
          (rejected_items (enumerate 0 (zip outs (map (\<lambda>t. ds_name (rt_spec t)) ts)))) (is_cells_enqueued st), db')"
proof (cases "enabled \<and> pool_ok")
  case False
  then have "\<exists>code msg. post_report gq json enabled limit pool_ok now flt body db = (Error_response code msg, db)"
    by (cases enabled; cases "parse_report_body json body limit") (auto simp: post_report_def)
  then show thesis using that(1) by blast
next
  case True
  note on = this
  show thesis
  proof (cases "parse_report_body json body limit")
    case (Inl msg)
    then show thesis using on by (auto simp: post_report_def intro: that(1))
  next
    case (Inr ts)
    obtain res db' where ins: "insert_reports gq now flt ts db = (res, db')" by fastforce
    show thesis
      using parse_report_body_Inr [OF Inr] on Inr ins insert_reports_error [of gq now flt ts db]
      by (cases res) (auto simp: post_report_def Let_def intro: that)
  qed
qed

text \<open>What \<open>POST /report\<close> answers is what it stored. An error response leaves the database as it was.
  Otherwise the body held between one and the configured number of objects, each of a known source with
  exactly the key columns of that source, none blank, and object \<open>i\<close> is either accepted under an id that
  is new and under which a report of that source and key is stored, or rejected because the source has
  no row of that key with a geometry; nothing else is stored.\<close>

theorem post_report_exact:
  "case post_report gq json enabled limit pool_ok now flt body db of
     (Error_response code msg, db') \<Rightarrow> db' = db
   | (Stored acc rej n, db') \<Rightarrow> enabled \<and> (\<exists>objs ts outs. json body = Inr objs \<and> objs \<noteq> [] \<and> length objs \<le> limit \<and>
       list_all2 (\<lambda>(source, key) t. spec_by_name source = Some (rt_spec t) \<and> length key = length (ds_key_columns (rt_spec t)) \<and>
         map (map_of key) (ds_key_columns (rt_spec t)) = map Some (rt_key t) \<and> list_all (\<lambda>v. \<not> blank v) (rt_key t)) objs ts \<and>
       length outs = length ts \<and>
       gb_reports db' = gb_reports db @ concat (map (outcome_reports gq now db) (zip ts outs)) \<and>
       (\<forall>i<length ts. case outs ! i of
          Accepted rid \<Rightarrow> (i, ds_name (rt_spec (ts ! i)), rid) \<in> set acc \<and> next_report_id db \<le> rid \<and> new_reports gq now (ts ! i) rid db \<noteq> []
        | UnknownRecord \<Rightarrow> (i, ds_name (rt_spec (ts ! i)), UNKNOWN_RECORD_MESSAGE) \<in> set rej \<and> new_reports gq now (ts ! i) 0 db = []))"
proof (cases rule: post_report_cases [of gq json enabled limit pool_ok now flt body db])
  case 1
  then show ?thesis by simp
next
  case (2 objs ts outs st db')
  let ?xs = "enumerate 0 (zip outs (map (\<lambda>t. ds_name (rt_spec t)) ts))"
  note valid = parse_objects_Inr [OF 2(5)]
  then have ne: "ts \<noteq> []" using 2(3) by auto
  note stored = insert_outcomes [OF 2(6) ne]
  have each: "case outs ! i of
        Accepted rid \<Rightarrow> (i, ds_name (rt_spec (ts ! i)), rid) \<in> set (accepted_items ?xs) \<and> next_report_id db \<le> rid \<and>
          new_reports gq now (ts ! i) rid db \<noteq> []
      | UnknownRecord \<Rightarrow> (i, ds_name (rt_spec (ts ! i)), UNKNOWN_RECORD_MESSAGE) \<in> set (rejected_items ?xs) \<and>
          new_reports gq now (ts ! i) 0 db = []" if i: "i < length ts" for i
    using response_items [of i outs "map (\<lambda>t. ds_name (rt_spec t)) ts"] i stored(1) stored(3,4) [OF i] by (cases "outs ! i") simp_all
  show ?thesis
    unfolding 2(7) prod.case report_response.case
    by (rule conjI [OF 2(1)], rule exI [of _ objs], rule exI [of _ ts], rule exI [of _ outs],
        rule conjI [OF 2(2) conjI [OF 2(3) conjI [OF 2(4) conjI [OF valid conjI [OF stored(1) conjI [OF stored(2)]]]]]],
        intro allI impI, erule each)
qed

definition demo_json :: "string \<Rightarrow> string + (string \<times> (string \<times> string) list) list" where
  "demo_json body = Inr [(''egib'', [(''id_budynku'', ''B1'')])]"

theorem post_report_exact_witness:
  "\<exists>acc rej n db'. post_report demo_sql demo_json True 10 True 7 no_faults [] (demo_db None []) = (Stored acc rej n, db') \<and>
     (acc \<noteq> [] \<or> rej \<noteq> [])"
proof -
  have "blank ''B1'' = False" by (simp add: is_ws_def ws2_def)
  then have parsed: "parse_report_body demo_json [] 10 = Inr demo_targets"
    by (simp add: parse_report_body_def demo_json_def spec_by_name_def EGIB_def)
  obtain acc rej n db' where run: "post_report demo_sql demo_json True 10 True 7 no_faults [] (demo_db None []) = (Stored acc rej n, db')"
    using demo_inserted by (auto simp: post_report_def parsed Let_def)
  note exact = post_report_exact [where gq = demo_sql and json = demo_json and enabled = True and limit = 10 and pool_ok = True and
    now = 7 and flt = no_faults and body = "[]" and db = "demo_db None []", unfolded run prod.case report_response.case]
  obtain objs ts outs where "demo_json [] = Inr objs" "length objs = length ts"
    and each: "\<forall>i<length ts. case outs ! i of
          Accepted rid \<Rightarrow> (i, ds_name (rt_spec (ts ! i)), rid) \<in> set acc \<and> next_report_id (demo_db None []) \<le> rid \<and>
            new_reports demo_sql 7 (ts ! i) rid (demo_db None []) \<noteq> []
        | UnknownRecord \<Rightarrow> (i, ds_name (rt_spec (ts ! i)), UNKNOWN_RECORD_MESSAGE) \<in> set rej \<and>
            new_reports demo_sql 7 (ts ! i) 0 (demo_db None []) = []"
    using exact by (elim conjE exE) (rule that, assumption, erule list_all2_lengthD, assumption)
  then have "0 < length ts" by (auto simp: demo_json_def)
  then have "acc \<noteq> [] \<or> rej \<noteq> []"
    using each [rule_format, of 0] by (cases "outs ! 0") auto
  then show ?thesis using run by blast
qed

end
