(* ===== verification/Refresh.thy ===== *)
theory Refresh
  imports Reports Osm_Update Download
begin

text \<open>
  The refresh of a government source: \<open>src/update/diff.rs\<close>, \<open>changeset.rs\<close>, \<open>dataset.rs\<close> and \<open>mod.rs\<close>. A new
  snapshot is staged, compared with the live table by key and content hash, and applied in one
  transaction with its change areas, its dirty cells and the reports it retires. The state is the
  database of \<open>Reports\<close> with the two tables of refreshes and the job log. What the loader stages, the
  two tables' columns, the cancel flags and the failure of each statement belong to the environment.
  The source's job is the only writer of its table, so nothing else changes the table between the
  statements outside the transaction.
\<close>

section \<open>The diff\<close>

type_synonym record_key = "string option list"

record diff =
  df_added :: "record_key list"
  df_removed :: "record_key list"
  df_modified :: "record_key list"

record diff_counts =
  dc_added :: nat
  dc_modified :: nat
  dc_removed :: nat

text \<open>\<open>USING\<close> on the key columns: NULL equals nothing.\<close>

definition same_key :: "record_key \<Rightarrow> record_key \<Rightarrow> bool" where
  "same_key k k' \<longleftrightarrow> k = k' \<and> None \<notin> set k"

definition anti_join :: "dataset_spec \<Rightarrow> 'g gov_row list \<Rightarrow> 'g gov_row list \<Rightarrow> record_key list" where
  "anti_join spec xs ys = map (row_key spec) (filter (\<lambda>x. \<not> list_ex (\<lambda>y. same_key (row_key spec x) (row_key spec y)) ys) xs)"

definition modified_keys :: "'g gov_sql \<Rightarrow> dataset_spec \<Rightarrow> 'g gov_row list \<Rightarrow> 'g gov_row list \<Rightarrow> record_key list" where
  "modified_keys gq spec staging live = concat (map (\<lambda>s. map (\<lambda>l. row_key spec s)
     (filter (\<lambda>l. same_key (row_key spec s) (row_key spec l) \<and> content_hash gq spec s \<noteq> content_hash gq spec l) live)) staging)"

definition compute :: "'g gov_sql \<Rightarrow> dataset_spec \<Rightarrow> 'g gov_row list \<Rightarrow> 'g gov_row list \<Rightarrow> diff" where
  "compute gq spec staging live = \<lparr>df_added = anti_join spec staging live, df_removed = anti_join spec live staging,
     df_modified = modified_keys gq spec staging live\<rparr>"

definition diff_counts_of :: "diff \<Rightarrow> diff_counts" where
  "diff_counts_of d = \<lparr>dc_added = length (df_added d), dc_modified = length (df_modified d), dc_removed = length (df_removed d)\<rparr>"

section \<open>The change set\<close>

datatype change_kind = Added | Modified | Removed

definition cell_of :: "'g gov_sql \<Rightarrow> dataset_spec \<Rightarrow> 'g gov_row \<Rightarrow> cell option" where
  "cell_of gq spec r = map_option (gq_cell gq) (representative_point spec r)"

definition join_kinds :: "'g gov_sql \<Rightarrow> dataset_spec \<Rightarrow> 'g gov_row list \<Rightarrow> (record_key \<times> change_kind) list \<Rightarrow> (change_kind \<times> cell option) list" where
  "join_kinds gq spec rows ks = concat (map (\<lambda>r. map (\<lambda>(k, kind). (kind, cell_of gq spec r))
     (filter (\<lambda>(k, kind). same_key (row_key spec r) k) ks)) (filter (\<lambda>r. gr_geom r \<noteq> None) rows))"

definition create_changed_cells :: "'g gov_sql \<Rightarrow> dataset_spec \<Rightarrow> diff \<Rightarrow> 'g gov_row list \<Rightarrow> 'g gov_row list \<Rightarrow> (change_kind \<times> cell option) list" where
  "create_changed_cells gq spec d staging live =
     join_kinds gq spec staging (map (\<lambda>k. (k, Added)) (df_added d) @ map (\<lambda>k. (k, Modified)) (df_modified d)) @
     join_kinds gq spec live (map (\<lambda>k. (k, Removed)) (df_removed d) @ map (\<lambda>k. (k, Modified)) (df_modified d))"

record change_area =
  ca_snapshot :: nat
  ca_source :: string
  ca_cell :: "cell option"
  ca_added :: nat
  ca_modified :: nat
  ca_removed :: nat
  ca_detected_at :: nat

record refresh_row =
  rx_snapshot :: nat
  rx_source :: string
  rx_at :: nat
  rx_etag :: "string option"
  rx_counts :: diff_counts

record 'g warehouse =
  wh_gov :: "'g gov_db"
  wh_refreshes :: "refresh_row list"
  wh_areas :: "change_area list"
  wh_log :: job_log

definition insert_change_areas :: "dataset_spec \<Rightarrow> nat \<Rightarrow> nat \<Rightarrow> (change_kind \<times> cell option) list \<Rightarrow> 'g warehouse \<Rightarrow> 'g warehouse" where
  "insert_change_areas spec snapshot now cells wh =
     (let n = (\<lambda>kind c. length (filter (\<lambda>kc. kc = (kind, c)) cells))
      in wh\<lparr>wh_areas := wh_areas wh @ map (\<lambda>c. \<lparr>ca_snapshot = snapshot, ca_source = ds_name spec, ca_cell = c,
           ca_added = n Added c, ca_modified = n Modified c, ca_removed = n Removed c, ca_detected_at = now\<rparr>)
           (remdups (map snd cells))\<rparr>)"

definition insert_dirty_cells :: "dataset_spec \<Rightarrow> nat \<Rightarrow> (change_kind \<times> cell option) list \<Rightarrow> 'g gov_db \<Rightarrow> 'g gov_db" where
  "insert_dirty_cells spec now cells db =
     (let cs = remdups (map snd cells)
      in db\<lparr>gb_match := gb_match db @ map (\<lambda>c. (ds_name spec, c, now)) cs, gb_tiles := gb_tiles db @ map (\<lambda>c. (c, now)) cs\<rparr>)"

section \<open>The refresh\<close>

definition in_keys :: "dataset_spec \<Rightarrow> record_key list \<Rightarrow> 'g gov_row \<Rightarrow> bool" where
  "in_keys spec ks r \<longleftrightarrow> list_ex (same_key (row_key spec r)) ks"

definition apply_delta :: "dataset_spec \<Rightarrow> diff \<Rightarrow> 'g gov_row list \<Rightarrow> 'g gov_row list \<Rightarrow> 'g gov_row list" where
  "apply_delta spec d staging live = filter (\<lambda>l. \<not> in_keys spec (df_removed d @ df_modified d) l) live @
     filter (in_keys spec (df_added d @ df_modified d)) staging"

definition next_snapshot_id :: "'g warehouse \<Rightarrow> nat" where
  "next_snapshot_id wh = (if wh_refreshes wh = [] then 0 else Max (set (map rx_snapshot (wh_refreshes wh)))) + 1"

datatype refresh_stage = Clear_staging | Count_staged | List_columns | Diff | Count_live | Build_cells | Begin_apply
  | Allocate_id | Change_areas | Dirty_match | Apply | Record_refresh | Commit_apply

record 'g refresh_env =
  re_now :: nat
  re_fails :: "refresh_stage \<Rightarrow> string option"
  re_reports :: report_faults
  re_columns :: "string \<Rightarrow> (string \<times> string) list"
  re_stop :: "nat \<Rightarrow> bool"
  re_cancelled :: "nat \<Rightarrow> bool"

definition refresh_job_log_name :: "string \<Rightarrow> string" where
  "refresh_job_log_name name = ''update:'' @ name"

definition check_cancelled :: "'g refresh_env \<Rightarrow> nat \<Rightarrow> string \<Rightarrow> string option" where
  "check_cancelled env i stage =
     (if re_stop env i then Some (''Cancelled before '' @ stage @ '' (shutdown requested)'')
      else if re_cancelled env i then Some (''Cancelled before '' @ stage @ '' (job cancelled)'') else None)"

definition describe_columns :: "(string \<times> string) list \<Rightarrow> string" where
  "describe_columns cols = join_with '', '' (map (\<lambda>(name, ty). name @ '' '' @ ty) cols)"

definition check_column_shapes_match :: "'g refresh_env \<Rightarrow> dataset_spec \<Rightarrow> string option" where
  "check_column_shapes_match env spec =
     (let live = re_columns env (ds_table spec); staging = re_columns env (staging_table spec)
      in if live = staging then None
         else Some (ds_name spec @ '': staging and live column sets differ (live: ['' @ describe_columns live @ ''], staging: ['' @
           describe_columns staging @ '']) - the loader's output shape changed. Re-run `import '' @ ds_name spec @ ''` to rebuild the live table.''))"

text \<open>A step that can fail leaves the state as it is and ends the computation.\<close>

definition guarded :: "string option \<Rightarrow> ('s \<Rightarrow> (string + 'a) \<times> 's) \<Rightarrow> 's \<Rightarrow> (string + 'a) \<times> 's" where
  "guarded e k s = (case e of Some m \<Rightarrow> (Inl m, s) | None \<Rightarrow> k s)"

definition set_live :: "string \<Rightarrow> 'g gov_row list \<Rightarrow> 'g gov_db \<Rightarrow> 'g gov_db" where
  "set_live table rows db = db\<lparr>gb_live := (gb_live db)(table := rows)\<rparr>"

definition apply_in_txn :: "'g gov_sql \<Rightarrow> 'g refresh_env \<Rightarrow> dataset_spec \<Rightarrow> string option \<Rightarrow> 'g gov_row list \<Rightarrow> diff \<Rightarrow>
    (change_kind \<times> cell option) list \<Rightarrow> 'g warehouse \<Rightarrow> (string + nat) \<times> 'g warehouse" where
  "apply_in_txn gq env spec etag staging d cells =
     guarded (re_fails env Allocate_id) (\<lambda>wh. let snapshot = next_snapshot_id wh in
     guarded (re_fails env Change_areas) (\<lambda>wh. let wh1 = insert_change_areas spec snapshot (re_now env) cells wh in
     guarded (re_fails env Dirty_match) (\<lambda>wh1. let wh2 = wh1\<lparr>wh_gov := insert_dirty_cells spec (re_now env) cells (wh_gov wh1)\<rparr> in
     guarded (re_fails env Apply) (\<lambda>wh2. let live = gb_live (wh_gov wh2) (ds_table spec);
          gov = set_live (ds_table spec) (apply_delta spec d staging live) (wh_gov wh2)
       in case reconcile_source gq alone (\<lambda>i. re_now env) (re_reports env) spec gov of
            (Inl e, gov') \<Rightarrow> (Inl e, wh2\<lparr>wh_gov := gov'\<rparr>)
          | (Inr st, gov') \<Rightarrow>
     guarded (re_fails env Record_refresh) (\<lambda>wh3. (Inr snapshot, wh3\<lparr>wh_refreshes := wh_refreshes wh3 @
        [\<lparr>rx_snapshot = snapshot, rx_source = ds_name spec, rx_at = re_now env, rx_etag = etag, rx_counts = diff_counts_of d\<rparr>]\<rparr>))
       (wh2\<lparr>wh_gov := gov'\<rparr>)) wh2) wh1) wh)"

definition refresh_body :: "'g gov_sql \<Rightarrow> 'g refresh_env \<Rightarrow> dataset_spec \<Rightarrow> (string + load_stats \<times> 'g gov_row list) \<Rightarrow> string option \<Rightarrow>
    'g warehouse \<Rightarrow> (string + diff_counts \<times> load_stats) \<times> 'g warehouse" where
  "refresh_body gq env spec load etag wh =
     guarded (check_cancelled env 0 ''staging'') (\<lambda>wh.
     case load of Inl e \<Rightarrow> (Inl (''Failed to stage '' @ ds_name spec @ '' snapshot: '' @ e), wh)
     | Inr (st, staging) \<Rightarrow>
     guarded (re_fails env Count_staged) (guarded
       (if staging = [] then Some (''Staged snapshot for '' @ ds_name spec @ '' has 0 rows - refusing to apply, which would delete the entire live dataset. The download is most likely empty or truncated.'') else None)
     (guarded (re_fails env List_columns) (guarded (check_column_shapes_match env spec)
     (guarded (check_cancelled env 1 ''diff'') (guarded (re_fails env Diff) (\<lambda>wh.
       let live = gb_live (wh_gov wh) (ds_table spec); d = compute gq spec staging live in
     guarded (re_fails env Count_live) (guarded (check_cancelled env 2 ''apply'') (guarded (re_fails env Build_cells) (\<lambda>wh.
       let cells = create_changed_cells gq spec d staging live in
       case in_transaction (re_fails env Begin_apply = None) (re_fails env Commit_apply = None)
              (apply_in_txn gq env spec etag staging d cells) wh of
         (Inl e, wh') \<Rightarrow> (Inl e, wh')
       | (Inr _, wh') \<Rightarrow> (Inr (diff_counts_of d, st), wh')))) wh)))))) wh) wh"

definition skip_clauses :: "load_stats \<Rightarrow> string list" where
  "skip_clauses s =
     (if 0 < ls_invalid_geometry s then [format_skip_clause ''invalid-geometry'' (ls_invalid_geometry s) (ls_example_ids s)] else []) @
     (if 0 < ls_oversized_geometry s then [format_skip_clause ''oversized-geometry'' (ls_oversized_geometry s) (ls_oversized_example_ids s)] else []) @
     (if 0 < ls_undersized_geometry s then [format_skip_clause ''undersized-geometry'' (ls_undersized_geometry s) (ls_undersized_example_ids s)] else []) @
     (if 0 < ls_missing_coordinates s then [format_skip_clause ''missing-coordinates'' (ls_missing_coordinates s) (ls_missing_coordinates_example_ids s)] else []) @
     (if 0 < ls_null_key s then [format_skip_clause ''null-key'' (ls_null_key s) []] else []) @
     (if 0 < ls_duplicate_key s then [format_skip_clause ''duplicate-key'' (ls_duplicate_key s) (ls_duplicate_example_ids s)] else [])"

definition summarize_refresh :: "diff_counts \<Rightarrow> load_stats \<Rightarrow> string" where
  "summarize_refresh c s = ''added '' @ show_nat (dc_added c) @ '' modified '' @ show_nat (dc_modified c) @ '' removed '' @ show_nat (dc_removed c) @
     concat (map (\<lambda>clause. ''; '' @ clause) (skip_clauses s))"

definition refresh :: "'g gov_sql \<Rightarrow> 'g refresh_env \<Rightarrow> dataset_spec \<Rightarrow> (string + load_stats \<times> 'g gov_row list) \<Rightarrow> string option \<Rightarrow>
    'g warehouse \<Rightarrow> (string + diff_counts) \<times> 'g warehouse" where
  "refresh gq env spec load etag =
     guarded (re_fails env Clear_staging) (\<lambda>wh.
       let job = refresh_job_log_name (ds_name spec) in
       case refresh_body gq env spec load etag wh of
         (Inr (c, st), wh') \<Rightarrow> (Inr c, wh'\<lparr>wh_log := record_job job ''Success'' (Some (summarize_refresh c st)) (wh_log wh')\<rparr>)
       | (Inl e, wh') \<Rightarrow> (Inl e, wh'\<lparr>wh_log := record_job job ''Error'' (Some e) (wh_log wh')\<rparr>))"

section \<open>What a refresh leaves\<close>

lemma guarded_Inr [simp]: "guarded e k s = (Inr v, s') \<longleftrightarrow> e = None \<and> k s = (Inr v, s')"
  by (simp add: guarded_def split: option.splits)

lemma in_transaction_Inr: "in_transaction b c f s = (Inr v, s') \<longleftrightarrow> b \<and> c \<and> f s = (Inr v, s')"
  by (auto simp: in_transaction_def split: sum.splits prod.splits)

lemma in_transaction_Inl: "in_transaction b c f s = (Inl e, s') \<Longrightarrow> s' = s"
  by (auto simp: in_transaction_def split: sum.splits prod.splits if_splits)

lemma guarded_Inl: "guarded e k s = (Inl m, s') \<Longrightarrow> (\<And>m s'. k s = (Inl m, s') \<Longrightarrow> s' = s) \<Longrightarrow> s' = s"
  by (auto simp: guarded_def split: option.splits)

text \<open>The database a refresh commits, before the reports are reconciled.\<close>

definition refreshed :: "'g gov_sql \<Rightarrow> 'g refresh_env \<Rightarrow> dataset_spec \<Rightarrow> 'g gov_row list \<Rightarrow> 'g gov_db \<Rightarrow> 'g gov_db" where
  "refreshed gq env spec staging db =
     (let live = gb_live db (ds_table spec); d = compute gq spec staging live
      in set_live (ds_table spec) (apply_delta spec d staging live)
           (insert_dirty_cells spec (re_now env) (create_changed_cells gq spec d staging live) db))"

lemma refresh_Inr:
  assumes "refresh gq env spec load etag wh = (Inr c, wh')"
  obtains st staging where "load = Inr (st, staging)" "staging \<noteq> []"
    "c = diff_counts_of (compute gq spec staging (gb_live (wh_gov wh) (ds_table spec)))"
    "wh_gov wh' = reconciled gq (re_now env) spec (refreshed gq env spec staging (wh_gov wh))"
    "wh_refreshes wh' = wh_refreshes wh @ [\<lparr>rx_snapshot = next_snapshot_id wh, rx_source = ds_name spec, rx_at = re_now env, rx_etag = etag, rx_counts = c\<rparr>]"
    "wh_areas wh' = wh_areas (insert_change_areas spec (next_snapshot_id wh) (re_now env)
       (create_changed_cells gq spec (compute gq spec staging (gb_live (wh_gov wh) (ds_table spec))) staging (gb_live (wh_gov wh) (ds_table spec))) wh)"
proof -
  obtain st wh1 where body: "refresh_body gq env spec load etag wh = (Inr (c, st), wh1)"
    and same: "wh_gov wh' = wh_gov wh1" "wh_refreshes wh' = wh_refreshes wh1" "wh_areas wh' = wh_areas wh1"
    using assms by (auto simp: refresh_def Let_def split: prod.splits sum.splits)
  obtain staging where load: "load = Inr (st, staging)" "staging \<noteq> []"
    and txn: "\<exists>i. apply_in_txn gq env spec etag staging (compute gq spec staging (gb_live (wh_gov wh) (ds_table spec)))
        (create_changed_cells gq spec (compute gq spec staging (gb_live (wh_gov wh) (ds_table spec))) staging (gb_live (wh_gov wh) (ds_table spec))) wh
      = (Inr i, wh1)"
    and c: "c = diff_counts_of (compute gq spec staging (gb_live (wh_gov wh) (ds_table spec)))"
    using body by (auto simp: refresh_body_def Let_def in_transaction_Inr split: sum.splits prod.splits if_splits)
  have areas_gov: "wh_gov (insert_change_areas spec n now cells wh) = wh_gov wh"
    "wh_refreshes (insert_change_areas spec n now cells wh) = wh_refreshes wh" for n now cells
    by (simp_all add: insert_change_areas_def Let_def)
  have dirty_live: "gb_live (insert_dirty_cells spec now cells db) = gb_live db" for now cells and db :: "'a gov_db"
    by (simp add: insert_dirty_cells_def Let_def)
  have rec: "db' = reconciled gq (re_now env) spec db"
    if "reconcile_source gq alone (\<lambda>i. re_now env) (re_reports env) spec db = (Inr s, db')" for db db' s
    using reconcile_alone [of gq "re_now env" "re_reports env" spec db s] that by simp
  show thesis
    using that [OF load c] txn c
    by (auto simp: apply_in_txn_def Let_def areas_gov dirty_live refreshed_def same split: prod.splits sum.splits dest: rec)
qed


lemma refresh_body_Inl: "refresh_body gq env spec load etag wh = (Inl e, wh') \<Longrightarrow> wh' = wh"
  unfolding refresh_body_def Let_def
  by (auto simp: guarded_def split: option.splits sum.splits prod.splits if_splits dest: in_transaction_Inl)

lemma refresh_Inl:
  "refresh gq env spec load etag wh = (Inl e, wh') \<Longrightarrow>
     wh_gov wh' = wh_gov wh \<and> wh_refreshes wh' = wh_refreshes wh \<and> wh_areas wh' = wh_areas wh"
  by (auto simp: refresh_def guarded_def Let_def split: option.splits sum.splits prod.splits dest: refresh_body_Inl)

text \<open>Membership in the three key sets, for rows whose key columns hold no NULL.\<close>

lemma added_iff: "k \<in> set (df_added (compute gq spec staging live)) \<longleftrightarrow>
    (\<exists>s\<in>set staging. row_key spec s = k \<and> \<not> (\<exists>l\<in>set live. same_key k (row_key spec l)))"
  by (auto simp: compute_def anti_join_def list_ex_iff)

lemma removed_iff: "k \<in> set (df_removed (compute gq spec staging live)) \<longleftrightarrow>
    (\<exists>l\<in>set live. row_key spec l = k \<and> \<not> (\<exists>s\<in>set staging. same_key k (row_key spec s)))"
  by (auto simp: compute_def anti_join_def list_ex_iff)

lemma modified_iff: "k \<in> set (df_modified (compute gq spec staging live)) \<longleftrightarrow>
    (\<exists>s\<in>set staging. \<exists>l\<in>set live. row_key spec s = k \<and> same_key k (row_key spec l) \<and> content_hash gq spec s \<noteq> content_hash gq spec l)"
  by (auto simp: compute_def modified_keys_def)

lemma in_keys_iff: "in_keys spec ks r \<longleftrightarrow> row_key spec r \<in> set ks \<and> non_null_key spec r"
  by (auto simp: in_keys_def list_ex_iff same_key_def row_key_usable)

text \<open>The applied table: a live row stays iff the snapshot has its key with the same hash, a staged row
  comes in iff there is no such live row.\<close>

lemma applied_rows:
  fixes gq :: "'g gov_sql"
  assumes "keyed spec live" "keyed spec staging"
  defines "d \<equiv> compute gq spec staging live"
  shows "r \<in> set (apply_delta spec d staging live) \<longleftrightarrow>
    (r \<in> set live \<and> (\<exists>s\<in>set staging. row_key spec s = row_key spec r \<and> content_hash gq spec s = content_hash gq spec r)) \<or>
    (r \<in> set staging \<and> \<not> (\<exists>l\<in>set live. row_key spec l = row_key spec r \<and> content_hash gq spec l = content_hash gq spec r))"
proof -
  have key: "None \<notin> set (row_key spec x)" if "x \<in> set live \<or> x \<in> set staging" for x
    using assms(1,2) that by (auto simp: keyed_def row_key_usable)
  have old: "in_keys spec (df_removed d @ df_modified d) l \<longleftrightarrow>
      \<not> (\<exists>s\<in>set staging. row_key spec s = row_key spec l \<and> content_hash gq spec s = content_hash gq spec l)" if l: "l \<in> set live" for l
  proof -
    have "row_key spec l \<in> set (df_removed d) \<longleftrightarrow> \<not> (\<exists>s\<in>set staging. row_key spec s = row_key spec l)"
      unfolding d_def removed_iff same_key_def using l key [of l] by metis
    moreover have "row_key spec l \<in> set (df_modified d) \<longleftrightarrow>
        (\<exists>s\<in>set staging. row_key spec s = row_key spec l \<and> content_hash gq spec s \<noteq> content_hash gq spec l)"
      unfolding d_def modified_iff same_key_def using l key [of l] keyed_unique [OF assms(1) _ l] by metis
    moreover have "s = s'" if "s \<in> set staging" "s' \<in> set staging" "row_key spec s = row_key spec l" "row_key spec s' = row_key spec l" for s s'
      using keyed_unique [OF assms(2) that(1,2)] that(3,4) by simp
    ultimately show ?thesis
      using key [of l] l unfolding in_keys_iff row_key_usable set_append Un_iff by metis
  qed
  have new: "in_keys spec (df_added d @ df_modified d) s \<longleftrightarrow>
      \<not> (\<exists>l\<in>set live. row_key spec l = row_key spec s \<and> content_hash gq spec l = content_hash gq spec s)" if s: "s \<in> set staging" for s
  proof -
    have "row_key spec s \<in> set (df_added d) \<longleftrightarrow> \<not> (\<exists>l\<in>set live. row_key spec l = row_key spec s)"
      unfolding d_def added_iff same_key_def using s key [of s] by metis
    moreover have "row_key spec s \<in> set (df_modified d) \<longleftrightarrow>
        (\<exists>l\<in>set live. row_key spec l = row_key spec s \<and> content_hash gq spec l \<noteq> content_hash gq spec s)"
      unfolding d_def modified_iff same_key_def using s key [of s] keyed_unique [OF assms(2) _ s] by metis
    moreover have "l = l'" if "l \<in> set live" "l' \<in> set live" "row_key spec l = row_key spec s" "row_key spec l' = row_key spec s" for l l'
      using keyed_unique [OF assms(1) that(1,2)] that(3,4) by simp
    ultimately show ?thesis
      using key [of s] s unfolding in_keys_iff row_key_usable set_append Un_iff by metis
  qed
  show ?thesis
    using old new by (auto simp: apply_delta_def)
qed


lemma applied_keyed:
  assumes "keyed spec live" "keyed spec staging"
  shows "keyed spec (apply_delta spec (compute gq spec staging live) staging live)"
proof -
  let ?d = "compute gq spec staging live"
  let ?old = "filter (\<lambda>l. \<not> in_keys spec (df_removed ?d @ df_modified ?d) l) live"
  let ?new = "filter (in_keys spec (df_added ?d @ df_modified ?d)) staging"
  have "row_key spec a \<noteq> row_key spec b" if ab: "a \<in> set ?old" "b \<in> set ?new" for a b
  proof
    assume k: "row_key spec a = row_key spec b"
    have "in_keys spec (df_modified ?d) a" if "row_key spec b \<in> set (df_modified ?d)"
      using that ab k assms(1) by (auto simp: in_keys_iff keyed_def)
    moreover have False if "row_key spec b \<in> set (df_added ?d)"
    proof -
      have "None \<notin> set (row_key spec b)" using ab(2) by (simp add: in_keys_iff row_key_usable)
      moreover have "a \<in> set live" using ab(1) by simp
      ultimately show False using that k unfolding added_iff same_key_def by metis
    qed
    ultimately show False using ab by (auto simp: in_keys_iff)
  qed
  then show ?thesis
    using assms by (force simp: keyed_def apply_delta_def distinct_map_filter)
qed

lemma applied_keys:
  assumes "keyed spec live" "keyed spec staging"
  shows "row_key spec ` set (apply_delta spec (compute gq spec staging live) staging live) = row_key spec ` set staging"
proof
  show "row_key spec ` set (apply_delta spec (compute gq spec staging live) staging live) \<subseteq> row_key spec ` set staging"
    using applied_rows [OF assms] by (auto intro: rev_image_eqI) (metis imageI)
next
  show "row_key spec ` set staging \<subseteq> row_key spec ` set (apply_delta spec (compute gq spec staging live) staging live)"
  proof (rule image_subsetI)
    fix s
    assume s: "s \<in> set staging"
    show "row_key spec s \<in> row_key spec ` set (apply_delta spec (compute gq spec staging live) staging live)"
    proof (cases "\<exists>l\<in>set live. row_key spec l = row_key spec s \<and> content_hash gq spec l = content_hash gq spec s")
      case True
      then obtain l where "l \<in> set live" "row_key spec l = row_key spec s" "content_hash gq spec l = content_hash gq spec s" by blast
      moreover from this s have "l \<in> set (apply_delta spec (compute gq spec staging live) staging live)"
        unfolding applied_rows [OF assms] by metis
      ultimately show ?thesis by (metis imageI)
    next
      case False
      with s have "s \<in> set (apply_delta spec (compute gq spec staging live) staging live)"
        unfolding applied_rows [OF assms] by blast
      then show ?thesis by simp
    qed
  qed
qed

text \<open>Each applied row has the key and the hash of a staged one.\<close>

lemma applied_same:
  assumes "keyed spec live" "keyed spec staging" "r \<in> set (apply_delta spec (compute gq spec staging live) staging live)"
  shows "\<exists>s\<in>set staging. row_key spec s = row_key spec r \<and> content_hash gq spec s = content_hash gq spec r \<and> (r = s \<or> r \<in> set live)"
  using assms(3) unfolding applied_rows [OF assms(1,2)] by blast

lemma refreshed_simps [simp]:
  "gb_live (refreshed gq env spec staging db) = (gb_live db)(ds_table spec :=
     apply_delta spec (compute gq spec staging (gb_live db (ds_table spec))) staging (gb_live db (ds_table spec)))"
  "gb_reports (refreshed gq env spec staging db) = gb_reports db"
  by (simp_all add: refreshed_def set_live_def insert_dirty_cells_def Let_def)

lemma compute_same:
  fixes gq :: "'g gov_sql"
  assumes "keyed spec live" "keyed spec staging"
  defines "live' \<equiv> apply_delta spec (compute gq spec staging live) staging live"
  shows "compute gq spec staging live' = \<lparr>df_added = [], df_removed = [], df_modified = []\<rparr>"
proof -
  note k' = applied_keyed [OF assms(1,2), of gq, folded live'_def]
  note keys = applied_keys [OF assms(1,2), of gq, folded live'_def]
  have nn: "None \<notin> set (row_key spec x)" if "x \<in> set live' \<or> x \<in> set staging" for x
    using k' assms(2) that by (auto simp: keyed_def row_key_usable)
  have "set (df_added (compute gq spec staging live')) = {}"
    using keys nn unfolding added_iff same_key_def set_eq_iff by (metis empty_iff imageE imageI)
  moreover have "set (df_removed (compute gq spec staging live')) = {}"
    using keys nn unfolding removed_iff same_key_def set_eq_iff by (metis empty_iff imageE imageI)
  moreover have "content_hash gq spec s = content_hash gq spec l" if "s \<in> set staging" "l \<in> set live'" "row_key spec s = row_key spec l" for s l
    using applied_same [OF assms(1,2) that(2) [unfolded live'_def]] keyed_unique [OF assms(2) that(1)] that(3) by metis
  then have "set (df_modified (compute gq spec staging live')) = {}"
    unfolding modified_iff same_key_def set_eq_iff by (metis empty_iff)
  ultimately show ?thesis by (simp add: compute_def)
qed


text \<open>Every row the delta takes out or brings in has its cell in the changed cells.\<close>

lemma join_kinds_cell:
  "r \<in> set rows \<Longrightarrow> gr_geom r \<noteq> None \<Longrightarrow> (k, kind) \<in> set ks \<Longrightarrow> same_key (row_key spec r) k \<Longrightarrow>
     (kind, cell_of gq spec r) \<in> set (join_kinds gq spec rows ks)"
  by (force simp: join_kinds_def)

lemma changed_cell_old:
  assumes "l \<in> set live" "gr_geom l \<noteq> None" "in_keys spec (df_removed d @ df_modified d) l"
  shows "cell_of gq spec l \<in> snd ` set (create_changed_cells gq spec d staging live)"
proof -
  obtain kind where "(row_key spec l, kind) \<in> set (map (\<lambda>k. (k, Removed)) (df_removed d) @ map (\<lambda>k. (k, Modified)) (df_modified d))"
    using assms(3) by (auto simp: in_keys_iff)
  moreover have "same_key (row_key spec l) (row_key spec l)"
    using assms(3) by (simp add: in_keys_iff same_key_def row_key_usable)
  ultimately have "(kind, cell_of gq spec l) \<in> set (create_changed_cells gq spec d staging live)"
    unfolding create_changed_cells_def set_append [of "join_kinds gq spec staging x" for x] by (intro UnI2 join_kinds_cell [OF assms(1,2)])
  then show ?thesis by (simp add: rev_image_eqI)
qed

lemma changed_cell_new:
  assumes "s \<in> set staging" "gr_geom s \<noteq> None" "in_keys spec (df_added d @ df_modified d) s"
  shows "cell_of gq spec s \<in> snd ` set (create_changed_cells gq spec d staging live)"
proof -
  obtain kind where "(row_key spec s, kind) \<in> set (map (\<lambda>k. (k, Added)) (df_added d) @ map (\<lambda>k. (k, Modified)) (df_modified d))"
    using assms(3) by (auto simp: in_keys_iff)
  moreover have "same_key (row_key spec s) (row_key spec s)"
    using assms(3) by (simp add: in_keys_iff same_key_def row_key_usable)
  ultimately have "(kind, cell_of gq spec s) \<in> set (create_changed_cells gq spec d staging live)"
    unfolding create_changed_cells_def set_append [of "join_kinds gq spec staging x" for x] by (intro UnI1 join_kinds_cell [OF assms(1,2)])
  then show ?thesis by (simp add: rev_image_eqI)
qed

text \<open>The rows a comparison of a cell reads.\<close>

definition rows_at :: "'g gov_sql \<Rightarrow> dataset_spec \<Rightarrow> cell \<Rightarrow> 'g gov_db \<Rightarrow> 'g gov_row list" where
  "rows_at gq spec c db = filter (\<lambda>r. gr_geom r \<noteq> None \<and> cell_of gq spec r = Some c) (gb_live db (ds_table spec))"

definition grown :: "'g gov_db \<Rightarrow> 'g gov_db \<Rightarrow> bool" where
  "grown db db' \<longleftrightarrow> set (gb_match db) \<subseteq> set (gb_match db') \<and> set (gb_tiles db) \<subseteq> set (gb_tiles db')"

lemma insert_dirty_queued: "Some c \<in> snd ` set cells \<Longrightarrow> queued (insert_dirty_cells spec now cells db) (ds_name spec) c"
  by (force simp: queued_def insert_dirty_cells_def Let_def)

lemma refreshed_grown: "grown db (refreshed gq env spec staging db)"
  by (auto simp: grown_def refreshed_def set_live_def insert_dirty_cells_def Let_def)

lemma refreshed_queued:
  assumes "rows_at gq spec c (refreshed gq env spec staging db) \<noteq> rows_at gq spec c db"
  shows "queued (refreshed gq env spec staging db) (ds_name spec) c"
proof -
  let ?live = "gb_live db (ds_table spec)"
  let ?d = "compute gq spec staging ?live"
  let ?at = "\<lambda>r. gr_geom r \<noteq> None \<and> cell_of gq spec r = Some c"
  have "Some c \<in> snd ` set (create_changed_cells gq spec ?d staging ?live)"
  proof (rule ccontr)
    assume none: "Some c \<notin> snd ` set (create_changed_cells gq spec ?d staging ?live)"
    have "\<not> in_keys spec (df_removed ?d @ df_modified ?d) l" if "l \<in> set ?live" "gr_geom l \<noteq> None" "cell_of gq spec l = Some c" for l
      using none changed_cell_old [OF that(1,2), of spec ?d gq staging] that(3) by metis
    then have "filter ?at (filter (\<lambda>l. \<not> in_keys spec (df_removed ?d @ df_modified ?d) l) ?live) = filter ?at ?live"
      unfolding filter_filter by (intro filter_cong refl) metis
    moreover have "\<not> in_keys spec (df_added ?d @ df_modified ?d) s" if "s \<in> set staging" "gr_geom s \<noteq> None" "cell_of gq spec s = Some c" for s
      using none changed_cell_new [OF that(1,2), of spec ?d gq ?live] that(3) by metis
    then have "filter ?at (filter (in_keys spec (df_added ?d @ df_modified ?d)) staging) = []"
      unfolding filter_filter filter_empty_conv by metis
    ultimately have "rows_at gq spec c (refreshed gq env spec staging db) = rows_at gq spec c db"
      by (simp add: rows_at_def apply_delta_def)
    with assms show False by contradiction
  qed
  from insert_dirty_queued [OF this, of spec "re_now env" db] show ?thesis
    by (simp add: refreshed_def set_live_def queued_def Let_def)
qed

lemma grownD: "announced db db' \<Longrightarrow> grown db db'"
  by (simp add: announced_def grown_def)

text \<open>C21: a refresh is all or nothing, and nothing it changes goes unannounced. When it fails, at whatever
  step, is cancelled, or the snapshot is empty or of another shape, the tables, queues, reports and
  recorded refreshes are as before. When it succeeds, every cell whose rows of the source differ is
  queued for the comparison and for the tiles, and so is the cell of every report it retires; no queued
  row is lost.\<close>

theorem refresh_announces_or_leaves:
  "case refresh gq env spec load etag wh of
     (Inl e, wh') \<Rightarrow> wh_gov wh' = wh_gov wh \<and> wh_refreshes wh' = wh_refreshes wh \<and> wh_areas wh' = wh_areas wh
   | (Inr n, wh') \<Rightarrow> (\<exists>st staging. load = Inr (st, staging) \<and> staging \<noteq> []) \<and> grown (wh_gov wh) (wh_gov wh') \<and>
       (\<forall>c. queued (wh_gov wh') (ds_name spec) c \<or> rows_at gq spec c (wh_gov wh') = rows_at gq spec c (wh_gov wh)) \<and>
       (\<forall>r c. or_cell r = Some c \<and> (r \<in> active_reports (wh_gov wh)) \<noteq> (r \<in> active_reports (wh_gov wh')) \<longrightarrow>
          queued (wh_gov wh') (or_source r) c)"
proof (cases "refresh gq env spec load etag wh")
  case (Pair res wh')
  show ?thesis
  proof (cases res)
    case (Inl e)
    then show ?thesis using refresh_Inl [of gq env spec load etag wh e wh'] Pair by simp
  next
    case (Inr n)
    obtain st staging where load: "load = Inr (st, staging)" "staging \<noteq> []"
      and gov: "wh_gov wh' = reconciled gq (re_now env) spec (refreshed gq env spec staging (wh_gov wh))"
      using refresh_Inr Pair Inr by blast
    let ?mid = "refreshed gq env spec staging (wh_gov wh)"
    have ann: "announced ?mid (wh_gov wh')" unfolding gov by (rule reconciled_announced)
    have grown: "grown (wh_gov wh) (wh_gov wh')"
      using refreshed_grown [of "wh_gov wh" gq env spec staging] grownD [OF ann] by (auto simp: grown_def)
    have "queued (wh_gov wh') (ds_name spec) c" if "rows_at gq spec c (wh_gov wh') \<noteq> rows_at gq spec c (wh_gov wh)" for c
    proof -
      have "rows_at gq spec c (wh_gov wh') = rows_at gq spec c ?mid" by (simp add: rows_at_def gov)
      with that have "queued ?mid (ds_name spec) c" using refreshed_queued by metis
      then show ?thesis using queued_mono grownD [OF ann] unfolding grown_def by blast
    qed
    moreover have "queued (wh_gov wh') (or_source r) c"
      if "or_cell r = Some c" "(r \<in> active_reports (wh_gov wh)) \<noteq> (r \<in> active_reports (wh_gov wh'))" for r c
    proof -
      have "active_reports ?mid = active_reports (wh_gov wh)" by (simp add: active_reports_def)
      then show ?thesis using ann that unfolding announced_def by blast
    qed
    ultimately show ?thesis using load grown Pair Inr by auto
  qed
qed


section \<open>The loaders of the two building sources\<close>

text \<open>EGIB's loader drops the column it ordered duplicates by.\<close>

definition bdot10k_load_into :: "'g gov_sql \<Rightarrow> 'g gov_row list \<Rightarrow> string + load_stats \<times> 'g gov_row list" where
  "bdot10k_load_into gq file = load_into gq BDOT10K ''LOKALNYID'' file"

definition drop_ordering_column :: "'g gov_row \<Rightarrow> 'g gov_row" where
  "drop_ordering_column r = r\<lparr>gr_version := None\<rparr>"

definition egib_load_into :: "'g gov_sql \<Rightarrow> 'g gov_row list \<Rightarrow> string + load_stats \<times> 'g gov_row list" where
  "egib_load_into gq file = map_sum (\<lambda>e. e) (\<lambda>(st, rows). (st, map drop_ordering_column rows)) (load_into gq EGIB ''id_budynku'' file)"

datatype building_update = Bdot10k | Egib

fun update_spec :: "building_update \<Rightarrow> dataset_spec" where
  "update_spec Bdot10k = BDOT10K"
| "update_spec Egib = EGIB"

fun update_load :: "'g gov_sql \<Rightarrow> building_update \<Rightarrow> 'g gov_row list \<Rightarrow> string + load_stats \<times> 'g gov_row list" where
  "update_load gq Bdot10k file = bdot10k_load_into gq file"
| "update_load gq Egib file = egib_load_into gq file"

lemma drop_ordering_simps [simp]:
  "gr_cols (drop_ordering_column r) = gr_cols r" "gr_geom (drop_ordering_column r) = gr_geom r"
  "row_key spec (drop_ordering_column r) = row_key spec r" "non_null_key spec (drop_ordering_column r) = non_null_key spec r"
  "compared gq spec (drop_ordering_column r) = compared gq spec r" "content_hash gq spec (drop_ordering_column r) = content_hash gq spec r"
  by (simp_all add: drop_ordering_column_def row_key_def non_null_key_def compared_def content_hash_def)

lemma staged_from_map:
  assumes "\<And>r. row_key spec (h r) = row_key spec r" "\<And>r. non_null_key spec (h r) = non_null_key spec r"
    "\<And>r. compared gq spec (h r) = compared gq spec r" "staged_from gq spec file rows"
  shows "staged_from gq spec file (map h rows)"
  using assms by (auto simp: staged_from_def keyed_def o_def)

lemma update_load_staged: "\<exists>st rows. update_load gq u fs = Inr (st, rows) \<and> staged_from gq (update_spec u) fs rows"
proof (cases u)
  case Bdot10k
  then show ?thesis
    using load_into_ok [of "''LOKALNYID''" BDOT10K gq fs] survivors_staged [of gq BDOT10K fs]
    by (auto simp: bdot10k_load_into_def BDOT10K_def)
next
  case Egib
  then show ?thesis
    using load_into_ok [of "''id_budynku''" EGIB gq fs] staged_from_map [OF _ _ _ survivors_staged [of gq EGIB fs], of drop_ordering_column]
    by (auto simp: egib_load_into_def EGIB_def)
qed

text \<open>C22: after a refresh from a snapshot file the live table serves that file: one row for each key that has
  a usable record in the file and no other, and each row's compared content is that of the newest
  usable record of its key. The keys stay unique and without NULLs, so the same holds of the next
  refresh. Hypothesis: the content hash does not collide between the file and the old table.\<close>

theorem refresh_serves_file:
  assumes ran: "refresh gq env (update_spec u) (update_load gq u file) etag wh = (Inr n, wh')"
    and keyed: "keyed (update_spec u) (gb_live (wh_gov wh) (ds_table (update_spec u)))"
    and hash: "\<forall>f\<in>set file. \<forall>b\<in>set (gb_live (wh_gov wh) (ds_table (update_spec u))).
      content_hash gq (update_spec u) (with_centroid gq (update_spec u) f) = content_hash gq (update_spec u) b \<longrightarrow>
      compared gq (update_spec u) (with_centroid gq (update_spec u) f) = compared gq (update_spec u) b"
  shows "staged_from gq (update_spec u) file (gb_live (wh_gov wh') (ds_table (update_spec u)))"
proof -
  let ?spec = "update_spec u" and ?live = "gb_live (wh_gov wh) (ds_table (update_spec u))"
  obtain st staging where load: "update_load gq u file = Inr (st, staging)" and staged: "staged_from gq ?spec file staging"
    using update_load_staged by blast
  have "wh_gov wh' = reconciled gq (re_now env) ?spec (refreshed gq env ?spec staging (wh_gov wh))"
    using refresh_Inr [OF ran] load by (metis Inr_inject prod.inject)
  then have live': "gb_live (wh_gov wh') (ds_table ?spec) = apply_delta ?spec (compute gq ?spec staging ?live) staging ?live"
    by simp
  have ks: "keyed ?spec staging" using staged by (simp add: staged_from_def)
  have same: "compared gq ?spec s = compared gq ?spec r"
    if s: "s \<in> set staging" "content_hash gq ?spec s = content_hash gq ?spec r" "r = s \<or> r \<in> set ?live" for s r
  proof -
    obtain f where f: "f \<in> set file" "compared gq ?spec (with_centroid gq ?spec f) = compared gq ?spec s"
      using staged s(1) unfolding staged_from_def by blast
    then have "content_hash gq ?spec (with_centroid gq ?spec f) = content_hash gq ?spec s" by (simp add: content_hash_def)
    then show ?thesis using hash f s(2,3) by metis
  qed
  show ?thesis
    unfolding staged_from_def live'
  proof (intro conjI ballI)
    show "keyed ?spec (apply_delta ?spec (compute gq ?spec staging ?live) staging ?live)"
      by (rule applied_keyed [OF keyed ks])
  next
    fix r
    assume "r \<in> set (apply_delta ?spec (compute gq ?spec staging ?live) staging ?live)"
    from applied_same [OF keyed ks this] obtain s where s: "s \<in> set staging" "row_key ?spec s = row_key ?spec r"
      "compared gq ?spec s = compared gq ?spec r" using same by blast
    then show "\<exists>f\<in>set file. usable gq ?spec f \<and> row_key ?spec f = row_key ?spec r \<and>
        compared gq ?spec (with_centroid gq ?spec f) = compared gq ?spec r \<and>
        (\<forall>g\<in>set file. usable gq ?spec g \<longrightarrow> row_key ?spec g = row_key ?spec f \<longrightarrow> \<not> newer (gr_version g) (gr_version f))"
      using staged unfolding staged_from_def by metis
  next
    fix f
    assume f: "f \<in> set file"
    have "\<exists>r\<in>set (apply_delta ?spec (compute gq ?spec staging ?live) staging ?live). row_key ?spec r = row_key ?spec f"
      if "usable gq ?spec f"
    proof -
      from that f staged obtain s where "s \<in> set staging" "row_key ?spec s = row_key ?spec f" unfolding staged_from_def by blast
      then have "row_key ?spec f \<in> row_key ?spec ` set (apply_delta ?spec (compute gq ?spec staging ?live) staging ?live)"
        unfolding applied_keys [OF keyed ks] by (metis imageI)
      then show ?thesis by force
    qed
    then show "usable gq ?spec f \<longrightarrow> (\<exists>r\<in>set (apply_delta ?spec (compute gq ?spec staging ?live) staging ?live). row_key ?spec r = row_key ?spec f)"
      by blast
  qed
qed


lemma no_changed_cells:
  "create_changed_cells gq spec \<lparr>df_added = [], df_removed = [], df_modified = []\<rparr> staging live = []"
  by (simp add: create_changed_cells_def join_kinds_def)

lemma refreshed_same:
  assumes "compute gq spec staging (gb_live db (ds_table spec)) = \<lparr>df_added = [], df_removed = [], df_modified = []\<rparr>"
  shows "refreshed gq env spec staging db = db"
  using assms by (simp add: refreshed_def no_changed_cells insert_dirty_cells_def apply_delta_def in_keys_def set_live_def Let_def)

lemma reconciled_none:
  assumes "\<forall>r\<in>set (gb_reports db). \<not> stale_report gq spec db r"
  shows "reconciled gq now spec db = db"
proof -
  have map: "map (\<lambda>r. if stale_report gq spec db r then r\<lparr>or_status := STATUS_EXPIRED, or_resolved_at := Some now\<rparr> else r) (gb_reports db) = gb_reports db"
    using assms by (intro map_idI) simp
  have "gb_match (reconciled gq now spec db) = gb_match db" "gb_tiles (reconciled gq now spec db) = gb_tiles db"
    using assms by (auto simp: enqueue_both_def enqueue_match_for_reports_def enqueue_tiles_for_reports_def filter_empty_conv Let_def)
  moreover have "gb_reports (reconciled gq now spec db) = gb_reports db"
    unfolding reconciled_reports by (rule map)
  ultimately show ?thesis by (intro gov_db.equality) simp_all
qed

lemma reconciled_fresh:
  "r \<in> set (gb_reports (reconciled gq now spec db)) \<Longrightarrow> \<not> stale_report gq spec (reconciled gq now spec db) r"
proof
  assume r: "r \<in> set (gb_reports (reconciled gq now spec db))" "stale_report gq spec (reconciled gq now spec db) r"
  then have "r \<in> active_reports (reconciled gq now spec db)"
    by (simp add: active_reports_def stale_report_def active_of_def)
  then have "\<not> stale_report gq spec db r" by (simp add: active_reconciled)
  moreover have "stale_report gq spec db r"
    using r(2) by (simp add: stale_report_def record_missing_def record_changed_def)
  ultimately show False by simp
qed

text \<open>C23: refreshing again from the same snapshot changes nothing: the second run adds, modifies and removes
  no record, queues no cell and retires no report; the database is the same apart from the recorded
  refresh.\<close>

theorem refresh_again_is_noop:
  assumes first: "refresh gq env spec (Inr (st, staging)) etag wh = (Inr n, wh1)"
    and again: "refresh gq env' spec (Inr (st, staging)) etag' wh1 = (Inr n', wh2)"
    and keyed: "keyed spec (gb_live (wh_gov wh) (ds_table spec))" "keyed spec staging"
  shows "n' = \<lparr>dc_added = 0, dc_modified = 0, dc_removed = 0\<rparr> \<and> wh_gov wh2 = wh_gov wh1 \<and>
    wh_refreshes wh2 = wh_refreshes wh1 @ [\<lparr>rx_snapshot = next_snapshot_id wh1, rx_source = ds_name spec, rx_at = re_now env',
      rx_etag = etag', rx_counts = n'\<rparr>]"
proof -
  let ?live = "gb_live (wh_gov wh) (ds_table spec)"
  have gov1: "wh_gov wh1 = reconciled gq (re_now env) spec (refreshed gq env spec staging (wh_gov wh))"
    using refresh_Inr [OF first] by (metis Inr_inject prod.inject)
  then have empty: "compute gq spec staging (gb_live (wh_gov wh1) (ds_table spec)) = \<lparr>df_added = [], df_removed = [], df_modified = []\<rparr>"
    using compute_same [OF keyed, of gq] by simp
  obtain staging' where s: "staging' = staging"
    and n': "n' = diff_counts_of (compute gq spec staging' (gb_live (wh_gov wh1) (ds_table spec)))"
    and gov2: "wh_gov wh2 = reconciled gq (re_now env') spec (refreshed gq env' spec staging' (wh_gov wh1))"
    and row: "wh_refreshes wh2 = wh_refreshes wh1 @ [\<lparr>rx_snapshot = next_snapshot_id wh1, rx_source = ds_name spec, rx_at = re_now env',
      rx_etag = etag', rx_counts = n'\<rparr>]"
    using refresh_Inr [OF again] by (metis Inr_inject prod.inject)
  have "wh_gov wh2 = reconciled gq (re_now env') spec (wh_gov wh1)"
    using gov2 refreshed_same [OF empty] s by simp
  also have "\<dots> = wh_gov wh1"
    by (rule reconciled_none) (simp add: gov1 reconciled_fresh)
  finally show ?thesis
    using n' row empty s by (simp add: diff_counts_of_def)
qed

section \<open>The update command\<close>

datatype fs_entry = File "byte list" | Directory

record 'g update_world =
  uw_wh :: "'g warehouse"
  uw_files :: "path \<Rightarrow> fs_entry option"

text \<open>The answer to the HEAD request, what a download fetches, the rows the Parquet reader finds in a file,
  and the failures of the statements of a recorded no-op.\<close>

record 'g update_env =
  ue_refresh :: "'g refresh_env"
  ue_head :: "string + string option"
  ue_fetch :: "string + byte list"
  ue_rows :: "byte list \<Rightarrow> string + 'g gov_row list"
  ue_noop_fails :: "string option"
  ue_url :: string
  ue_dir :: string
  ue_cleanup :: bool

definition stored_etag :: "string \<Rightarrow> 'g warehouse \<Rightarrow> string option" where
  "stored_etag source wh =
     (case sort_key (\<lambda>x. - int (rx_snapshot x)) (filter (\<lambda>x. rx_source x = source \<and> rx_etag x \<noteq> None) (wh_refreshes wh)) of
        [] \<Rightarrow> None | x # _ \<Rightarrow> rx_etag x)"

definition source_unchanged :: "string + string option \<Rightarrow> string \<Rightarrow> 'g warehouse \<Rightarrow> bool \<times> string option" where
  "source_unchanged head source wh =
     (case head of Inl e \<Rightarrow> (False, None) | Inr None \<Rightarrow> (False, None)
      | Inr (Some remote) \<Rightarrow> (stored_etag source wh = Some remote, Some remote))"

definition noop_row :: "nat \<Rightarrow> string \<Rightarrow> string option \<Rightarrow> 'g warehouse \<Rightarrow> 'g warehouse" where
  "noop_row now source etag wh = wh\<lparr>wh_refreshes := wh_refreshes wh @ [\<lparr>rx_snapshot = next_snapshot_id wh, rx_source = source,
     rx_at = now, rx_etag = etag, rx_counts = \<lparr>dc_added = 0, dc_modified = 0, dc_removed = 0\<rparr>\<rparr>]\<rparr>"

definition record_noop_refresh :: "string option \<Rightarrow> nat \<Rightarrow> string \<Rightarrow> string option \<Rightarrow> 'g warehouse \<Rightarrow> (string + unit) \<times> 'g warehouse" where
  "record_noop_refresh fails now source etag = guarded fails (\<lambda>wh. (Inr (), noop_row now source etag wh))"

definition download_file :: "string \<Rightarrow> string \<Rightarrow> string + byte list \<Rightarrow> (path \<Rightarrow> fs_entry option) \<Rightarrow> (string + path) \<times> (path \<Rightarrow> fs_entry option)" where
  "download_file url dir fetch files =
     (let dest = download_dest url dir
      in if files dest \<noteq> None then (Inr dest, files)
         else case fetch of Inl e \<Rightarrow> (Inl e, files) | Inr b \<Rightarrow> (Inr dest, files(dest \<mapsto> File b)))"

definition resolve :: "path option \<Rightarrow> 'g update_env \<Rightarrow> (path \<Rightarrow> fs_entry option) \<Rightarrow> (string + path \<times> bool \<times> byte list) \<times> (path \<Rightarrow> fs_entry option)" where
  "resolve local env files =
     (let (got, files') = (case local of Some p \<Rightarrow> (Inr (p, False), files)
        | None \<Rightarrow> (case download_file (ue_url env) (ue_dir env) (ue_fetch env) files of
            (Inl e, files') \<Rightarrow> (Inl e, files') | (Inr p, files') \<Rightarrow> (Inr (p, True), files')))
      in case got of Inl e \<Rightarrow> (Inl e, files')
       | Inr (p, downloaded) \<Rightarrow>
           (case files' p of
              None \<Rightarrow> (Inl (''Source file '' @ fst p @ ''/'' @ snd p @ '' is not readable''), files')
            | Some Directory \<Rightarrow> (Inl (''Source path '' @ fst p @ ''/'' @ snd p @ '' is not a regular file''), files')
            | Some (File b) \<Rightarrow> if b = [] then (Inl (''Source file '' @ fst p @ ''/'' @ snd p @ '' is empty - refusing to proceed''), files')
                else (Inr (p, downloaded, b), files')))"

definition cleanup_if_downloaded :: "path \<Rightarrow> bool \<Rightarrow> (path \<Rightarrow> fs_entry option) \<Rightarrow> (path \<Rightarrow> fs_entry option)" where
  "cleanup_if_downloaded p should_delete files = (if should_delete then files(p := None) else files)"

text \<open>The two building arms of \<open>update::run\<close>.\<close>

definition run_update :: "'g gov_sql \<Rightarrow> building_update \<Rightarrow> path option \<Rightarrow> 'g update_env \<Rightarrow> 'g update_world \<Rightarrow> (string + unit) \<times> 'g update_world" where
  "run_update gq u local env w =
     (let spec = update_spec u;
          (unchanged, etag) = (if local = None then source_unchanged (ue_head env) (ds_name spec) (uw_wh w) else (False, None))
      in if unchanged
         then case record_noop_refresh (ue_noop_fails env) (re_now (ue_refresh env)) (ds_name spec) etag (uw_wh w) of
           (r, wh) \<Rightarrow> (r, w\<lparr>uw_wh := wh\<rparr>)
         else case resolve local env (uw_files w) of
           (Inl e, files) \<Rightarrow> (Inl e, w\<lparr>uw_files := files\<rparr>)
         | (Inr (p, downloaded, b), files) \<Rightarrow>
             case refresh gq (ue_refresh env) spec
                 (case ue_rows env b of Inl e \<Rightarrow> Inl e | Inr rows \<Rightarrow> update_load gq u rows) etag (uw_wh w) of
               (r, wh) \<Rightarrow> (map_sum (\<lambda>e. e) (\<lambda>_. ()) r,
                 w\<lparr>uw_wh := wh, uw_files := cleanup_if_downloaded p (downloaded \<and> ue_cleanup env) files\<rparr>))"


lemma hd_sort_key_least:
  fixes f :: "'a \<Rightarrow> int"
  assumes "x \<in> set xs" "\<forall>y\<in>set xs. y \<noteq> x \<longrightarrow> f x < f y"
  shows "\<exists>ys. sort_key f xs = x # ys"
proof (cases "sort_key f xs")
  case Nil
  then show ?thesis using assms(1) by (metis empty_iff list.set(1) set_sort)
next
  case (Cons z zs)
  have "sorted (map f (z # zs))" using Cons sorted_sort_key [of f xs] by simp
  moreover have "x \<in> set (z # zs)" "z \<in> set xs" using Cons assms(1) set_sort [of f xs] by auto
  ultimately show ?thesis using assms(2) Cons by (metis leD list.set_intros(1) list.simps(9) set_ConsD sorted_wrt.simps(2) sorted_simps(2) imageI list.set_map)
qed

lemma max_snapshot: "x \<in> set (wh_refreshes wh) \<Longrightarrow> rx_snapshot x < next_snapshot_id wh"
  using Max_ge [of "set (map rx_snapshot (wh_refreshes wh))" "rx_snapshot x"] by (auto simp: next_snapshot_id_def less_Suc_eq_le)

lemma stored_after:
  assumes "wh_refreshes wh' = wh_refreshes wh @ [x]" "rx_snapshot x = next_snapshot_id wh" "rx_source x = source" "rx_etag x = Some e"
  shows "stored_etag source wh' = Some e"
proof -
  let ?xs = "filter (\<lambda>x. rx_source x = source \<and> rx_etag x \<noteq> None) (wh_refreshes wh')"
  have "\<exists>ys. sort_key (\<lambda>x. - int (rx_snapshot x)) ?xs = x # ys"
    using assms max_snapshot [of _ wh] by (intro hd_sort_key_least) auto
  then show ?thesis using assms(4) by (auto simp: stored_etag_def)
qed

text \<open>C24: a snapshot file that an earlier run left in the download directory passes for the snapshot that is
  published now. The update asks the server for the validator of the current snapshot, does not
  download it because the file is there, loads the old file and records the new validator with it; the
  next update finds the validator unchanged and does nothing, whatever the server has.\<close>

theorem leftover_snapshot_passes_for_new:
  assumes left: "uw_files w (download_dest (ue_url env) (ue_dir env)) = Some (File b)"
    and head: "ue_head env = Inr (Some e)" "stored_etag (ds_name (update_spec u)) (uw_wh w) \<noteq> Some e"
    and ran: "run_update gq u None env w = (Inr (), w1)"
    and later: "ue_head env2 = Inr (Some e)" "ue_noop_fails env2 = None"
  shows "uw_wh w1 = snd (refresh gq (ue_refresh env) (update_spec u)
      (case ue_rows env b of Inl m \<Rightarrow> Inl m | Inr rows \<Rightarrow> update_load gq u rows) (Some e) (uw_wh w)) \<and>
    (\<exists>w2. run_update gq u None env2 w1 = (Inr (), w2) \<and> wh_gov (uw_wh w2) = wh_gov (uw_wh w1) \<and> uw_files w2 = uw_files w1)"
proof -
  let ?load = "case ue_rows env b of Inl m \<Rightarrow> Inl m | Inr rows \<Rightarrow> update_load gq u rows"
  let ?p = "download_dest (ue_url env) (ue_dir env)"
  have su: "source_unchanged (ue_head env) (ds_name (update_spec u)) (uw_wh w) = (False, Some e)"
    using head by (simp add: source_unchanged_def)
  have res: "resolve None env (uw_files w) = (if b = [] then (Inl (''Source file '' @ fst ?p @ ''/'' @ snd ?p @ '' is empty - refusing to proceed''), uw_files w)
      else (Inr (?p, True, b), uw_files w))"
    using left by (simp add: resolve_def download_file_def Let_def)
  obtain q wh where q: "refresh gq (ue_refresh env) (update_spec u) ?load (Some e) (uw_wh w) = (q, wh)" by fastforce
  have "map_sum (\<lambda>e. e) (\<lambda>_. ()) q = Inr ()" and wh: "uw_wh w1 = wh"
    using ran by (auto simp: run_update_def su res q Let_def split: if_splits)
  then obtain n where r: "refresh gq (ue_refresh env) (update_spec u) ?load (Some e) (uw_wh w) = (Inr n, wh)"
    using q by (cases q) auto
  have "stored_etag (ds_name (update_spec u)) wh = Some e"
    by (rule refresh_Inr [OF r]) (rule stored_after, assumption, simp_all)
  then have "source_unchanged (ue_head env2) (ds_name (update_spec u)) wh = (True, Some e)"
    using later by (simp add: source_unchanged_def)
  then show ?thesis
    using r wh later(2) by (auto simp: run_update_def record_noop_refresh_def guarded_def noop_row_def Let_def)
qed

text \<open>An empty download is kept, and every later update fails on it without downloading again.\<close>

lemma empty_download_blocks_updates:
  assumes "uw_files w (download_dest (ue_url env) (ue_dir env)) = None" "ue_fetch env = Inr []"
    and "\<not> fst (source_unchanged (ue_head env) (ds_name (update_spec u)) (uw_wh w))"
  shows "\<exists>e w1. run_update gq u None env w = (Inl e, w1) \<and> uw_wh w1 = uw_wh w \<and>
    (\<forall>env2. ue_url env2 = ue_url env \<longrightarrow> ue_dir env2 = ue_dir env \<longrightarrow>
       \<not> fst (source_unchanged (ue_head env2) (ds_name (update_spec u)) (uw_wh w)) \<longrightarrow> run_update gq u None env2 w1 = (Inl e, w1))"
  using assms by (auto simp: run_update_def resolve_def download_file_def Let_def split: prod.splits)


section \<open>Witnesses\<close>

definition demo_env :: "'g refresh_env" where
  "demo_env = \<lparr>re_now = 9, re_fails = (\<lambda>s. None), re_reports = no_faults, re_columns = (\<lambda>t. []), re_stop = (\<lambda>i. False),
     re_cancelled = (\<lambda>i. False)\<rparr>"

definition demo_stats :: load_stats where
  "demo_stats = \<lparr>ls_invalid_geometry = 0, ls_example_ids = [], ls_oversized_geometry = 0, ls_oversized_example_ids = [],
     ls_undersized_geometry = 0, ls_undersized_example_ids = [], ls_missing_coordinates = 0, ls_missing_coordinates_example_ids = [],
     ls_null_key = 0, ls_duplicate_key = 0, ls_duplicate_example_ids = []\<rparr>"

definition demo_wh :: "nat gov_row list \<Rightarrow> object_report list \<Rightarrow> nat warehouse" where
  "demo_wh rows rs = \<lparr>wh_gov = \<lparr>gb_live = (\<lambda>t. rows), gb_reports = rs, gb_match = [], gb_tiles = []\<rparr>, wh_refreshes = [], wh_areas = [],
     wh_log = Map.empty\<rparr>"

lemma demo_refresh:
  assumes "staging \<noteq> []"
  shows "\<exists>n wh'. refresh gq demo_env spec (Inr (st, staging)) etag wh = (Inr n, wh')"
  using assms by (simp add: refresh_def refresh_body_def guarded_def check_cancelled_def check_column_shapes_match_def demo_env_def
    in_transaction_def apply_in_txn_def reconcile_source_def Let_def case_prod_beta)

lemma demo_update_load: "\<exists>st rows. update_load demo_sql Egib demo_file = Inr (st, rows) \<and> rows \<noteq> [] \<and> keyed EGIB rows"
proof -
  obtain st rows where "update_load demo_sql Egib demo_file = Inr (st, rows)" "staged_from demo_sql EGIB demo_file rows"
    using update_load_staged [of demo_sql Egib demo_file] by auto
  moreover have "\<exists>f\<in>set demo_file. usable demo_sql EGIB f"
    by (simp add: demo_file_def usable_def non_null_key_def invalid_geometry_def oversized_geometry_def undersized_geometry_def
      with_centroid_def EGIB_def demo_row_def demo_sql_def MIN_BUILDING_AREA_M2_def)
  ultimately show ?thesis by (force simp: staged_from_def)
qed


theorem refresh_serves_file_witness:
  "\<exists>n wh'. refresh demo_sql demo_env EGIB (update_load demo_sql Egib demo_file) None (demo_wh [demo_row ''B9'' (Some ''mmmm'') None 7] []) = (Inr n, wh') \<and>
     staged_from demo_sql EGIB demo_file (gb_live (wh_gov wh') (ds_table EGIB))"
proof -
  let ?wh = "demo_wh [demo_row ''B9'' (Some ''mmmm'') None 7] []"
  obtain n wh' where ran: "refresh demo_sql demo_env (update_spec Egib) (update_load demo_sql Egib demo_file) None ?wh = (Inr n, wh')"
    using demo_update_load demo_refresh by fastforce
  have "content_hash demo_sql EGIB (with_centroid demo_sql EGIB f) \<noteq> content_hash demo_sql EGIB (demo_row ''B9'' (Some ''mmmm'') None 7)"
    if "f \<in> set demo_file" for f
    using that by (auto simp: demo_file_def content_hash_def compared_def with_centroid_def demo_row_def EGIB_def demo_sql_def coalesce_def
      NULL_SENTINEL_def show_numeral)
  then have "staged_from demo_sql (update_spec Egib) demo_file (gb_live (wh_gov wh') (ds_table (update_spec Egib)))"
    by (intro refresh_serves_file [OF ran]) (auto simp: demo_wh_def keyed_def non_null_key_def EGIB_def demo_row_def)
  with ran show ?thesis by auto
qed

lemma demo_keyed: "keyed EGIB [demo_row k v t g]"
  by (simp add: keyed_def non_null_key_def EGIB_def demo_row_def)

theorem refresh_again_is_noop_witness:
  "\<exists>n wh1 wh2. refresh demo_sql demo_env EGIB (Inr (demo_stats, [demo_row ''B1'' None None 5])) None (demo_wh [demo_row ''B9'' None None 7] []) = (Inr n, wh1) \<and>
     refresh demo_sql demo_env EGIB (Inr (demo_stats, [demo_row ''B1'' None None 5])) None wh1 =
       (Inr \<lparr>dc_added = 0, dc_modified = 0, dc_removed = 0\<rparr>, wh2) \<and> wh_gov wh2 = wh_gov wh1"
proof -
  let ?load = "Inr (demo_stats, [demo_row ''B1'' None None 5])"
  obtain n wh1 where one: "refresh demo_sql demo_env EGIB ?load None (demo_wh [demo_row ''B9'' None None 7] []) = (Inr n, wh1)"
    using demo_refresh by blast
  obtain n' wh2 where two: "refresh demo_sql demo_env EGIB ?load None wh1 = (Inr n', wh2)"
    using demo_refresh by blast
  show ?thesis
    using refresh_again_is_noop [OF one two] one two demo_keyed by (simp add: demo_wh_def)
qed

theorem refresh_announces_or_leaves_witness:
  "\<exists>n wh'. refresh demo_sql demo_env EGIB (Inr (demo_stats, [demo_row ''B1'' None None 5])) None (demo_wh [demo_row ''B9'' None None 7] []) = (Inr n, wh') \<and>
     queued (wh_gov wh') ''egib'' (7, 0) \<and> queued (wh_gov wh') ''egib'' (5, 0)"
proof -
  let ?load = "Inr (demo_stats, [demo_row ''B1'' None None 5])" and ?wh = "demo_wh [demo_row ''B9'' None None 7] []"
  obtain n wh' where ran: "refresh demo_sql demo_env EGIB ?load None ?wh = (Inr n, wh')"
    using demo_refresh by blast
  have "wh_gov wh' = reconciled demo_sql 9 EGIB (refreshed demo_sql demo_env EGIB [demo_row ''B1'' None None 5] (wh_gov ?wh))"
    by (rule refresh_Inr [OF ran]) (simp add: demo_env_def)
  then have "gb_live (wh_gov wh') (ds_table EGIB) = [demo_row ''B1'' None None 5]"
    by (simp add: demo_wh_def apply_delta_def compute_def anti_join_def modified_keys_def in_keys_def same_key_def row_key_def EGIB_def demo_row_def)
  then have "rows_at demo_sql EGIB (7, 0) (wh_gov wh') \<noteq> rows_at demo_sql EGIB (7, 0) (wh_gov ?wh)"
    "rows_at demo_sql EGIB (5, 0) (wh_gov wh') \<noteq> rows_at demo_sql EGIB (5, 0) (wh_gov ?wh)"
    by (simp_all add: rows_at_def demo_wh_def cell_of_def representative_point_def demo_row_def EGIB_def demo_sql_def)
  then show ?thesis
    using refresh_announces_or_leaves [where gq = demo_sql and env = demo_env and spec = EGIB and load = ?load and etag = None and wh = ?wh] ran by (auto simp: EGIB_def)
qed

lemma egib_name: "ds_name EGIB = ''egib''"
  by (simp add: EGIB_def)

definition demo_update :: "nat update_env" where
  "demo_update = \<lparr>ue_refresh = demo_env, ue_head = Inr (Some ''v2''), ue_fetch = Inr [2], ue_rows = (\<lambda>b. Inr demo_file), ue_noop_fails = None,
     ue_url = ''egib.parquet'', ue_dir = ''downloads'', ue_cleanup = True\<rparr>"

theorem leftover_snapshot_passes_for_new_witness:
  "\<exists>w1 w2. run_update demo_sql Egib None demo_update
       \<lparr>uw_wh = demo_wh [] [], uw_files = [download_dest ''egib.parquet'' ''downloads'' \<mapsto> File [1]]\<rparr> = (Inr (), w1) \<and>
     run_update demo_sql Egib None demo_update w1 = (Inr (), w2) \<and> wh_gov (uw_wh w2) = wh_gov (uw_wh w1)"
proof -
  let ?w = "\<lparr>uw_wh = demo_wh [] [], uw_files = [download_dest ''egib.parquet'' ''downloads'' \<mapsto> File [1]]\<rparr>"
  obtain n wh where ref: "refresh demo_sql demo_env EGIB (update_load demo_sql Egib demo_file) (Some ''v2'') (demo_wh [] []) = (Inr n, wh)"
    using demo_update_load demo_refresh by fastforce
  have "source_unchanged (Inr (Some ''v2'')) ''egib'' (demo_wh [] []) = (False, Some ''v2'')"
    by (simp add: source_unchanged_def stored_etag_def demo_wh_def)
  then obtain w1 where ran: "run_update demo_sql Egib None demo_update ?w = (Inr (), w1)"
    using ref by (simp add: run_update_def resolve_def download_file_def demo_update_def egib_name Let_def)
  have "\<exists>w2. run_update demo_sql Egib None demo_update w1 = (Inr (), w2) \<and> wh_gov (uw_wh w2) = wh_gov (uw_wh w1)"
    using leftover_snapshot_passes_for_new [OF _ _ _ ran, of "[1]" "''v2''" demo_update]
    by (auto simp: demo_update_def stored_etag_def demo_wh_def)
  with ran show ?thesis by blast
qed

end
