(* ===== verification/Building_Types.thy ===== *)
theory Building_Types
  imports Refresh Match_Address
begin

text \<open>
  The building classification mappings: \<open>src/mappings/building_types.rs\<close> (parsing, validating and
  swapping in a curated CSV file), the resolution of a building's OSM tags that
  \<open>src/server/package.rs\<close> builds as SQL for both registries, and the job that refreshes the two files,
  \<open>src/server/jobs/building_types_update.rs\<close>. The CSV reader, DuckDB's \<open>lower\<close> and its cast of a text
  to INTEGER are parameters; NULL is \<open>None\<close>. A live table that exists has its classification columns.
\<close>

section \<open>Sources and rows\<close>

record building_type_source =
  bt_name :: string
  bt_mapping_table :: string
  bt_source_table :: string
  bt_tier1_column :: string
  bt_tier2_column :: "string option"
  bt_adjacency_keys :: "string list"

definition BDOT10K_TYPES :: building_type_source where
  "BDOT10K_TYPES = \<lparr>bt_name = ''bdot10k'', bt_mapping_table = ''bdot10k_building_types'', bt_source_table = ''bdot10k_buildings'',
     bt_tier1_column = ''PRZEWAZAJACAFUNKCJABUDYNKU'', bt_tier2_column = Some ''FUNKCJAOGOLNABUDYNKU'',
     bt_adjacency_keys = [''budynek jednorodzinny'']\<rparr>"

definition EGIB_TYPES :: building_type_source where
  "EGIB_TYPES = \<lparr>bt_name = ''egib'', bt_mapping_table = ''egib_building_types'', bt_source_table = ''egib_buildings'',
     bt_tier1_column = ''rodzaj_kod'', bt_tier2_column = None, bt_adjacency_keys = [''m'']\<rparr>"

record type_row =
  ty_tier :: "int option"
  ty_key :: "string option"
  ty_min_levels :: "int option"
  ty_max_levels :: "int option"
  ty_max_neighbours :: "int option"
  ty_tags :: "string option"

text \<open>What \<open>read_csv\<close> stages: the header and the rows, every column a text.\<close>

record staged_csv =
  sc_columns :: "string list"
  sc_rows :: "(string \<Rightarrow> string option) list"

record type_stats =
  rows_loaded :: nat
  keys_absent_from_source :: nat
  source_keys_uncovered :: nat
  source_rows_uncovered :: nat

section \<open>EGIB's class letter\<close>

text \<open>\<open>RODZAJ_KOD_CASE_SQL\<close> on \<open>lower(trim(rodzaj))\<close>; texts are their UTF-8 bytes.\<close>

definition lower_letter :: "char \<Rightarrow> bool" where
  "lower_letter c = (let n = of_char c :: nat in 97 \<le> n \<and> n \<le> 122)"

text \<open>\<open>^[a-z] - .* \(\d+\)$\<close>, read from the end.\<close>

definition full_form :: "string \<Rightarrow> bool" where
  "full_form s = (case s of [] \<Rightarrow> False
     | c # t \<Rightarrow> lower_letter c \<and>
         (case strip_prefix '' - '' t of None \<Rightarrow> False
          | Some u \<Rightarrow> (case rev u of [] \<Rightarrow> False
              | z # v \<Rightarrow> z = CHR '')'' \<and> takeWhile sql_digit v \<noteq> [] \<and>
                  (case strip_prefix ''( '' (dropWhile sql_digit v) of None \<Rightarrow> False | Some w \<Rightarrow> CHR 0x0A \<notin> set w))))"

definition skip_if :: "(char \<Rightarrow> bool) \<Rightarrow> string \<Rightarrow> string" where
  "skip_if p s = (case s of [] \<Rightarrow> [] | c # t \<Rightarrow> if p c then t else s)"

text \<open>\<open>^[mgithpskbz][a-z]?[0-9]?\.?$\<close>.\<close>

definition short_form :: "string \<Rightarrow> bool" where
  "short_form s = (case s of [] \<Rightarrow> False
     | c # t \<Rightarrow> c \<in> set ''mgithpskbz'' \<and> skip_if (\<lambda>c. c = CHR ''.'') (skip_if sql_digit (skip_if lower_letter t)) = [])"

definition rodzaj_prefixes :: "(string \<times> string) list" where
  "rodzaj_prefixes = [(''budynki mieszkalne'', ''m''), (''budynki biurowe'', ''b''),
     (''budynki handlowo-us'' @ [CHR 0xC5, CHR 0x82] @ ''ugowe'', ''h''), (''budynki przemys'' @ [CHR 0xC5, CHR 0x82] @ ''owe'', ''p''),
     (''budynki transportu'', ''t''), (''budynki szpitali'', ''z''), (''budynki o'' @ [CHR 0xC5, CHR 0x9B] @ ''wiaty'', ''k''),
     (''budynki produkcyjne'', ''g''), (''zbiorniki, silosy'', ''s''), (''pozosta'' @ [CHR 0xC5, CHR 0x82] @ ''e budynki niemieszkalne'', ''i'')]"

definition rodzaj_names :: "(string \<times> string) list" where
  "rodzaj_names = [(''mieszkalny'', ''m''), (''budynekmieszkalny'', ''m''), (''biurowy'', ''b''), (''handlowouslugowy'', ''h''),
     (''przemyslowy'', ''p''), (''transportuilacznosci'', ''t''), (''szpitalaiinnebudynkiopiekizdrowotnej'', ''z''),
     (''oswiatynaukiikulturyorazsportu'', ''k''), (''produkcyjnyuslugowyigospodarczy'', ''g''),
     (''zbiorniksilosibudynekmagazynowy'', ''s''), (''budynekniemieszkalny'', ''i'')]"

definition rodzaj_kod_of :: "string \<Rightarrow> string option" where
  "rodzaj_kod_of s =
     (if full_form s then Some (take 1 s)
      else case filter (\<lambda>(p, k). starts_with p s) rodzaj_prefixes of (_, k) # _ \<Rightarrow> Some k
      | [] \<Rightarrow> (case map_of rodzaj_names s of Some k \<Rightarrow> Some k
        | None \<Rightarrow> if short_form s then Some (take 1 s) else None))"

definition with_rodzaj_kod :: "sql_text \<Rightarrow> 'g gov_row \<Rightarrow> 'g gov_row" where
  "with_rodzaj_kod tx r = r\<lparr>gr_cols := (gr_cols r)(''rodzaj_kod'' := Option.bind (map_option (name_key tx) (gr_cols r ''rodzaj'')) rodzaj_kod_of)\<rparr>"

section \<open>Tags\<close>

text \<open>\<open>str::split_once\<close>.\<close>

fun split_once :: "char \<Rightarrow> string \<Rightarrow> (string \<times> string) option" where
  "split_once c [] = None"
| "split_once c (x # xs) = (if x = c then Some ([], xs) else map_option (\<lambda>(k, v). (x # k, v)) (split_once c xs))"

definition parse_tag :: "string \<Rightarrow> string \<Rightarrow> string + string \<times> string" where
  "parse_tag s part0 =
     (let part = trim part0
      in if part = '''' then Inl (''empty tag segment in '' @ s)
         else case split_once CHR ''='' part of
           None \<Rightarrow> Inl (''tag '' @ part @ '' in '' @ s @ '' is not in k=v form'')
         | Some (k, v) \<Rightarrow> if trim k = '''' \<or> trim v = '''' then Inl (''tag '' @ part @ '' in '' @ s @ '' has an empty key or value'')
             else Inr (trim k, trim v))"

text \<open>A loop that ends at the first error.\<close>

fun mapE :: "('a \<Rightarrow> 'e + 'b) \<Rightarrow> 'a list \<Rightarrow> 'e + 'b list" where
  "mapE f [] = Inr []"
| "mapE f (x # xs) = bindR (f x) (\<lambda>y. bindR (mapE f xs) (\<lambda>ys. Inr (y # ys)))"

definition parse_tags :: "string \<Rightarrow> string + (string \<times> string) list" where
  "parse_tags s = bindR (mapE (parse_tag s) (split_on CHR '';'' s))
     (\<lambda>out. if out = [] then Inl ''tags value is empty'' else Inr out)"

section \<open>Validation\<close>

definition required_columns :: "string list" where
  "required_columns = [''tier'', ''key'', ''min_levels'', ''max_levels'', ''max_neighbours'', ''tags'']"

definition check_columns :: "string list \<Rightarrow> string option" where
  "check_columns cols =
     (if length cols \<noteq> 6 \<and> length cols \<noteq> 7 then Some ''expected 6 or 7 columns; refusing to load''
      else case filter (\<lambda>c. c \<notin> set cols) required_columns of
        c # _ \<Rightarrow> Some (''missing required column '' @ c)
      | [] \<Rightarrow> if length cols = 7 \<and> ''note'' \<notin> set cols then Some ''7 columns present but none is 'note' '' else None)"

definition cast_integer :: "(string \<Rightarrow> int option) \<Rightarrow> string option \<Rightarrow> string + int option" where
  "cast_integer ci v = (case v of None \<Rightarrow> Inr None
     | Some s \<Rightarrow> (case ci s of None \<Rightarrow> Inl ''failed to normalize staged columns'' | Some n \<Rightarrow> Inr (Some n)))"

definition nullif_empty :: "string option \<Rightarrow> string option" where
  "nullif_empty v = (case map_option sql_trim v of Some [] \<Rightarrow> None | w \<Rightarrow> w)"

definition clean_row :: "sql_text \<Rightarrow> (string \<Rightarrow> int option) \<Rightarrow> (string \<Rightarrow> string option) \<Rightarrow> string + type_row" where
  "clean_row tx ci r =
     bindR (cast_integer ci (r ''tier'')) (\<lambda>tier.
     bindR (cast_integer ci (nullif_empty (r ''min_levels''))) (\<lambda>lo.
     bindR (cast_integer ci (nullif_empty (r ''max_levels''))) (\<lambda>hi.
     bindR (cast_integer ci (nullif_empty (r ''max_neighbours''))) (\<lambda>nb.
     Inr \<lparr>ty_tier = tier, ty_key = map_option (name_key tx) (r ''key''), ty_min_levels = lo, ty_max_levels = hi,
       ty_max_neighbours = nb, ty_tags = map_option sql_trim (r ''tags'')\<rparr>))))"

definition max_tier :: "building_type_source \<Rightarrow> int" where
  "max_tier src = (if bt_tier2_column src \<noteq> None then 2 else 1)"

text \<open>The checks of one row; a NULL key or tags value does not read as a text.\<close>

definition validate_row :: "building_type_source \<Rightarrow> type_row \<Rightarrow> string + unit" where
  "validate_row src m =
     (case (ty_key m, ty_tags m) of
        (Some key, Some tags) \<Rightarrow>
          (case ty_tier m of None \<Rightarrow> Inl (''row for key '' @ key @ '' has tier None'')
           | Some t \<Rightarrow> if t < 1 \<or> max_tier src < t then Inl (''row for key '' @ key @ '' has tier '' @ show_int t)
             else if key = '''' then Inl ''a row has an empty key; refusing to load''
             else bindR (parse_tags tags) (\<lambda>pairs.
               if ''building'' \<notin> set (map fst pairs) then Inl (''row for key '' @ key @ '' has tags '' @ tags @ '' with no 'building' key'')
               else if (case (ty_min_levels m, ty_max_levels m) of (Some lo, Some hi) \<Rightarrow> hi < lo | _ \<Rightarrow> False)
                 then Inl (''row for key '' @ key @ '' has min_levels > max_levels'')
               else case ty_max_neighbours m of None \<Rightarrow> Inr ()
                 | Some n \<Rightarrow> if n < 0 then Inl (''row for key '' @ key @ '' has negative max_neighbours'')
                     else if t \<noteq> 1 \<or> key \<notin> set (bt_adjacency_keys src)
                       then Inl (''row for key '' @ key @ '' carries max_neighbours but is not in the adjacency set'')
                     else Inr ()))
      | _ \<Rightarrow> Inl ''Invalid column type Null'')"

definition specificity :: "type_row \<Rightarrow> nat" where
  "specificity m = (if ty_min_levels m \<noteq> None then 1 else 0) + (if ty_max_levels m \<noteq> None then 1 else 0) +
     (if ty_max_neighbours m \<noteq> None then 1 else 0)"

definition rank_key :: "type_row \<Rightarrow> int option \<times> string option \<times> nat" where
  "rank_key m = (ty_tier m, ty_key m, specificity m)"

section \<open>The database\<close>

text \<open>The mapping tables by name, which live tables exist, and the metadata, beside the tables of
  \<open>Reports\<close>.\<close>

record 'g types_db =
  td_gov :: "'g gov_db"
  td_types :: "string \<Rightarrow> type_row list"
  td_exists :: "string \<Rightarrow> bool"
  td_meta :: "string \<rightharpoonup> string"
  td_log :: job_log

definition source_rows :: "building_type_source \<Rightarrow> 'g types_db \<Rightarrow> 'g gov_row list" where
  "source_rows src db = gb_live (td_gov db) (bt_source_table src)"

definition class_key :: "sql_text \<Rightarrow> string \<Rightarrow> 'g gov_row \<Rightarrow> string option" where
  "class_key tx col b = map_option (name_key tx) (gr_cols b col)"

definition tier2_or_1 :: "building_type_source \<Rightarrow> string" where
  "tier2_or_1 src = (case bt_tier2_column src of Some t2 \<Rightarrow> t2 | None \<Rightarrow> bt_tier1_column src)"

section \<open>Repainting what a reload changes\<close>

definition changed_rows :: "type_row list \<Rightarrow> type_row list \<Rightarrow> type_row list" where
  "changed_rows live new = remdups (filter (\<lambda>m. m \<notin> set new) live @ filter (\<lambda>m. m \<notin> set live) new)"

definition carries_key :: "sql_text \<Rightarrow> building_type_source \<Rightarrow> 'g gov_row \<Rightarrow> int option \<times> string option \<Rightarrow> bool" where
  "carries_key tx src b k \<longleftrightarrow>
     fst k = Some 1 \<and> sql_eq (class_key tx (bt_tier1_column src) b) (snd k) \<or>
     bt_tier2_column src \<noteq> None \<and> fst k = Some 2 \<and> sql_eq (class_key tx (tier2_or_1 src) b) (snd k)"

definition type_delta_cells :: "sql_text \<Rightarrow> 'g gov_sql \<Rightarrow> building_type_source \<Rightarrow> type_row list \<Rightarrow> type_row list \<Rightarrow> 'g gov_row list \<Rightarrow> cell option list" where
  "type_delta_cells tx gq src live new rows =
     (let keys = map (\<lambda>m. (ty_tier m, ty_key m)) (changed_rows live new)
      in remdups (map (\<lambda>b. map_option (gq_cell gq) (gr_centroid b))
           (filter (\<lambda>b. gr_centroid b \<noteq> None \<and> list_ex (carries_key tx src b) keys) rows)))"

definition enqueue_type_delta_cells :: "sql_text \<Rightarrow> 'g gov_sql \<Rightarrow> nat \<Rightarrow> building_type_source \<Rightarrow> type_row list \<Rightarrow> 'g types_db \<Rightarrow> 'g types_db" where
  "enqueue_type_delta_cells tx gq now src new db =
     (if \<not> td_exists db (bt_source_table src) then db
      else let cs = type_delta_cells tx gq src (td_types db (bt_mapping_table src)) new (source_rows src db)
           in db\<lparr>td_gov := (td_gov db)\<lparr>gb_tiles := gb_tiles (td_gov db) @ map (\<lambda>c. (c, now)) cs\<rparr>\<rparr>)"

section \<open>Drift\<close>

text \<open>Each count is 0 when its query fails, as it does without the live table.\<close>

definition count_absent :: "sql_text \<Rightarrow> building_type_source \<Rightarrow> type_row list \<Rightarrow> 'g types_db \<Rightarrow> nat" where
  "count_absent tx src new db =
     (if \<not> td_exists db (bt_source_table src) then 0
      else let missing = (\<lambda>col k. \<not> list_ex (\<lambda>b. sql_eq (class_key tx col b) k) (source_rows src db))
           in length (filter (\<lambda>(t, k). t = Some 1 \<and> missing (bt_tier1_column src) k \<or> t = Some 2 \<and> missing (tier2_or_1 src) k)
                (remdups (map (\<lambda>m. (ty_tier m, ty_key m)) new))))"

definition uncovered :: "sql_text \<Rightarrow> building_type_source \<Rightarrow> type_row list \<Rightarrow> 'g gov_row \<Rightarrow> bool" where
  "uncovered tx src new b =
     (let out = (\<lambda>t col. class_key tx col b = None \<or> class_key tx col b \<notin> set (map ty_key (filter (\<lambda>m. ty_tier m = Some t) new)))
      in out 1 (bt_tier1_column src) \<and> (case bt_tier2_column src of None \<Rightarrow> True | Some t2 \<Rightarrow> out 2 t2))"

definition count_uncovered :: "sql_text \<Rightarrow> building_type_source \<Rightarrow> type_row list \<Rightarrow> 'g types_db \<Rightarrow> nat \<times> nat" where
  "count_uncovered tx src new db =
     (if \<not> td_exists db (bt_source_table src) then (0, 0)
      else let bs = filter (uncovered tx src new) (source_rows src db)
           in (length (remdups (filter (\<lambda>k. k \<noteq> None) (map (class_key tx (bt_tier1_column src)) bs))), length bs))"

section \<open>Loading a file\<close>

text \<open>The part before the transaction: columns, types, the rows one by one, duplicates.\<close>

definition validated :: "sql_text \<Rightarrow> (string \<Rightarrow> int option) \<Rightarrow> building_type_source \<Rightarrow> staged_csv \<Rightarrow> string + type_row list" where
  "validated tx ci src csv =
     (case check_columns (sc_columns csv) of Some e \<Rightarrow> Inl e
      | None \<Rightarrow> bindR (mapE (clean_row tx ci) (sc_rows csv)) (\<lambda>new. bindR (mapE (validate_row src) new) (\<lambda>_.
          if \<not> distinct (map rank_key new) then Inl ''(tier, key) group(s) have two rows tying on specificity; refusing to load''
          else Inr new)))"

text \<open>\<open>fails\<close>: the failure of a statement of the swap, which rolls it back.\<close>

definition validate_and_swap :: "sql_text \<Rightarrow> (string \<Rightarrow> int option) \<Rightarrow> 'g gov_sql \<Rightarrow> nat \<Rightarrow> string option \<Rightarrow> building_type_source \<Rightarrow> staged_csv \<Rightarrow>
    'g types_db \<Rightarrow> (string + type_stats) \<times> 'g types_db" where
  "validate_and_swap tx ci gq now fails src csv db =
     (case validated tx ci src csv of Inl e \<Rightarrow> (Inl e, db)
      | Inr new \<Rightarrow> (case fails of Some e \<Rightarrow> (Inl (''Failed to replace building-type mapping table contents: '' @ e), db)
        | None \<Rightarrow>
            let db' = enqueue_type_delta_cells tx gq now src new db;
                (uk, ur) = count_uncovered tx src new db
            in (Inr \<lparr>rows_loaded = length new, keys_absent_from_source = count_absent tx src new db,
                  source_keys_uncovered = uk, source_rows_uncovered = ur\<rparr>,
                db'\<lparr>td_types := (td_types db')(bt_mapping_table src := new)\<rparr>)))"

definition load_from_path :: "sql_text \<Rightarrow> (string \<Rightarrow> int option) \<Rightarrow> 'g gov_sql \<Rightarrow> nat \<Rightarrow> string option \<Rightarrow> building_type_source \<Rightarrow>
    (string + staged_csv) \<Rightarrow> 'g types_db \<Rightarrow> (string + type_stats) \<times> 'g types_db" where
  "load_from_path tx ci gq now fails src read db =
     (case read of Inl e \<Rightarrow> (Inl (''Failed to read mapping CSV: '' @ e), db) | Inr csv \<Rightarrow> validate_and_swap tx ci gq now fails src csv db)"

section \<open>Resolving a building's tags\<close>

text \<open>A row of the \<open>pkg\<close> common table: geometry, the classes of the two tiers (EGIB has one), storeys.\<close>

record 'g pkg_row =
  pk_geom :: 'g
  pk_class1 :: "string option"
  pk_class2 :: "string option"
  pk_levels :: "int option"

definition EGIB_ADJACENCY_KEY :: string where "EGIB_ADJACENCY_KEY = ''m''"
definition BDOT10K_ADJACENCY_KEY :: string where "BDOT10K_ADJACENCY_KEY = ''budynek jednorodzinny''"

text \<open>The \<open>nb\<close> and \<open>cnt\<close> common tables: the buildings of the adjacency class in the buffered envelope that
  touch the building and have another centroid.\<close>

definition apart :: "'g sql_spatial \<Rightarrow> 'g option \<Rightarrow> 'g option \<Rightarrow> bool" where
  "apart sp c d = (case (c, d) of (Some p, Some q) \<Rightarrow> sp_x sp p \<noteq> sp_x sp q \<or> sp_y sp p \<noteq> sp_y sp q | _ \<Rightarrow> False)"

definition touching :: "'g sql_spatial \<Rightarrow> 'g \<Rightarrow> 'g gov_row \<Rightarrow> bool" where
  "touching sp g b \<longleftrightarrow> (case gr_geom b of None \<Rightarrow> False | Some h \<Rightarrow> sp_intersects sp g h)"

definition neighbours :: "'g sql_spatial \<Rightarrow> 'g gov_sql \<Rightarrow> bounds \<Rightarrow> ('g gov_row \<Rightarrow> bool) \<Rightarrow> 'g gov_row list \<Rightarrow> 'g \<Rightarrow> nat" where
  "neighbours sp gq envelope adjacent live g =
     (let nb = filter (\<lambda>b. touching sp (sp_envelope sp envelope) b \<and> adjacent b) live
      in length (filter (\<lambda>b. apart sp (gq_centroid gq g) (gr_centroid b) \<and> touching sp g b) nb))"

definition admits :: "int option \<Rightarrow> nat \<Rightarrow> type_row \<Rightarrow> bool" where
  "admits levels n m \<longleftrightarrow>
     (case ty_min_levels m of None \<Rightarrow> True | Some lo \<Rightarrow> (case levels of None \<Rightarrow> False | Some l \<Rightarrow> lo \<le> l)) \<and>
     (case ty_max_levels m of None \<Rightarrow> True | Some hi \<Rightarrow> (case levels of None \<Rightarrow> False | Some l \<Rightarrow> l \<le> hi)) \<and>
     (case ty_max_neighbours m of None \<Rightarrow> True | Some k \<Rightarrow> int n \<le> k)"

text \<open>\<open>ORDER BY\<close> two keys is two stable sorts, the second key first.\<close>

definition most_specific_first :: "type_row list \<Rightarrow> type_row list" where
  "most_specific_first ms = sort_key (\<lambda>m. - int (specificity m)) ms"

definition lowest_tier_first :: "type_row list \<Rightarrow> type_row list" where
  "lowest_tier_first ms = sort_key (\<lambda>m. the (ty_tier m)) ms"

definition limit_1_tags :: "type_row list \<Rightarrow> string option" where
  "limit_1_tags ms = (case ms of [] \<Rightarrow> None | m # _ \<Rightarrow> ty_tags m)"

definition bdot10k_class :: "sql_text \<Rightarrow> string option \<Rightarrow> string option \<Rightarrow> type_row \<Rightarrow> bool" where
  "bdot10k_class tx c1 c2 m \<longleftrightarrow> ty_tier m = Some 1 \<and> sql_eq (ty_key m) (map_option (name_key tx) c1) \<or>
     ty_tier m = Some 2 \<and> sql_eq (ty_key m) (map_option (name_key tx) c2)"

definition egib_class :: "string option \<Rightarrow> type_row \<Rightarrow> bool" where
  "egib_class c1 m \<longleftrightarrow> ty_tier m = Some 1 \<and> sql_eq (ty_key m) c1"

definition bdot10k_building_tags :: "sql_text \<Rightarrow> type_row list \<Rightarrow> 'g pkg_row \<Rightarrow> nat \<Rightarrow> string option" where
  "bdot10k_building_tags tx ms p n =
     limit_1_tags (lowest_tier_first (most_specific_first
       (filter (\<lambda>m. bdot10k_class tx (pk_class1 p) (pk_class2 p) m \<and> admits (pk_levels p) n m) ms)))"

definition egib_building_tags :: "type_row list \<Rightarrow> 'g pkg_row \<Rightarrow> nat \<Rightarrow> string option" where
  "egib_building_tags ms p n = limit_1_tags (most_specific_first (filter (\<lambda>m. egib_class (pk_class1 p) m \<and> admits (pk_levels p) n m) ms))"


section \<open>The refresh of a file\<close>

record 'g types_world =
  tw_db :: "'g types_db"
  tw_files :: "path \<Rightarrow> fs_entry option"

text \<open>What one refresh meets: the answer to the HEAD request, what a download fetches, what the CSV reader
  makes of a file, and the failures of the swap and of the metadata write.\<close>

record types_env =
  te_now :: nat
  te_head :: "string + string option"
  te_fetch :: "string + byte list"
  te_read :: "fs_entry \<Rightarrow> string + staged_csv"
  te_swap_fails :: "string option"
  te_meta_delete_fails :: "string option"
  te_meta_insert_fails :: "string option"
  te_dir :: string
  te_cleanup :: bool

record types_job =
  tj_source :: building_type_source
  tj_etag_key :: string
  tj_filename :: string
  tj_log_key :: string

definition BDOT10K_JOB :: types_job where
  "BDOT10K_JOB = \<lparr>tj_source = BDOT10K_TYPES, tj_etag_key = ''bdot10k_building_types_etag'', tj_filename = ''bdot10k_building_types.csv'',
     tj_log_key = ''update:bdot10k-building-types''\<rparr>"

definition EGIB_JOB :: types_job where
  "EGIB_JOB = \<lparr>tj_source = EGIB_TYPES, tj_etag_key = ''egib_building_types_etag'', tj_filename = ''egib_building_types.csv'',
     tj_log_key = ''update:egib-building-types''\<rparr>"

definition download_file_as :: "path \<Rightarrow> string + byte list \<Rightarrow> (path \<Rightarrow> fs_entry option) \<Rightarrow> (string + path) \<times> (path \<Rightarrow> fs_entry option)" where
  "download_file_as dest fetch files =
     (if files dest \<noteq> None then (Inr dest, files)
      else case fetch of Inl e \<Rightarrow> (Inl e, files) | Inr b \<Rightarrow> (Inr dest, files(dest \<mapsto> File b)))"

definition loaded_message :: "type_stats \<Rightarrow> string" where
  "loaded_message st = ''loaded '' @ show_nat (rows_loaded st) @ '' rows ('' @ show_nat (keys_absent_from_source st) @
     '' keys absent from source, '' @ show_nat (source_keys_uncovered st) @ '' source keys / '' @
     show_nat (source_rows_uncovered st) @ '' source rows uncovered)''"

text \<open>The closure of \<open>refresh_one\<close>: download, load, clean up after a successful load.\<close>

definition download_and_load :: "sql_text \<Rightarrow> (string \<Rightarrow> int option) \<Rightarrow> 'g gov_sql \<Rightarrow> types_env \<Rightarrow> types_job \<Rightarrow> 'g types_world \<Rightarrow>
    (string + type_stats) \<times> 'g types_world" where
  "download_and_load tx ci gq env j w =
     (case download_file_as (te_dir env, tj_filename j) (te_fetch env) (tw_files w) of
        (Inl e, files) \<Rightarrow> (Inl e, w\<lparr>tw_files := files\<rparr>)
      | (Inr p, files) \<Rightarrow>
          (case load_from_path tx ci gq (te_now env) (te_swap_fails env) (tj_source j) (te_read env (the (files p))) (tw_db w) of
             (Inl e, db) \<Rightarrow> (Inl e, \<lparr>tw_db = db, tw_files = files\<rparr>)
           | (Inr st, db) \<Rightarrow> (Inr st, \<lparr>tw_db = db, tw_files = if te_cleanup env then files(p := None) else files\<rparr>)))"

definition log_job :: "types_job \<Rightarrow> string \<Rightarrow> string \<Rightarrow> 'g types_world \<Rightarrow> 'g types_world" where
  "log_job j result msg w = w\<lparr>tw_db := (tw_db w)\<lparr>td_log := record_job (tj_log_key j) result (Some msg) (td_log (tw_db w))\<rparr>\<rparr>"

definition store_etag :: "types_job \<Rightarrow> string \<Rightarrow> 'g types_world \<Rightarrow> 'g types_world" where
  "store_etag j e w = w\<lparr>tw_db := (tw_db w)\<lparr>td_meta := (td_meta (tw_db w))(tj_etag_key j \<mapsto> e)\<rparr>\<rparr>"

definition clear_etag :: "types_job \<Rightarrow> 'g types_world \<Rightarrow> 'g types_world" where
  "clear_etag j w = w\<lparr>tw_db := (tw_db w)\<lparr>td_meta := (td_meta (tw_db w))(tj_etag_key j := None)\<rparr>\<rparr>"

text \<open>The new ETag is written by a \<open>DELETE\<close> and an \<open>INSERT\<close>, each its own transaction: when the second fails
  the file is left without one.\<close>

definition refresh_one :: "sql_text \<Rightarrow> (string \<Rightarrow> int option) \<Rightarrow> 'g gov_sql \<Rightarrow> types_env \<Rightarrow> types_job \<Rightarrow> 'g types_world \<Rightarrow> (string + unit) \<times> 'g types_world" where
  "refresh_one tx ci gq env j w =
     (let etag = (case te_head env of Inl _ \<Rightarrow> None | Inr e \<Rightarrow> e)
      in if etag \<noteq> None \<and> td_meta (tw_db w) (tj_etag_key j) = etag then (Inr (), w)
         else case download_and_load tx ci gq env j w of
           (Inl e, w') \<Rightarrow> (Inl e, log_job j ''Error'' e w')
         | (Inr st, w') \<Rightarrow> (case etag of
             None \<Rightarrow> (Inr (), log_job j ''Success'' (loaded_message st) w')
           | Some current \<Rightarrow> (case te_meta_delete_fails env of
                 Some e \<Rightarrow> (Inl e, w')
               | None \<Rightarrow> (case te_meta_insert_fails env of
                     Some e \<Rightarrow> (Inl e, clear_etag j w')
                   | None \<Rightarrow> (Inr (), log_job j ''Success'' (loaded_message st) (store_etag j current (clear_etag j w')))))))"

text \<open>\<open>Job::run\<close>: both files, each with its own environment, the first error reported.\<close>

definition run_types_update :: "sql_text \<Rightarrow> (string \<Rightarrow> int option) \<Rightarrow> 'g gov_sql \<Rightarrow> types_env \<Rightarrow> types_env \<Rightarrow> 'g types_world \<Rightarrow>
    (string + unit) \<times> 'g types_world" where
  "run_types_update tx ci gq env1 env2 w =
     (let (b, w1) = refresh_one tx ci gq env1 BDOT10K_JOB w; (e, w2) = refresh_one tx ci gq env2 EGIB_JOB w1
      in (case b of Inl m \<Rightarrow> Inl m | Inr _ \<Rightarrow> e, w2))"

section \<open>What a load keeps\<close>

text \<open>The contents of a mapping table: validated rows with normalised keys, no two of the same tier, key and
  specificity.\<close>

definition types_ok :: "sql_text \<Rightarrow> building_type_source \<Rightarrow> type_row list \<Rightarrow> bool" where
  "types_ok tx src ms \<longleftrightarrow> (\<forall>m\<in>set ms. validate_row src m = Inr () \<and> ty_key m \<in> range (\<lambda>s. Some (name_key tx s))) \<and> distinct (map rank_key ms)"

lemma mapE_Inr: "mapE f xs = Inr ys \<longleftrightarrow> list_all2 (\<lambda>x y. f x = Inr y) xs ys"
proof (induction xs arbitrary: ys)
  case Nil
  then show ?case by (cases ys) auto
next
  case (Cons x xs)
  show ?case by (auto simp: bindR_Inr_iff Cons.IH list_all2_Cons1)
qed

lemma mapE_ok: "mapE f xs = Inr ys \<Longrightarrow> x \<in> set xs \<Longrightarrow> \<exists>y. f x = Inr y"
  unfolding mapE_Inr by (induction rule: list_all2_induct) auto

lemma mapE_image: "mapE f xs = Inr ys \<Longrightarrow> y \<in> set ys \<Longrightarrow> \<exists>x\<in>set xs. f x = Inr y"
  unfolding mapE_Inr by (induction rule: list_all2_induct) auto

lemma validated_shape:
  assumes "validate_row src m = Inr ()"
  obtains t k g where "ty_tier m = Some t" "ty_key m = Some k" "ty_tags m = Some g" "1 \<le> t" "t \<le> max_tier src" "k \<noteq> ''''"
    "\<exists>ps. parse_tags g = Inr ps \<and> ''building'' \<in> set (map fst ps)"
    "ty_max_neighbours m \<noteq> None \<Longrightarrow> t = 1 \<and> k \<in> set (bt_adjacency_keys src)"
  using assms by (auto simp: validate_row_def bindR_Inr_iff split: option.splits if_splits)

text \<open>A load either leaves everything as it was or replaces the table by the file's rows.\<close>

lemma load_cases:
  assumes "load_from_path tx ci gq now fails src read db = (r, db')"
  obtains e where "r = Inl e" "db' = db"
  | csv new st where "r = Inr st" "read = Inr csv" "mapE (clean_row tx ci) (sc_rows csv) = Inr new" "types_ok tx src new"
      "rows_loaded st = length new"
      "db' = (enqueue_type_delta_cells tx gq now src new db)
         \<lparr>td_types := (td_types db)(bt_mapping_table src := new)\<rparr>"
proof (cases r)
  case (Inl e)
  then show ?thesis using assms that(1)
    by (auto simp: load_from_path_def validate_and_swap_def Let_def split: sum.splits option.splits prod.splits)
next
  case (Inr st)
  obtain csv new where r: "read = Inr csv" and v: "validated tx ci src csv = Inr new" and st: "rows_loaded st = length new"
    and db': "db' = (enqueue_type_delta_cells tx gq now src new db)
         \<lparr>td_types := (td_types (enqueue_type_delta_cells tx gq now src new db))(bt_mapping_table src := new)\<rparr>"
    using assms Inr by (auto simp: load_from_path_def validate_and_swap_def Let_def split: sum.splits option.splits prod.splits)
  obtain us where new: "mapE (clean_row tx ci) (sc_rows csv) = Inr new" and us: "mapE (validate_row src) new = Inr us"
    and d: "distinct (map rank_key new)"
    using v by (auto simp: validated_def bindR_Inr_iff split: option.splits if_splits)
  have "ty_key m \<in> range (\<lambda>s. Some (name_key tx s))" if "m \<in> set new" for m
  proof -
    obtain x where "clean_row tx ci x = Inr m" using mapE_image [OF new \<open>m \<in> set new\<close>] by blast
    then have "ty_key m = map_option (name_key tx) (x ''key'')" by (auto simp: clean_row_def bindR_Inr_iff)
    moreover obtain u where "validate_row src m = Inr u" using mapE_ok [OF us \<open>m \<in> set new\<close>] by blast
    then have "ty_key m \<noteq> None" by (auto elim: validated_shape)
    ultimately show ?thesis by auto
  qed
  then have "types_ok tx src new" using d mapE_ok [OF us] by (auto simp: types_ok_def)
  moreover have "td_types (enqueue_type_delta_cells tx gq now src new db) = td_types db"
    by (simp add: enqueue_type_delta_cells_def Let_def)
  ultimately show ?thesis using that(2) Inr r new st db' by simp
qed


text \<open>The class of a building is one lower-case letter.\<close>

lemma class_letters: "list_all (\<lambda>(p, k). length k = 1 \<and> list_all lower_letter k) (rodzaj_prefixes @ rodzaj_names)"
  by (simp add: rodzaj_prefixes_def rodzaj_names_def lower_letter_def Let_def)

lemma rodzaj_kod_letter: "rodzaj_kod_of s = Some k \<Longrightarrow> \<exists>c. k = [c] \<and> lower_letter c"
proof -
  assume a: "rodzaj_kod_of s = Some k"
  have "\<exists>c. k = [c] \<and> lower_letter c" if "(p, k) \<in> set (rodzaj_prefixes @ rodzaj_names)" for p
  proof -
    have "length k = 1 \<and> list_all lower_letter k" using class_letters that by (auto simp only: list_all_iff)
    then show ?thesis by (auto simp: length_Suc_conv)
  qed
  moreover have "(\<exists>p. (p, k) \<in> set (rodzaj_prefixes @ rodzaj_names)) \<or> (full_form s \<or> short_form s) \<and> k = take 1 s"
  proof (cases "filter (\<lambda>(p, k). starts_with p s) rodzaj_prefixes")
    case Nil
    then show ?thesis using a map_of_SomeD [of rodzaj_names s] by (auto simp: rodzaj_kod_of_def split: if_splits option.splits)
  next
    case (Cons q qs)
    then have "q \<in> set rodzaj_prefixes" by (metis filter_is_subset list.set_intros(1) subsetD)
    moreover obtain p k' where "q = (p, k')" by (cases q)
    ultimately show ?thesis using a Cons by (cases "full_form s") (auto simp: rodzaj_kod_of_def)
  qed
  moreover have "lower_letter c" if "c \<in> set ''mgithpskbz''" for c using that by (auto simp: lower_letter_def)
  ultimately show ?thesis
    by (cases s) (auto simp: full_form_def short_form_def simp del: list.set split: option.splits list.splits)
qed

section \<open>Resolution\<close>

definition bdot10k_fits :: "sql_text \<Rightarrow> 'g pkg_row \<Rightarrow> nat \<Rightarrow> type_row \<Rightarrow> bool" where
  "bdot10k_fits tx p n m \<longleftrightarrow> bdot10k_class tx (pk_class1 p) (pk_class2 p) m \<and> admits (pk_levels p) n m"

definition egib_fits :: "'g pkg_row \<Rightarrow> nat \<Rightarrow> type_row \<Rightarrow> bool" where
  "egib_fits p n m \<longleftrightarrow> egib_class (pk_class1 p) m \<and> admits (pk_levels p) n m"

text \<open>Before another row: a lower tier, or the same tier and more constraints.\<close>

definition before :: "type_row \<Rightarrow> type_row \<Rightarrow> bool" where
  "before m m' \<longleftrightarrow> the (ty_tier m) < the (ty_tier m') \<or> ty_tier m = ty_tier m' \<and> specificity m' < specificity m"

lemma two_sorts:
  fixes f g :: "'a \<Rightarrow> int"
  assumes h: "sort_key f (sort_key g xs) = m # zs" and x: "x \<in> set xs"
  shows "f m < f x \<or> f m = f x \<and> g m \<le> g x"
proof -
  have s: "sorted (map f (m # zs))" unfolding h [symmetric] by simp
  have xm: "x \<in> set (m # zs)" unfolding h [symmetric] using x by simp
  then have le: "f m \<le> f x" using s by auto
  have "g m \<le> g x" if e: "f x = f m"
  proof -
    let ?P = "\<lambda>y. f y = f m"
    have "filter ?P (sort_key g xs) = filter ?P (m # zs)" unfolding h [symmetric] by (rule sort_key_stable [symmetric])
    then have "sorted (map g (m # filter ?P zs))" using sorted_filter [of g "sort_key g xs" ?P] by simp
    moreover have "x \<in> set (m # filter ?P zs)" using xm e by auto
    ultimately show ?thesis by auto
  qed
  then show ?thesis using le by force
qed

lemma two_sorts_mem: "sort_key f (sort_key g xs) = m # zs \<Longrightarrow> m \<in> set xs"
  by (metis list.set_intros(1) set_sort)

lemma tiers_known:
  assumes "types_ok tx src ms" "m \<in> set ms"
  shows "ty_tier m \<noteq> None" "ty_key m \<noteq> None" "ty_tags m \<noteq> None"
  using assms by (auto simp: types_ok_def elim!: validated_shape)

lemma rank_inj: "types_ok tx src ms \<Longrightarrow> m \<in> set ms \<Longrightarrow> m' \<in> set ms \<Longrightarrow> rank_key m = rank_key m' \<Longrightarrow> m = m'"
  by (auto simp: types_ok_def distinct_map inj_on_def)

text \<open>The head of the ordered rows is the one row before all the others, when rows of one tier share their
  key.\<close>

lemma limit_1_exact:
  assumes ok: "types_ok tx src ms"
    and key: "\<And>m m'. P m \<Longrightarrow> P m' \<Longrightarrow> ty_tier m = ty_tier m' \<Longrightarrow> ty_key m = ty_key m'"
  shows "case limit_1_tags (lowest_tier_first (most_specific_first (filter P ms))) of
      None \<Rightarrow> \<forall>m\<in>set ms. \<not> P m
    | Some g \<Rightarrow> \<exists>m\<in>set ms. P m \<and> ty_tags m = Some g \<and> (\<forall>m'\<in>set ms. P m' \<longrightarrow> m' = m \<or> before m m')"
proof (cases "lowest_tier_first (most_specific_first (filter P ms))")
  case Nil
  then have "set (filter P ms) = {}" by (metis list.set(1) lowest_tier_first_def most_specific_first_def set_sort)
  then show ?thesis using Nil by (auto simp: limit_1_tags_def)
next
  case (Cons m zs)
  note h = Cons [unfolded lowest_tier_first_def most_specific_first_def]
  have m: "m \<in> set ms" "P m" using two_sorts_mem [OF h] by auto
  obtain g where g: "ty_tags m = Some g" using tiers_known [OF ok m(1)] by auto
  have "m' = m \<or> before m m'" if m': "m' \<in> set ms" "P m'" for m'
  proof -
    have o': "the (ty_tier m) < the (ty_tier m') \<or> the (ty_tier m) = the (ty_tier m') \<and> specificity m' \<le> specificity m"
      using two_sorts [OF h, of m'] m' by auto
    have "ty_tier m = ty_tier m' \<Longrightarrow> specificity m' = specificity m \<Longrightarrow> m' = m"
      using key [OF m(2) m'(2)] rank_inj [OF ok m(1) m'(1)] by (auto simp: rank_key_def)
    moreover have "the (ty_tier m) = the (ty_tier m') \<Longrightarrow> ty_tier m = ty_tier m'"
      using tiers_known [OF ok m(1)] tiers_known [OF ok m'(1)] by auto
    ultimately show ?thesis using o' by (auto simp: before_def nat_less_le)
  qed
  then show ?thesis using Cons m g by (auto simp: limit_1_tags_def)
qed

lemma egib_as_two_sorts:
  "egib_building_tags ms p n = limit_1_tags (lowest_tier_first (most_specific_first (filter (egib_fits p n) ms)))"
proof -
  let ?xs = "most_specific_first (filter (egib_fits p n) ms)"
  have "\<forall>m\<in>set ?xs. the (ty_tier m) = 1" by (auto simp: most_specific_first_def egib_fits_def egib_class_def)
  then have "sorted (map (\<lambda>m. the (ty_tier m)) ?xs)" by (simp cong: map_cong add: sorted_wrt_map sorted_wrt_iff_nth_less)
  then have "lowest_tier_first ?xs = ?xs" unfolding lowest_tier_first_def by (rule sort_key_id_if_sorted)
  then show ?thesis by (simp add: egib_building_tags_def egib_fits_def [abs_def])
qed

lemma bdot10k_as_fits: "bdot10k_building_tags tx ms p n = limit_1_tags (lowest_tier_first (most_specific_first (filter (bdot10k_fits tx p n) ms)))"
  by (simp add: bdot10k_building_tags_def bdot10k_fits_def [abs_def])

lemma fits_key:
  "bdot10k_fits tx p n m \<Longrightarrow> bdot10k_fits tx p n m' \<Longrightarrow> ty_tier m = ty_tier m' \<Longrightarrow> ty_key m = ty_key m'"
  "egib_fits p n m \<Longrightarrow> egib_fits p n m' \<Longrightarrow> ty_key m = ty_key m'"
  by (auto simp: bdot10k_fits_def bdot10k_class_def egib_fits_def egib_class_def sql_eq_def)

text \<open>C27: with a mapping table a load has accepted, the tags resolved for a building are those of the one
  row of its class within its storeys and neighbours that comes before all the others (lowest tier,
  then most constraints), so the database's order of rows never decides; no tags are resolved exactly
  when no row fits.\<close>

theorem resolution_exact:
  assumes "types_ok tx src ms"
  shows "(case bdot10k_building_tags tx ms p n of None \<Rightarrow> \<forall>m\<in>set ms. \<not> bdot10k_fits tx p n m
      | Some g \<Rightarrow> \<exists>m\<in>set ms. bdot10k_fits tx p n m \<and> ty_tags m = Some g \<and> (\<forall>m'\<in>set ms. bdot10k_fits tx p n m' \<longrightarrow> m' = m \<or> before m m')) \<and>
    (case egib_building_tags ms p n of None \<Rightarrow> \<forall>m\<in>set ms. \<not> egib_fits p n m
      | Some g \<Rightarrow> \<exists>m\<in>set ms. egib_fits p n m \<and> ty_tags m = Some g \<and> (\<forall>m'\<in>set ms. egib_fits p n m' \<longrightarrow> m' = m \<or> before m m'))"
  unfolding egib_as_two_sorts bdot10k_as_fits
  by (intro conjI limit_1_exact [OF assms] fits_key) assumption+

text \<open>Equal sets of fitting rows resolve alike.\<close>

lemma limit_1_cong:
  assumes ok: "types_ok tx src ms"
    and eq: "set (filter P ns) = set (filter P ms)"
    and key: "\<And>m m'. P m \<Longrightarrow> P m' \<Longrightarrow> ty_tier m = ty_tier m' \<Longrightarrow> ty_key m = ty_key m'"
  shows "limit_1_tags (lowest_tier_first (most_specific_first (filter P ns))) =
    limit_1_tags (lowest_tier_first (most_specific_first (filter P ms)))"
proof (cases "lowest_tier_first (most_specific_first (filter P ms))")
  case Nil
  then have "set (filter P ms) = {}" by (metis list.set(1) lowest_tier_first_def most_specific_first_def set_sort)
  then have "filter P ns = []" "filter P ms = []" using eq by (metis set_empty)+
  then show ?thesis by simp
next
  case (Cons m zs)
  note h = Cons [unfolded lowest_tier_first_def most_specific_first_def]
  have "filter P ns \<noteq> []" using two_sorts_mem [OF h] eq by (metis empty_iff list.set(1))
  then obtain m' zs' where C': "lowest_tier_first (most_specific_first (filter P ns)) = m' # zs'"
    by (metis lowest_tier_first_def most_specific_first_def neq_Nil_conv set_empty set_sort)
  note h' = C' [unfolded lowest_tier_first_def most_specific_first_def]
  have in_ms: "m \<in> set (filter P ms)" "m' \<in> set (filter P ms)" and in_ns: "m \<in> set (filter P ns)"
    using two_sorts_mem [OF h] two_sorts_mem [OF h'] unfolding eq by blast+
  then have mem: "m \<in> set ms" "P m" "m' \<in> set ms" "P m'" by auto
  have "the (ty_tier m) = the (ty_tier m') \<and> specificity m = specificity m'"
    using two_sorts [OF h in_ms(2)] two_sorts [OF h' in_ns] by linarith
  then have "m = m'"
    using rank_inj [OF ok mem(1) mem(3)] key [OF mem(2) mem(4)] tiers_known [OF ok mem(1)] tiers_known [OF ok mem(3)]
    by (auto simp: rank_key_def)
  then show ?thesis using Cons C' by (simp add: limit_1_tags_def)
qed

section \<open>A reload repaints what it changes\<close>

definition pkg_of :: "building_type_source \<Rightarrow> 'g \<Rightarrow> int option \<Rightarrow> 'g gov_row \<Rightarrow> 'g pkg_row" where
  "pkg_of src g levels b = \<lparr>pk_geom = g, pk_class1 = gr_cols b (bt_tier1_column src), pk_class2 = gr_cols b (tier2_or_1 src), pk_levels = levels\<rparr>"

definition resolved_tags :: "sql_text \<Rightarrow> building_type_source \<Rightarrow> type_row list \<Rightarrow> 'g pkg_row \<Rightarrow> nat \<Rightarrow> string option" where
  "resolved_tags tx src ms p n = (if bt_tier2_column src = None then egib_building_tags ms p n else bdot10k_building_tags tx ms p n)"

lemma fits_carried:
  assumes "\<And>s. name_key tx (name_key tx s) = name_key tx s"
    and "ty_key m \<in> range (\<lambda>s. Some (name_key tx s))"
    and "if bt_tier2_column src = None then egib_fits (pkg_of src g levels b) n m else bdot10k_fits tx (pkg_of src g levels b) n m"
  shows "carries_key tx src b (ty_tier m, ty_key m)"
  using assms by (auto simp: carries_key_def class_key_def egib_fits_def egib_class_def bdot10k_fits_def bdot10k_class_def
      pkg_of_def sql_eq_def split: if_splits)

text \<open>C26: after a mapping file is reloaded, every building of the live table whose resolved tags the reload
  changes, whatever its storeys and neighbours, has its cell in the tile queue, in the same commit as the new mapping;
  the match queue and every live table are left alone.\<close>

theorem type_edit_repaints:
  assumes idem: "\<And>s. name_key tx (name_key tx s) = name_key tx s"
    and live: "types_ok tx src (td_types db (bt_mapping_table src))"
    and load: "load_from_path tx ci gq now fails src read db = (Inr st, db')"
    and b: "td_exists db (bt_source_table src)" "b \<in> set (source_rows src db)" "gr_centroid b = Some c"
    and changed: "resolved_tags tx src (td_types db' (bt_mapping_table src)) (pkg_of src g levels b) n \<noteq>
      resolved_tags tx src (td_types db (bt_mapping_table src)) (pkg_of src g levels b) n"
  shows "(Some (gq_cell gq c), now) \<in> set (gb_tiles (td_gov db')) \<and> gb_match (td_gov db') = gb_match (td_gov db) \<and>
    gb_live (td_gov db') = gb_live (td_gov db)"
proof -
  let ?t = "bt_mapping_table src"
  let ?p = "pkg_of src g levels b"
  obtain new where new: "types_ok tx src new"
    and db': "db' = (enqueue_type_delta_cells tx gq now src new db)\<lparr>td_types := (td_types db)(?t := new)\<rparr>"
    using load_cases [OF load] by (metis sum.distinct(1))
  have P: "\<exists>P. (\<forall>ms. resolved_tags tx src ms ?p n = limit_1_tags (lowest_tier_first (most_specific_first (filter P ms)))) \<and>
      (\<forall>m m'. P m \<longrightarrow> P m' \<longrightarrow> ty_tier m = ty_tier m' \<longrightarrow> ty_key m = ty_key m') \<and>
      (\<forall>m. P m \<longrightarrow> (if bt_tier2_column src = None then egib_fits ?p n m else bdot10k_fits tx ?p n m))"
  proof (cases "bt_tier2_column src = None")
    case True
    then show ?thesis using fits_key(2) by (intro exI [of _ "egib_fits ?p n"]) (auto simp: resolved_tags_def egib_as_two_sorts)
  next
    case False
    then show ?thesis using fits_key(1) by (intro exI [of _ "bdot10k_fits tx ?p n"]) (auto simp: resolved_tags_def bdot10k_as_fits)
  qed
  then obtain P where res: "\<And>ms. resolved_tags tx src ms ?p n = limit_1_tags (lowest_tier_first (most_specific_first (filter P ms)))"
    and key: "\<And>m m'. P m \<Longrightarrow> P m' \<Longrightarrow> ty_tier m = ty_tier m' \<Longrightarrow> ty_key m = ty_key m'"
    and fits: "\<And>m. P m \<Longrightarrow> if bt_tier2_column src = None then egib_fits ?p n m else bdot10k_fits tx ?p n m" by blast
  have "set (filter P new) \<noteq> set (filter P (td_types db ?t))"
  proof
    assume "set (filter P new) = set (filter P (td_types db ?t))"
    then have "resolved_tags tx src new ?p n = resolved_tags tx src (td_types db ?t) ?p n"
      unfolding res by (rule limit_1_cong [OF live _ key])
    then show False using changed by (simp add: db')
  qed
  then obtain m where m: "m \<in> set (changed_rows (td_types db ?t) new)" "P m" by (auto simp: changed_rows_def)
  then have "ty_key m \<in> range (\<lambda>s. Some (name_key tx s))"
    using live new by (auto simp: changed_rows_def types_ok_def)
  then have "carries_key tx src b (ty_tier m, ty_key m)" by (rule fits_carried [OF idem _ fits [OF m(2)]])
  then have "Some (gq_cell gq c) \<in> set (type_delta_cells tx gq src (td_types db ?t) new (source_rows src db))"
    using m b by (force simp: type_delta_cells_def Let_def list_ex_iff)
  then show ?thesis using b by (auto simp: db' enqueue_type_delta_cells_def Let_def)
qed

section \<open>A rejected file\<close>

text \<open>A file no database would accept.\<close>

definition rejected :: "sql_text \<Rightarrow> (string \<Rightarrow> int option) \<Rightarrow> building_type_source \<Rightarrow> string + staged_csv \<Rightarrow> bool" where
  "rejected tx ci src read \<longleftrightarrow> isl (bindR read (validated tx ci src))"

lemma load_rejected: "rejected tx ci src read \<Longrightarrow> \<exists>e. \<forall>now fails db. load_from_path tx ci gq now fails src read db = (Inl e, db)"
  by (cases read; cases "validated tx ci src (projr read)") (auto simp: rejected_def load_from_path_def validate_and_swap_def)

definition etag_unchanged :: "types_env \<Rightarrow> types_job \<Rightarrow> 'g types_world \<Rightarrow> bool" where
  "etag_unchanged env j w \<longleftrightarrow> (case te_head env of Inr (Some e) \<Rightarrow> td_meta (tw_db w) (tj_etag_key j) = Some e | _ \<Rightarrow> False)"

text \<open>Runs one after the other, each against its own environment.\<close>

fun refresh_runs :: "sql_text \<Rightarrow> (string \<Rightarrow> int option) \<Rightarrow> 'g gov_sql \<Rightarrow> types_job \<Rightarrow> types_env list \<Rightarrow> 'g types_world \<Rightarrow>
    (string + unit) list \<times> 'g types_world" where
  "refresh_runs tx ci gq j [] w = ([], w)"
| "refresh_runs tx ci gq j (env # envs) w =
     (case refresh_one tx ci gq env j w of (r, w1) \<Rightarrow> (case refresh_runs tx ci gq j envs w1 of (rs, w2) \<Rightarrow> (r # rs, w2)))"

lemma refresh_on_rejected:
  assumes "tw_files w (te_dir env, tj_filename j) = Some fl" "rejected tx ci (tj_source j) (te_read env fl)"
    and "refresh_one tx ci gq env j w = (r, w1)"
  shows "td_types (tw_db w1) = td_types (tw_db w) \<and> td_meta (tw_db w1) = td_meta (tw_db w) \<and> tw_files w1 = tw_files w \<and>
    (etag_unchanged env j w \<and> r = Inr () \<or> \<not> etag_unchanged env j w \<and> isl r)"
proof -
  obtain e where e: "\<And>now fails db. load_from_path tx ci gq now fails (tj_source j) (te_read env fl) db = (Inl e, db)"
    using load_rejected [OF assms(2)] by blast
  have "download_and_load tx ci gq env j w = (Inl e, w)"
    using assms(1) e by (simp add: download_and_load_def download_file_as_def)
  then show ?thesis using assms(3)
    by (auto simp: refresh_one_def etag_unchanged_def log_job_def Let_def split: sum.splits option.splits if_splits)
qed

text \<open>C28: a mapping file that fails validation is kept in the download directory, and from then on no run
  ever changes the mapping: each later run finds the file there, does not download the corrected one
  the server may have, and fails on the old file again (or, when the server answers with the ETag of
  the mapping in use, does nothing).\<close>

theorem rejected_file_blocks_refresh:
  assumes fresh: "tw_files w (te_dir env, tj_filename j) = None" and body: "te_fetch env = Inr body"
    and bad: "rejected tx ci (tj_source j) (te_read env (File body))" and old: "\<not> etag_unchanged env j w"
    and first: "refresh_one tx ci gq env j w = (r, w1)"
    and later: "\<And>env2. env2 \<in> set envs \<Longrightarrow> te_dir env2 = te_dir env \<and> te_read env2 = te_read env"
    and runs: "refresh_runs tx ci gq j envs w1 = (rs, w2)"
  shows "isl r \<and> td_types (tw_db w2) = td_types (tw_db w) \<and> tw_files w2 (te_dir env, tj_filename j) = Some (File body) \<and>
    list_all2 (\<lambda>env2 r2. etag_unchanged env2 j w \<and> r2 = Inr () \<or> \<not> etag_unchanged env2 j w \<and> isl r2) envs rs"
proof -
  let ?p = "(te_dir env, tj_filename j)"
  obtain e where e: "\<And>now fails db. load_from_path tx ci gq now fails (tj_source j) (te_read env (File body)) db = (Inl e, db)"
    using load_rejected [OF bad] by blast
  have "download_and_load tx ci gq env j w = (Inl e, w\<lparr>tw_files := (tw_files w)(?p \<mapsto> File body)\<rparr>)"
    using fresh body e by (simp add: download_and_load_def download_file_as_def)
  then have "r = Inl e" and w1: "w1 = log_job j ''Error'' e (w\<lparr>tw_files := (tw_files w)(?p \<mapsto> File body)\<rparr>)"
    using first old by (auto simp: refresh_one_def etag_unchanged_def Let_def split: sum.splits option.splits if_splits)
  have "td_types (tw_db w2) = td_types (tw_db w1) \<and> tw_files w2 ?p = Some (File body) \<and>
      list_all2 (\<lambda>env2 r2. etag_unchanged env2 j w \<and> r2 = Inr () \<or> \<not> etag_unchanged env2 j w \<and> isl r2) envs rs"
    if "tw_files w1 ?p = Some (File body)" "td_meta (tw_db w1) = td_meta (tw_db w)"
    using runs later that
  proof (induction envs arbitrary: w1 rs)
    case Nil
    then show ?case by simp
  next
    case (Cons env2 envs)
    obtain r2 u where u: "refresh_one tx ci gq env2 j w1 = (r2, u)" by fastforce
    obtain rs' where rs': "refresh_runs tx ci gq j envs u = (rs', w2)" "rs = r2 # rs'"
      using Cons.prems(1) u by (auto split: prod.splits)
    have same: "te_dir env2 = te_dir env" "te_read env2 = te_read env" using Cons.prems(2) by auto
    then have k: "td_types (tw_db u) = td_types (tw_db w1)" "td_meta (tw_db u) = td_meta (tw_db w1)" "tw_files u = tw_files w1"
        "etag_unchanged env2 j w1 \<and> r2 = Inr () \<or> \<not> etag_unchanged env2 j w1 \<and> isl r2"
      using refresh_on_rejected [OF _ _ u] Cons.prems(3) bad by auto
    have "etag_unchanged env2 j w1 = etag_unchanged env2 j w" using Cons.prems(4) by (auto simp: etag_unchanged_def split: sum.splits option.splits)
    then show ?case using Cons.IH [OF rs'(1)] Cons.prems k rs'(2) by simp
  qed
  then show ?thesis using \<open>r = Inl e\<close> w1 by (simp add: log_job_def)
qed


section \<open>Witnesses\<close>

lemma dropWhile_map_spaces:
  "(\<And>c. f c = CHR '' '' \<longleftrightarrow> c = CHR '' '') \<Longrightarrow> dropWhile (\<lambda>c. c = CHR '' '') (map f s) = map f (dropWhile (\<lambda>c. c = CHR '' '') s)"
  by (induction s) auto

lemma of_char_lower: "of_char (ascii_lower c) = (let n = of_char c :: nat in if 65 \<le> n \<and> n \<le> 90 then n + 32 else n)"
  by (simp add: ascii_lower_def Let_def)

lemma lower_space: "ascii_lower c = CHR '' '' \<longleftrightarrow> c = CHR '' ''"
  by (simp add: of_char_lower Let_def flip: of_char_eq_iff [where ?'a = nat])

lemma lower_idem: "ascii_lower (ascii_lower c) = ascii_lower c"
  by (simp add: of_char_lower Let_def flip: of_char_eq_iff [where ?'a = nat])

lemma ascii_name_key_idem: "name_key ascii_text (name_key ascii_text s) = name_key ascii_text s"
proof -
  have "sql_trim (map ascii_lower s) = map ascii_lower (sql_trim s)" for s
    by (simp add: sql_trim_def dropWhile_map_spaces lower_space rev_map)
  then show ?thesis by (simp add: name_key_def ascii_text_def lower_idem)
qed

definition csv_line :: "string \<Rightarrow> string \<Rightarrow> string option \<Rightarrow> string \<Rightarrow> string \<Rightarrow> string option" where
  "csv_line tier k lo tags col = (if col = ''tier'' then Some tier else if col = ''key'' then Some k
     else if col = ''min_levels'' then lo else if col = ''tags'' then Some tags else None)"

definition demo_csv :: staged_csv where
  "demo_csv = \<lparr>sc_columns = required_columns,
     sc_rows = [csv_line ''1'' '' M'' None ''building=residential'', csv_line ''1'' ''m'' (Some ''4'') ''building=apartments; building:part=no'']\<rparr>"

definition type_row_of :: "int \<Rightarrow> string \<Rightarrow> int option \<Rightarrow> string \<Rightarrow> type_row" where
  "type_row_of t k lo tags = \<lparr>ty_tier = Some t, ty_key = Some k, ty_min_levels = lo, ty_max_levels = None, ty_max_neighbours = None, ty_tags = Some tags\<rparr>"

definition demo_types :: "type_row list" where
  "demo_types = [type_row_of 1 ''m'' None ''building=residential'', type_row_of 1 ''m'' (Some 4) ''building=apartments; building:part=no'']"

lemma lower_M: "ascii_lower CHR ''M'' = CHR ''m''" "ascii_lower CHR ''m'' = CHR ''m''"
  by code_simp+

lemma demo_cleaned: "mapE (clean_row ascii_text parse_i64) (sc_rows demo_csv) = Inr demo_types"
  by (simp add: demo_csv_def demo_types_def type_row_of_def clean_row_def csv_line_def cast_integer_def nullif_empty_def name_key_def
      ascii_text_def sql_trim_def lower_M Let_def parse_i64_def parse_nat_def strip_plus_def digit_val_def)

lemma demo_columns: "check_columns (sc_columns demo_csv) = None"
  by (simp add: demo_csv_def check_columns_def required_columns_def)

lemma demo_rows_valid: "mapE (validate_row EGIB_TYPES) demo_types = Inr [(), ()]" "distinct (map rank_key demo_types)"
  by (simp_all add: demo_types_def type_row_of_def
      validate_row_def max_tier_def EGIB_TYPES_def parse_tags_def parse_tag_def trim_def is_ws_def Let_def rank_key_def specificity_def)

lemma demo_validated: "validated ascii_text parse_i64 EGIB_TYPES demo_csv = Inr demo_types"
  by (simp add: validated_def demo_columns demo_cleaned demo_rows_valid)

lemma demo_types_ok: "types_ok ascii_text EGIB_TYPES demo_types"
proof -
  have "Some ''m'' \<in> range (\<lambda>s. Some (name_key ascii_text s))"
    by (rule image_eqI [of _ _ "''m''"]) (simp_all add: name_key_def ascii_text_def sql_trim_def lower_M)
  then show ?thesis using demo_rows_valid by (auto simp: types_ok_def demo_types_def type_row_of_def bindR_Inr_iff)
qed

definition demo_house :: "nat gov_row" where
  "demo_house = \<lparr>gr_cols = (\<lambda>c. if c = ''rodzaj_kod'' then Some ''m'' else None), gr_version = None, gr_geom = Some 5, gr_centroid = Some 5\<rparr>"

definition demo_types_db :: "nat types_db" where
  "demo_types_db = \<lparr>td_gov = \<lparr>gb_live = (\<lambda>t. [demo_house]), gb_reports = [], gb_match = [], gb_tiles = []\<rparr>,
     td_types = (\<lambda>t. [type_row_of 1 ''m'' None ''building=yes'']), td_exists = (\<lambda>t. True), td_meta = Map.empty, td_log = Map.empty\<rparr>"

theorem resolution_exact_witness:
  "egib_building_tags demo_types (pkg_of EGIB_TYPES (5 :: nat) (Some 5) demo_house) 0 = Some ''building=apartments; building:part=no'' \<and>
   (\<exists>m\<in>set demo_types. egib_fits (pkg_of EGIB_TYPES (5 :: nat) (Some 5) demo_house) 0 m \<and> ty_tags m = Some ''building=apartments; building:part=no'')"
proof -
  have "egib_building_tags demo_types (pkg_of EGIB_TYPES (5 :: nat) (Some 5) demo_house) 0 = Some ''building=apartments; building:part=no''"
    by (simp add: demo_types_def type_row_of_def egib_building_tags_def egib_class_def admits_def pkg_of_def demo_house_def EGIB_TYPES_def
        sql_eq_def most_specific_first_def specificity_def limit_1_tags_def)
  then show ?thesis using resolution_exact [OF demo_types_ok, where p = "pkg_of EGIB_TYPES (5 :: nat) (Some 5) demo_house" and n = 0] by auto
qed

lemma demo_live_ok: "types_ok ascii_text EGIB_TYPES (td_types demo_types_db t)"
proof -
  have "Some ''m'' \<in> range (\<lambda>s. Some (name_key ascii_text s))"
    by (rule image_eqI [of _ _ "''m''"]) (simp_all add: name_key_def ascii_text_def sql_trim_def lower_M)
  moreover have "validate_row EGIB_TYPES (type_row_of 1 ''m'' None ''building=yes'') = Inr ()"
    by (simp add: type_row_of_def validate_row_def max_tier_def EGIB_TYPES_def parse_tags_def parse_tag_def trim_def is_ws_def Let_def)
  ultimately show ?thesis by (simp add: types_ok_def demo_types_db_def) (simp add: type_row_of_def)
qed

theorem type_edit_repaints_witness:
  "\<exists>st db'. load_from_path ascii_text parse_i64 demo_sql 3 None EGIB_TYPES (Inr demo_csv) demo_types_db = (Inr st, db') \<and>
     (Some (5, 0), 3) \<in> set (gb_tiles (td_gov db'))"
proof -
  let ?p = "pkg_of EGIB_TYPES (5 :: nat) None demo_house"
  let ?t = "bt_mapping_table EGIB_TYPES"
  obtain r db' where run: "load_from_path ascii_text parse_i64 demo_sql 3 None EGIB_TYPES (Inr demo_csv) demo_types_db = (r, db')" by fastforce
  then obtain st where r: "r = Inr st" by (auto simp: load_from_path_def validate_and_swap_def demo_validated Let_def split: prod.splits)
  have new: "td_types db' ?t = demo_types"
    by (rule load_cases [OF run [unfolded r]]) (use demo_cleaned in simp_all)
  have b: "td_exists demo_types_db (bt_source_table EGIB_TYPES)" "demo_house \<in> set (source_rows EGIB_TYPES demo_types_db)" "gr_centroid demo_house = Some 5"
    by (simp_all add: demo_types_db_def source_rows_def demo_house_def)
  have changed: "resolved_tags ascii_text EGIB_TYPES (td_types db' ?t) ?p 0 \<noteq> resolved_tags ascii_text EGIB_TYPES (td_types demo_types_db ?t) ?p 0"
    unfolding new
    by (simp add: resolved_tags_def demo_types_def demo_types_db_def type_row_of_def egib_building_tags_def egib_class_def admits_def pkg_of_def demo_house_def
        EGIB_TYPES_def sql_eq_def most_specific_first_def specificity_def limit_1_tags_def)
  have "gq_cell demo_sql 5 = (5, 0)" by (simp add: demo_sql_def)
  then have "(Some (5, 0), 3) \<in> set (gb_tiles (td_gov db'))"
    using type_edit_repaints [OF ascii_name_key_idem demo_live_ok run [unfolded r] b changed] by simp
  then show ?thesis using run r by blast
qed

definition demo_types_env :: "byte list \<Rightarrow> types_env" where
  "demo_types_env body = \<lparr>te_now = 1, te_head = Inl ''down'', te_fetch = Inr body,
     te_read = (\<lambda>f. if f = File [1] then Inr demo_csv else Inl ''not a CSV file''),
     te_swap_fails = None, te_meta_delete_fails = None, te_meta_insert_fails = None, te_dir = ''d'', te_cleanup = True\<rparr>"

text \<open>The second run could fetch a good file.\<close>

theorem rejected_file_blocks_refresh_witness:
  "\<exists>r w1 r2 w2. refresh_one ascii_text parse_i64 demo_sql (demo_types_env [0]) EGIB_JOB \<lparr>tw_db = demo_types_db, tw_files = Map.empty\<rparr> = (r, w1) \<and>
     refresh_one ascii_text parse_i64 demo_sql (demo_types_env [1]) EGIB_JOB w1 = (r2, w2) \<and> isl r2 \<and> td_types (tw_db w2) = td_types demo_types_db"
proof -
  let ?w = "\<lparr>tw_db = demo_types_db, tw_files = Map.empty :: path \<Rightarrow> fs_entry option\<rparr>"
  obtain r w1 where first: "refresh_one ascii_text parse_i64 demo_sql (demo_types_env [0]) EGIB_JOB ?w = (r, w1)" by fastforce
  obtain r2 w2 where second: "refresh_one ascii_text parse_i64 demo_sql (demo_types_env [1]) EGIB_JOB w1 = (r2, w2)" by fastforce
  have "isl r2 \<and> td_types (tw_db w2) = td_types demo_types_db"
    using rejected_file_blocks_refresh [where env = "demo_types_env [0]" and w = ?w and j = EGIB_JOB and body = "[0]" and tx = ascii_text and ci = parse_i64
        and gq = demo_sql and envs = "[demo_types_env [1]]" and rs = "[r2]" and ?w2.0 = w2, OF _ _ _ _ first] second
    by (simp add: demo_types_env_def rejected_def etag_unchanged_def)
  then show ?thesis using first second by blast
qed

end
