(* ===== verification/Package.thy ===== *)
theory Package
  imports Building_Types
begin

text \<open>
  The package endpoint, \<open>src/server/package.rs\<close>: the request's area and datasets, the records missing from
  OSM in the area with the tags to import them with, and the log of exports. \<open>serde_json\<close>, DuckDB's
  geometry functions and the failures of the pool and of each query are parameters; a BTreeMap is a map.
  Texts of errors leave out the numbers they quote.
\<close>

section \<open>Floating-point order\<close>

fun f64_le :: "f64 \<Rightarrow> f64 \<Rightarrow> bool" where
  "f64_le (Fin a) (Fin b) = (a \<le> b)"
| "f64_le (Inf s) (Fin b) = s"
| "f64_le (Fin a) (Inf t) = (\<not> t)"
| "f64_le (Inf s) (Inf t) = (s \<or> \<not> t)"
| "f64_le _ _ = False"

definition f64_less :: "f64 \<Rightarrow> f64 \<Rightarrow> bool" where
  "f64_less a b \<longleftrightarrow> f64_le a b \<and> \<not> f64_le b a"

definition f64_min :: "f64 \<Rightarrow> f64 \<Rightarrow> f64" where
  "f64_min a b = (if a = NaN then b else if b = NaN then a else if f64_le a b then a else b)"

definition f64_max :: "f64 \<Rightarrow> f64 \<Rightarrow> f64" where
  "f64_max a b = (if a = NaN then b else if b = NaN then a else if f64_le a b then b else a)"

section \<open>Requests\<close>

datatype dataset = Prg | Bdot10k | Egib

definition ALL_DATASETS :: "dataset list" where
  "ALL_DATASETS = [Prg, Bdot10k, Egib]"

fun sql_name :: "dataset \<Rightarrow> string" where
  "sql_name Prg = ''prg''"
| "sql_name Bdot10k = ''bdot10k''"
| "sql_name Egib = ''egib''"

text \<open>\<open>serde_json::Value\<close>; a number carries what \<open>as_f64\<close> returns.\<close>

datatype json = JNull | JBool bool | JNumber "f64 option" | JString string | JArray "json list" | JObject "(string \<times> json) list"

record json_lib =
  js_parse :: "string \<Rightarrow> string + json"
  js_text :: "json \<Rightarrow> string"

fun json_get :: "string \<Rightarrow> json \<Rightarrow> json option" where
  "json_get k (JObject kvs) = map_of kvs k"
| "json_get k _ = None"

fun as_str :: "json \<Rightarrow> string option" where
  "as_str (JString s) = Some s"
| "as_str _ = None"

fun is_number :: "json \<Rightarrow> bool" where
  "is_number (JNumber n) = True"
| "is_number _ = False"

fun as_f64 :: "json \<Rightarrow> f64 option" where
  "as_f64 (JNumber n) = n"
| "as_f64 _ = None"

record request_area =
  ra_min_lon :: f64
  ra_min_lat :: f64
  ra_max_lon :: f64
  ra_max_lat :: f64
  ra_geojson :: string
  ra_user_supplied :: bool

definition from_envelope :: "json_lib \<Rightarrow> f64 \<Rightarrow> f64 \<Rightarrow> f64 \<Rightarrow> f64 \<Rightarrow> request_area" where
  "from_envelope js x1 y1 x2 y2 =
     (let pos = (\<lambda>x y. JArray [JNumber (Some x), JNumber (Some y)])
      in \<lparr>ra_min_lon = x1, ra_min_lat = y1, ra_max_lon = x2, ra_max_lat = y2,
           ra_geojson = js_text js (JObject [(''type'', JString ''Polygon''),
             (''coordinates'', JArray [JArray [pos x1 y1, pos x2 y1, pos x2 y2, pos x1 y2, pos x1 y1]])]),
           ra_user_supplied = False\<rparr>)"

definition bbox_area_sq_deg :: "request_area \<Rightarrow> f64" where
  "bbox_area_sq_deg a = f64_mul (f64_sub (ra_max_lon a) (ra_min_lon a)) (f64_sub (ra_max_lat a) (ra_min_lat a))"

definition in_range :: "rat \<Rightarrow> f64 \<Rightarrow> bool" where
  "in_range r x \<longleftrightarrow> f64_le (Fin (- r)) x \<and> f64_le x (Fin r)"

definition parse_bbox_value :: "string \<Rightarrow> string + f64" where
  "parse_bbox_value part =
     (case parse_f64 part of None \<Rightarrow> Inl (''bbox value '' @ part @ '' is not a number'')
      | Some n \<Rightarrow> if is_finite n then Inr n else Inl (''bbox value '' @ part @ '' is not finite''))"

definition parse_bbox :: "json_lib \<Rightarrow> string \<Rightarrow> string + request_area" where
  "parse_bbox js s =
     (let parts = map trim (split_on CHR '','' s)
      in if length parts \<noteq> 4 then Inl ''bbox must be 4 comma-separated numbers (minLon,minLat,maxLon,maxLat)''
         else bindR (mapE parse_bbox_value parts) (\<lambda>nums.
           let x1 = nums ! 0; y1 = nums ! 1; x2 = nums ! 2; y2 = nums ! 3
           in if \<not> in_range 180 x1 \<or> \<not> in_range 180 x2 then Inl ''bbox longitudes must be within -180..180''
              else if \<not> in_range 90 y1 \<or> \<not> in_range 90 y2 then Inl ''bbox latitudes must be within -90..90''
              else if f64_le x2 x1 \<or> f64_le y2 y1 then Inl ''bbox must satisfy minLon < maxLon and minLat < maxLat''
              else Inr (from_envelope js x1 y1 x2 y2)))"

text \<open>The three flags of the loop over the names.\<close>

fun name_flags :: "string list \<Rightarrow> bool \<times> bool \<times> bool \<Rightarrow> string + bool \<times> bool \<times> bool" where
  "name_flags [] fl = Inr fl"
| "name_flags (w # ws) (p, b, e) =
     (let n = map ascii_lower (trim w)
      in if n = ''prg'' then name_flags ws (True, b, e)
         else if n = ''bdot10k'' then name_flags ws (p, True, e)
         else if n = ''egib'' then name_flags ws (p, b, True)
         else if n = ''all'' then name_flags ws (True, True, True)
         else Inl (''unknown dataset '' @ n @ '' (expected prg, bdot10k, egib, or all)''))"

definition parse_datasets :: "string option \<Rightarrow> string + dataset list" where
  "parse_datasets v = (case v of None \<Rightarrow> Inr ALL_DATASETS
     | Some s \<Rightarrow> if trim s = '''' then Inr ALL_DATASETS
         else bindR (name_flags (split_on CHR '','' s) (False, False, False)) (\<lambda>(p, b, e).
           Inr ((if p then [Prg] else []) @ (if b then [Bdot10k] else []) @ (if e then [Egib] else []))))"

definition check_area :: "request_area \<Rightarrow> f64 \<Rightarrow> string + unit" where
  "check_area a limit = (if f64_less limit (bbox_area_sq_deg a) then Inl ''requested area exceeds maximum'' else Inr ())"

lemma mapE_cong [fundef_cong]: "xs = ys \<Longrightarrow> (\<And>x. x \<in> set ys \<Longrightarrow> f x = g x) \<Longrightarrow> mapE f xs = mapE g ys"
  by (induction xs arbitrary: ys) auto

definition position :: "json list \<Rightarrow> string + (f64 \<times> f64) list" where
  "position vs =
     (if length vs < 2 then Inl ''coordinate position must have at least 2 numbers''
      else case (as_f64 (vs ! 0), as_f64 (vs ! 1)) of
        (None, _) \<Rightarrow> Inl ''invalid longitude''
      | (_, None) \<Rightarrow> Inl ''invalid latitude''
      | (Some x, Some y) \<Rightarrow>
          if \<not> is_finite x \<or> \<not> is_finite y then Inl ''coordinates must be finite numbers''
          else if \<not> in_range 180 x \<or> \<not> in_range 90 y then Inl ''coordinate out of lon/lat range''
          else Inr [(x, y)])"

fun collect_positions :: "json \<Rightarrow> string + (f64 \<times> f64) list" where
  "collect_positions (JArray vs) =
     (if vs = [] then Inr [] else if is_number (hd vs) then position vs
      else bindR (mapE collect_positions vs) (\<lambda>ps. Inr (concat ps)))"
| "collect_positions _ = Inl ''coordinates must be arrays''"

definition envelope_of :: "(f64 \<times> f64) list \<Rightarrow> f64 \<times> f64 \<times> f64 \<times> f64" where
  "envelope_of ps = foldl (\<lambda>(x1, y1, x2, y2) (x, y). (f64_min x1 x, f64_min y1 y, f64_max x2 x, f64_max y2 y))
     (Inf False, Inf False, Inf True, Inf True) ps"

definition polygon_geometry :: "json \<Rightarrow> string + json" where
  "polygon_geometry v =
     bindR (if Option.bind (json_get ''type'' v) as_str = Some ''Feature''
            then (case json_get ''geometry'' v of None \<Rightarrow> Inl ''Feature has no geometry''
              | Some g \<Rightarrow> if g = JNull then Inl ''Feature has no geometry'' else Inr g)
            else Inr v) (\<lambda>g.
     case Option.bind (json_get ''type'' g) as_str of
       None \<Rightarrow> Inl ''body has no GeoJSON type''
     | Some ty \<Rightarrow> if ty = ''Polygon'' \<or> ty = ''MultiPolygon'' then Inr g
         else Inl (''geometry type must be Polygon or MultiPolygon, got '' @ ty))"

definition parse_polygon_body :: "json_lib \<Rightarrow> string \<Rightarrow> string + request_area" where
  "parse_polygon_body js body =
     (case js_parse js body of Inl e \<Rightarrow> Inl (''invalid JSON body: '' @ e)
      | Inr v \<Rightarrow> bindR (polygon_geometry v) (\<lambda>g.
          case json_get ''coordinates'' g of None \<Rightarrow> Inl ''geometry has no coordinates''
          | Some c \<Rightarrow> bindR (collect_positions c) (\<lambda>ps.
              if ps = [] then Inl ''geometry has no coordinate positions''
              else case envelope_of ps of (x1, y1, x2, y2) \<Rightarrow>
                if f64_le x2 x1 \<or> f64_le y2 y1 then Inl ''polygon envelope is degenerate (zero width or height)''
                else Inr \<lparr>ra_min_lon = x1, ra_min_lat = y1, ra_max_lon = x2, ra_max_lat = y2, ra_geojson = js_text js g, ra_user_supplied = True\<rparr>)))"

section \<open>Tags\<close>

record address_row =
  ar_geometry :: string
  ar_housenumber :: "string option"
  ar_street :: "string option"
  ar_city :: "string option"
  ar_postcode :: "string option"
  ar_simc :: "string option"

definition SOURCE_ADDR :: string where "SOURCE_ADDR = ''gugik.gov.pl''"
definition SOURCE_BUILDING_BDOT10K :: string where "SOURCE_BUILDING_BDOT10K = ''BDOT''"
definition SOURCE_BUILDING_EGIB :: string where "SOURCE_BUILDING_EGIB = ''EGiB''"

definition non_empty :: "string option \<Rightarrow> string option" where
  "non_empty v = (case map_option trim v of Some [] \<Rightarrow> None | w \<Rightarrow> w)"

type_synonym tags = "string \<rightharpoonup> string"

definition insert_some :: "string \<Rightarrow> string option \<Rightarrow> tags \<Rightarrow> tags" where
  "insert_some k v t = (case v of None \<Rightarrow> t | Some s \<Rightarrow> t(k \<mapsto> s))"

definition address_tags :: "address_row \<Rightarrow> tags" where
  "address_tags r =
     (let t1 = insert_some ''addr:housenumber'' (non_empty (ar_housenumber r)) Map.empty;
          t2 = (case non_empty (ar_street r) of
                  Some street \<Rightarrow> insert_some ''addr:city'' (non_empty (ar_city r)) (t1(''addr:street'' \<mapsto> street))
                | None \<Rightarrow> insert_some ''addr:place'' (non_empty (ar_city r)) t1);
          t3 = insert_some ''addr:city:simc'' (non_empty (ar_simc r)) (insert_some ''addr:postcode'' (non_empty (ar_postcode r)) t2)
      in t3(''source:addr'' \<mapsto> SOURCE_ADDR))"

definition building_tags :: "string option \<Rightarrow> string \<Rightarrow> tags" where
  "building_tags resolved source =
     (let pairs = Option.bind resolved (\<lambda>s. if trim s = '''' then None else case parse_tags s of Inl _ \<Rightarrow> None | Inr ps \<Rightarrow> Some ps)
      in (case pairs of Some ps \<Rightarrow> foldl (\<lambda>t (k, v). t(k \<mapsto> v)) Map.empty ps
          | None \<Rightarrow> Map.empty(''building'' \<mapsto> ''yes''))(''source:building'' \<mapsto> source))"

definition with_building_levels :: "tags \<Rightarrow> int option \<Rightarrow> tags" where
  "with_building_levels t levels = (case levels of Some n \<Rightarrow> if 1 \<le> n then t(''building:levels'' \<mapsto> show_int n) else t | None \<Rightarrow> t)"

record feature =
  ft_geometry :: string
  ft_properties :: tags

section \<open>The queries\<close>

record 'g package_sql =
  pq_spatial :: "'g sql_spatial"
  pq_gov :: "'g gov_sql"
  pq_text :: sql_text
  pq_as_geojson :: "'g \<Rightarrow> string"
  pq_from_geojson :: "string \<Rightarrow> 'g option"
  pq_make_valid :: "'g \<Rightarrow> 'g"
  pq_is_valid :: "'g \<Rightarrow> bool"
  pq_type :: "'g \<Rightarrow> string"
  pq_area :: "'g \<Rightarrow> rat"
  pq_json_ok :: "string \<Rightarrow> bool"

record 'g served_address =
  sa_row :: "'g prg_address"
  sa_postcode :: "string option"

record 'g export =
  ex_at :: nat
  ex_area :: 'g
  ex_datasets :: "string list"
  ex_addresses :: nat
  ex_buildings :: nat

text \<open>The serving tables, the mappings, the two building mappings with the live tables, the log.\<close>

record 'g package_db =
  pd_prg :: "'g served_address list"
  pd_streets :: "mapping_row list"
  pd_bdot10k :: "'g pkg_row list"
  pd_egib :: "'g pkg_row list"
  pd_types :: "'g types_db"
  pd_exports :: "'g export list"

fun rat_of :: "f64 \<Rightarrow> rat" where
  "rat_of (Fin r) = r"
| "rat_of _ = 0"

definition area_envelope :: "request_area \<Rightarrow> bounds" where
  "area_envelope a = (rat_of (ra_min_lon a), rat_of (ra_min_lat a), rat_of (ra_max_lon a), rat_of (ra_max_lat a))"

definition ADJACENCY_READ_BUFFER_DEG :: f64 where
  "ADJACENCY_READ_BUFFER_DEG = f64_of_rat (5 / 10000)"

definition buffered_envelope :: "request_area \<Rightarrow> bounds" where
  "buffered_envelope a = (let d = ADJACENCY_READ_BUFFER_DEG
     in (rat_of (f64_sub (ra_min_lon a) d), rat_of (f64_sub (ra_min_lat a) d), rat_of (f64_add (ra_max_lon a) d), rat_of (f64_add (ra_max_lat a) d)))"

definition in_area :: "'g package_sql \<Rightarrow> request_area \<Rightarrow> 'g \<Rightarrow> 'g \<Rightarrow> bool" where
  "in_area pq a poly g \<longleftrightarrow> sp_intersects (pq_spatial pq) g (sp_envelope (pq_spatial pq) (area_envelope a)) \<and>
     sp_intersects (pq_spatial pq) g (pq_make_valid pq poly)"

definition unmatched_addresses :: "'g package_sql \<Rightarrow> request_area \<Rightarrow> 'g \<Rightarrow> 'g package_db \<Rightarrow> address_row list" where
  "unmatched_addresses pq a poly db =
     concat (map (\<lambda>s. let r = sa_row s in map (\<lambda>street. \<lparr>ar_geometry = pq_as_geojson pq (a_geom r), ar_housenumber = a_housenumber r,
         ar_street = street, ar_city = a_place r, ar_postcode = sa_postcode s, ar_simc = a_simc r\<rparr>)
       (resolved_streets (pq_text pq) (pd_streets db) r))
     (filter (\<lambda>s. in_area pq a poly (a_geom (sa_row s))) (pd_prg db)))"

record unmatched_building =
  ub_geometry :: string
  ub_tags :: "string option"
  ub_levels :: "int option"

definition unmatched_bdot10k_buildings :: "'g package_sql \<Rightarrow> request_area \<Rightarrow> 'g \<Rightarrow> 'g package_db \<Rightarrow> unmatched_building list" where
  "unmatched_bdot10k_buildings pq a poly db =
     (let live = source_rows BDOT10K_TYPES (pd_types db);
          adjacent = (\<lambda>b. class_key (pq_text pq) ''PRZEWAZAJACAFUNKCJABUDYNKU'' b = Some BDOT10K_ADJACENCY_KEY);
          nb = neighbours (pq_spatial pq) (pq_gov pq) (buffered_envelope a) adjacent live
      in map (\<lambda>p. \<lparr>ub_geometry = pq_as_geojson pq (pk_geom p),
             ub_tags = bdot10k_building_tags (pq_text pq) (td_types (pd_types db) ''bdot10k_building_types'') p (nb (pk_geom p)),
             ub_levels = pk_levels p\<rparr>)
           (filter (\<lambda>p. in_area pq a poly (pk_geom p)) (pd_bdot10k db)))"

definition unmatched_egib_buildings :: "'g package_sql \<Rightarrow> request_area \<Rightarrow> 'g \<Rightarrow> 'g package_db \<Rightarrow> unmatched_building list" where
  "unmatched_egib_buildings pq a poly db =
     (let live = source_rows EGIB_TYPES (pd_types db);
          adjacent = (\<lambda>b. gr_cols b ''rodzaj_kod'' = Some EGIB_ADJACENCY_KEY);
          nb = neighbours (pq_spatial pq) (pq_gov pq) (buffered_envelope a) adjacent live
      in map (\<lambda>p. \<lparr>ub_geometry = pq_as_geojson pq (pk_geom p),
             ub_tags = egib_building_tags (td_types (pd_types db) ''egib_building_types'') p (nb (pk_geom p)), ub_levels = pk_levels p\<rparr>)
           (filter (\<lambda>p. in_area pq a poly (pk_geom p)) (pd_egib db)))"

section \<open>The package\<close>

definition feature_of :: "'g package_sql \<Rightarrow> string \<Rightarrow> tags \<Rightarrow> string + feature" where
  "feature_of pq geometry props = (if pq_json_ok pq geometry then Inr \<lparr>ft_geometry = geometry, ft_properties = props\<rparr> else Inl ''invalid geometry JSON'')"

definition address_feature :: "'g package_sql \<Rightarrow> address_row \<Rightarrow> string + feature" where
  "address_feature pq r = feature_of pq (ar_geometry r) (address_tags r)"

definition building_feature :: "'g package_sql \<Rightarrow> string \<Rightarrow> unmatched_building \<Rightarrow> string + feature" where
  "building_feature pq source b = feature_of pq (ub_geometry b) (with_building_levels (building_tags (ub_tags b) source) (ub_levels b))"

text \<open>What one request meets: the pool, each query, the time, and the log's own connection and insert.\<close>

record package_env =
  pe_now :: nat
  pe_probe_pool :: bool
  pe_pool :: bool
  pe_query_fails :: "dataset \<Rightarrow> string option"
  pe_log_ok :: bool

fun dataset_features :: "'g package_sql \<Rightarrow> request_area \<Rightarrow> 'g \<Rightarrow> 'g package_db \<Rightarrow> dataset \<Rightarrow> string + feature list" where
  "dataset_features pq a poly db Prg = mapE (address_feature pq) (unmatched_addresses pq a poly db)"
| "dataset_features pq a poly db Bdot10k = mapE (building_feature pq SOURCE_BUILDING_BDOT10K) (unmatched_bdot10k_buildings pq a poly db)"
| "dataset_features pq a poly db Egib = mapE (building_feature pq SOURCE_BUILDING_EGIB) (unmatched_egib_buildings pq a poly db)"

text \<open>The loop over the datasets: features, and the counts of addresses and of buildings.\<close>

fun collect_features :: "'g package_sql \<Rightarrow> package_env \<Rightarrow> request_area \<Rightarrow> 'g option \<Rightarrow> 'g package_db \<Rightarrow> dataset list \<Rightarrow>
    feature list \<times> nat \<times> nat \<Rightarrow> string + feature list \<times> nat \<times> nat" where
  "collect_features pq env a poly db [] acc = Inr acc"
| "collect_features pq env a poly db (d # ds) (fs, na, nb) =
     (case (pe_query_fails env d, poly) of
        (Some e, _) \<Rightarrow> Inl e
      | (None, None) \<Rightarrow> Inl ''Failed to run package query''
      | (None, Some g) \<Rightarrow> bindR (dataset_features pq a g db d) (\<lambda>new.
          collect_features pq env a poly db ds
            (fs @ new, na + (if d = Prg then length new else 0), nb + (if d = Prg then 0 else length new))))"

text \<open>The logged area is the repaired geometry, the one the queries tested. A request whose geometry the
  engine cannot read fails the insertion, like a pool or a statement that fails.\<close>

definition log_export :: "'g package_sql \<Rightarrow> package_env \<Rightarrow> request_area \<Rightarrow> dataset list \<Rightarrow> nat \<Rightarrow> nat \<Rightarrow> 'g package_db \<Rightarrow>
    'g package_db" where
  "log_export pq env a ds na nb db =
     (case pq_from_geojson pq (ra_geojson a) of
        None \<Rightarrow> db
      | Some g \<Rightarrow> if pe_log_ok env then db\<lparr>pd_exports := pd_exports db @ [\<lparr>ex_at = pe_now env, ex_area = pq_make_valid pq g,
          ex_datasets = map sql_name ds, ex_addresses = na, ex_buildings = nb\<rparr>]\<rparr> else db)"

definition build_package :: "'g package_sql \<Rightarrow> package_env \<Rightarrow> request_area \<Rightarrow> dataset list \<Rightarrow> 'g package_db \<Rightarrow>
    (string + feature list) \<times> 'g package_db" where
  "build_package pq env a ds db =
     (if \<not> pe_pool env then (Inl ''Failed to acquire pool connection'', db)
      else case collect_features pq env a (pq_from_geojson pq (ra_geojson a)) db ds ([], 0, 0) of
        Inl e \<Rightarrow> (Inl e, db)
      | Inr (fs, na, nb) \<Rightarrow> (Inr fs, log_export pq env a ds na nb db))"

definition check_request_geometry :: "'g package_sql \<Rightarrow> request_area \<Rightarrow> string option" where
  "check_request_geometry pq a =
     (case pq_from_geojson pq (ra_geojson a) of
        None \<Rightarrow> Some ''polygon geometry is invalid and could not be processed by the spatial engine (check that every ring is closed and has at least 4 points)''
      | Some g \<Rightarrow> if pq_is_valid pq g then None
          else let m = pq_make_valid pq g
               in if (pq_type pq m = ''POLYGON'' \<or> pq_type pq m = ''MULTIPOLYGON'') \<and> 0 < pq_area pq m then None
                  else Some ''polygon geometry is self-intersecting or degenerate and does not repair into a shape with area -- check for collinear points or a crossed outline'')"

datatype package_response = Package "feature list" | Package_error nat string

definition serve_package :: "'g package_sql \<Rightarrow> f64 \<Rightarrow> package_env \<Rightarrow> request_area \<Rightarrow> dataset list \<Rightarrow> 'g package_db \<Rightarrow> package_response \<times> 'g package_db" where
  "serve_package pq limit env a ds db =
     (case check_area a limit of Inl e \<Rightarrow> (Package_error 400 e, db)
      | Inr _ \<Rightarrow>
          if ra_user_supplied a \<and> \<not> pe_probe_pool env then (Package_error 500 ''internal error'', db)
          else case (if ra_user_supplied a then check_request_geometry pq a else None) of
            Some msg \<Rightarrow> (Package_error 400 msg, db)
          | None \<Rightarrow> (case build_package pq env a ds db of
              (Inl _, db') \<Rightarrow> (Package_error 500 ''internal error'', db')
            | (Inr fs, db') \<Rightarrow> (Package fs, db')))"

definition get_package :: "'g package_sql \<Rightarrow> json_lib \<Rightarrow> f64 \<Rightarrow> package_env \<Rightarrow> string option \<Rightarrow> string option \<Rightarrow> 'g package_db \<Rightarrow>
    package_response \<times> 'g package_db" where
  "get_package pq js limit env bbox datasets db =
     (case bbox of None \<Rightarrow> (Package_error 400 ''missing required parameter 'bbox' '', db)
      | Some b \<Rightarrow> (case parse_bbox js b of Inl e \<Rightarrow> (Package_error 400 e, db)
        | Inr a \<Rightarrow> (case parse_datasets datasets of Inl e \<Rightarrow> (Package_error 400 e, db)
          | Inr ds \<Rightarrow> serve_package pq limit env a ds db)))"

definition post_package :: "'g package_sql \<Rightarrow> json_lib \<Rightarrow> f64 \<Rightarrow> package_env \<Rightarrow> string \<Rightarrow> string option \<Rightarrow> 'g package_db \<Rightarrow>
    package_response \<times> 'g package_db" where
  "post_package pq js limit env body datasets db =
     (case parse_polygon_body js body of Inl e \<Rightarrow> (Package_error 400 e, db)
      | Inr a \<Rightarrow> (case parse_datasets datasets of Inl e \<Rightarrow> (Package_error 400 e, db)
        | Inr ds \<Rightarrow> serve_package pq limit env a ds db))"


section \<open>Accepted areas\<close>

definition area_bounded :: "request_area \<Rightarrow> bool" where
  "area_bounded a \<longleftrightarrow> list_all is_finite [ra_min_lon a, ra_min_lat a, ra_max_lon a, ra_max_lat a] \<and>
     in_range 180 (ra_min_lon a) \<and> in_range 180 (ra_max_lon a) \<and> in_range 90 (ra_min_lat a) \<and> in_range 90 (ra_max_lat a) \<and>
     f64_less (ra_min_lon a) (ra_max_lon a) \<and> f64_less (ra_min_lat a) (ra_max_lat a)"

definition inside :: "request_area \<Rightarrow> f64 \<times> f64 \<Rightarrow> bool" where
  "inside a p \<longleftrightarrow> f64_le (ra_min_lon a) (fst p) \<and> f64_le (fst p) (ra_max_lon a) \<and> f64_le (ra_min_lat a) (snd p) \<and> f64_le (snd p) (ra_max_lat a)"

definition good_position :: "f64 \<times> f64 \<Rightarrow> bool" where
  "good_position p \<longleftrightarrow> (\<exists>x y. p = (Fin x, Fin y) \<and> - 180 \<le> x \<and> x \<le> 180 \<and> - 90 \<le> y \<and> y \<le> 90)"

lemma is_finite_iff: "is_finite x \<longleftrightarrow> (\<exists>r. x = Fin r)"
  by (cases x) auto

lemma position_good: "position vs = Inr ps \<Longrightarrow> list_all good_position ps"
  by (auto simp: position_def good_position_def in_range_def is_finite_iff split: if_splits option.splits)

lemma positions_good: "collect_positions v = Inr ps \<Longrightarrow> list_all good_position ps"
proof (induction v arbitrary: ps rule: collect_positions.induct)
  case (1 vs)
  show ?case
  proof (cases "vs = [] \<or> is_number (hd vs)")
    case True
    then show ?thesis using 1(2) position_good by (auto split: if_splits)
  next
    case False
    then obtain pss where pss: "mapE collect_positions vs = Inr pss" "ps = concat pss"
      using 1(2) by (auto simp: bindR_Inr_iff)
    have "list_all good_position qs" if "qs \<in> set pss" for qs
      using mapE_image [OF pss(1) that] 1(1) False by blast
    then show ?thesis by (auto simp: pss(2) list_all_iff)
  qed
qed simp_all

lemma envelope_folds:
  "foldl (\<lambda>(x1, y1, x2, y2) (x, y). (f64_min x1 x, f64_min y1 y, f64_max x2 x, f64_max y2 y)) (a, b, c, d) ps =
   (foldl f64_min a (map fst ps), foldl f64_min b (map snd ps), foldl f64_max c (map fst ps), foldl f64_max d (map snd ps))"
  by (induction ps arbitrary: a b c d) auto

lemma fold_min_Fin: "foldl f64_min (Fin a) (map Fin xs) = Fin (foldl min a xs)"
  by (induction xs arbitrary: a) (auto simp: f64_min_def min_def)

lemma fold_max_Fin: "foldl f64_max (Fin a) (map Fin xs) = Fin (foldl max a xs)"
  by (induction xs arbitrary: a) (auto simp: f64_max_def max_def)

lemma foldl_min: "foldl min (a :: rat) xs \<in> set (a # xs) \<and> (\<forall>x\<in>set (a # xs). foldl min a xs \<le> x)"
  by (induction xs arbitrary: a) (auto simp: min_def split: if_splits, (metis order_trans linear)+)

lemma foldl_max: "foldl max (a :: rat) xs \<in> set (a # xs) \<and> (\<forall>x\<in>set (a # xs). x \<le> foldl max a xs)"
  by (induction xs arbitrary: a) (auto simp: max_def split: if_splits, (metis order_trans linear)+)

lemma fold_min_start: "xs \<noteq> [] \<Longrightarrow> \<exists>m. foldl f64_min (Inf False) (map Fin xs) = Fin m \<and> m \<in> set xs \<and> (\<forall>x\<in>set xs. m \<le> x)"
  by (cases xs) (use fold_min_Fin foldl_min in \<open>force simp: f64_min_def\<close>)+

lemma fold_max_start: "xs \<noteq> [] \<Longrightarrow> \<exists>m. foldl f64_max (Inf True) (map Fin xs) = Fin m \<and> m \<in> set xs \<and> (\<forall>x\<in>set xs. x \<le> m)"
  by (cases xs) (use fold_max_Fin foldl_max in \<open>force simp: f64_max_def\<close>)+


lemma envelope_bounds:
  assumes good: "list_all good_position ps" and "ps \<noteq> []" and env: "envelope_of ps = (x1, y1, x2, y2)"
  obtains a b c d where "x1 = Fin a" "y1 = Fin b" "x2 = Fin c" "y2 = Fin d" "- 180 \<le> a" "c \<le> 180" "- 90 \<le> b" "d \<le> 90"
    "\<And>x y. (x, y) \<in> set ps \<Longrightarrow> f64_le x1 x \<and> f64_le x x2 \<and> f64_le y1 y \<and> f64_le y y2"
proof -
  define xs where "xs = map (\<lambda>p. rat_of (fst p)) ps"
  define ys where "ys = map (\<lambda>p. rat_of (snd p)) ps"
  have ps: "map fst ps = map Fin xs" "map snd ps = map Fin ys"
    using good by (auto simp: xs_def ys_def list_all_iff good_position_def)
  have r: "\<And>x. x \<in> set xs \<Longrightarrow> - 180 \<le> x \<and> x \<le> 180" "\<And>y. y \<in> set ys \<Longrightarrow> - 90 \<le> y \<and> y \<le> 90"
    using good by (auto simp: xs_def ys_def list_all_iff good_position_def)
  have ne: "xs \<noteq> []" "ys \<noteq> []" using \<open>ps \<noteq> []\<close> by (auto simp: xs_def ys_def)
  have e: "x1 = foldl f64_min (Inf False) (map Fin xs)" "y1 = foldl f64_min (Inf False) (map Fin ys)"
      "x2 = foldl f64_max (Inf True) (map Fin xs)" "y2 = foldl f64_max (Inf True) (map Fin ys)"
    using env by (simp_all add: envelope_of_def envelope_folds ps)
  obtain a where a: "x1 = Fin a" "a \<in> set xs" "\<forall>x\<in>set xs. a \<le> x" using fold_min_start [OF ne(1)] e by blast
  obtain b where b: "y1 = Fin b" "b \<in> set ys" "\<forall>x\<in>set ys. b \<le> x" using fold_min_start [OF ne(2)] e by blast
  obtain c where c: "x2 = Fin c" "c \<in> set xs" "\<forall>x\<in>set xs. x \<le> c" using fold_max_start [OF ne(1)] e by blast
  obtain d where d: "y2 = Fin d" "d \<in> set ys" "\<forall>x\<in>set ys. x \<le> d" using fold_max_start [OF ne(2)] e by blast
  have "f64_le x1 x \<and> f64_le x x2 \<and> f64_le y1 y \<and> f64_le y y2" if "(x, y) \<in> set ps" for x y
  proof -
    have "good_position (x, y)" using good that by (simp add: list_all_iff)
    then obtain p q where p: "x = Fin p" "y = Fin q" by (auto simp: good_position_def)
    then have "p \<in> set xs" "q \<in> set ys" using that by (force simp: xs_def ys_def)+
    then show ?thesis using a b c d p by simp
  qed
  then show ?thesis using that a b c d r by blast
qed

lemma bounded_Fin:
  "area_bounded \<lparr>ra_min_lon = Fin a, ra_min_lat = Fin b, ra_max_lon = Fin c, ra_max_lat = Fin d, ra_geojson = g, ra_user_supplied = u\<rparr> \<longleftrightarrow>
     - 180 \<le> a \<and> a < c \<and> c \<le> 180 \<and> - 90 \<le> b \<and> b < d \<and> d \<le> 90"
  by (auto simp: area_bounded_def in_range_def f64_less_def)

text \<open>C29: an area that a request is accepted with, from a \<open>bbox\<close> or from a polygon, has finite bounds
  within -180..180 and -90..90 and a positive width and height; for a polygon every position of the
  geometry lies within the bounds, and the geometry kept for the queries is the one submitted.\<close>

theorem accepted_area_bounds:
  "(case parse_bbox js s of Inl _ \<Rightarrow> True | Inr a \<Rightarrow> area_bounded a) \<and>
   (case parse_polygon_body js body of Inl _ \<Rightarrow> True
    | Inr a \<Rightarrow> area_bounded a \<and> (\<exists>v g c ps. js_parse js body = Inr v \<and> polygon_geometry v = Inr g \<and> json_get ''coordinates'' g = Some c \<and>
        collect_positions c = Inr ps \<and> list_all (inside a) ps \<and> ra_geojson a = js_text js g))"
proof
  show "case parse_bbox js s of Inl _ \<Rightarrow> True | Inr a \<Rightarrow> area_bounded a"
  proof (cases "parse_bbox js s")
    case (Inr a)
    let ?parts = "map trim (split_on CHR '','' s)"
    obtain nums where n: "length ?parts = 4" "mapE parse_bbox_value ?parts = Inr nums"
      using Inr by (auto simp: parse_bbox_def Let_def bindR_Inr_iff split: if_splits)
    have l: "length nums = 4" using n by (auto simp: mapE_Inr dest!: list_all2_lengthD)
    have "parse_bbox_value t = Inr x \<Longrightarrow> is_finite x" for t x by (auto simp: parse_bbox_value_def split: option.splits if_splits)
    then have fin: "\<And>x. x \<in> set nums \<Longrightarrow> is_finite x" using mapE_image [OF n(2)] by blast
    then have "\<And>i. i < 4 \<Longrightarrow> \<exists>r. nums ! i = Fin r" using is_finite_iff l by (metis nth_mem)
    from this [of 0] this [of 1] this [of 2] this [of 3] obtain p q r t
      where "nums ! 0 = Fin p" "nums ! 1 = Fin q" "nums ! 2 = Fin r" "nums ! 3 = Fin t" by auto
    then show ?thesis using Inr n
      by (auto simp: parse_bbox_def Let_def in_range_def from_envelope_def bounded_Fin split: if_splits)
  qed simp
next
  show "case parse_polygon_body js body of Inl _ \<Rightarrow> True
    | Inr a \<Rightarrow> area_bounded a \<and> (\<exists>v g c ps. js_parse js body = Inr v \<and> polygon_geometry v = Inr g \<and> json_get ''coordinates'' g = Some c \<and>
        collect_positions c = Inr ps \<and> list_all (inside a) ps \<and> ra_geojson a = js_text js g)"
  proof (cases "parse_polygon_body js body")
    case (Inr a)
    then obtain v g c ps where v: "js_parse js body = Inr v" "polygon_geometry v = Inr g" "json_get ''coordinates'' g = Some c"
      and ps: "collect_positions c = Inr ps" "ps \<noteq> []"
      by (auto simp: parse_polygon_body_def bindR_Inr_iff split: sum.splits option.splits if_splits)
    obtain x1 y1 x2 y2 where e: "envelope_of ps = (x1, y1, x2, y2)" by (cases "envelope_of ps")
    have pos: "\<not> f64_le x2 x1" "\<not> f64_le y2 y1"
      and a: "a = \<lparr>ra_min_lon = x1, ra_min_lat = y1, ra_max_lon = x2, ra_max_lat = y2, ra_geojson = js_text js g, ra_user_supplied = True\<rparr>"
      using Inr v ps e by (auto simp: parse_polygon_body_def split: if_splits)
    show ?thesis
    proof (rule envelope_bounds [OF positions_good [OF ps(1)] ps(2) e])
      fix p q r t
      assume F: "x1 = Fin p" "y1 = Fin q" "x2 = Fin r" "y2 = Fin t" "- 180 \<le> p" "r \<le> 180" "- 90 \<le> q" "t \<le> 90"
        and all: "\<And>x y. (x, y) \<in> set ps \<Longrightarrow> f64_le x1 x \<and> f64_le x x2 \<and> f64_le y1 y \<and> f64_le y y2"
      have "area_bounded a" using F pos unfolding a F by (simp add: bounded_Fin)
      moreover have "list_all (inside a) ps" using all by (auto simp: list_all_iff inside_def a)
      ultimately show ?thesis using Inr v ps a by auto
    qed
  qed simp
qed

section \<open>What a package holds\<close>



















section \<open>Requested datasets\<close>

definition names_dataset :: "dataset \<Rightarrow> string \<Rightarrow> bool" where
  "names_dataset d w \<longleftrightarrow> map ascii_lower (trim w) \<in> {sql_name d, ''all''}"

lemma name_flags_step:
  assumes "name_flags (w # ws) (p, b, e) = Inr r"
  shows "name_flags ws (p \<or> names_dataset Prg w, b \<or> names_dataset Bdot10k w, e \<or> names_dataset Egib w) = Inr r"
proof -
  define n where "n = map ascii_lower (trim w)"
  have d: "names_dataset d w \<longleftrightarrow> n = sql_name d \<or> n = ''all''" for d by (simp add: names_dataset_def n_def)
  have "n = ''prg'' \<or> n = ''bdot10k'' \<or> n = ''egib'' \<or> n = ''all''"
    using assms by (simp add: n_def Let_def split: if_splits)
  then show ?thesis using assms unfolding d by (elim disjE) (simp_all add: n_def)
qed

lemma name_flags_exact:
  "name_flags ws (p, b, e) = Inr (p', b', e') \<Longrightarrow>
     p' = (p \<or> list_ex (names_dataset Prg) ws) \<and> b' = (b \<or> list_ex (names_dataset Bdot10k) ws) \<and> e' = (e \<or> list_ex (names_dataset Egib) ws)"
proof (induction ws arbitrary: p b e)
  case (Cons w ws)
  show ?case using Cons.IH [OF name_flags_step [OF Cons.prems]] by auto
qed simp

text \<open>The datasets come in the fixed order, each once, and are the ones the parameter names.\<close>

lemma parse_datasets_exact:
  assumes "parse_datasets v = Inr ds"
  shows "ds = filter (\<lambda>d. case v of None \<Rightarrow> True | Some s \<Rightarrow> trim s = '''' \<or> list_ex (names_dataset d) (split_on CHR '','' s)) ALL_DATASETS"
proof (cases "\<exists>s. v = Some s \<and> trim s \<noteq> ''''")
  case True
  then obtain s p b e where s: "v = Some s" "trim s \<noteq> ''''" and fl: "name_flags (split_on CHR '','' s) (False, False, False) = Inr (p, b, e)"
    and ds: "ds = (if p then [Prg] else []) @ (if b then [Bdot10k] else []) @ (if e then [Egib] else [])"
    using assms by (auto simp: parse_datasets_def bindR_Inr_iff)
  show ?thesis using name_flags_exact [OF fl] s by (simp add: ds ALL_DATASETS_def)
qed (use assms in \<open>auto simp: parse_datasets_def ALL_DATASETS_def split: option.splits\<close>)

section \<open>Witnesses\<close>











end
