(* ===== verification/Spec2Isabelle.thy ===== *)
theory Spec2Isabelle
  imports Prelude Float64 Encoding Kvstore Store Udf Texts Civil Pbf_Header Lifecycle
    Replication Dirty_Cells Osm_Apply Osm_Kv Osm_Rows Osm_Dirty Osm_Replay Osm_Batch Osm_Update
    Osm_Prefetch Tile_Store Tile_Cache Http_Cache Jobs Job_Handshake Match_Rule
    Compare_Buildings Match_Address Drain Tile_Refresh Download Config Dataset Reports Refresh
    Building_Types Package
begin

text \<open>
Verification development of osmpbudynkiv2, a server that compares the Polish government
  registries (BDOT10k and EGIB buildings, PRG addresses) with OpenStreetMap and offers what is
  missing. The Rust sources are under \<open>src/src/\<close>; paths below are relative to it.

  \<^bold>\<open>The program.\<close> A RocksDB store (\<open>osm/kvstore.rs\<close>, values of \<open>osm/encoding.rs\<close>) keeps every OSM
  node, way and relation with two reverse indexes; DuckDB keeps the tables. \<open>update/osm.rs\<close> follows
  the OSM replication feed (\<open>osm/replication.rs\<close>): it collapses a batch of minutely diffs, writes
  the store, rebuilds the rows of \<open>osm_buildings\<close>, \<open>osm_former_buildings\<close> and \<open>osm_addresses\<close> from it
  (\<open>osm/udf.rs\<close>) and queues the z14 cells that changed (\<open>update/dirty_cells.rs\<close>). \<open>compare/\<close> decides
  which government objects are unmatched: nationwide, or one queued cell at a time
  (\<open>compare/drain.rs\<close>). Each recomputed cell queues tiles (\<open>server/tile_dirty.rs\<close>), which
  \<open>server/jobs/tile_refresh.rs\<close> renders again into \<open>server/tile_store.rs\<close>. \<open>server/jobs/mod.rs\<close>
  supervises the jobs; \<open>server/tile_cache.rs\<close> and \<open>server/http_cache.rs\<close> serve.

  \<^bold>\<open>Conventions.\<close> The crate is built with overflow checks, so arithmetic out of range, a slice out of
  range and a failed \<open>expect\<close> are panics: \<open>None\<close>. An \<open>Err\<close> is \<open>Inl\<close> of its message. Machine integers
  are words where wrap-around or layout matters and naturals with checked operations elsewhere;
  \<open>f64\<close> is a rational rounded to 53 bits, an infinity or NaN. SQL is modelled by the rows a statement
  selects, NULL by \<open>None\<close>. A fault (a failed statement, a stop request, a crash, the commits of other
  connections) is an argument of the definition it can strike, and the theorems hold for all of
  them. DuckDB's spatial functions, gzip, zlib, the XML tokenizer, the Web-Mercator projection and
  the network are parameters; what is relied on is a named hypothesis.

  \<^bold>\<open>Theories.\<close>
  \<^item> \<open>Prelude\<close>, \<open>Float64\<close>, \<open>Texts\<close>: byte strings, checked arithmetic, chunks, binary64, Rust's text
    formatting and parsing.
  \<^item> \<open>Encoding\<close> (\<open>osm/encoding.rs\<close>), \<open>Kvstore\<close> (\<open>osm/kvstore.rs\<close>), \<open>Store\<close>: the value layouts round-trip,
    the RocksDB operations, and the typed store they refine under the relation \<open>repr\<close>.
  \<^item> \<open>Udf\<close>, \<open>Pbf_Header\<close>, \<open>Lifecycle\<close>, \<open>Replication\<close>, \<open>Civil\<close>: the files of those names, and the calendar
    code of \<open>server/jobs/mod.rs\<close> and \<open>osm/pbf_header.rs\<close> against the Gregorian calendar.
  \<^item> \<open>Dirty_Cells\<close>, \<open>Osm_Apply\<close>, \<open>Osm_Batch\<close>, \<open>Osm_Update\<close>, \<open>Osm_Prefetch\<close>: \<open>update/osm.rs\<close>. \<open>Osm_Apply\<close> is one
    change set (\<open>apply_collapsed\<close>), \<open>Osm_Batch\<close> one transaction, \<open>Osm_Update\<close> the run, \<open>Osm_Prefetch\<close> the
    prefetch thread beside it. \<open>Osm_Kv\<close>, \<open>Osm_Rows\<close> and \<open>Osm_Dirty\<close> hold what each layer of it leaves
    (the store, the served rows, the queued cells); \<open>Osm_Replay\<close> concludes for crashes and retries.
  \<^item> \<open>Match_Rule\<close>, \<open>Compare_Buildings\<close>, \<open>Match_Address\<close>: \<open>compare/rule.rs\<close>, \<open>buildings.rs\<close>, \<open>incremental.rs\<close>,
    \<open>totals.rs\<close>, \<open>addresses.rs\<close> and \<open>mappings/street_names.rs\<close>: the rule's clauses, the full and
    per-cell comparisons and that they agree.
  \<^item> \<open>Drain\<close>: \<open>compare/drain.rs\<close>, \<open>reconcile.rs\<close> and the loop of \<open>queue drain\<close>. The locale
    \<open>cell_recompute\<close> states what a recomputation promises, with the coverage of the queue proved in it;
    it is interpreted on the three sources.
  \<^item> \<open>Tile_Store\<close>, \<open>Tile_Cache\<close>, \<open>Tile_Refresh\<close>, \<open>Http_Cache\<close>: the tile files of \<open>server/\<close>. The locale
    \<open>column\<close> of \<open>Kvstore\<close>, which the OSM columns interpret, is interpreted on the tile column too.
  \<^item> \<open>Jobs\<close>, \<open>Job_Handshake\<close>: \<open>server/jobs/mod.rs\<close> and \<open>shutdown.rs\<close>: the registry, what a run does to
    the status and the journal, and the stop handshake as interleaved atomic steps.
  \<^item> \<open>Download\<close> (\<open>download.rs\<close>), \<open>Config\<close> (\<open>config.rs\<close>), \<open>Dataset\<close> (\<open>dataset.rs\<close> and the building loads of
    \<open>import/\<close>): complete downloads under interleaved attempts, the schedules a document gives, and
    the records a load keeps.
  \<^item> \<open>Reports\<close> (\<open>reports/mod.rs\<close>, \<open>server/reports.rs\<close>), \<open>Refresh\<close> (\<open>update/dataset.rs\<close>, \<open>diff.rs\<close>,
    \<open>changeset.rs\<close>, \<open>mod.rs\<close>): the reports that veto an object, when they end, and the refresh of a
    source from a new snapshot, whose changes and retired reports reach both dirty queues.
  \<^item> \<open>Building_Types\<close> (\<open>mappings/building_types.rs\<close>, \<open>egib.rs\<close>, the SQL of \<open>server/package.rs\<close> that resolves
    tags, the job \<open>building_types_update\<close>), \<open>Package\<close> (\<open>server/package.rs\<close>): that one row decides a building's
    tags, that a reload repaints what it changes, and what a package of missing records holds.

  \<^bold>\<open>Across theories.\<close> At the end of this file the drain and the tile refresh are composed (no batch leaves a stale
  tile unqueued, given that a tile depends only on the live data and on what is served for the cells
  that expand to it), and the background report reconcile is run against the drain, which can slip between
  its statements.

  \<^bold>\<open>Bounds and termination.\<close> No fuel is used: loops are structural or carry a measure (the remaining
  sequences of a catch-up, the queued rows of a drain, the grid that is left). The typed store
  refines RocksDB as long as no list outgrows its 32-bit length prefix.

  \<^bold>\<open>Not modelled.\<close> The SQL of vector tiles and the tile handler's own writes to the tile store, the imports of OSM, PRG and TERYT files, the
  other HTTP handlers and the statistics; RocksDB and DuckDB tuning; timers and
  the Tokio runtime.
\<close>

section \<open>The drain and the tile refresh\<close>

text \<open>The data a comparison reads but never writes.\<close>

definition same_live :: "'g serving \<Rightarrow> 'g serving \<Rightarrow> bool" where
  "same_live w w' \<longleftrightarrow> cs_rows (sv_bdot10k w) = cs_rows (sv_bdot10k w') \<and> cs_tables (sv_bdot10k w) = cs_tables (sv_bdot10k w') \<and>
     cs_rows (sv_egib w) = cs_rows (sv_egib w') \<and> cs_tables (sv_egib w) = cs_tables (sv_egib w') \<and>
     as_rows (sv_prg w) = as_rows (sv_prg w') \<and> as_tables (sv_prg w) = as_tables (sv_prg w')"

text \<open>A tile is a function of the live data and of what is served for the cells that expand to it: the
  rule of \<open>src/server/tile_dirty.rs\<close>, which the tile queries follow.\<close>

definition renders_locally :: "'g serving tick_env \<Rightarrow> bool" where
  "renders_locally env \<longleftrightarrow> (\<forall>w w' k. same_live w w' \<and>
     (\<forall>src c. k \<in> set (tile_ids c) \<longrightarrow> serving_shown src c w = serving_shown src c w') \<longrightarrow> te_render env w k = te_render env w' k)"

definition tile_view :: "tile_store \<Rightarrow> 'g serving drain_db \<Rightarrow> 'g serving tile_db" where
  "tile_view s db = \<lparr>td_world = dd_world db, td_queue = dd_tiles db, td_store = s\<rparr>"

lemma recompute_same_live:
  assumes "recompute_cell_in_txn sp tx src c w = Inr w'"
  shows "same_live w w'"
  by (rule recompute_in_txn_cases [OF assms]) (simp_all add: same_live_def recompute_cell_slice recompute_address_cell_def)

lemma same_live_trans: "same_live a b \<Longrightarrow> same_live b c \<Longrightarrow> same_live a c"
  by (simp add: same_live_def)

lemma drain_list_same_live:
  "drain_list (recompute_cell_in_txn sp tx) bs cs db = Inr db' \<Longrightarrow> same_live (dd_world db) (dd_world db')"
proof (induction cs arbitrary: db)
  case (Cons sc cs)
  from Cons.prems obtain db1 where one: "drain_one_cell (recompute_cell_in_txn sp tx) bs sc db = Inr db1"
    and rest: "drain_list (recompute_cell_in_txn sp tx) bs cs db1 = Inr db'" by (auto simp: bindR_Inr_iff)
  from one obtain w where w: "recompute_cell_in_txn sp tx (fst sc) (snd sc) (dd_world db) = Inr w" "dd_world db1 = w"
    by (auto simp: drain_one_cell_def bindR_Inr_iff)
  show ?case using same_live_trans [OF recompute_same_live [OF w(1)]] Cons.IH [OF rest] w(2) by simp
qed (simp add: same_live_def)

text \<open>One commit of drained cells: a tile whose content it changed has its cell in the tile queue.\<close>

lemma cells_keep_tiles:
  assumes local: "renders_locally tenv" and ok: "tiles_ok tenv (tile_view s db)"
    and run: "drain_list (recompute_cell_in_txn sp tx) bs ds db = Inr db1"
  shows "tiles_ok tenv (tile_view s (enqueue_tiles_for_cells now (map snd ds) db1))"
proof -
  let ?db' = "enqueue_tiles_for_cells now (map snd ds) db1"
  have world: "dd_world ?db' = dd_world db1" and rows: "set (dd_tiles ?db') = set (dd_tiles db) \<union> (\<lambda>sc. (snd sc, now)) ` set ds"
    using drain_list_effect [OF run] by (auto simp: enqueue_tiles_for_cells_def)
  have "settled tenv (set (dd_tiles ?db')) (dd_world ?db') (stored s) k"
    if k: "settled tenv (set (dd_tiles db)) (dd_world db) (stored s) k" for k
  proof (cases "\<exists>src c. k \<in> set (tile_ids c) \<and> serving_shown src c (dd_world ?db') \<noteq> serving_shown src c (dd_world db)")
    case True
    then obtain src c where c: "k \<in> set (tile_ids c)" "serving_shown src c (dd_world db1) \<noteq> serving_shown src c (dd_world db)"
      unfolding world by blast
    then have "(src, c) \<in> set ds" using drain.drain_list_shown [OF run] by blast
    then have "(c, now) \<in> set (dd_tiles ?db')" unfolding rows by force
    then show ?thesis using c(1) by (force simp: settled_def)
  next
    case False
    moreover have "same_live (dd_world db) (dd_world ?db')" unfolding world by (rule drain_list_same_live [OF run])
    ultimately have "te_render tenv (dd_world db) k = te_render tenv (dd_world ?db') k"
      using local unfolding renders_locally_def by metis
    then show ?thesis using settled_mono [OF k] rows by (auto simp: settled_def)
  qed
  then show ?thesis using ok unfolding tiles_ok_def tile_view_def tile_db.simps by blast
qed

lemma commits_keep_tiles:
  assumes "renders_locally tenv" "\<And>k d. tiles_ok tenv (tile_view s d) \<Longrightarrow> tiles_ok tenv (tile_view s (de_env env k d))"
    and "commits (recompute_cell_in_txn sp tx) env db cs db'" "tiles_ok tenv (tile_view s db)"
  shows "tiles_ok tenv (tile_view s db')"
  using assms(3,4)
proof (induction rule: commits.induct)
  case (cells cs db1 ds db2 now)
  then show ?case using cells_keep_tiles [OF assms(1)] by blast
next
  case (purged cs db1)
  then show ?case by (simp add: tile_view_def purge_def)
qed (use assms(2) in simp_all)

text \<open>C9: the two queues compose. If every stored tile is current or its cell is in the tile queue, then that
  still holds after a batch of comparisons has rewritten the serving tables, whatever failed in it: the
  tiles whose content the batch changed are in the tile queue, in the same commit. Two things are assumed:
  that a tile depends on the live data and on what is served for the cells that expand to it alone
  (\<open>renders_locally\<close>; the tile queries of \<open>server/tiles.rs\<close> are not modelled), and that what other connections commit
  between the batch's transactions keeps the property too. The tile store does not change meanwhile.\<close>

theorem drain_keeps_tiles_fresh:
  assumes "renders_locally tenv"
    and "\<And>k d. tiles_ok tenv (tile_view s d) \<Longrightarrow> tiles_ok tenv (tile_view s (de_env env k d))"
    and "tiles_ok tenv (tile_view s db)" "drain_batch (recompute_cell_in_txn sp tx) env batch_size db = (r, db')"
  shows "tiles_ok tenv (tile_view s db')"
  using commits_keep_tiles [OF assms(1,2) _ assms(3)] batch_commits [OF assms(4)] by blast
text \<open>A tile of one byte that says whether anything is offered in its cells.\<close>

definition flag_tiles :: "bounds serving tick_env" where
  "flag_tiles = \<lparr>te_render = (\<lambda>w k. if (\<exists>c. k \<in> set (tile_ids c) \<and> serving_shown ''egib'' c w \<noteq> Inl ({#}, None)) then [1] else [0]),
     te_gzip = Some, te_env = (\<lambda>_ wq. wq), te_start = 9, te_read_fails = False,
     te_select_fails = False, te_false_positive = (\<lambda>_. False), te_cancel = (\<lambda>_. False), te_block_fails = (\<lambda>_. False),
     te_answers = (\<lambda>_ _. True), te_flush_fails = (\<lambda>_ _. False), te_write_fails = False, te_delete_fails = (\<lambda>_. False)\<rparr>"

lemma flag_tiles_local: "renders_locally flag_tiles"
  unfolding renders_locally_def
proof (intro allI impI)
  fix w w' :: "bounds serving" and k
  assume a: "same_live w w' \<and> (\<forall>src c. k \<in> set (tile_ids c) \<longrightarrow> serving_shown src c w = serving_shown src c w')"
  then have "(\<exists>c. k \<in> set (tile_ids c) \<and> serving_shown ''egib'' c w \<noteq> Inl ({#}, None)) \<longleftrightarrow>
      (\<exists>c. k \<in> set (tile_ids c) \<and> serving_shown ''egib'' c w' \<noteq> Inl ({#}, None))" by metis
  then show "te_render flag_tiles w k = te_render flag_tiles w' k" unfolding flag_tiles_def by simp
qed

text \<open>The store holds the current, empty tile of the cell whose building the batch will find; another
  connection queues a cell before each of the batch's transactions.\<close>

definition empty_tile :: tile_store where
  "empty_tile = tile_put False (14, 1, 0) (content_etag [0]) \<lparr>orig_len = 1, gzip = [0]\<rparr> (open_store 1 empty_kv)"

definition busy_drain :: "bounds serving drain_env" where
  "busy_drain = (calm (\<lambda>_. False))\<lparr>de_env := \<lambda>k d. d\<lparr>dd_tiles := ((9, 9), k) # dd_tiles d\<rparr>\<rparr>"

lemma empty_tile_stored:
  "stored empty_tile (14, 1, 0) = prepare Some [0]"
  "byte_zoom k \<Longrightarrow> k \<noteq> (14, 1, 0) \<Longrightarrow> stored empty_tile k = None"
proof -
  show "stored empty_tile (14, 1, 0) = prepare Some [0]"
    using decode_encode_value content_etag_fits [of "[0]", unfolded tile_fits_def]
    by (simp add: empty_tile_def stored_def tile_get_def tile_put_def open_store_def empty_kv_def prepare_def)
  assume "byte_zoom k" "k \<noteq> (14, 1, 0)"
  moreover have "byte_zoom (14, 1, 0)" by (simp add: byte_zoom_def)
  ultimately have "encode_tile_key k \<noteq> encode_tile_key (14, 1, 0)" using encode_key_eq by blast
  then show "stored empty_tile k = None"
    by (simp add: empty_tile_def stored_def tile_get_def tile_put_def open_store_def empty_kv_def)
qed

theorem drain_keeps_tiles_fresh_witness:
  "\<exists>r db'. drain_batch (recompute_cell_in_txn boxes ascii_text) busy_drain 512 boxes_queue = (r, db') \<and>
     stored empty_tile (14, 1, 0) = prepare Some (te_render flag_tiles boxes_serving (14, 1, 0)) \<and>
     stored empty_tile (14, 1, 0) \<noteq> prepare Some (te_render flag_tiles (dd_world db') (14, 1, 0)) \<and>
     (\<exists>c\<in>set (dd_tiles db'). (14, 1, 0) \<in> set (tile_ids (fst c)))"
proof -
  let ?k = "(14, 1, 0) :: tile_id"
  obtain r db' where run: "drain_batch (recompute_cell_in_txn boxes ascii_text) busy_drain 512 boxes_queue = (r, db')"
    by fastforce
  have k: "?k \<in> set (tile_ids (1, 0))" "byte_zoom ?k" by (code_simp, simp add: byte_zoom_def)
  have "serving_shown ''egib'' c boxes_serving = Inl ({#}, None)" for c
    by (simp add: serving_shown_def boxes_serving_def two_boxes_def)
  then have before: "te_render flag_tiles boxes_serving ?k = [0]" by (simp add: flag_tiles_def)
  have "cs_totals (sv_egib (dd_world (snd (drain_batch (recompute_cell_in_txn boxes ascii_text) busy_drain 512 boxes_queue)))) (1, 0) = Some 1"
    unfolding busy_drain_def by code_simp
  then have "serving_shown ''egib'' (1, 0) (dd_world db') \<noteq> Inl ({#}, None)" by (simp add: run serving_shown_def)
  then have after: "te_render flag_tiles (dd_world db') ?k = [1]" using k(1) by (auto simp: flag_tiles_def)
  have env: "tiles_ok flag_tiles (tile_view empty_tile (de_env busy_drain i d))" if "tiles_ok flag_tiles (tile_view empty_tile d)" for i d
    unfolding tiles_ok_def
  proof (intro allI impI)
    fix k assume "byte_zoom k"
    then have "settled flag_tiles (set (dd_tiles d)) (dd_world d) (stored empty_tile) k"
      using that unfolding tiles_ok_def tile_view_def tile_db.simps by blast
    from settled_mono [OF this, of "set (dd_tiles (de_env busy_drain i d))"]
    show "settled flag_tiles (set (td_queue (tile_view empty_tile (de_env busy_drain i d))))
        (td_world (tile_view empty_tile (de_env busy_drain i d))) (stored (td_store (tile_view empty_tile (de_env busy_drain i d)))) k"
      by (auto simp: tile_view_def busy_drain_def)
  qed
  have start: "tiles_ok flag_tiles (tile_view empty_tile boxes_queue)"
    unfolding tiles_ok_def
  proof (intro allI impI)
    fix k assume "byte_zoom k"
    then show "settled flag_tiles (set (td_queue (tile_view empty_tile boxes_queue))) (td_world (tile_view empty_tile boxes_queue))
        (stored (td_store (tile_view empty_tile boxes_queue))) k"
      using before empty_tile_stored(1) empty_tile_stored(2) [of k]
      by (cases "k = ?k") (simp_all add: settled_def tile_view_def boxes_queue_def, simp add: flag_tiles_def)
  qed
  have "tiles_ok flag_tiles (tile_view empty_tile db')"
    by (rule drain_keeps_tiles_fresh [OF flag_tiles_local env start run])
  then have "settled flag_tiles (set (dd_tiles db')) (dd_world db') (stored empty_tile) ?k"
    using k(2) unfolding tiles_ok_def tile_view_def tile_db.simps by blast
  moreover have differ: "prepare Some [0] \<noteq> prepare Some [1]" "prepare Some [0] \<noteq> None" by (simp_all add: prepare_def)
  moreover have "te_gzip flag_tiles = Some" by (simp add: flag_tiles_def)
  ultimately have "\<exists>c\<in>set (dd_tiles db'). ?k \<in> set (tile_ids (fst c))"
    using after empty_tile_stored(1) by (simp add: settled_def)
  then show ?thesis using run before after differ empty_tile_stored(1) by auto
qed

section \<open>The report reconcile and the drain\<close>

text \<open>The same database as the report reconcile (\<open>gov_db\<close>) and the drain (\<open>drain_db\<close>) see it, for EGiB: the
  live rows, the reports, and the two queues. \<open>w\<close> holds the rest.\<close>

definition building_of :: "dataset_spec \<Rightarrow> 'g gov_row \<Rightarrow> 'g building" where
  "building_of spec r = \<lparr>b_key = map (\<lambda>v. case v of Some k \<Rightarrow> k | None \<Rightarrow> []) (row_key spec r), b_geom = the (gr_geom r),
     b_centroid = the (gr_centroid r), b_category = None\<rparr>"

definition reported_object :: "object_report \<Rightarrow> report" where
  "reported_object r = \<lparr>r_status = or_status r, r_source = or_source r, r_record_key = or_key r\<rparr>"

definition drain_view :: "'g serving \<Rightarrow> 'g gov_db \<Rightarrow> 'g serving drain_db" where
  "drain_view w db = \<lparr>dd_world = w\<lparr>sv_egib := (sv_egib w)\<lparr>cs_rows := map (building_of EGIB) (gb_live db (ds_table EGIB)),
       cs_tables := (cs_tables (sv_egib w))\<lparr>object_reports := map reported_object (gb_reports db)\<rparr>\<rparr>\<rparr>,
     dd_queue = concat (map (\<lambda>(s, c, t). case c of Some c \<Rightarrow> [\<lparr>q_source = s, q_cell = c, q_at = t\<rparr>] | None \<Rightarrow> []) (gb_match db)),
     dd_tiles = concat (map (\<lambda>(c, t). case c of Some c \<Rightarrow> [(c, t)] | None \<Rightarrow> []) (gb_tiles db))\<rparr>"

definition queues_of :: "'g serving drain_db \<Rightarrow> 'g gov_db \<Rightarrow> 'g gov_db" where
  "queues_of d db = db\<lparr>gb_match := map (\<lambda>r. (q_source r, Some (q_cell r), q_at r)) (dd_queue d),
     gb_tiles := map (\<lambda>(c, t). (Some c, t)) (dd_tiles d)\<rparr>"

text \<open>One undisturbed batch of the drain.\<close>

definition drained_now :: "bounds serving \<Rightarrow> bounds gov_db \<Rightarrow> bounds serving drain_db" where
  "drained_now w db = snd (drain_batch (recompute_cell_in_txn boxes ascii_text) (calm (\<lambda>_. False)) 512 (drain_view w db))"

text \<open>An EGiB building whose number of storeys has changed since it was reported.\<close>

definition race_sql :: "bounds gov_sql" where
  "race_sql = \<lparr>gq_wkb = (\<lambda>_. ''g''), gq_md5 = (\<lambda>s. s), gq_hash = (\<lambda>_. 0), gq_centroid = Some, gq_cell = sp_cell boxes,
     gq_valid = (\<lambda>_. True), gq_empty = (\<lambda>_. False), gq_x_extent = (\<lambda>_. Some 0), gq_y_extent = (\<lambda>_. Some 0), gq_area_m2 = (\<lambda>_. None)\<rparr>"

definition race_row :: "string \<Rightarrow> bounds gov_row" where
  "race_row storeys = \<lparr>gr_cols = [''id_budynku'' \<mapsto> ''b'', ''kondygnacje_nadziemne'' \<mapsto> storeys], gr_version = None,
     gr_geom = Some (5/4, 1/4, 7/4, 3/4), gr_centroid = Some (3/2, 1/2, 3/2, 1/2)\<rparr>"

definition race_report :: object_report where
  "race_report = \<lparr>or_id = 1, or_source = ''egib'', or_key = [''b''], or_signature = Some (content_signature race_sql EGIB (race_row ''1'')),
     or_reported_at = 0, or_cell = Some (1, 0), or_status = REPORT_ACTIVE, or_resolved_at = None\<rparr>"

definition race_db :: "bounds gov_db" where
  "race_db = \<lparr>gb_live = (\<lambda>t. if t = ds_table EGIB then [race_row ''2''] else []), gb_reports = [race_report], gb_match = [], gb_tiles = []\<rparr>"

text \<open>Before its third statement, the first \<open>UPDATE\<close>, another connection drains.\<close>

definition race :: "nat \<Rightarrow> bounds gov_db \<Rightarrow> bounds gov_db" where
  "race i d = (if i = 2 then queues_of (drained_now boxes_serving d) d else d)"

definition race_queued :: "bounds gov_db" where
  "race_queued = enqueue_tiles_for_reports 1 (stale_report race_sql EGIB race_db) (snd (enqueue_match_for_reports 0 (stale_report race_sql EGIB race_db) race_db))"

definition offered_in :: "cell \<Rightarrow> bounds serving \<Rightarrow> string list list" where
  "offered_in c w = map (\<lambda>x. b_key (fst x)) (filter (\<lambda>x. snd x = c) (cs_unmatched (sv_egib w)))"

lemma race_stale: "stale_report race_sql EGIB race_db race_report" by code_simp

lemma race_queued_eq: "race_queued = race_db\<lparr>gb_match := [(''egib'', Some (1, 0), 0)], gb_tiles := [(Some (1, 0), 1)]\<rparr>"
  using race_stale
  by (simp add: race_queued_def enqueue_tiles_for_reports_def enqueue_match_for_reports_def Let_def race_db_def race_report_def)

lemma race_drained:
  "dd_queue (drained_now boxes_serving race_queued) = []"
  "offered_in (1, 0) (dd_world (drained_now boxes_serving race_queued)) = []"
proof -
  have "dd_queue (drained_now boxes_serving (race_db\<lparr>gb_match := [(''egib'', Some (1, 0), 0)], gb_tiles := [(Some (1, 0), 1)]\<rparr>)) = [] \<and>
      offered_in (1, 0) (dd_world (drained_now boxes_serving (race_db\<lparr>gb_match := [(''egib'', Some (1, 0), 0)], gb_tiles := [(Some (1, 0), 1)]\<rparr>))) = []"
    by code_simp
  then show "dd_queue (drained_now boxes_serving race_queued) = []"
    "offered_in (1, 0) (dd_world (drained_now boxes_serving race_queued)) = []" by (simp_all only: race_queued_eq)
qed

definition race_end :: "bounds gov_db" where
  "race_end = (queues_of (drained_now boxes_serving race_queued) race_queued)\<lparr>gb_reports := [race_report\<lparr>or_status := STATUS_EXPIRED, or_resolved_at := Some 3\<rparr>]\<rparr>"

lemma race_run: "\<exists>st. reconcile_source race_sql race (\<lambda>i. i) Reports.no_faults EGIB race_db = (Inr st, race_end)"
proof -
  have changed: "record_changed race_sql EGIB race_db race_report" "\<not> record_missing EGIB race_db race_report" "active_of EGIB race_report" by code_simp+
  have same: "record_changed race_sql EGIB (queues_of d race_queued) r = record_changed race_sql EGIB race_db r"
    "record_missing EGIB (queues_of d race_queued) r = record_missing EGIB race_db r" "gb_reports (queues_of d race_queued) = [race_report]" for d :: "bounds serving drain_db" and r
    by (simp_all add: record_changed_def record_missing_def queues_of_def race_queued_eq race_db_def)
  have reports: "record_changed race_sql EGIB (d\<lparr>gb_reports := rs\<rparr>) r = record_changed race_sql EGIB d r" for d rs r
    by (simp add: record_changed_def)
  show ?thesis
    unfolding reconcile_source_def race_def
    by (simp add: Let_def case_prod_beta same reports retire_def race_end_def changed del: One_nat_def flip: race_queued_def)
qed

lemma race_fresh:
  "\<exists>w. recompute_cell_in_txn boxes ascii_text ''egib'' (1, 0)
      (dd_world (drain_view (dd_world (drained_now boxes_serving race_queued)) race_end)) = Inr w \<and> offered_in (1, 0) w = [[''b'']]"
proof -
  let ?q = "race_db\<lparr>gb_match := [(''egib'', Some (1, 0), 0)], gb_tiles := [(Some (1, 0), 1)]\<rparr>"
    and ?e = "race_db\<lparr>gb_reports := [race_report\<lparr>or_status := STATUS_EXPIRED, or_resolved_at := Some 3\<rparr>]\<rparr>"
  have "dd_world (drain_view w race_end) = dd_world (drain_view w ?e)" for w
    by (simp add: drain_view_def race_end_def queues_of_def race_queued_eq)
  moreover have "(case recompute_cell_in_txn boxes ascii_text ''egib'' (1, 0) (dd_world (drain_view (dd_world (drained_now boxes_serving ?q)) ?e)) of
      Inr w \<Rightarrow> offered_in (1, 0) w = [[''b'']] | Inl _ \<Rightarrow> False)" by code_simp
  ultimately show ?thesis unfolding race_queued_eq by (auto split: sum.splits)
qed

lemma race_alone:
  "\<exists>st db'. reconcile_source race_sql alone (\<lambda>i. i) Reports.no_faults EGIB race_db = (Inr st, db') \<and> gb_match db' = [(''egib'', Some (1, 0), 0)]"
proof -
  have "gb_match race_queued = [(''egib'', Some (1, 0), 0)]" by (simp add: race_queued_eq)
  then show ?thesis unfolding reconcile_source_def
    by (simp add: Let_def case_prod_beta retire_def del: One_nat_def flip: race_queued_def)
qed

text \<open>C32: the report reconcile of the background job is not atomic, and a drain can slip in. \<open>reconcile_all\<close> runs
  \<open>reconcile_source\<close> on a pooled connection with no transaction around its four statements. On EGiB, with one
  building reported and its record changed since: the building's cell is queued and the report is about to
  expire; a batch of the match drain commits in between, recomputes the cell with the report still in force
  and takes it off the queue; then the report expires. The run succeeds, no report is in force and the match
  queue is empty, yet the serving table still leaves the building out, though recomputing the cell offers
  it: it stays out until something queues the cell again, at the latest the next \<open>queue reconcile\<close>. With no
  drain in between the cell is still queued at the end.\<close>

theorem report_race_hides_object:
  "(\<exists>st db'. reconcile_source race_sql race (\<lambda>i. i) Reports.no_faults EGIB race_db = (Inr st, db') \<and>
     map or_status (gb_reports db') = [STATUS_EXPIRED] \<and> gb_match db' = [] \<and>
     offered_in (1, 0) (dd_world (drained_now boxes_serving race_queued)) = [] \<and>
     (\<exists>w. recompute_cell_in_txn boxes ascii_text ''egib'' (1, 0)
        (dd_world (drain_view (dd_world (drained_now boxes_serving race_queued)) db')) = Inr w \<and> offered_in (1, 0) w = [[''b'']])) \<and>
   (\<exists>st db'. reconcile_source race_sql alone (\<lambda>i. i) Reports.no_faults EGIB race_db = (Inr st, db') \<and>
     gb_match db' = [(''egib'', Some (1, 0), 0)])"
proof -
  have "map or_status (gb_reports race_end) = [STATUS_EXPIRED]" "gb_match race_end = []"
    by (simp_all add: race_end_def queues_of_def race_drained)
  then show ?thesis using race_run race_drained(2) race_fresh race_alone by metis
qed

end
